(* ===== verification/Prelude.thy ===== *)
theory Prelude
  imports Main "HOL-Library.Word"
begin

text \<open>
  Shared vocabulary of the development: the C integer types of the i386 target as machine
  words, the result type of operations that may panic or fault, the byte memory the string,
  ELF and debugger code works on, and the generic lemmas on words and lists that the component
  theories share.
\<close>

unbundle bit_operations_syntax

section \<open>C types of the i386 target\<close>

text \<open>
  \<open>include/arch/x86/interface/arch_types.h\<close>: \<open>arch_sz_t\<close>, \<open>virt_t\<close> are \<open>uint32_t\<close>,
  \<open>phys_t\<close> is \<open>uint64_t\<close>; \<open>int\<close>, \<open>long\<close>, \<open>size_t\<close> and pointers have 32 bits.
  A signed C value is the same word read with \<^const>\<open>sint\<close>.
\<close>

type_synonym u8 = "8 word"
type_synonym u16 = "16 word"
type_synonym u32 = "32 word"
type_synonym u64 = "64 word"
type_synonym virt_t = u32
type_synonym phys_t = u64
type_synonym addr = u32

abbreviation NULL :: addr where "NULL \<equiv> 0"

text \<open>
  The ways a kernel operation fails to return: \<open>PANIC\<close> (message, then an endless loop in
  \<open>__panic__\<close>), a write or read through a null pointer, an access to a virtual address without
  a translation, a division by zero, an access beyond the end of an array, and an endless loop.
\<close>

datatype kerror = Panicked | Null_deref | Page_fault | Divide_error | Out_of_bounds | Diverges

primrec bind_res :: "'e + 'a \<Rightarrow> ('a \<Rightarrow> 'e + 'b) \<Rightarrow> 'e + 'b" where
  "bind_res (Inl e) f = Inl e"
| "bind_res (Inr x) f = f x"

lemma bind_res_Inr_conv: "bind_res m f = Inr y \<longleftrightarrow> (\<exists>x. m = Inr x \<and> f x = Inr y)"
  by (cases m) auto

lemma bind_res_assoc: "bind_res (bind_res m f) g = bind_res m (\<lambda>x. bind_res (f x) g)"
  by (cases m) auto

lemma bind_res_cong [fundef_cong]:
  assumes "m = m'" and "\<And>x. m' = Inr x \<Longrightarrow> f x = f' x"
  shows "bind_res m f = bind_res m' f'"
  using assms by (cases m') auto

text \<open>A loop that does not end is an error of its own.\<close>

definition loop_res :: "'a option \<Rightarrow> kerror + 'a" where
  "loop_res r = (case r of None \<Rightarrow> Inl Diverges | Some x \<Rightarrow> Inr x)"

definition loop_err :: "(kerror + 'a) option \<Rightarrow> kerror + 'a" where
  "loop_err r = (case r of None \<Rightarrow> Inl Diverges | Some x \<Rightarrow> x)"

lemma loop_simps [simp]:
  "loop_res None = Inl Diverges" "loop_res (Some x) = Inr x"
  "loop_err None = Inl Diverges" "loop_err (Some r) = r"
  by (simp_all add: loop_res_def loop_err_def)

section \<open>Collections\<close>

text \<open>
  \<open>c_words\<close>: conversions between words and numbers; \<open>heap_frame\<close>: updates that leave a
  structure on the heap alone; \<open>bits\<close>: laws of the bit arrays.
\<close>

named_theorems c_words
named_theorems heap_frame
named_theorems bits

section \<open>Words\<close>

lemma unat_of_nat_small [c_words]:
  "n < 2 ^ LENGTH('a) \<Longrightarrow> unat (of_nat n :: 'a::len word) = n"
  by (simp add: unat_of_nat take_bit_nat_eq_self)

lemma of_nat_inj_small:
  "m < 2 ^ LENGTH('a) \<Longrightarrow> n < 2 ^ LENGTH('a) \<Longrightarrow>
    (of_nat m :: 'a::len word) = of_nat n \<longleftrightarrow> m = n"
  by (metis unat_of_nat_small)

lemma unat_ucast_up [c_words]:
  "LENGTH('a) \<le> LENGTH('b) \<Longrightarrow> unat (ucast (x :: 'a::len word) :: 'b::len word) = unat x"
  by transfer (simp add: take_bit_nat_eq_self_iff min_def take_bit_take_bit)

lemma and_push_bit_1_eq_0_iff [bits]:
  "(x :: 'a::len word) AND push_bit n 1 = 0 \<longleftrightarrow> \<not> bit x n"
  by (simp add: and_exp_eq_0_iff_not_bit)

lemma word_eq_max_iff_bits:
  "(x :: 'a::len word) = - 1 \<longleftrightarrow> (\<forall>n < LENGTH('a). bit x n)"
  by (auto simp: bit_eq_iff bit_simps)

lemma sint_of_nat_small [c_words]:
  "n < 2 ^ (LENGTH('a) - 1) \<Longrightarrow> sint (of_nat n :: 'a::len word) = int n"
proof -
  assume n: "n < 2 ^ (LENGTH('a) - 1)"
  also have "(2::nat) ^ (LENGTH('a) - 1) \<le> 2 ^ LENGTH('a)"
    by (rule power_increasing) simp_all
  finally have "uint (of_nat n :: 'a word) = int n"
    by (simp only: uint_nat unat_of_nat_small)
  moreover from n have "int n < 2 ^ (LENGTH('a) - 1)"
    by (metis of_nat_less_iff of_nat_numeral of_nat_power)
  moreover have "- (2 ^ (LENGTH('a) - 1)) \<le> int n"
    by (rule order_trans [of _ 0]) simp_all
  ultimately show ?thesis
    by (simp add: sint_uint signed_take_bit_int_eq_self_iff)
qed

lemma scast_of_nat_small [c_words]:
  "n < 2 ^ (LENGTH('a) - 1) \<Longrightarrow> scast (of_nat n :: 'a::len word) = (of_nat n :: 'b::len word)"
  by (simp add: scast_eq sint_of_nat_small)

lemma unat_add_of_nat [c_words]:
  "unat a + d < 2 ^ LENGTH('a) \<Longrightarrow> unat (a + of_nat d :: 'a::len word) = unat a + d"
proof -
  assume *: "unat a + d < 2 ^ LENGTH('a)"
  have "a + of_nat d = of_nat (unat a + d)" by simp
  with * show ?thesis by (simp only: unat_of_nat_small)
qed

lemma unat_plus_one_less [c_words]:
  "i < n \<Longrightarrow> unat (i + 1 :: 'a::len word) = Suc (unat i)"
proof -
  assume "i < n"
  then have "unat i < unat n" by (simp add: word_less_nat_alt)
  moreover have "unat n < 2 ^ LENGTH('a)" by (rule unsigned_less)
  ultimately have "unat i + 1 < 2 ^ LENGTH('a)" by linarith
  from unat_add_of_nat [OF this] show ?thesis by simp
qed

end
