(* ===== verification/Arch.thy ===== *)
theory Arch
  imports Prelude
begin

text \<open>
  The page and address arithmetic of the i386 port: \<open>include/arch/x86/32/arch_defs.h\<close> and
  \<open>include/arch/x86/32/paging.h\<close>. The macros that cast to \<open>TYPEOF(addr)\<close> are polymorphic in the
  word length.
\<close>

section \<open>Constants\<close>

definition ARCH_PAGE_SHIFT :: nat where "ARCH_PAGE_SHIFT = 12"

definition ARCH_PAGE_SIZE :: "'a::len word" where
  "ARCH_PAGE_SIZE = push_bit ARCH_PAGE_SHIFT 1"

definition ARCH_PAGE_MASK :: "'a::len word" where
  "ARCH_PAGE_MASK = NOT (ARCH_PAGE_SIZE - 1)"

definition ARCH_VIRT_BASE :: u32 where "ARCH_VIRT_BASE = 0xE0000000"
definition ARCH_STACK_BOTTOM :: u32 where "ARCH_STACK_BOTTOM = 0xFF800000"
definition ARCH_KMALLOC_LENGTH :: u32 where "ARCH_KMALLOC_LENGTH = 0x20000000"
definition ARCH_KMALLOC_BASE :: u32 where "ARCH_KMALLOC_BASE = 0xC0000000"

section \<open>Page alignment\<close>

definition ARCH_PAGE_ALIGN :: "'a::len word \<Rightarrow> 'a word" where
  "ARCH_PAGE_ALIGN a = (a + (ARCH_PAGE_SIZE - 1)) AND ARCH_PAGE_MASK"

definition ARCH_PAGE_ALIGN_DOWN :: "'a::len word \<Rightarrow> 'a word" where
  "ARCH_PAGE_ALIGN_DOWN a = a AND ARCH_PAGE_MASK"

definition ARCH_GET_PHYS :: "u32 \<Rightarrow> u32" where
  "ARCH_GET_PHYS a = a + ARCH_VIRT_BASE"

section \<open>Indices of the two-level and the PAE scheme\<close>

definition ARCH_GET_VIRT :: "u32 \<Rightarrow> u32 \<Rightarrow> u32" where
  "ARCH_GET_VIRT pd pt = push_bit 22 pd OR push_bit 12 pt"

definition ARCH_GET_PD_IDX :: "u32 \<Rightarrow> u32" where
  "ARCH_GET_PD_IDX a = drop_bit 22 a AND 0x03FF"

definition ARCH_GET_PT_IDX :: "u32 \<Rightarrow> u32" where
  "ARCH_GET_PT_IDX a = drop_bit 12 a AND 0x03FF"

definition ARCH_PAE_GET_VIRT :: "u32 \<Rightarrow> u32 \<Rightarrow> u32 \<Rightarrow> u32" where
  "ARCH_PAE_GET_VIRT pp pd pt = push_bit 30 pp OR push_bit 21 pd OR push_bit 12 pt"

definition ARCH_PAE_GET_PDPT_IDX :: "u32 \<Rightarrow> u32" where
  "ARCH_PAE_GET_PDPT_IDX a = drop_bit 30 a AND 0x3"

definition ARCH_PAE_GET_PD_IDX :: "u32 \<Rightarrow> u32" where
  "ARCH_PAE_GET_PD_IDX a = drop_bit 21 a AND 0x01FF"

definition ARCH_PAE_GET_PT_IDX :: "u32 \<Rightarrow> u32" where
  "ARCH_PAE_GET_PT_IDX a = drop_bit 12 a AND 0x01FF"

section \<open>Laws\<close>

lemma page_size_val: "(ARCH_PAGE_SIZE :: u32) = 4096" "(ARCH_PAGE_SIZE :: u64) = 4096"
  by (simp_all add: ARCH_PAGE_SIZE_def ARCH_PAGE_SHIFT_def)

lemma page_mask_eq: "(ARCH_PAGE_MASK :: 'a::len word) = NOT (mask 12)"
  by (simp add: ARCH_PAGE_MASK_def ARCH_PAGE_SIZE_def ARCH_PAGE_SHIFT_def mask_eq_exp_minus_1)

lemma page_mask_bit: "bit (ARCH_PAGE_MASK :: 'a::len word) n \<longleftrightarrow> n < LENGTH('a) \<and> 12 \<le> n"
  by (auto simp: page_mask_eq bit_simps)

lemma align_down_bit:
  "bit (ARCH_PAGE_ALIGN_DOWN a) n \<longleftrightarrow> 12 \<le> n \<and> bit a n"
  by (auto simp: ARCH_PAGE_ALIGN_DOWN_def page_mask_bit bit_simps dest: bit_imp_le_length)

lemma align_down_eq: "ARCH_PAGE_ALIGN_DOWN a = push_bit 12 (drop_bit 12 a)"
  by (rule bit_word_eqI) (auto simp: align_down_bit bit_simps dest: bit_imp_le_length)

lemma drop_align_down: "drop_bit 12 (ARCH_PAGE_ALIGN_DOWN a) = drop_bit 12 a"
  by (rule bit_word_eqI) (auto simp: align_down_bit bit_simps)

text \<open>The page number of an aligned address, as the code computes it with \<open>/ ARCH_PAGE_SIZE\<close>.\<close>

lemma page_number: "unat (ARCH_PAGE_ALIGN_DOWN (a :: u64) div ARCH_PAGE_SIZE) = unat a div 4096"
proof -
  have "ARCH_PAGE_ALIGN_DOWN a div ARCH_PAGE_SIZE = drop_bit 12 a"
    by (subst drop_align_down [symmetric]) (simp add: ARCH_PAGE_SIZE_def ARCH_PAGE_SHIFT_def drop_bit_eq_div)
  then show ?thesis
    by (simp add: unat_drop_bit_eq flip: drop_bit_eq_div) (simp add: drop_bit_eq_div)
qed

end
