(* ===== verification/Bitmap.thy ===== *)
theory Bitmap
  imports Prelude
begin

text \<open>
  The bitmap of \<open>lib/ebl/include/bitmap.h\<close>, which both boot-time page allocators keep their
  free pages in. The C array is the memory that starts at the \<open>bitmap\<close> pointer, a function from
  the word index; the macros do no range check, so neither do their models. Bit numbers are
  natural numbers where the macros take any integer, and \<^typ>\<open>32 word\<close> where the two search
  functions compute them in \<open>size_t\<close>.
\<close>

section \<open>Data and operations\<close>

record bitmap =
  bm_length :: u32              \<comment> \<open>number of words\<close>
  bm_bit_count :: u32           \<comment> \<open>number of bits\<close>
  bm_words :: "nat \<Rightarrow> u32"

definition bitmap_setbit :: "(nat \<Rightarrow> u32) \<Rightarrow> nat \<Rightarrow> (nat \<Rightarrow> u32)" where
  "bitmap_setbit A k = A(k div 32 := A (k div 32) OR push_bit (k mod 32) 1)"

definition bitmap_clrbit :: "(nat \<Rightarrow> u32) \<Rightarrow> nat \<Rightarrow> (nat \<Rightarrow> u32)" where
  "bitmap_clrbit A k = A(k div 32 := A (k div 32) AND NOT (push_bit (k mod 32) 1))"

definition bitmap_tstbit :: "(nat \<Rightarrow> u32) \<Rightarrow> nat \<Rightarrow> u32" where
  "bitmap_tstbit A k = A (k div 32) AND push_bit (k mod 32) 1"

definition bitmap_getlength :: "u32 \<Rightarrow> u32" where
  "bitmap_getlength L = L div (4 * 8) + 1"

definition bitmap_getbits :: "u32 \<Rightarrow> u32" where
  "bitmap_getbits L = L * 4 * 8"

text \<open>The inner loop of \<open>bitmap_firstz\<close>: count the leading ones of the word at \<open>i\<close>.\<close>

function firstz_bit :: "(nat \<Rightarrow> u32) \<Rightarrow> u32 \<Rightarrow> nat \<Rightarrow> nat" where
  "firstz_bit A i p =
     (if p < 32 \<and> bitmap_tstbit A (unat (of_nat p + bitmap_getbits i)) \<noteq> 0
      then firstz_bit A i (Suc p) else p)"
  by pat_completeness auto
termination by (relation "measure (\<lambda>(A, i, p). 32 - p)") auto

function firstz_word :: "(nat \<Rightarrow> u32) \<Rightarrow> nat \<Rightarrow> nat \<Rightarrow> u32" where
  "firstz_word A n i =
     (if i < n then
        if A i \<noteq> NOT 0
        then of_nat (firstz_bit A (of_nat i) 0) + bitmap_getbits (of_nat i)
        else firstz_word A n (Suc i)
      else - 1)"
  by pat_completeness auto
termination by (relation "measure (\<lambda>(A, n, i). n - i)") auto

definition bitmap_firstz :: "bitmap \<Rightarrow> u32" where
  "bitmap_firstz b = firstz_word (bm_words b) (unat (bm_length b)) 0"

text \<open>
  \<open>bitmap_lastz\<close> starts its inner loop at \<open>_ptr = 0\<close>, unlike \<open>bitmap_firstz\<close>'s mirror image
  would; the model keeps the loop as it is written.
\<close>

fun lastz_bit :: "(nat \<Rightarrow> u32) \<Rightarrow> u32 \<Rightarrow> nat \<Rightarrow> nat" where
  "lastz_bit A i 0 = 0"
| "lastz_bit A i (Suc p) =
     (if bitmap_tstbit A (unat (of_nat p + bitmap_getbits i)) \<noteq> 0
      then lastz_bit A i p else Suc p)"

fun lastz_word :: "(nat \<Rightarrow> u32) \<Rightarrow> nat \<Rightarrow> u32" where
  "lastz_word A 0 = - 1"
| "lastz_word A (Suc i) =
     (if A i \<noteq> NOT 0
      then of_nat (lastz_bit A (of_nat i) 0) + bitmap_getbits (of_nat i)
      else lastz_word A i)"

definition bitmap_lastz :: "bitmap \<Rightarrow> u32" where
  "bitmap_lastz b = lastz_word (bm_words b) (unat (bm_length b))"

declare firstz_bit.simps [simp del] firstz_word.simps [simp del]

section \<open>The bits a bitmap holds\<close>

text \<open>What the operations are about: whether bit \<open>k\<close> of the array is one.\<close>

definition bm_bit :: "(nat \<Rightarrow> u32) \<Rightarrow> nat \<Rightarrow> bool" where
  "bm_bit A k \<longleftrightarrow> bit (A (k div 32)) (k mod 32)"

lemma tstbit_nonzero [bits]: "bitmap_tstbit A k \<noteq> 0 \<longleftrightarrow> bm_bit A k"
  by (simp add: bitmap_tstbit_def bm_bit_def and_exp_eq_0_iff_not_bit)

lemma tstbit_zero [bits]: "bitmap_tstbit A k = 0 \<longleftrightarrow> \<not> bm_bit A k"
  using tstbit_nonzero by blast

lemma div_mod_eq_iff: "(j::nat) = k \<longleftrightarrow> j div n = k div n \<and> j mod n = k mod n"
  by (metis div_mult_mod_eq)

lemma bm_bit_setbit [bits]: "bm_bit (bitmap_setbit A k) j \<longleftrightarrow> j = k \<or> bm_bit A j"
  by (auto simp: bm_bit_def bitmap_setbit_def bit_simps div_mod_eq_iff [of j k 32])

lemma bm_bit_clrbit [bits]: "bm_bit (bitmap_clrbit A k) j \<longleftrightarrow> j \<noteq> k \<and> bm_bit A j"
  by (auto simp: bm_bit_def bitmap_clrbit_def bit_simps div_mod_eq_iff [of j k 32])

lemma word_full_iff [bits]: "A i = - 1 \<longleftrightarrow> (\<forall>p < 32. bm_bit A (p + 32 * i))"
  by (simp add: word_eq_max_iff_bits bm_bit_def div_add1_eq)

text \<open>The bit number the search loops compute, while it fits in \<open>size_t\<close>.\<close>

lemma bit_number [c_words]:
  "p \<le> 32 \<Longrightarrow> 32 * i + 32 < 2 ^ 32 \<Longrightarrow>
    unat (of_nat p + bitmap_getbits (of_nat i)) = p + 32 * i"
proof -
  assume *: "p \<le> 32" "32 * i + 32 < 2 ^ 32"
  have "of_nat p + bitmap_getbits (of_nat i) = (of_nat (p + 32 * i) :: u32)"
    by (simp add: bitmap_getbits_def)
  moreover have "unat (of_nat (p + 32 * i) :: u32) = p + 32 * i"
    using * by (intro unat_of_nat_small) simp
  ultimately show ?thesis by simp
qed

section \<open>Searching for a zero bit\<close>

lemma firstz_bit_result:
  assumes "32 * i + 32 < 2 ^ 32" and "p \<le> 32"
  shows "p \<le> firstz_bit A (of_nat i) p \<and> firstz_bit A (of_nat i) p \<le> 32
    \<and> (\<forall>q. p \<le> q \<and> q < firstz_bit A (of_nat i) p \<longrightarrow> bm_bit A (q + 32 * i))
    \<and> (firstz_bit A (of_nat i) p < 32 \<longrightarrow>
         \<not> bm_bit A (firstz_bit A (of_nat i) p + 32 * i))"
  using assms(2)
proof (induction A "of_nat i :: u32" p rule: firstz_bit.induct)
  case (1 A p)
  have idx: "unat (of_nat p + bitmap_getbits (of_nat i)) = p + 32 * i"
    using assms(1) 1(2) by (intro bit_number) auto
  show ?case
  proof (cases "p < 32 \<and> bm_bit A (p + 32 * i)")
    case True
    then have step: "firstz_bit A (of_nat i) p = firstz_bit A (of_nat i) (Suc p)"
      by (subst firstz_bit.simps) (simp add: idx bits)
    with 1(1) True idx show ?thesis
      by (auto simp: bits) (metis Suc_leI le_neq_implies_less)+
  next
    case False
    have "firstz_bit A (of_nat i) p = p"
      using False by (subst firstz_bit.simps) (auto simp: idx bits)
    with False 1(2) show ?thesis by auto
  qed
qed

lemma firstz_word_result:
  assumes "32 * n < 2 ^ 31" and "\<forall>j < 32 * i. bm_bit A j"
  shows "(\<exists>k < 32 * n. \<not> bm_bit A k \<and> (\<forall>j < k. bm_bit A j) \<and> firstz_word A n i = of_nat k)
    \<or> (\<forall>j < 32 * n. bm_bit A j) \<and> firstz_word A n i = - 1"
  using assms
proof (induction A n i rule: firstz_word.induct)
  case (1 A n i)
  show ?case
  proof (cases "i < n")
    case False
    with 1(3) have "\<forall>j < 32 * n. bm_bit A j" by auto
    with False show ?thesis by (simp add: firstz_word.simps [of A n i])
  next
    case True
    show ?thesis
    proof (cases "A i = NOT 0")
      case full: True
      have "\<forall>j < 32 * Suc i. bm_bit A j"
      proof (intro allI impI)
        fix j assume "j < 32 * Suc i"
        then consider "j < 32 * i" | p where "p < 32" "j = p + 32 * i"
          by (metis add.commute add_diff_inverse_nat less_diff_conv2 mult_Suc_right
              nat_add_left_cancel_less not_less)
        then show "bm_bit A j"
          using 1(3) full by cases (auto simp: word_full_iff [THEN iffD1])
      qed
      with 1(1) [OF True] 1(2) full True show ?thesis
        by (simp add: firstz_word.simps [of A n i])
    next
      case free: False
      let ?p = "firstz_bit A (of_nat i) 0"
      have r: "?p \<le> 32" "\<forall>q < ?p. bm_bit A (q + 32 * i)"
          "?p < 32 \<longrightarrow> \<not> bm_bit A (?p + 32 * i)"
        using firstz_bit_result [of i 0 A] 1(2) True by auto
      have p: "?p < 32"
        using free r by (auto simp: word_full_iff le_less)
      have "\<forall>j < ?p + 32 * i. bm_bit A j"
        using r(2) 1(3) by (metis add.commute add_diff_inverse_nat less_diff_conv2 not_less)
      moreover have "firstz_word A n i = of_nat (?p + 32 * i)"
        using True free by (simp add: firstz_word.simps [of A n i] bitmap_getbits_def)
      moreover have "?p + 32 * i < 32 * n" using p True by simp
      ultimately show ?thesis using r(3) p by blast
    qed
  qed
qed

text \<open>The result of \<open>bitmap_firstz\<close>, for a bitmap whose bit numbers are non-negative ints.\<close>

lemma bitmap_firstz_cases:
  assumes "32 * unat (bm_length b) < 2 ^ 31"
  obtains (found) k where "k < 32 * unat (bm_length b)" "\<not> bm_bit (bm_words b) k"
      "\<forall>j < k. bm_bit (bm_words b) j" "bitmap_firstz b = of_nat k"
  | (full) "\<forall>j < 32 * unat (bm_length b). bm_bit (bm_words b) j" "bitmap_firstz b = - 1"
  using firstz_word_result [OF assms, of 0 "bm_words b"] that
  by (auto simp: bitmap_firstz_def)

lemma lastz_bit_0: "lastz_bit A i 0 = 0"
  by simp

lemma lastz_word_result:
  "(\<exists>i < n. A i \<noteq> NOT 0 \<and> (\<forall>j. i < j \<and> j < n \<longrightarrow> A j = NOT 0)
      \<and> lastz_word A n = bitmap_getbits (of_nat i))
    \<or> (\<forall>j < n. A j = NOT 0) \<and> lastz_word A n = - 1"
  by (induction n) (auto simp: less_Suc_eq)

section \<open>The interface the page allocators use\<close>

text \<open>
  The allocators see a bitmap as an array of bits that are set, cleared and tested one at a
  time. The laws give the effect of the loops that mark a run of pages.
\<close>

locale bit_array =
  fixes test :: "'a \<Rightarrow> nat \<Rightarrow> bool"
    and set_at :: "'a \<Rightarrow> nat \<Rightarrow> 'a"
    and clr_at :: "'a \<Rightarrow> nat \<Rightarrow> 'a"
  assumes test_set: "test (set_at A k) j \<longleftrightarrow> j = k \<or> test A j"
    and test_clr: "test (clr_at A k) j \<longleftrightarrow> j \<noteq> k \<and> test A j"
begin

lemma test_foldl_set: "test (foldl set_at A ks) j \<longleftrightarrow> j \<in> set ks \<or> test A j"
  by (induction ks arbitrary: A) (auto simp: test_set)

lemma test_foldl_clr: "test (foldl clr_at A ks) j \<longleftrightarrow> j \<notin> set ks \<and> test A j"
  by (induction ks arbitrary: A) (auto simp: test_clr)

lemma test_set_clr: "\<not> test A k \<Longrightarrow> test (clr_at (set_at A k) k) = test A"
  by (rule ext) (auto simp: test_set test_clr)

end

interpretation words: bit_array bm_bit bitmap_setbit bitmap_clrbit
  by unfold_locales (auto simp: bits)

end
