(* ===== verification/LinkedList.thy ===== *)
theory LinkedList
  imports Prelude
begin

text \<open>
  \<open>lib/ebl/include/linked_list.h\<close>: intrusive doubly linked lists. A node is an address; the heap
  gives the two fields of the node at each address. A list is headed by a node of its own,
  ends at a null \<open>next\<close>, and its first element points back to the head; the head's own \<open>prev\<close>
  points to itself. A dereference of the null pointer is an error.
\<close>

section \<open>Data and operations\<close>

record list_node =
  lprev :: addr
  lnext :: addr

type_synonym lheap = "addr \<Rightarrow> list_node"

definition set_prev :: "addr \<Rightarrow> addr \<Rightarrow> lheap \<Rightarrow> lheap" where
  "set_prev a v h = h(a := (h a)\<lparr>lprev := v\<rparr>)"

definition set_next :: "addr \<Rightarrow> addr \<Rightarrow> lheap \<Rightarrow> lheap" where
  "set_next a v h = h(a := (h a)\<lparr>lnext := v\<rparr>)"

definition INIT_LLIST :: "addr \<Rightarrow> lheap \<Rightarrow> kerror + lheap" where
  "INIT_LLIST p h = (if p = NULL then Inl Null_deref else Inr (set_prev p p (set_next p NULL h)))"

text \<open>The loops end on a well-formed list; on a cyclic one they may not.\<close>

partial_function (option) begin_loop :: "lheap \<Rightarrow> addr \<Rightarrow> (kerror + addr) option" where
  "begin_loop h a =
     (if a = NULL then Some (Inl Null_deref)
      else if lprev (h a) \<noteq> a then begin_loop h (lprev (h a))
      else Some (Inr a))"

definition list_begin :: "addr \<Rightarrow> lheap \<Rightarrow> (kerror + addr) option" where
  "list_begin a h = (if a = NULL then Some (Inr a) else begin_loop h a)"

partial_function (option) end_loop :: "lheap \<Rightarrow> addr \<Rightarrow> addr option" where
  "end_loop h a = (if lnext (h a) \<noteq> NULL then end_loop h (lnext (h a)) else Some a)"

definition list_end :: "addr \<Rightarrow> lheap \<Rightarrow> addr option" where
  "list_end a h = (if a = NULL then Some a else end_loop h a)"

definition list_isempty :: "addr \<Rightarrow> lheap \<Rightarrow> (kerror + bool) option" where
  "list_isempty a h =
     (if a = NULL then Some (Inr True)
      else map_option (map_sum id (\<lambda>front. lnext (h front) = NULL \<and> lprev (h front) = front))
             (list_begin a h))"

partial_function (option) count_loop :: "lheap \<Rightarrow> addr \<Rightarrow> u32 \<Rightarrow> u32 option" where
  "count_loop h front ctr =
     (if lnext (h front) \<noteq> NULL then count_loop h (lnext (h front)) (ctr + 1) else Some ctr)"

definition list_count :: "addr \<Rightarrow> lheap \<Rightarrow> (kerror + u32) option" where
  "list_count a h =
     (if a = NULL then Some (Inr 0)
      else Option.bind (list_begin a h) (\<lambda>r. case r of
             Inl e \<Rightarrow> Some (Inl e)
           | Inr front \<Rightarrow> map_option Inr (count_loop h front 0)))"

definition list_append :: "addr \<Rightarrow> addr \<Rightarrow> lheap \<Rightarrow> kerror + lheap" where
  "list_append hp n h =
     (if hp = NULL \<or> n = NULL then Inl Null_deref
      else let h1 = (if lnext (h hp) \<noteq> NULL then set_prev (lnext (h hp)) n h else h);
               h2 = set_next n (lnext (h1 hp)) h1;
               h3 = set_prev n hp h2
           in Inr (set_next hp n h3))"

definition list_insert :: "addr \<Rightarrow> addr \<Rightarrow> lheap \<Rightarrow> kerror + lheap" where
  "list_insert hp n h =
     (if hp = NULL \<or> n = NULL then Inl Null_deref
      else let h1 = set_next n hp h;
               h2 = set_prev n (lprev (h1 hp)) h1
           in if lprev (h2 hp) = hp then Inr (set_prev hp n (set_prev n n h2))
              else if lprev (h2 hp) = NULL then Inl Null_deref
              else Inr (set_prev hp n (set_next (lprev (h2 hp)) n h2)))"

definition list_push_front :: "addr \<Rightarrow> addr \<Rightarrow> lheap \<Rightarrow> (kerror + lheap) option" where
  "list_push_front hp l h =
     Option.bind (list_begin l h) (\<lambda>r. case r of
        Inl e \<Rightarrow> Some (Inl e)
      | Inr s \<Rightarrow> map_option
          (\<lambda>t. if s = NULL \<or> hp = NULL then Inl Null_deref
               else let h1 = set_prev s hp h; h2 = set_next t (lnext (h1 hp)) h1
                    in Inr (set_next hp s h2))
          (list_end l h))"

definition list_remove :: "addr \<Rightarrow> lheap \<Rightarrow> kerror + (addr \<times> lheap)" where
  "list_remove n h =
     (if n = NULL then Inl Null_deref
      else if lprev (h n) = NULL then Inl Null_deref
      else let h1 = set_next (lprev (h n)) (lnext (h n)) h;
               h2 = (if lnext (h1 n) \<noteq> NULL then set_prev (lnext (h1 n)) (lprev (h1 n)) h1 else h1)
           in Inr (n, h2))"

section \<open>Well-formed lists\<close>

text \<open>\<open>dlist h hp xs\<close>: the nodes after the head \<open>hp\<close> are \<open>xs\<close>, linked both ways.\<close>

definition linked :: "lheap \<Rightarrow> addr \<Rightarrow> addr \<Rightarrow> bool" where
  "linked h a b \<longleftrightarrow> lnext (h a) = b \<and> lprev (h b) = a"

definition dlist :: "lheap \<Rightarrow> addr \<Rightarrow> addr list \<Rightarrow> bool" where
  "dlist h hp xs \<longleftrightarrow> successively (linked h) (hp # xs) \<and> lnext (h (last (hp # xs))) = NULL
     \<and> distinct (hp # xs) \<and> NULL \<notin> set (hp # xs)"

text \<open>The same with the head's own \<open>prev\<close> in place, which \<open>list_begin\<close> stops at.\<close>

definition rooted :: "lheap \<Rightarrow> addr \<Rightarrow> addr list \<Rightarrow> bool" where
  "rooted h hp xs \<longleftrightarrow> dlist h hp xs \<and> lprev (h hp) = hp"

lemma set_fields [simp]:
  "lprev (set_prev a v h b) = (if b = a then v else lprev (h b))"
  "lnext (set_prev a v h b) = lnext (h b)"
  "lnext (set_next a v h b) = (if b = a then v else lnext (h b))"
  "lprev (set_next a v h b) = lprev (h b)"
  by (auto simp: set_prev_def set_next_def)

lemma set_other: "b \<noteq> a \<Longrightarrow> set_prev a v h b = h b" "b \<noteq> a \<Longrightarrow> set_next a v h b = h b"
  by (auto simp: set_prev_def set_next_def)

lemma dlist_frame [heap_frame]:
  assumes "\<And>a. a \<in> set (hp # xs) \<Longrightarrow> h' a = h a"
  shows "dlist h' hp xs \<longleftrightarrow> dlist h hp xs"
proof -
  have "successively (linked h') (hp # xs) \<longleftrightarrow> successively (linked h) (hp # xs)"
    using assms by (intro successively_cong) (auto simp: linked_def)
  moreover have "h' (last (hp # xs)) = h (last (hp # xs))"
    by (rule assms) (simp add: last_in_set)
  ultimately show ?thesis unfolding dlist_def by (simp only:)
qed

lemma rooted_frame [heap_frame]:
  assumes "\<And>a. a \<in> set (hp # xs) \<Longrightarrow> h' a = h a"
  shows "rooted h' hp xs \<longleftrightarrow> rooted h hp xs"
  using dlist_frame [OF assms] assms by (simp add: rooted_def)

lemma dlist_Nil [simp]: "dlist h hp [] \<longleftrightarrow> lnext (h hp) = NULL \<and> hp \<noteq> NULL"
  by (auto simp: dlist_def)

lemma dlist_next: "dlist h hp xs \<Longrightarrow> lnext (h hp) = (case xs of [] \<Rightarrow> NULL | x # _ \<Rightarrow> x)"
  by (auto simp: dlist_def linked_def split: list.split)

lemma dlist_next_NULL: "dlist h hp xs \<Longrightarrow> lnext (h hp) = NULL \<longleftrightarrow> xs = []"
  by (cases xs) (auto simp: dlist_def linked_def)

lemma dlist_tail: "dlist h hp (x # xs) \<Longrightarrow> dlist h x xs"
  by (auto simp: dlist_def)

lemma dlist_unlink:
  assumes "dlist h hp (xs @ ys)"
  shows "lnext (h (last (hp # xs))) = (case ys of [] \<Rightarrow> NULL | y # _ \<Rightarrow> y)"
    and "ys \<noteq> [] \<Longrightarrow> lprev (h (hd ys)) = last (hp # xs)"
proof -
  from assms have "successively (linked h) ((hp # xs) @ ys)" "lnext (h (last ((hp # xs) @ ys))) = NULL"
    by (simp_all add: dlist_def)
  then show "lnext (h (last (hp # xs))) = (case ys of [] \<Rightarrow> NULL | y # _ \<Rightarrow> y)"
    and "ys \<noteq> [] \<Longrightarrow> lprev (h (hd ys)) = last (hp # xs)"
    unfolding successively_append_iff linked_def by (auto split: list.split)
qed

text \<open>The head's own \<open>prev\<close> is not part of the list.\<close>

lemma dlist_head_prev [simp]: "dlist (set_prev p v h) p xs \<longleftrightarrow> dlist h p xs"
proof (cases "distinct (p # xs)")
  case True
  then have "successively (linked (set_prev p v h)) xs \<longleftrightarrow> successively (linked h) xs"
    by (intro successively_cong) (auto simp: linked_def)
  with True show ?thesis
    by (cases xs) (auto simp: dlist_def linked_def)
qed (auto simp: dlist_def)

text \<open>The two ends of a cut, each linked as before, joined by new links.\<close>

lemma successively_linked_upd:
  assumes "successively (linked h) xs"
    and "\<And>a b. a \<in> set xs \<Longrightarrow> b \<in> set xs \<Longrightarrow> linked h a b \<Longrightarrow>
           lnext (h' a) = lnext (h a) \<and> lprev (h' b) = lprev (h b)"
  shows "successively (linked h') xs"
  using assms(1) by (rule successively_mono) (use assms(2) in \<open>auto simp: linked_def\<close>)

section \<open>The operations on well-formed lists\<close>

lemma list_append_dlist:
  assumes l: "dlist h hp (xs @ ys)" and p: "p = last (hp # xs)"
    and n: "n \<noteq> NULL" "n \<notin> set (hp # xs @ ys)"
  shows "\<exists>h'. list_append p n h = Inr h' \<and> dlist h' hp (xs @ n # ys)
    \<and> lprev (h' hp) = lprev (h hp)
    \<and> (\<forall>a. a \<notin> set (hp # n # xs @ ys) \<longrightarrow> h' a = h a)"
proof -
  note cut = dlist_unlink [OF l, folded p]
  have d: "distinct (hp # xs)" "distinct ys" "set (hp # xs) \<inter> set ys = {}"
    and nn: "NULL \<notin> set (hp # xs @ ys)" using l by (auto simp: dlist_def)
  have pm: "p \<in> set (hp # xs)" unfolding p by (rule last_in_set) simp
  with nn have "p \<noteq> NULL" by auto
  define h' where "h' = set_next p n (set_prev n p (set_next n (lnext (h p))
      (if ys = [] then h else set_prev (hd ys) n h)))"
  have run: "list_append p n h = Inr h'"
    using \<open>p \<noteq> NULL\<close> n cut(1) nn by (cases ys) (auto simp: list_append_def h'_def Let_def)
  have outside: "h' a = h a" if "a \<notin> set (hp # n # xs @ ys)" for a
  proof -
    have "a \<noteq> p" "a \<noteq> n" "ys \<noteq> [] \<Longrightarrow> a \<noteq> hd ys" using that pm by auto
    then show ?thesis by (simp add: h'_def set_other)
  qed
  have nexts: "lnext (h' a) = (if a = p then n else if a = n then lnext (h p) else lnext (h a))" for a
    by (simp add: h'_def)
  have prevs: "lprev (h' a) = (if a = n then p else if ys \<noteq> [] \<and> a = hd ys then n else lprev (h a))" for a
    by (simp add: h'_def)
  have "successively (linked h) (hp # xs)" "successively (linked h) ys"
    using l by (auto simp: dlist_def successively_append_iff simp flip: append_Cons)
  then have "successively (linked h') (hp # xs)" "successively (linked h') ys"
  proof (atomize (full), intro conjI, goal_cases)
    case 1
    show ?case
    proof (rule successively_linked_upd [OF 1(1)])
      fix a b assume ab: "a \<in> set (hp # xs)" "b \<in> set (hp # xs)" "linked h a b"
      have "a \<noteq> p"
      proof
        assume "a = p"
        with ab(3) cut(1) have "b = (case ys of [] \<Rightarrow> NULL | y # _ \<Rightarrow> y)" by (simp add: linked_def)
        with ab(2) d(3) nn show False by (cases ys) auto
      qed
      then show "lnext (h' a) = lnext (h a) \<and> lprev (h' b) = lprev (h b)"
        using ab n(2) d(3) by (cases ys) (auto simp: nexts prevs)
    qed
  next
    case 2
    show ?case
    proof (rule successively_linked_upd [OF 2(2)])
      fix a b assume ab: "a \<in> set ys" "b \<in> set ys" "linked h a b"
      have "b \<noteq> hd ys"
      proof
        assume "b = hd ys"
        with ab(1,3) cut(2) have "a = p" by (cases ys) (auto simp: linked_def)
        with ab(1) pm d(3) show False by auto
      qed
      moreover have "a \<noteq> p" using ab(1) pm d(3) by auto
      ultimately show "lnext (h' a) = lnext (h a) \<and> lprev (h' b) = lprev (h b)"
        using ab n(2) by (auto simp: nexts prevs)
    qed
  qed
  moreover have "linked h' p n" using pm n(2) by (auto simp: linked_def nexts prevs)
  moreover have "ys \<noteq> [] \<Longrightarrow> linked h' n (hd ys)"
    using cut(1) n(2) pm by (cases ys) (auto simp: linked_def nexts prevs)
  ultimately have "successively (linked h') ((hp # xs) @ n # ys)"
    unfolding successively_append_iff by (auto simp: successively_Cons [of _ n] p)
  then have "successively (linked h') (hp # xs @ n # ys)" by simp
  moreover have "lnext (h' (last (hp # xs @ n # ys))) = NULL"
  proof (cases "ys = []")
    case True
    then show ?thesis using cut(1) n(2) pm by (auto simp: nexts)
  next
    case False
    then have "last ys \<in> set ys" by simp
    moreover from this have "last ys \<noteq> p" "last ys \<noteq> n" using pm d(3) n(2) by auto
    moreover have "lnext (h (last ys)) = NULL" using l False by (simp add: dlist_def)
    ultimately show ?thesis using False by (simp add: nexts)
  qed
  moreover have "lprev (h' hp) = lprev (h hp)"
    using n(2) d(3) by (cases ys) (auto simp: prevs)
  ultimately show ?thesis using run outside n d nn by (auto simp: dlist_def)
qed

lemma list_remove_dlist:
  assumes l: "dlist h hp (xs @ n # ys)"
  shows "\<exists>h'. list_remove n h = Inr (n, h') \<and> dlist h' hp (xs @ ys)
    \<and> h' n = h n \<and> lprev (h' hp) = lprev (h hp)
    \<and> (\<forall>a. a \<notin> set (hp # xs @ ys) \<longrightarrow> h' a = h a)"
proof -
  define p where "p = last (hp # xs)"
  have cut: "lnext (h p) = n" "lprev (h n) = p"
    using dlist_unlink [OF l] by (simp_all add: p_def)
  have l': "dlist h hp ((xs @ [n]) @ ys)" using l by simp
  have cut': "lnext (h n) = (case ys of [] \<Rightarrow> NULL | y # _ \<Rightarrow> y)"
      "ys \<noteq> [] \<Longrightarrow> lprev (h (hd ys)) = n"
    using dlist_unlink [OF l'] by simp_all
  have d: "distinct (hp # xs)" "distinct ys" "set (hp # xs) \<inter> set ys = {}" "n \<notin> set (hp # xs @ ys)"
    and nn: "NULL \<notin> set (hp # n # xs @ ys)" using l by (auto simp: dlist_def)
  have pm: "p \<in> set (hp # xs)" unfolding p_def by (rule last_in_set) simp
  with nn d have "p \<noteq> NULL" "n \<noteq> NULL" "p \<noteq> n" by auto
  define h' where "h' = (if ys = [] then set_next p (lnext (h n)) h
      else set_prev (hd ys) p (set_next p (lnext (h n)) h))"
  have run: "list_remove n h = Inr (n, h')"
    using \<open>p \<noteq> NULL\<close> \<open>n \<noteq> NULL\<close> \<open>p \<noteq> n\<close> cut cut'(1) nn
    by (cases ys) (auto simp: list_remove_def h'_def Let_def)
  have outside: "h' a = h a" if "a \<notin> set (hp # xs @ ys)" for a
  proof -
    have "a \<noteq> p" "ys \<noteq> [] \<Longrightarrow> a \<noteq> hd ys" using that pm by auto
    then show ?thesis by (simp add: h'_def set_other)
  qed
  have nexts: "lnext (h' a) = (if a = p then lnext (h n) else lnext (h a))" for a
    by (simp add: h'_def)
  have prevs: "lprev (h' a) = (if ys \<noteq> [] \<and> a = hd ys then p else lprev (h a))" for a
    by (simp add: h'_def)
  have "successively (linked h) ((hp # xs) @ n # ys)" using l by (simp add: dlist_def)
  then have s: "successively (linked h) (hp # xs)" "successively (linked h) ys"
    unfolding successively_append_iff by (auto simp: successively_Cons)
  have "successively (linked h') (hp # xs)"
  proof (rule successively_linked_upd [OF s(1)])
    fix a b assume ab: "a \<in> set (hp # xs)" "b \<in> set (hp # xs)" "linked h a b"
    then have "a \<noteq> p" using cut(1) d(4) by (auto simp: linked_def)
    then show "lnext (h' a) = lnext (h a) \<and> lprev (h' b) = lprev (h b)"
      using ab d(3) by (cases ys) (auto simp: nexts prevs)
  qed
  moreover have "successively (linked h') ys"
  proof (rule successively_linked_upd [OF s(2)])
    fix a b assume ab: "a \<in> set ys" "b \<in> set ys" "linked h a b"
    then have "b \<noteq> hd ys" using cut'(2) d(4) by (cases ys) (auto simp: linked_def)
    moreover have "a \<noteq> p" using ab(1) pm d(3) by auto
    ultimately show "lnext (h' a) = lnext (h a) \<and> lprev (h' b) = lprev (h b)"
      using ab by (auto simp: nexts prevs)
  qed
  moreover have "ys \<noteq> [] \<Longrightarrow> linked h' p (hd ys)"
    using cut'(1) by (cases ys) (auto simp: linked_def nexts prevs)
  ultimately have "successively (linked h') ((hp # xs) @ ys)"
    unfolding successively_append_iff p_def by blast
  moreover have "lnext (h' (last ((hp # xs) @ ys))) = NULL"
  proof (cases "ys = []")
    case True
    then have "last ((hp # xs) @ ys) = p" by (simp add: p_def)
    with True cut'(1) show ?thesis by (simp add: nexts)
  next
    case False
    then have "last ys \<in> set ys" by simp
    moreover from this have "last ys \<noteq> p" using pm d(3) by auto
    moreover have "lnext (h (last ys)) = NULL" using l False by (simp add: dlist_def)
    ultimately show ?thesis using False by (simp add: nexts)
  qed
  moreover have "lprev (h' hp) = lprev (h hp)"
    using d(3) by (cases ys) (auto simp: prevs)
  moreover have "h' n = h n" by (rule outside [OF d(4)])
  ultimately show ?thesis using run outside d nn by (auto simp: dlist_def)
qed

text \<open>Inserting before a node is appending after the node in front of it.\<close>

lemma list_insert_as_append:
  assumes l: "dlist h hp (xs @ x # ys)" and n: "n \<noteq> NULL" "n \<notin> set (hp # xs @ x # ys)"
  shows "list_insert x n h = list_append (last (hp # xs)) n h"
proof -
  define p where "p = last (hp # xs)"
  have cut: "lnext (h p) = x" "lprev (h x) = p"
    using dlist_unlink [OF l] by (simp_all add: p_def)
  have pm: "p \<in> set (hp # xs)" unfolding p_def by (rule last_in_set) simp
  then have "p \<noteq> NULL" "x \<noteq> NULL" "p \<noteq> x" "n \<noteq> p" "n \<noteq> x" using l n by (auto simp: dlist_def)
  then show ?thesis
    unfolding p_def [symmetric] using n cut
    by (auto simp: list_insert_def list_append_def Let_def set_prev_def set_next_def fun_eq_iff)
qed

lemma list_insert_dlist:
  assumes "dlist h hp (xs @ x # ys)" and "n \<noteq> NULL" "n \<notin> set (hp # xs @ x # ys)"
  shows "\<exists>h'. list_insert x n h = Inr h' \<and> dlist h' hp (xs @ n # x # ys)
    \<and> lprev (h' hp) = lprev (h hp)
    \<and> (\<forall>a. a \<notin> set (hp # n # xs @ x # ys) \<longrightarrow> h' a = h a)"
  using list_append_dlist [OF assms(1) refl assms(2,3)] list_insert_as_append [OF assms] by simp

lemma init_dlist: "p \<noteq> NULL \<Longrightarrow> \<exists>h'. INIT_LLIST p h = Inr h' \<and> rooted h' p []
    \<and> h' p = \<lparr>lprev = p, lnext = NULL\<rparr> \<and> (\<forall>a. a \<noteq> p \<longrightarrow> h' a = h a)"
  by (auto simp: INIT_LLIST_def rooted_def set_other set_prev_def set_next_def)

section \<open>Walks\<close>

lemma begin_loop_result:
  assumes "rooted h hp (xs @ ys)"
  shows "begin_loop h (last (hp # xs)) = Some (Inr hp)"
  using assms
proof (induction xs arbitrary: ys rule: rev_induct)
  case Nil
  then show ?case by (auto simp: rooted_def dlist_def begin_loop.simps)
next
  case (snoc x xs)
  from snoc.prems have l: "dlist h hp (xs @ x # ys)" by (simp add: rooted_def)
  from dlist_unlink(2) [OF this] have "lprev (h x) = last (hp # xs)" by simp
  moreover have "last (hp # xs) \<noteq> x" "x \<noteq> NULL"
    using l last_in_set [of "hp # xs"] by (auto simp: dlist_def)
  ultimately show ?case
    using snoc.IH [of "x # ys"] snoc.prems by (simp add: begin_loop.simps [of h x])
qed

lemma end_loop_result: "dlist h hp xs \<Longrightarrow> end_loop h hp = Some (last (hp # xs))"
proof (induction xs arbitrary: hp)
  case Nil
  then show ?case by (simp add: end_loop.simps)
next
  case (Cons x xs)
  then have "lnext (h hp) = x" "x \<noteq> NULL" by (auto simp: dlist_def linked_def)
  with Cons.IH [OF dlist_tail [OF Cons.prems]] show ?case by (simp add: end_loop.simps [of h hp])
qed

lemma count_loop_result: "dlist h hp xs \<Longrightarrow> count_loop h hp c = Some (c + of_nat (length xs))"
proof (induction xs arbitrary: hp c)
  case Nil
  then show ?case by (simp add: count_loop.simps)
next
  case (Cons x xs)
  then have "lnext (h hp) = x" "x \<noteq> NULL" by (auto simp: dlist_def linked_def)
  with Cons.IH [OF dlist_tail [OF Cons.prems]] show ?case by (simp add: count_loop.simps [of h hp])
qed

text \<open>From any node of the list the front is the head and the count that of the elements.\<close>

lemma list_walks:
  assumes "rooted h hp xs" and "a \<in> set (hp # xs)"
  shows "list_begin a h = Some (Inr hp)" "list_count a h = Some (Inr (of_nat (length xs)))"
    "list_end a h = Some (last (hp # xs))" "list_isempty a h = Some (Inr (xs = []))"
proof -
  obtain us vs where cut: "hp # xs = us @ a # vs" using assms(2) by (meson split_list)
  obtain ws where xs: "xs = ws @ vs" "a = last (hp # ws)"
  proof (cases us)
    case Nil
    with cut that [of "[]"] show thesis by simp
  next
    case (Cons u us')
    with cut that [of "us' @ [a]"] show thesis by simp
  qed
  have d: "dlist h hp xs" and a: "a \<noteq> NULL" using assms by (auto simp: rooted_def dlist_def)
  show b: "list_begin a h = Some (Inr hp)"
    using begin_loop_result [of h hp ws vs] assms(1) xs a by (simp add: list_begin_def)
  show "list_count a h = Some (Inr (of_nat (length xs)))"
    using a b count_loop_result [OF d] by (simp add: list_count_def)
  show "list_isempty a h = Some (Inr (xs = []))"
    using a b dlist_next_NULL [OF d] assms(1) by (auto simp: list_isempty_def rooted_def)
  have "dlist h a vs"
    using d cut unfolding dlist_def by (auto simp: successively_append_iff split: if_splits)
  from end_loop_result [OF this] show "list_end a h = Some (last (hp # xs))"
    using a cut by (simp add: list_end_def)
qed

section \<open>The interface the page pools use\<close>

text \<open>
  A pool keeps nodes in lists, each under a head of its own, and moves them from one list to
  another. The laws say what pushing after the head and unlinking do to the list they work on
  and that they leave alone every list that shares no node with it.
\<close>

locale node_lists =
  fixes valid :: "'h \<Rightarrow> 'a \<Rightarrow> 'a list \<Rightarrow> bool"
    and push :: "'a \<Rightarrow> 'a \<Rightarrow> 'h \<Rightarrow> 'e + 'h"
    and unlink :: "'a \<Rightarrow> 'h \<Rightarrow> 'e + ('a \<times> 'h)"
    and node :: "'a \<Rightarrow> bool"
  assumes valid_nodes: "valid h p xs \<Longrightarrow> distinct (p # xs) \<and> (\<forall>a \<in> set (p # xs). node a)"
    and push_valid: "valid h p xs \<Longrightarrow> node n \<Longrightarrow> n \<notin> set (p # xs) \<Longrightarrow>
      \<exists>h'. push p n h = Inr h' \<and> valid h' p (n # xs) \<and>
        (\<forall>q ys. valid h q ys \<and> set (q # ys) \<inter> set (p # n # xs) = {} \<longrightarrow> valid h' q ys)"
    and unlink_valid: "valid h p (xs @ n # ys) \<Longrightarrow>
      \<exists>h'. unlink n h = Inr (n, h') \<and> valid h' p (xs @ ys) \<and>
        (\<forall>q zs. valid h q zs \<and> set (q # zs) \<inter> set (p # xs @ ys) = {} \<longrightarrow> valid h' q zs)"
begin

lemma move_valid:
  assumes "valid h p (xs @ n # ys)" "valid h q zs" "set (p # xs @ n # ys) \<inter> set (q # zs) = {}"
  shows "\<exists>h1 h'. unlink n h = Inr (n, h1) \<and> push q n h1 = Inr h'
    \<and> valid h1 p (xs @ ys) \<and> valid h' p (xs @ ys) \<and> valid h' q (n # zs)
    \<and> (\<forall>r us. valid h r us \<and> set (r # us) \<inter> set (p # q # n # xs @ ys @ zs) = {}
          \<longrightarrow> valid h1 r us \<and> valid h' r us)"
proof -
  have n: "node n" "n \<notin> set (q # zs)" and d: "n \<notin> set (p # xs @ ys)"
    using valid_nodes [OF assms(1)] assms(3) by auto
  obtain h1 where h1: "unlink n h = Inr (n, h1)" "valid h1 p (xs @ ys)"
    "\<And>r us. valid h r us \<Longrightarrow> set (r # us) \<inter> set (p # xs @ ys) = {} \<Longrightarrow> valid h1 r us"
    using unlink_valid [OF assms(1)] by blast
  have q1: "valid h1 q zs" by (rule h1(3) [OF assms(2)]) (use assms(3) in auto)
  obtain h' where h': "push q n h1 = Inr h'" "valid h' q (n # zs)"
    "\<And>r us. valid h1 r us \<Longrightarrow> set (r # us) \<inter> set (q # n # zs) = {} \<Longrightarrow> valid h' r us"
    using push_valid [OF q1 n] by blast
  have "valid h' p (xs @ ys)" by (rule h'(3) [OF h1(2)]) (use assms(3) d in auto)
  moreover have "valid h1 r us \<and> valid h' r us"
    if r: "valid h r us" "set (r # us) \<inter> set (p # q # n # xs @ ys @ zs) = {}" for r us
  proof
    show "valid h1 r us" by (rule h1(3) [OF r(1)]) (use r(2) in auto)
    then show "valid h' r us" by (rule h'(3)) (use r(2) in auto)
  qed
  ultimately show ?thesis using h1(1,2) h'(1,2) by blast
qed

end

interpretation dl: node_lists dlist list_append list_remove "\<lambda>a. a \<noteq> NULL"
proof
  fix h :: lheap and p n :: addr and xs ys :: "addr list"
  show "dlist h p xs \<Longrightarrow> distinct (p # xs) \<and> (\<forall>a \<in> set (p # xs). a \<noteq> NULL)"
    by (auto simp: dlist_def)
  show "\<exists>h'. list_append p n h = Inr h' \<and> dlist h' p (n # xs) \<and>
      (\<forall>q ys. dlist h q ys \<and> set (q # ys) \<inter> set (p # n # xs) = {} \<longrightarrow> dlist h' q ys)"
    if l: "dlist h p xs" "n \<noteq> NULL" "n \<notin> set (p # xs)"
  proof -
    obtain h' where h': "list_append p n h = Inr h'" "dlist h' p (n # xs)"
      "\<And>a. a \<notin> set (p # n # xs) \<Longrightarrow> h' a = h a"
      using list_append_dlist [of h p "[]" xs p n] l by auto
    have "dlist h' q ys" if "dlist h q ys" "set (q # ys) \<inter> set (p # n # xs) = {}" for q ys
      using that dlist_frame [of q ys h' h] h'(3) by blast
    with h' show ?thesis by blast
  qed
  show "\<exists>h'. list_remove n h = Inr (n, h') \<and> dlist h' p (xs @ ys) \<and>
      (\<forall>q zs. dlist h q zs \<and> set (q # zs) \<inter> set (p # xs @ ys) = {} \<longrightarrow> dlist h' q zs)"
    if l: "dlist h p (xs @ n # ys)"
  proof -
    obtain h' where h': "list_remove n h = Inr (n, h')" "dlist h' p (xs @ ys)"
      "\<And>a. a \<notin> set (p # xs @ ys) \<Longrightarrow> h' a = h a"
      using list_remove_dlist [OF l] by auto
    have "dlist h' q zs" if "dlist h q zs" "set (q # zs) \<inter> set (p # xs @ ys) = {}" for q zs
      using that dlist_frame [of q zs h' h] h'(3) by blast
    with h' show ?thesis by blast
  qed
qed

end
