(* ===== verification/BootAlloc.thy ===== *)
theory BootAlloc
  imports Arch Bitmap
begin

text \<open>
  \<open>core/mm/bootalloc.cc\<close>: the kernel's first page allocator. It takes over the loader's bitmap
  and hands out the lowest free page from a cursor upwards (\<open>ALLOCATE_FIRST\<close>). The theory also
  holds the interface of a single-page allocator, which the client lemmas on runs of
  allocations are proved from.
\<close>

section \<open>State and operations\<close>

record bafree =
  ba_addr :: phys_t
  ba_pages :: u32          \<comment> \<open>a signed int\<close>

record boot_allocator =
  alloc_map :: bitmap
  ba_ptr :: phys_t

definition BootAllocator_page_to_physical :: "bafree \<Rightarrow> phys_t" where
  "BootAllocator_page_to_physical page = ba_addr page"

text \<open>
  \<open>_ptr = (size_t) bitmap_firstz(alloc_map)\<close>: the int goes through the 32-bit \<open>size_t\<close> into the
  64-bit cursor. \<open>PANIC\<close> does not return.
\<close>

definition BootAllocator_update_all :: "boot_allocator \<Rightarrow> kerror + boot_allocator" where
  "BootAllocator_update_all s =
     (let s' = s\<lparr>ba_ptr := ucast (bitmap_firstz (alloc_map s))\<rparr>
      in if bitmap_firstz (alloc_map s') \<noteq> - 1 then Inr s' else Inl Panicked)"

definition BootAllocator_mark_page :: "bafree \<Rightarrow> boot_allocator \<Rightarrow> u32 \<times> bafree \<times> boot_allocator" where
  "BootAllocator_mark_page p s =
     (1, p\<lparr>ba_addr := ba_ptr s * ARCH_PAGE_SIZE\<rparr>,
      s\<lparr>alloc_map := (alloc_map s)\<lparr>bm_words :=
           bitmap_setbit (bm_words (alloc_map s)) (unat (ba_ptr s))\<rparr>,
        ba_ptr := ba_ptr s + 1\<rparr>)"

definition BootAllocator_allocate_single ::
    "bafree \<Rightarrow> boot_allocator \<Rightarrow> kerror + (u32 \<times> bafree \<times> boot_allocator)" where
  "BootAllocator_allocate_single p s =
     (if bitmap_tstbit (bm_words (alloc_map s)) (unat (ba_ptr s)) \<noteq> 0
         \<or> ba_ptr s \<ge> ucast (bm_bit_count (alloc_map s))
      then bind_res (BootAllocator_update_all s) (\<lambda>s'. Inr (BootAllocator_mark_page p s'))
      else Inr (BootAllocator_mark_page p s))"

text \<open>The arena argument is not used; the bitmap pointer may be null.\<close>

definition BootAllocator_add_arena :: "bitmap option \<Rightarrow> boot_allocator \<Rightarrow> kerror + boot_allocator" where
  "BootAllocator_add_arena bt s =
     (case bt of
        None \<Rightarrow> Inr s
      | Some b \<Rightarrow> BootAllocator_update_all (s\<lparr>alloc_map := b\<rparr>))"

text \<open>
  The loop of \<open>free\<close> clears the page of every byte address from \<open>a\<close> to \<open>lim\<close>; where \<open>lim\<close>
  is the largest 64-bit value the condition never fails, and the loop does not end.
\<close>

partial_function (option) BootAllocator_free_loop ::
    "(nat \<Rightarrow> u32) \<Rightarrow> phys_t \<Rightarrow> phys_t \<Rightarrow> (nat \<Rightarrow> u32) option" where
  "BootAllocator_free_loop A a lim =
     (if a \<le> lim
      then BootAllocator_free_loop (bitmap_clrbit A (unat (ARCH_PAGE_ALIGN_DOWN a div ARCH_PAGE_SIZE)))
             (a + 1) lim
      else Some A)"

definition BootAllocator_free :: "bafree \<Rightarrow> boot_allocator \<Rightarrow> kerror + (u32 \<times> boot_allocator)" where
  "BootAllocator_free st s =
     (let pages = ba_pages st - 1; address = ba_addr st;
          lim = address + scast (pages * ARCH_PAGE_SIZE)
      in case BootAllocator_free_loop (bm_words (alloc_map s)) address lim of
           None \<Rightarrow> Inl Diverges
         | Some A \<Rightarrow> Inr (1, s\<lparr>alloc_map := (alloc_map s)\<lparr>bm_words := A\<rparr>\<rparr>))"

definition PMM_TYPE_LIST :: u32 where "PMM_TYPE_LIST = 1"
definition PMM_TYPE_BOOT :: u32 where "PMM_TYPE_BOOT = 2"
definition PMM_TYPE_OTHER :: u32 where "PMM_TYPE_OTHER = 3"

definition BootAllocator_get_type :: u32 where "BootAllocator_get_type = PMM_TYPE_BOOT"

text \<open>\<open>sizeof(bafree_t)\<close>: an 8-byte address and a 4-byte count, 4-byte aligned on i386.\<close>

definition BootAllocator_get_size :: u32 where "BootAllocator_get_size = 8 + 4"

section \<open>The interface of a single-page allocator\<close>

text \<open>\<open>n\<close> calls in a row, collecting the pages they return.\<close>

fun alloc_run :: "('s \<Rightarrow> kerror + ('p \<times> 's)) \<Rightarrow> nat \<Rightarrow> 's \<Rightarrow> kerror + ('p list \<times> 's)" where
  "alloc_run al 0 s = Inr ([], s)"
| "alloc_run al (Suc n) s =
     bind_res (al s) (\<lambda>(p, s'). bind_res (alloc_run al n s') (\<lambda>(ps, t). Inr (p # ps, t)))"

locale page_allocator =
  fixes alloc :: "'s \<Rightarrow> kerror + ('p \<times> 's)"
    and used :: "'s \<Rightarrow> 'p set"
    and managed :: "'s \<Rightarrow> 'p set"
    and inv :: "'s \<Rightarrow> bool"
  assumes alloc_fresh:
    "inv s \<Longrightarrow> alloc s = Inr (p, s') \<Longrightarrow>
       p \<in> managed s - used s \<and> used s' = insert p (used s) \<and> managed s' = managed s \<and> inv s'"
begin

lemma run_distinct:
  "inv s \<Longrightarrow> alloc_run alloc n s = Inr (ps, s') \<Longrightarrow>
     distinct ps \<and> set ps \<subseteq> managed s - used s \<and> used s' = used s \<union> set ps
     \<and> managed s' = managed s \<and> length ps = n \<and> inv s'"
proof (induction n arbitrary: s ps)
  case 0
  then show ?case by simp
next
  case (Suc n)
  from Suc.prems(2) obtain p t qs where
    al: "alloc s = Inr (p, t)" and run: "alloc_run alloc n t = Inr (qs, s')" and ps: "ps = p # qs"
    by (auto simp: bind_res_Inr_conv)
  from alloc_fresh [OF Suc.prems(1) al]
  have fresh: "p \<in> managed s - used s" "used t = insert p (used s)" "managed t = managed s" "inv t"
    by auto
  from Suc.IH [OF fresh(4) run] fresh ps show ?case by auto
qed

end

text \<open>An allocator that succeeds as long as a page is left, and panics otherwise.\<close>

locale total_page_allocator = page_allocator +
  assumes alloc_live: "inv s \<Longrightarrow> managed s - used s \<noteq> {} \<Longrightarrow> \<exists>r. alloc s = Inr r"
    and alloc_full: "inv s \<Longrightarrow> managed s - used s = {} \<Longrightarrow> alloc s = Inl Panicked"
    and managed_finite: "finite (managed s)"
begin

lemma run_total:
  "inv s \<Longrightarrow> (if n \<le> card (managed s - used s) then \<exists>r. alloc_run alloc n s = Inr r
     else alloc_run alloc n s = Inl Panicked)"
proof (induction n arbitrary: s)
  case 0
  then show ?case by simp
next
  case (Suc n)
  show ?case
  proof (cases "managed s - used s = {}")
    case True
    then have c: "card (managed s - used s) = 0" by (metis card.empty)
    from alloc_full [OF Suc.prems True] have "alloc_run alloc (Suc n) s = Inl Panicked" by simp
    with c show ?thesis by simp
  next
    case False
    then obtain p t where al: "alloc s = Inr (p, t)"
      using alloc_live [OF Suc.prems] by (metis surj_pair)
    from alloc_fresh [OF Suc.prems al]
    have fresh: "p \<in> managed s - used s" "managed t - used t = managed s - used s - {p}" "inv t"
      by auto
    have c: "card (managed s - used s) = Suc (card (managed t - used t))"
      unfolding fresh(2) using fresh(1) managed_finite [of s] by (intro card.remove) auto
    show ?thesis
      using Suc.IH [OF fresh(3)] by (auto simp: al c)
  qed
qed

end

section \<open>What a call to the boot allocator does\<close>

text \<open>
  The invariant: the bit numbers fit an int, as \<open>bitmap_firstz\<close> returns one, and the bits of the
  last word past \<open>bit_count\<close> are ones, as \<open>init_bootmm32\<close> of the loader leaves them.
\<close>

definition boot_inv :: "boot_allocator \<Rightarrow> bool" where
  "boot_inv s \<longleftrightarrow>
     32 * unat (bm_length (alloc_map s)) < 2 ^ 31
     \<and> unat (bm_bit_count (alloc_map s)) \<le> 32 * unat (bm_length (alloc_map s))
     \<and> (\<forall>k. unat (bm_bit_count (alloc_map s)) \<le> k \<and> k < 32 * unat (bm_length (alloc_map s))
          \<longrightarrow> bm_bit (bm_words (alloc_map s)) k)"

definition boot_used :: "boot_allocator \<Rightarrow> nat set" where
  "boot_used s = {k. bm_bit (bm_words (alloc_map s)) k}"

definition cursor_free :: "boot_allocator \<Rightarrow> bool" where
  "cursor_free s \<longleftrightarrow> unat (ba_ptr s) \<notin> boot_used s
     \<and> unat (ba_ptr s) < unat (bm_bit_count (alloc_map s))"

lemma boot_guard:
  "(bitmap_tstbit (bm_words (alloc_map s)) (unat (ba_ptr s)) \<noteq> 0
      \<or> ba_ptr s \<ge> ucast (bm_bit_count (alloc_map s))) \<longleftrightarrow> \<not> cursor_free s"
  by (auto simp: cursor_free_def boot_used_def bits word_le_nat_alt c_words)

lemma of_nat_ne_max: "k < 2 ^ 31 \<Longrightarrow> (of_nat k :: u32) \<noteq> - 1"
proof
  assume "k < 2 ^ 31" "(of_nat k :: u32) = - 1"
  then have "unat (of_nat k :: u32) = unat (- 1 :: u32)" by simp
  with \<open>k < 2 ^ 31\<close> show False
    by (simp add: unat_of_nat_small unsigned_minus_1_eq_mask mask_eq_exp_minus_1)
qed

lemma BootAllocator_update_all_cases:
  assumes "boot_inv s"
  obtains (found) k where "k < unat (bm_bit_count (alloc_map s))" "k \<notin> boot_used s"
      "\<forall>j < k. j \<in> boot_used s"
      "BootAllocator_update_all s = Inr (s\<lparr>ba_ptr := of_nat k\<rparr>)"
  | (full) "\<forall>j < 32 * unat (bm_length (alloc_map s)). j \<in> boot_used s"
      "BootAllocator_update_all s = Inl Panicked"
proof -
  from assms have "32 * unat (bm_length (alloc_map s)) < 2 ^ 31" by (simp add: boot_inv_def)
  then show thesis
  proof (cases rule: bitmap_firstz_cases)
    case (found k)
    with assms have small: "k < 2 ^ 31" by (simp add: boot_inv_def)
    have "ucast (of_nat k :: u32) = (of_nat k :: u64)"
      using small by (intro word_unat_eq_iff [THEN iffD2]) (simp add: c_words)
    moreover have "k < unat (bm_bit_count (alloc_map s))"
      using found(1,2) assms by (metis boot_inv_def not_less)
    ultimately show thesis
      using that(1) [of k] found of_nat_ne_max [OF small]
      by (simp add: BootAllocator_update_all_def boot_used_def)
  next
    case full
    then show thesis
      using that(2) by (simp add: BootAllocator_update_all_def boot_used_def)
  qed
qed

text \<open>The page \<open>k\<close> that a call marks, at the cursor or at the lowest free bit.\<close>

definition takes_page :: "nat \<Rightarrow> bafree \<Rightarrow> boot_allocator \<Rightarrow> u32 \<times> bafree \<times> boot_allocator \<Rightarrow> bool" where
  "takes_page k p s r \<longleftrightarrow>
     k < unat (bm_bit_count (alloc_map s)) \<and> k \<notin> boot_used s
     \<and> (\<exists>p' s'. r = (1, p', s')
          \<and> p' = p\<lparr>ba_addr := of_nat (k * 4096)\<rparr>
          \<and> boot_used s' = insert k (boot_used s)
          \<and> bm_length (alloc_map s') = bm_length (alloc_map s)
          \<and> bm_bit_count (alloc_map s') = bm_bit_count (alloc_map s)
          \<and> ba_ptr s' = of_nat (Suc k))"

lemma takes_page_inv:
  assumes "boot_inv s" and "takes_page k p s (n, p', s')"
  shows "boot_inv s'" and "unat (ba_addr p') = k * 4096"
proof -
  from assms(2) have u: "boot_used s' = insert k (boot_used s)"
    and eqs: "bm_length (alloc_map s') = bm_length (alloc_map s)"
      "bm_bit_count (alloc_map s') = bm_bit_count (alloc_map s)"
    and k: "k < unat (bm_bit_count (alloc_map s))" and a: "ba_addr p' = of_nat (k * 4096)"
    by (auto simp: takes_page_def)
  from u have "\<And>j. bm_bit (bm_words (alloc_map s)) j \<Longrightarrow> bm_bit (bm_words (alloc_map s')) j"
    by (auto simp: boot_used_def)
  then show "boot_inv s'"
    using assms(1) by (auto simp: boot_inv_def eqs)
  have "k < 2 ^ 31"
    using k assms(1) by (simp add: boot_inv_def)
  then show "unat (ba_addr p') = k * 4096"
    unfolding a by (intro unat_of_nat_small) simp
qed

lemma mark_page_takes:
  assumes "k < unat (bm_bit_count (alloc_map s))" "k \<notin> boot_used s"
    and "s' = s\<lparr>ba_ptr := of_nat k\<rparr>" "boot_inv s"
  shows "takes_page k p s (BootAllocator_mark_page p s')"
proof -
  have "k < 2 ^ 31" using assms(1,4) by (simp add: boot_inv_def)
  then have "unat (of_nat k :: u64) = k" by (intro unat_of_nat_small) simp
  then show ?thesis
    using assms by (auto simp: takes_page_def BootAllocator_mark_page_def boot_used_def bits
        page_size_val)
qed

lemma allocate_single_cases:
  assumes "boot_inv s"
  obtains (taken) k r where "BootAllocator_allocate_single p s = Inr r" "takes_page k p s r"
      "k = unat (ba_ptr s) \<or> (\<forall>j < k. j \<in> boot_used s)"
  | (panic) "BootAllocator_allocate_single p s = Inl Panicked" "\<not> cursor_free s"
      "\<forall>j < 32 * unat (bm_length (alloc_map s)). j \<in> boot_used s"
proof (cases "cursor_free s")
  case True
  then have "BootAllocator_allocate_single p s = Inr (BootAllocator_mark_page p s)"
    using boot_guard [of s] by (simp add: BootAllocator_allocate_single_def)
  moreover have "takes_page (unat (ba_ptr s)) p s (BootAllocator_mark_page p s)"
    using True assms by (intro mark_page_takes) (auto simp: cursor_free_def)
  ultimately show thesis using taken by blast
next
  case False
  then have al: "BootAllocator_allocate_single p s =
      bind_res (BootAllocator_update_all s) (\<lambda>s'. Inr (BootAllocator_mark_page p s'))"
    using boot_guard [of s] by (simp add: BootAllocator_allocate_single_def)
  from assms show thesis
  proof (cases rule: BootAllocator_update_all_cases)
    case (found k)
    then have "takes_page k p s (BootAllocator_mark_page p (s\<lparr>ba_ptr := of_nat k\<rparr>))"
      using assms by (intro mark_page_takes) auto
    with found al taken show thesis by simp
  next
    case full
    with al False panic show thesis by simp
  qed
qed

section \<open>Runs of allocations\<close>

text \<open>One call with a scratch \<open>bafree_t\<close>, as the MMU makes it: the number of the page it returns.\<close>

definition boot_page :: "boot_allocator \<Rightarrow> kerror + (nat \<times> boot_allocator)" where
  "boot_page s =
     bind_res (BootAllocator_allocate_single \<lparr>ba_addr = 0, ba_pages = 0\<rparr> s)
       (\<lambda>(n, p, s'). Inr (unat (ba_addr p) div 4096, s'))"

definition boot_managed :: "boot_allocator \<Rightarrow> nat set" where
  "boot_managed s = {..< unat (bm_bit_count (alloc_map s))}"

lemma boot_page_fresh:
  assumes "boot_inv s" and "boot_page s = Inr (k, s')"
  shows "k \<in> boot_managed s - boot_used s \<and> boot_used s' = insert k (boot_used s)
    \<and> boot_managed s' = boot_managed s \<and> boot_inv s'"
proof -
  from assms(2) obtain n p where
    al: "BootAllocator_allocate_single \<lparr>ba_addr = 0, ba_pages = 0\<rparr> s = Inr (n, p, s')"
    and k: "k = unat (ba_addr p) div 4096"
    by (auto simp: boot_page_def bind_res_Inr_conv)
  from assms(1) obtain j where t: "takes_page j \<lparr>ba_addr = 0, ba_pages = 0\<rparr> s (n, p, s')"
    by (cases rule: allocate_single_cases [where p = "\<lparr>ba_addr = 0, ba_pages = 0\<rparr>"])
      (use al in auto)
  with k takes_page_inv [OF assms(1) t] show ?thesis
    by (auto simp: takes_page_def boot_managed_def)
qed

lemma boot_page_outcome:
  assumes "boot_inv s"
  shows "if boot_managed s - boot_used s \<noteq> {} then \<exists>r. boot_page s = Inr r
    else boot_page s = Inl Panicked"
  using assms
proof (cases rule: allocate_single_cases [where p = "\<lparr>ba_addr = 0, ba_pages = 0\<rparr>"])
  case (taken k r)
  then show ?thesis
    by (cases r) (auto simp: boot_page_def takes_page_def boot_managed_def)
next
  case panic
  with assms show ?thesis
    by (auto simp: boot_page_def boot_managed_def boot_inv_def)
qed

interpretation boot: total_page_allocator boot_page boot_used boot_managed boot_inv
proof unfold_locales
  fix s s' k assume "boot_inv s" "boot_page s = Inr (k, s')"
  then show "k \<in> boot_managed s - boot_used s \<and> boot_used s' = insert k (boot_used s)
      \<and> boot_managed s' = boot_managed s \<and> boot_inv s'"
    by (rule boot_page_fresh)
next
  fix s assume inv: "boot_inv s"
  show "boot_managed s - boot_used s \<noteq> {} \<Longrightarrow> \<exists>r. boot_page s = Inr r"
    using boot_page_outcome [OF inv] by simp
  show "boot_managed s - boot_used s = {} \<Longrightarrow> boot_page s = Inl Panicked"
    using boot_page_outcome [OF inv] by simp
qed (simp add: boot_managed_def)

section \<open>Freeing a run of pages\<close>

lemma div_step:
  "(a::nat) div 4096 \<le> j \<and> j \<le> b div 4096 \<and> a < b \<longleftrightarrow>
     a < b \<and> (j = a div 4096 \<or> Suc a div 4096 \<le> j \<and> j \<le> b div 4096)"
proof -
  have "Suc a div 4096 = a div 4096 \<or> Suc a div 4096 = Suc (a div 4096)"
    by (auto simp: div_Suc)
  moreover have "a < b \<Longrightarrow> a div 4096 \<le> b div 4096" by (simp add: div_le_mono)
  moreover have "a < b \<Longrightarrow> Suc a div 4096 \<le> b div 4096" by (simp add: div_le_mono)
  ultimately show ?thesis by auto
qed

lemma free_loop_result:
  assumes "unat lim < 2 ^ 64 - 1"
  shows "\<exists>A'. BootAllocator_free_loop A a lim = Some A'
    \<and> (\<forall>j. bm_bit A' j \<longleftrightarrow> bm_bit A j
          \<and> \<not> (a \<le> lim \<and> unat a div 4096 \<le> j \<and> j \<le> unat lim div 4096))"
proof (induction "unat lim + 1 - unat a" arbitrary: A a)
  case 0
  then have "\<not> a \<le> lim" by (simp add: word_le_nat_alt)
  then show ?case by (simp add: BootAllocator_free_loop.simps)
next
  case (Suc n)
  show ?case
  proof (cases "a \<le> lim")
    case False
    then show ?thesis by (simp add: BootAllocator_free_loop.simps)
  next
    case True
    then have le: "unat a \<le> unat lim" by (simp add: word_le_nat_alt)
    with assms have "unat a + 1 < 2 ^ 64" by linarith
    then have sa: "unat (a + 1) = Suc (unat a)"
      by (simp add: unat_word_ariths)
    let ?A = "bitmap_clrbit A (unat a div 4096)"
    have step: "BootAllocator_free_loop A a lim = BootAllocator_free_loop ?A (a + 1) lim"
      using True by (simp add: BootAllocator_free_loop.simps [of A] page_number)
    have "n = unat lim + 1 - unat (a + 1)" using Suc.hyps(2) sa by simp
    from Suc.hyps(1) [OF this, of ?A] obtain A' where
      A': "BootAllocator_free_loop ?A (a + 1) lim = Some A'"
      and bits': "\<And>j. bm_bit A' j \<longleftrightarrow> bm_bit ?A j
          \<and> \<not> (a + 1 \<le> lim \<and> unat (a + 1) div 4096 \<le> j \<and> j \<le> unat lim div 4096)"
      by blast
    have "bm_bit A' j \<longleftrightarrow> bm_bit A j
        \<and> \<not> (a \<le> lim \<and> unat a div 4096 \<le> j \<and> j \<le> unat lim div 4096)" for j
    proof (cases "unat a = unat lim")
      case True
      then show ?thesis
        using bits' [of j] sa by (auto simp: bits word_le_nat_alt)
    next
      case False
      with le div_step [of "unat a" j "unat lim"] bits' [of j] sa True
      show ?thesis by (auto simp: bits word_le_nat_alt)
    qed
    with step A' show ?thesis by auto
  qed
qed

lemma free_result:
  assumes "ba_pages st = of_nat n" "0 < n" "n < 2 ^ 19"
    and "unat (ba_addr st) + (n - 1) * 4096 < 2 ^ 64 - 1"
  shows "\<exists>s'. BootAllocator_free st s = Inr (1, s')
    \<and> boot_used s' = boot_used s - {unat (ba_addr st) div 4096 ..< unat (ba_addr st) div 4096 + n}
    \<and> (\<exists>A. s' = s\<lparr>alloc_map := (alloc_map s)\<lparr>bm_words := A\<rparr>\<rparr>)"
proof -
  let ?d = "(n - 1) * 4096"
  have d: "(ba_pages st - 1) * ARCH_PAGE_SIZE = (of_nat ?d :: u32)"
    using assms(1,2) by (simp add: page_size_val of_nat_diff)
  have small: "?d < 2 ^ 31" using assms(2,3) by simp
  have wide: "(of_nat ?d :: u64) = scast (of_nat ?d :: u32)"
    by (rule scast_of_nat_small [symmetric]) (use small in simp)
  define lim where "lim = ba_addr st + of_nat ?d"
  have lim: "unat lim = unat (ba_addr st) + ?d"
    unfolding lim_def using assms(4) by (intro unat_add_of_nat) simp
  with assms(4) have "unat lim < 2 ^ 64 - 1" by simp
  from free_loop_result [OF this, of "bm_words (alloc_map s)" "ba_addr st"] obtain A' where
    A': "BootAllocator_free_loop (bm_words (alloc_map s)) (ba_addr st) lim = Some A'"
    and bits': "\<And>j. bm_bit A' j \<longleftrightarrow> bm_bit (bm_words (alloc_map s)) j \<and> \<not> (ba_addr st \<le> lim
      \<and> unat (ba_addr st) div 4096 \<le> j \<and> j \<le> unat lim div 4096)"
    by blast
  have "unat lim div 4096 = unat (ba_addr st) div 4096 + (n - 1)"
    unfolding lim by simp
  moreover have "ba_addr st \<le> lim" by (simp add: word_le_nat_alt lim)
  ultimately have bits: "bm_bit A' j \<longleftrightarrow> bm_bit (bm_words (alloc_map s)) j
      \<and> j \<notin> {unat (ba_addr st) div 4096 ..< unat (ba_addr st) div 4096 + n}" for j
    unfolding bits' using assms(2) by auto
  have "BootAllocator_free st s = Inr (1, s\<lparr>alloc_map := (alloc_map s)\<lparr>bm_words := A'\<rparr>\<rparr>)"
    unfolding BootAllocator_free_def Let_def d wide [symmetric] lim_def [symmetric] A' by simp
  moreover have "boot_used (s\<lparr>alloc_map := (alloc_map s)\<lparr>bm_words := A'\<rparr>\<rparr>)
      = boot_used s - {unat (ba_addr st) div 4096 ..< unat (ba_addr st) div 4096 + n}"
    by (auto simp: boot_used_def bits)
  ultimately show ?thesis by blast
qed

section \<open>Properties\<close>

text \<open>C1. Pages handed out by a run of \<open>BootAllocator::allocate_single\<close> calls are pairwise
  distinct, were free before, lie below the bitmap's bit count, and are exactly the pages
  marked by the run.\<close>

theorem boot_run_disjoint:
  assumes "boot_inv s" and "alloc_run boot_page n s = Inr (ks, s')"
  shows "distinct ks \<and> length ks = n
    \<and> set ks \<subseteq> {..< unat (bm_bit_count (alloc_map s))} - boot_used s
    \<and> boot_used s' = boot_used s \<union> set ks \<and> boot_inv s'"
  using boot.run_distinct [OF assms] by (auto simp: boot_managed_def)

text \<open>C2. The boot allocator serves exactly as many single-page requests as there are free
  pages: a run of \<open>n\<close> calls returns when \<open>n\<close> pages are free, and panics otherwise.\<close>

theorem boot_run_exact:
  assumes "boot_inv s"
  shows "if n \<le> card ({..< unat (bm_bit_count (alloc_map s))} - boot_used s)
    then \<exists>r. alloc_run boot_page n s = Inr r
    else alloc_run boot_page n s = Inl Panicked"
  using boot.run_total [OF assms, of n] unfolding boot_managed_def .

text \<open>\<open>BootAllocator::free\<close> of \<open>n\<close> pages ends and clears the bits of exactly the \<open>n\<close> pages from
  the one that holds the address, however the byte loop walks them.\<close>

theorem boot_free_exact:
  assumes "ba_pages st = of_nat n" and "0 < n" and "n < 2 ^ 19"
    and "unat (ba_addr st) + (n - 1) * 4096 < 2 ^ 64 - 1"
  shows "\<exists>s'. BootAllocator_free st s = Inr (1, s')
    \<and> boot_used s' = boot_used s - {unat (ba_addr st) div 4096 ..< unat (ba_addr st) div 4096 + n}"
  using free_result [OF assms] by blast

text \<open>Freeing the page \<open>allocate_single\<close> has just returned, with a page count of one, gives
  back the set of used pages the call started from.\<close>

theorem boot_alloc_free_roundtrip:
  assumes "boot_inv s" and "BootAllocator_allocate_single p s = Inr (r, p', s')"
  shows "\<exists>s''. BootAllocator_free (p'\<lparr>ba_pages := 1\<rparr>) s' = Inr (1, s'')
    \<and> boot_used s'' = boot_used s"
proof -
  from assms(1) obtain k where t: "takes_page k p s (r, p', s')"
    by (cases rule: allocate_single_cases [where p = p]) (use assms(2) in auto)
  have a: "unat (ba_addr p') = k * 4096" by (rule takes_page_inv [OF assms(1) t])
  have u: "k \<notin> boot_used s" "boot_used s' = insert k (boot_used s)"
    and "k < unat (bm_bit_count (alloc_map s))"
    using t by (auto simp: takes_page_def)
  with assms(1) have "k < 2 ^ 31" by (simp add: boot_inv_def)
  with a have "\<exists>s''. BootAllocator_free (p'\<lparr>ba_pages := 1\<rparr>) s' = Inr (1, s'')
      \<and> boot_used s'' = boot_used s' - {k ..< k + 1}"
    using free_result [of "p'\<lparr>ba_pages := 1\<rparr>" 1 s'] by auto
  with u show ?thesis by auto
qed

subsection \<open>Witnesses\<close>

text \<open>Three pages, the middle one in use, and a cursor that has run off the end.\<close>

definition boot_example :: boot_allocator where
  "boot_example =
     \<lparr>alloc_map = \<lparr>bm_length = 1, bm_bit_count = 3, bm_words = (\<lambda>_. NOT 5)\<rparr>, ba_ptr = 3\<rparr>"

lemma boot_example_used:
  "k < 32 \<Longrightarrow> k \<in> boot_used boot_example \<longleftrightarrow> k \<noteq> 0 \<and> k \<noteq> 2"
proof -
  have "(5 :: u32) = push_bit 0 1 OR push_bit 2 1" by simp
  then have "bit (5 :: u32) k \<longleftrightarrow> k = 0 \<or> k = 2"
    by (simp only: bit_simps) auto
  moreover assume "k < 32"
  ultimately show ?thesis
    by (simp add: boot_example_def boot_used_def bm_bit_def bit_simps)
qed

lemma boot_example_inv: "boot_inv boot_example"
  using boot_example_used by (auto simp: boot_inv_def boot_example_def boot_used_def)

lemma boot_example_free: "{..< 3} - boot_used boot_example = {0, 2}"
proof -
  have "x \<in> {..< 3} - boot_used boot_example \<longleftrightarrow> x \<in> {0, 2}" for x
  proof (cases "x < 3")
    case True
    then show ?thesis using boot_example_used [of x] by auto
  next
    case False
    then show ?thesis by auto
  qed
  then show ?thesis by blast
qed

lemma boot_example_count: "unat (bm_bit_count (alloc_map boot_example)) = 3"
  by (simp add: boot_example_def)

theorem boot_run_disjoint_witness:
  "\<exists>ks s'. alloc_run boot_page 2 boot_example = Inr (ks, s') \<and> distinct ks \<and> set ks = {0, 2}"
proof -
  have "card ({..< 3} - boot_used boot_example) = 2" by (simp add: boot_example_free)
  then obtain ks s' where run: "alloc_run boot_page 2 boot_example = Inr (ks, s')"
    using boot.run_total [OF boot_example_inv, of 2]
    by (auto simp: boot_managed_def boot_example_count)
  from boot_run_disjoint [OF boot_example_inv run]
  have "distinct ks" "length ks = 2" "set ks \<subseteq> {0, 2}"
    by (simp_all add: boot_example_count boot_example_free)
  then have "set ks = {0, 2}"
    by (intro card_subset_eq) (auto simp: distinct_card)
  with run \<open>distinct ks\<close> show ?thesis by blast
qed

theorem boot_run_exact_witness: "alloc_run boot_page 3 boot_example = Inl Panicked"
  using boot_run_exact [OF boot_example_inv, of 3]
  by (simp add: boot_example_count boot_example_free)

theorem boot_free_exact_witness:
  "\<exists>s'. BootAllocator_free \<lparr>ba_addr = 4096, ba_pages = 2\<rparr> boot_example = Inr (1, s')
     \<and> boot_used s' = boot_used boot_example - {1 ..< 3}"
  using boot_free_exact [of "\<lparr>ba_addr = 4096, ba_pages = 2\<rparr>" 2 boot_example]
  by (simp add: numeral_3_eq_3)

theorem boot_alloc_free_roundtrip_witness:
  "\<exists>p' s' s''. BootAllocator_allocate_single \<lparr>ba_addr = 0, ba_pages = 0\<rparr> boot_example = Inr (1, p', s')
     \<and> BootAllocator_free (p'\<lparr>ba_pages := 1\<rparr>) s' = Inr (1, s'')
     \<and> boot_used s'' = boot_used boot_example"
  using boot_example_inv
proof (cases rule: allocate_single_cases [where p = "\<lparr>ba_addr = 0, ba_pages = 0\<rparr>"])
  case (taken k r)
  then obtain p' s' where
    "BootAllocator_allocate_single \<lparr>ba_addr = 0, ba_pages = 0\<rparr> boot_example = Inr (1, p', s')"
    by (auto simp: takes_page_def)
  with boot_alloc_free_roundtrip [OF boot_example_inv this] show ?thesis by blast
next
  case panic
  then have "(0::nat) \<in> boot_used boot_example" by (auto simp: boot_example_def)
  with boot_example_used [of 0] show ?thesis by simp
qed

end
