(* ===== verification/PmmNode.thy ===== *)
theory PmmNode
  imports Arch Bitmap LinkedList BootAlloc
begin

text \<open>
  \<open>core/mm/pmm_node.cc\<close> with \<open>include/core/memory.h\<close>: the kernel's page allocator after boot. Physical
  memory is a list of arenas; an arena has one \<open>page_t\<close> per page and a list of the free ones.
  An arena is the address of its \<open>struct pmm_arena\<close> and a page the address of its \<open>page_t\<close>; both
  start with their list node, so the address is also that of the node. The list head that
  \<open>allocate\<close>, \<open>allocate_contiguous\<close> and \<open>free\<close> keep on the stack is an argument \<open>hp\<close>.
  Log output is left out.
\<close>

section \<open>State\<close>

record page =
  pg_flags :: u32
  pg_ref :: u32

record pmm_arena =
  ar_flags :: u16
  ar_base :: phys_t
  ar_size :: u32
  ar_free :: u32
  ar_priority :: u32       \<comment> \<open>a signed int\<close>
  ar_pages :: addr

record pmm_node =
  nheap :: lheap
  narenas :: "addr \<Rightarrow> pmm_arena"
  npages :: "addr \<Rightarrow> page"
  arena_list :: addr

text \<open>\<open>sizeof(page_t)\<close> and the offset of \<open>free_list\<close> in \<open>struct pmm_arena\<close> on i386.\<close>

definition sizeof_page :: u32 where "sizeof_page = 8 + 4 + 4"

definition free_list :: "addr \<Rightarrow> addr" where "free_list a = a + 36"

definition CX_PAGE_OCCUPIED :: u32 where "CX_PAGE_OCCUPIED = push_bit 0 1"

definition page_at :: "pmm_arena \<Rightarrow> u32 \<Rightarrow> addr" where
  "page_at ar i = ar_pages ar + i * sizeof_page"

definition PAGE_IS_IN_ARENA :: "addr \<Rightarrow> pmm_arena \<Rightarrow> bool" where
  "PAGE_IS_IN_ARENA p ar \<longleftrightarrow> p \<ge> ar_pages ar \<and> p < ar_pages ar + ar_size ar * sizeof_page"

definition ADDRESS_FROM_ARENA :: "addr \<Rightarrow> pmm_arena \<Rightarrow> phys_t" where
  "ADDRESS_FROM_ARENA p ar = ar_base ar + ucast ((p - ar_pages ar) div sizeof_page) * ARCH_PAGE_SIZE"

definition upd_arena :: "addr \<Rightarrow> (pmm_arena \<Rightarrow> pmm_arena) \<Rightarrow> pmm_node \<Rightarrow> pmm_node" where
  "upd_arena a f s = s\<lparr>narenas := (narenas s)(a := f (narenas s a))\<rparr>"

definition upd_page :: "addr \<Rightarrow> (page \<Rightarrow> page) \<Rightarrow> pmm_node \<Rightarrow> pmm_node" where
  "upd_page p f s = s\<lparr>npages := (npages s)(p := f (npages s p))\<rparr>"

definition on_heap :: "(lheap \<Rightarrow> kerror + lheap) \<Rightarrow> pmm_node \<Rightarrow> kerror + pmm_node" where
  "on_heap f s = map_sum id (\<lambda>h. s\<lparr>nheap := h\<rparr>) (f (nheap s))"

section \<open>Operations\<close>

subsection \<open>Lookup\<close>

text \<open>The loop over the arenas, from \<open>a\<close>, up to the one that holds the page; NULL if none.\<close>

partial_function (option) find_arena :: "pmm_node \<Rightarrow> addr \<Rightarrow> addr \<Rightarrow> addr option" where
  "find_arena s p a =
     (if a = NULL then Some NULL
      else if PAGE_IS_IN_ARENA p (narenas s a) then Some a
      else find_arena s p (lnext (nheap s a)))"

definition PmmNode_page_to_physical :: "addr \<Rightarrow> pmm_node \<Rightarrow> kerror + phys_t" where
  "PmmNode_page_to_physical p s =
     bind_res (loop_res (find_arena s p (lnext (nheap s (arena_list s))))) (\<lambda>a.
       Inr (if a = NULL then 0 else ADDRESS_FROM_ARENA p (narenas s a)))"

subsection \<open>Adding an arena\<close>

partial_function (option) find_priority :: "pmm_node \<Rightarrow> u32 \<Rightarrow> addr \<Rightarrow> addr option" where
  "find_priority s prio an =
     (if an = NULL then Some NULL
      else if sint (ar_priority (narenas s an)) > sint prio then Some an
      else find_priority s prio (lnext (nheap s an)))"

text \<open>\<open>memset(arena->pages, 0, n)\<close> over whole \<open>page_t\<close>s.\<close>

primrec clear_pages :: "addr \<Rightarrow> nat \<Rightarrow> pmm_node \<Rightarrow> pmm_node" where
  "clear_pages p 0 s = s"
| "clear_pages p (Suc n) s =
     clear_pages (p + sizeof_page) n
       (s\<lparr>nheap := (nheap s)(p := \<lparr>lprev = NULL, lnext = NULL\<rparr>),
          npages := (npages s)(p := \<lparr>pg_flags = 0, pg_ref = 0\<rparr>)\<rparr>)"

function link_pages :: "addr \<Rightarrow> u32 \<Rightarrow> addr \<Rightarrow> pmm_node \<Rightarrow> kerror + pmm_node" where
  "link_pages a i prev s =
     (if i < ar_size (narenas s a)
      then let pg = page_at (narenas s a) i in
        bind_res (on_heap (INIT_LLIST pg) s) (\<lambda>s1.
        bind_res (on_heap (list_append prev pg) s1) (\<lambda>s2.
          link_pages a (i + 1) pg (upd_arena a (\<lambda>ar. ar\<lparr>ar_free := ar_free ar + 1\<rparr>) s2)))
      else Inr s)"
  by pat_completeness auto
termination
  by (relation "measure (\<lambda>(a, i, prev, s). unat (ar_size (narenas s a)) - unat i)")
    (auto simp: on_heap_def upd_arena_def c_words word_less_nat_alt map_sum_def
      split: sum.splits)

function occupy_pages :: "addr \<Rightarrow> bitmap \<Rightarrow> u32 \<Rightarrow> pmm_node \<Rightarrow> kerror + pmm_node" where
  "occupy_pages a bt i s =
     (if i < ar_size (narenas s a)
      then if bitmap_tstbit (bm_words bt) (unat i) \<noteq> 0
        then let pg = page_at (narenas s a) i in
          bind_res (list_remove pg (nheap s)) (\<lambda>(_, h).
            occupy_pages a bt (i + 1)
              (upd_arena a (\<lambda>ar. ar\<lparr>ar_free := ar_free ar - 1\<rparr>)
                (upd_page pg (\<lambda>q. q\<lparr>pg_flags := pg_flags q OR CX_PAGE_OCCUPIED\<rparr>) (s\<lparr>nheap := h\<rparr>))))
        else occupy_pages a bt (i + 1) s
      else Inr s)"
  by pat_completeness auto
termination
  by (relation "measure (\<lambda>(a, bt, i, s). unat (ar_size (narenas s a)) - unat i)")
    (auto simp: upd_page_def upd_arena_def c_words word_less_nat_alt)

definition PmmNode_add_arena :: "addr \<Rightarrow> bitmap option \<Rightarrow> pmm_node \<Rightarrow> kerror + pmm_node" where
  "PmmNode_add_arena a bt s =
     (if a = NULL then Inr s
      else
        bind_res (on_heap (INIT_LLIST a) s) (\<lambda>s.
        bind_res (on_heap (INIT_LLIST (free_list a)) s) (\<lambda>s.
        let s = upd_arena a (\<lambda>ar. ar\<lparr>ar_free := 0\<rparr>) s; first = lnext (nheap s (arena_list s)) in
        bind_res (if first \<noteq> NULL
                  then loop_res (find_priority s (ar_priority (narenas s a)) first)
                  else Inr NULL) (\<lambda>an.
        bind_res (on_heap (if an = NULL then list_append (arena_list s) a else list_insert an a) s) (\<lambda>s.
        let ar = narenas s a; s = clear_pages (ar_pages ar) (unat (ar_size ar * sizeof_page) div 16) s in
        bind_res (link_pages a 0 (free_list a) s) (\<lambda>s.
          case bt of
            None \<Rightarrow> Inr s
          | Some b \<Rightarrow> occupy_pages a b (ucast (ar_base (narenas s a) div ARCH_PAGE_SIZE)) s))))))"

subsection \<open>Allocation\<close>

text \<open>
  The inner loop of \<open>allocate\<close> on one arena. The flag of the result says that it left through
  \<open>goto end\<close>.
\<close>

function take_pages :: "addr \<Rightarrow> addr \<Rightarrow> u32 \<Rightarrow> u32 \<Rightarrow> pmm_node \<Rightarrow> kerror + (bool \<times> u32 \<times> pmm_node)" where
  "take_pages a hp cnt ret s =
     (if ret < cnt
      then if ar_free (narenas s a) = 0 \<or> lnext (nheap s (free_list a)) = NULL
        then Inr (True, ret, s)
        else
          bind_res (list_remove (lnext (nheap s (free_list a))) (nheap s)) (\<lambda>(pg, h).
            if pg = NULL \<or> lprev (h pg) = pg \<and> lnext (h pg) = NULL
            then Inr (True, ret, s\<lparr>nheap := h\<rparr>)
            else
              bind_res (on_heap (list_append hp pg)
                  (upd_arena a (\<lambda>ar. ar\<lparr>ar_free := ar_free ar - 1\<rparr>)
                    (upd_page pg (\<lambda>q. q\<lparr>pg_flags := pg_flags q OR CX_PAGE_OCCUPIED\<rparr>) (s\<lparr>nheap := h\<rparr>))))
                (\<lambda>s. take_pages a hp cnt (ret + 1) s))
      else Inr (False, ret, s))"
  by pat_completeness auto
termination
  by (relation "measure (\<lambda>(a, hp, cnt, ret, s). unat cnt - unat ret)")
    (auto simp: c_words word_less_nat_alt)

partial_function (option) take_arenas ::
    "addr \<Rightarrow> u32 \<Rightarrow> u32 \<Rightarrow> addr \<Rightarrow> pmm_node \<Rightarrow> (kerror + (u32 \<times> pmm_node)) option" where
  "take_arenas hp cnt ret a s =
     (if a = NULL then Some (Inr (ret, s))
      else case take_pages a hp cnt ret s of
          Inl e \<Rightarrow> Some (Inl e)
        | Inr (done, ret', s') \<Rightarrow>
            if done then Some (Inr (ret', s')) else take_arenas hp cnt ret' (lnext (nheap s' a)) s')"

text \<open>
  \<open>*pages = head.next; (*pages) -> prev = *pages\<close>. The result of the operations is the count, what
  was stored in \<open>*pages\<close> if anything, and the state.
\<close>

definition return_list :: "addr \<Rightarrow> u32 \<Rightarrow> pmm_node \<Rightarrow> kerror + (u32 \<times> addr option \<times> pmm_node)" where
  "return_list hp ret s =
     (let pages = lnext (nheap s hp) in
      if pages = NULL then Inl Null_deref
      else Inr (ret, Some pages, s\<lparr>nheap := set_prev pages pages (nheap s)\<rparr>))"

definition PmmNode_allocate ::
    "addr \<Rightarrow> u32 \<Rightarrow> pmm_node \<Rightarrow> kerror + (u32 \<times> addr option \<times> pmm_node)" where
  "PmmNode_allocate hp cnt s =
     bind_res (on_heap (INIT_LLIST hp) s) (\<lambda>s.
     if cnt = 0 then Inr (0, None, s)
     else bind_res (loop_err (take_arenas hp cnt 0 (lnext (nheap s (arena_list s))) s))
            (\<lambda>(ret, s). return_list hp ret s))"

definition PmmNode_allocate_single ::
    "addr \<Rightarrow> pmm_node \<Rightarrow> kerror + (u32 \<times> addr option \<times> pmm_node)" where
  "PmmNode_allocate_single hp s = PmmNode_allocate hp 1 s"

subsection \<open>Contiguous allocation\<close>

text \<open>
  The state of the search: the length of the best run, the index of its last page and its
  arena. \<open>contig_pages\<close> is the loop over the pages of arena \<open>a\<close>, \<open>n\<close> being \<open>(int) arena->size\<close>
  as a number of rounds; its flag says that it left through \<open>goto done\<close>.
\<close>

type_synonym contig = "u32 \<times> int \<times> addr"

function contig_pages :: "pmm_node \<Rightarrow> addr \<Rightarrow> u32 \<Rightarrow> nat \<Rightarrow> nat \<Rightarrow> u32 \<Rightarrow> contig \<Rightarrow> bool \<times> contig" where
  "contig_pages s a cnt n i r2 best =
     (if i < n
      then
        if pg_flags (npages s (page_at (narenas s a) (of_nat i))) AND CX_PAGE_OCCUPIED = 0 \<and> r2 < cnt
        then contig_pages s a cnt n (Suc i) (r2 + 1) best
        else
          let best' = (if r2 \<le> fst best \<and> r2 \<ge> cnt then (r2, int i - 1, a) else best) in
          if r2 = cnt then (True, best') else contig_pages s a cnt n (Suc i) 0 best'
      else (False, best))"
  by pat_completeness auto
termination by (relation "measure (\<lambda>(s, a, cnt, n, i, r2, best). n - i)") auto

partial_function (option) contig_arenas :: "pmm_node \<Rightarrow> u32 \<Rightarrow> addr \<Rightarrow> contig \<Rightarrow> contig option" where
  "contig_arenas s cnt a best =
     (if a = NULL then Some best
      else let (found, best') = contig_pages s a cnt (nat (sint (ar_size (narenas s a)))) 0 0 best
           in if found then Some best' else contig_arenas s cnt (lnext (nheap s a)) best')"

text \<open>Taking the run, from its last page downwards.\<close>

primrec take_run :: "nat \<Rightarrow> addr \<Rightarrow> addr \<Rightarrow> int \<Rightarrow> u32 \<Rightarrow> pmm_node \<Rightarrow> kerror + (u32 \<times> pmm_node)" where
  "take_run 0 a hp idx ret s = Inr (ret, s)"
| "take_run (Suc n) a hp idx ret s =
     (let pg = page_at (narenas s a) (of_int idx) in
      bind_res (list_remove pg (nheap s)) (\<lambda>(_, h).
      bind_res (on_heap (list_append hp pg)
          (upd_arena a (\<lambda>ar. ar\<lparr>ar_free := ar_free ar - 1\<rparr>)
            (upd_page pg (\<lambda>q. q\<lparr>pg_flags := pg_flags q OR CX_PAGE_OCCUPIED\<rparr>) (s\<lparr>nheap := h\<rparr>))))
        (\<lambda>s. take_run n a hp (idx - 1) (ret + 1) s)))"

definition PmmNode_allocate_contiguous ::
    "addr \<Rightarrow> u32 \<Rightarrow> pmm_node \<Rightarrow> kerror + (u32 \<times> addr option \<times> pmm_node)" where
  "PmmNode_allocate_contiguous hp cnt s =
     bind_res (on_heap (INIT_LLIST hp) s) (\<lambda>s.
     if cnt = 0 then Inr (0, None, s)
     else bind_res (loop_res (contig_arenas s cnt (lnext (nheap s (arena_list s))) (0x7FFFFFFF, 0, NULL)))
       (\<lambda>(r1, idx, farena).
          if r1 \<noteq> cnt \<or> farena = NULL then Inr (0, None, s)
          else bind_res (take_run (nat (sint r1)) farena hp idx 0 s) (\<lambda>(ret, s). return_list hp ret s)))"

subsection \<open>Freeing\<close>

text \<open>A page outside every arena is unlinked and dropped.\<close>

partial_function (option) free_pages :: "addr \<Rightarrow> u32 \<Rightarrow> pmm_node \<Rightarrow> (kerror + (u32 \<times> pmm_node)) option" where
  "free_pages hp ret s =
     (if lnext (nheap s hp) = NULL then Some (Inr (ret, s))
      else case list_remove (lnext (nheap s hp)) (nheap s) of
          Inl e \<Rightarrow> Some (Inl e)
        | Inr (pg, h) \<Rightarrow>
            Option.bind (find_arena (s\<lparr>nheap := h\<rparr>) pg (lnext (h (arena_list s)))) (\<lambda>a.
              if a = NULL then free_pages hp ret (s\<lparr>nheap := h\<rparr>)
              else case on_heap (list_append (free_list a) pg)
                    (upd_page pg (\<lambda>q. q\<lparr>pg_flags := pg_flags q AND NOT CX_PAGE_OCCUPIED\<rparr>) (s\<lparr>nheap := h\<rparr>)) of
                  Inl e \<Rightarrow> Some (Inl e)
                | Inr s' \<Rightarrow> free_pages hp (ret + 1) (upd_arena a (\<lambda>ar. ar\<lparr>ar_free := ar_free ar + 1\<rparr>) s')))"

text \<open>The argument \<open>pglist\<close> is \<open>*p\<close>; the second result is what \<open>*p\<close> holds afterwards.\<close>

definition PmmNode_free :: "addr \<Rightarrow> addr \<Rightarrow> pmm_node \<Rightarrow> kerror + (u32 \<times> addr \<times> pmm_node)" where
  "PmmNode_free hp pglist s =
     bind_res (on_heap (INIT_LLIST hp) s) (\<lambda>s.
     let s = s\<lparr>nheap := set_next hp pglist (nheap s)\<rparr> in
     if pglist = NULL then Inl Null_deref
     else bind_res (loop_err (free_pages hp 0 (s\<lparr>nheap := set_prev pglist hp (nheap s)\<rparr>)))
            (\<lambda>(ret, s). Inr (ret, lnext (nheap s hp), s)))"

definition PmmNode_get_type :: u32 where "PmmNode_get_type = PMM_TYPE_LIST"

declare link_pages.simps [simp del] occupy_pages.simps [simp del] take_pages.simps [simp del]
  contig_pages.simps [simp del]

section \<open>The invariant\<close>

text \<open>What no operation changes once an arena is in place.\<close>

definition geometry :: "pmm_node \<Rightarrow> addr \<times> (addr \<Rightarrow> pmm_arena)" where
  "geometry s = (arena_list s, \<lambda>a. (narenas s a)\<lparr>ar_free := 0\<rparr>)"

definition arena_pages :: "pmm_node \<Rightarrow> addr \<Rightarrow> addr list" where
  "arena_pages s a = map (\<lambda>i. page_at (narenas s a) (of_nat i)) [0 ..< unat (ar_size (narenas s a))]"

definition footprint :: "pmm_node \<Rightarrow> addr list \<Rightarrow> addr list" where
  "footprint s A = arena_list s # A @ map free_list A @ concat (map (arena_pages s) A)"

definition array_end :: "pmm_arena \<Rightarrow> nat" where
  "array_end ar = unat (ar_pages ar) + 16 * unat (ar_size ar)"

definition layout :: "pmm_node \<Rightarrow> addr list \<Rightarrow> bool" where
  "layout s A \<longleftrightarrow> distinct (footprint s A) \<and> NULL \<notin> set (footprint s A)
     \<and> (\<forall>a \<in> set A. array_end (narenas s a) < 2 ^ 32)
     \<and> (\<forall>a \<in> set A. \<forall>b \<in> set A. a \<noteq> b \<longrightarrow>
          array_end (narenas s a) \<le> unat (ar_pages (narenas s b))
          \<or> array_end (narenas s b) \<le> unat (ar_pages (narenas s a)))"

definition occupied :: "pmm_node \<Rightarrow> addr \<Rightarrow> bool" where
  "occupied s p \<longleftrightarrow> pg_flags (npages s p) AND CX_PAGE_OCCUPIED \<noteq> 0"

text \<open>
  \<open>pool s A F\<close>: the arenas of the list are \<open>A\<close>, and for each of them \<open>F a\<close> is its list of free
  pages: exactly the pages of the arena that are not flagged occupied, counted by \<open>free\<close>.
\<close>

definition pool :: "pmm_node \<Rightarrow> addr list \<Rightarrow> (addr \<Rightarrow> addr list) \<Rightarrow> bool" where
  "pool s A F \<longleftrightarrow> layout s A \<and> dlist (nheap s) (arena_list s) A
     \<and> (\<forall>a \<in> set A. dlist (nheap s) (free_list a) (F a)
          \<and> set (F a) = {p \<in> set (arena_pages s a). \<not> occupied s p}
          \<and> ar_free (narenas s a) = of_nat (length (F a)))"

text \<open>\<open>held s A hp ys\<close>: the stack head \<open>hp\<close> lists the occupied pages \<open>ys\<close>.\<close>

definition held :: "pmm_node \<Rightarrow> addr list \<Rightarrow> addr \<Rightarrow> addr list \<Rightarrow> bool" where
  "held s A hp ys \<longleftrightarrow> hp \<notin> set (footprint s A) \<and> dlist (nheap s) hp ys
     \<and> set ys \<subseteq> {p \<in> (\<Union>a \<in> set A. set (arena_pages s a)). occupied s p}"

section \<open>Geometry\<close>

lemma geometry_upd [simp]:
  "geometry (s\<lparr>nheap := h\<rparr>) = geometry s" "geometry (upd_page p f s) = geometry s"
  "geometry (upd_arena a (\<lambda>ar. ar\<lparr>ar_free := g ar\<rparr>) s) = geometry s"
  by (auto simp: geometry_def upd_page_def upd_arena_def)

lemma geometry_cong:
  assumes "geometry s' = geometry s"
  shows "arena_list s' = arena_list s" "arena_pages s' a = arena_pages s a"
    "footprint s' A = footprint s A" "layout s' A = layout s A"
    "ar_size (narenas s' a) = ar_size (narenas s a)"
    "ar_base (narenas s' a) = ar_base (narenas s a)"
    "ar_pages (narenas s' a) = ar_pages (narenas s a)"
proof -
  from assms have al: "arena_list s' = arena_list s"
    and *: "(narenas s' a)\<lparr>ar_free := 0\<rparr> = (narenas s a)\<lparr>ar_free := 0\<rparr>" for a
    by (simp_all add: geometry_def fun_eq_iff)
  have f: "ar_size (narenas s' a) = ar_size (narenas s a)" "ar_pages (narenas s' a) = ar_pages (narenas s a)"
    "ar_base (narenas s' a) = ar_base (narenas s a)" for a
    using arg_cong [OF *, of ar_size a] arg_cong [OF *, of ar_pages a] arg_cong [OF *, of ar_base a] by simp_all
  have p: "arena_pages s' a = arena_pages s a" for a
    by (simp add: arena_pages_def page_at_def f)
  then have pf: "arena_pages s' = arena_pages s" by (rule ext)
  show fp: "footprint s' A = footprint s A" by (simp add: footprint_def al pf)
  show "layout s' A = layout s A" by (simp add: layout_def fp array_end_def f)
  show "arena_list s' = arena_list s" "arena_pages s' a = arena_pages s a"
    "ar_size (narenas s' a) = ar_size (narenas s a)"
    "ar_base (narenas s' a) = ar_base (narenas s a)"
    "ar_pages (narenas s' a) = ar_pages (narenas s a)"
    by (fact al p f)+
qed

lemma heap_of_upd [simp]:
  "nheap (upd_page p f s) = nheap s" "nheap (upd_arena a g s) = nheap s"
  "npages (upd_arena a g s) = npages s" "narenas (upd_page p f s) = narenas s"
  "arena_list (upd_page p f s) = arena_list s" "arena_list (upd_arena a g s) = arena_list s"
  by (simp_all add: upd_page_def upd_arena_def)

lemma page_address:
  assumes "array_end (narenas s a) < 2 ^ 32" "i < unat (ar_size (narenas s a))"
  shows "unat (page_at (narenas s a) (of_nat i)) = unat (ar_pages (narenas s a)) + 16 * i"
proof -
  have "page_at (narenas s a) (of_nat i) = ar_pages (narenas s a) + of_nat (16 * i)"
    by (simp add: page_at_def sizeof_page_def)
  moreover have "unat (ar_pages (narenas s a)) + 16 * i < 2 ^ LENGTH(32)"
    using assms by (simp add: array_end_def)
  ultimately show ?thesis by (simp only: unat_add_of_nat)
qed

text \<open>The range test finds exactly the pages of the arena's own array.\<close>

lemma in_arena_iff:
  assumes "array_end (narenas s a) < 2 ^ 32"
  shows "PAGE_IS_IN_ARENA p (narenas s a) \<longleftrightarrow>
    unat (ar_pages (narenas s a)) \<le> unat p \<and> unat p < array_end (narenas s a)"
proof -
  let ?ar = "narenas s a"
  have "ar_pages ?ar + ar_size ?ar * sizeof_page = ar_pages ?ar + of_nat (16 * unat (ar_size ?ar))"
    by (simp add: sizeof_page_def)
  moreover have "unat (ar_pages ?ar + of_nat (16 * unat (ar_size ?ar))) = array_end ?ar"
    using assms by (subst unat_add_of_nat) (simp_all add: array_end_def)
  ultimately show ?thesis
    by (simp add: PAGE_IS_IN_ARENA_def word_le_nat_alt word_less_nat_alt)
qed

lemma layoutD:
  assumes "layout s A"
  shows "distinct (arena_list s # A)"
    and "a \<in> set A \<Longrightarrow> free_list a \<notin> set (arena_list s # A)"
    and "a \<in> set A \<Longrightarrow> p \<in> set (arena_pages s a) \<Longrightarrow> p \<notin> set (arena_list s # A)"
    and "a \<in> set A \<Longrightarrow> b \<in> set A \<Longrightarrow> p \<in> set (arena_pages s a) \<Longrightarrow> p \<noteq> free_list b"
    and "a \<in> set A \<Longrightarrow> b \<in> set A \<Longrightarrow> a \<noteq> b \<Longrightarrow> set (arena_pages s a) \<inter> set (arena_pages s b) = {}"
    and "a \<in> set A \<Longrightarrow> distinct (arena_pages s a)"
    and "NULL \<notin> set (footprint s A)"
proof -
  have d: "distinct (footprint s A)" and n: "NULL \<notin> set (footprint s A)"
    using assms by (simp_all add: layout_def)
  then have dc: "distinct (concat (map (arena_pages s) A))" by (simp add: footprint_def)
  show "distinct (arena_list s # A)" "NULL \<notin> set (footprint s A)"
    using d n by (auto simp: footprint_def)
  have sep: "set (arena_list s # A) \<inter> free_list ` set A = {}"
      "set (arena_list s # A) \<inter> (\<Union>a \<in> set A. set (arena_pages s a)) = {}"
      "free_list ` set A \<inter> (\<Union>a \<in> set A. set (arena_pages s a)) = {}"
    using d by (simp_all add: footprint_def Int_Un_distrib)
  show "a \<in> set A \<Longrightarrow> free_list a \<notin> set (arena_list s # A)"
    and "a \<in> set A \<Longrightarrow> p \<in> set (arena_pages s a) \<Longrightarrow> p \<notin> set (arena_list s # A)"
    and "a \<in> set A \<Longrightarrow> b \<in> set A \<Longrightarrow> p \<in> set (arena_pages s a) \<Longrightarrow> p \<noteq> free_list b"
    using sep by blast+
  show "a \<in> set A \<Longrightarrow> distinct (arena_pages s a)"
    using dc by (auto simp: distinct_concat_iff)
  show "set (arena_pages s a) \<inter> set (arena_pages s b) = {}" if "a \<in> set A" "b \<in> set A" "a \<noteq> b"
  proof -
    obtain us vs ws where "A = us @ a # vs @ b # ws \<or> A = us @ b # vs @ a # ws"
      using \<open>a \<in> set A\<close> \<open>b \<in> set A\<close> \<open>a \<noteq> b\<close> by (metis split_list_first Un_iff append_assoc append_Cons
          set_append set_ConsD split_list)
    with dc show ?thesis by auto
  qed
qed

lemma occupied_bit: "occupied s p \<longleftrightarrow> bit (pg_flags (npages s p)) 0"
  unfolding occupied_def CX_PAGE_OCCUPIED_def by (simp only: and_push_bit_1_eq_0_iff not_not)

lemma occupied_set [simp]:
  "occupied (upd_page n (\<lambda>q. q\<lparr>pg_flags := pg_flags q OR CX_PAGE_OCCUPIED\<rparr>) s) p \<longleftrightarrow>
    p = n \<or> occupied s p"
  by (auto simp: occupied_bit upd_page_def CX_PAGE_OCCUPIED_def bit_or_iff)

lemma occupied_clear [simp]:
  "occupied (upd_page n (\<lambda>q. q\<lparr>pg_flags := pg_flags q AND NOT CX_PAGE_OCCUPIED\<rparr>) s) p \<longleftrightarrow>
    p \<noteq> n \<and> occupied s p"
  by (auto simp: occupied_bit upd_page_def CX_PAGE_OCCUPIED_def bit_and_iff bit_not_iff)

lemma occupied_other [simp]:
  "occupied (upd_arena a f s) p = occupied s p" "occupied (s\<lparr>nheap := h\<rparr>) p = occupied s p"
  by (simp_all add: occupied_def)

text \<open>The lists of the allocator share no nodes.\<close>

lemma poolD:
  assumes "pool s A F"
  shows "layout s A" "dlist (nheap s) (arena_list s) A"
    and "a \<in> set A \<Longrightarrow> dlist (nheap s) (free_list a) (F a)"
    and "a \<in> set A \<Longrightarrow> set (F a) = {p \<in> set (arena_pages s a). \<not> occupied s p}"
    and "a \<in> set A \<Longrightarrow> ar_free (narenas s a) = of_nat (length (F a))"
  using assms by (auto simp: pool_def)

lemma pool_disjoint:
  assumes p: "pool s A F" and h: "held s A hp ys" and a: "a \<in> set A"
  shows "set (free_list a # F a) \<inter> set (hp # ys) = {}"
    and "set (arena_list s # A) \<inter> set (free_list a # F a) = {}"
    and "set (arena_list s # A) \<inter> set (hp # ys) = {}"
    and "b \<in> set A \<Longrightarrow> b \<noteq> a \<Longrightarrow> set (free_list b # F b) \<inter> set (free_list a # F a) = {}"
proof -
  note L = layoutD [OF poolD(1) [OF p]] and Fa = poolD(4) [OF p a]
  have hpf: "hp \<notin> set (footprint s A)" using h by (simp add: held_def)
  have hp: "hp \<noteq> arena_list s" "hp \<notin> set A" "\<And>b. b \<in> set A \<Longrightarrow> hp \<noteq> free_list b"
    "\<And>b. b \<in> set A \<Longrightarrow> hp \<notin> set (arena_pages s b)"
    using hpf by (auto simp: footprint_def)
  have ys: "y \<in> set ys \<Longrightarrow> occupied s y \<and> (\<exists>b \<in> set A. y \<in> set (arena_pages s b))" for y
    using h by (auto simp: held_def)
  have ysA: "y \<in> set ys \<Longrightarrow> y \<notin> set (arena_list s # A)" for y
    using ys [of y] L(3) by blast
  show "set (free_list a # F a) \<inter> set (hp # ys) = {}"
    using Fa ys hp a L(4) [OF _ a] by auto metis
  show "set (arena_list s # A) \<inter> set (free_list a # F a) = {}"
    using Fa L(2) [OF a] L(3) [OF a] by auto
  show "set (arena_list s # A) \<inter> set (hp # ys) = {}"
    using ysA hp by auto
  show "set (free_list b # F b) \<inter> set (free_list a # F a) = {}" if b: "b \<in> set A" "b \<noteq> a"
    using Fa poolD(4) [OF p b(1)] L(4) [OF a b(1)] L(4) [OF b(1) a] L(5) [OF b(1) a b(2)] b(2)
    by (auto simp: free_list_def)
qed

abbreviation (input) taken :: "pmm_node \<Rightarrow> addr \<Rightarrow> addr \<Rightarrow> lheap \<Rightarrow> pmm_node" where
  "taken s a n h \<equiv> upd_arena a (\<lambda>ar. ar\<lparr>ar_free := ar_free ar - 1\<rparr>)
     (upd_page n (\<lambda>q. q\<lparr>pg_flags := pg_flags q OR CX_PAGE_OCCUPIED\<rparr>) (s\<lparr>nheap := h\<rparr>))"

lemma taken_heap: "(taken s a n h1)\<lparr>nheap := h\<rparr> = taken s a n h"
  by (simp add: upd_arena_def upd_page_def)

lemma take_page_step:
  assumes p: "pool s A F" and h: "held s A hp ys" and a: "a \<in> set A" and F: "F a = us @ n # vs"
  shows "\<exists>h1 s'. list_remove n (nheap s) = Inr (n, h1) \<and> h1 n = nheap s n
    \<and> on_heap (list_append hp n) (taken s a n h1) = Inr s'
    \<and> pool s' A (F(a := us @ vs)) \<and> held s' A hp (n # ys) \<and> geometry s' = geometry s
    \<and> (\<forall>q. occupied s' q \<longleftrightarrow> q = n \<or> occupied s q)"
proof -
  note P = poolD [OF p] and D = pool_disjoint [OF p h]
  have la: "dlist (nheap s) (free_list a) (us @ n # vs)" using P(3) [OF a] F by simp
  have lh: "dlist (nheap s) hp ys" using h by (simp add: held_def)
  obtain h1 h' where h1: "list_remove n (nheap s) = Inr (n, h1)" and h': "list_append hp n h1 = Inr h'"
    and ga: "dlist h' (free_list a) (us @ vs)" and gh: "dlist h' hp (n # ys)"
    and fr: "\<And>r zs. dlist (nheap s) r zs \<Longrightarrow>
       set (r # zs) \<inter> set (free_list a # hp # n # us @ vs @ ys) = {} \<Longrightarrow> dlist h' r zs"
    using dl.move_valid [OF la lh] D(1) [OF a] F by auto
  have "h1 n = nheap s n" using list_remove_dlist [OF la] h1 by auto
  define s' where "s' = taken s a n h'"
  have run: "on_heap (list_append hp n) (taken s a n h1) = Inr s'"
    using h' by (simp add: on_heap_def s'_def taken_heap)
  have g: "geometry s' = geometry s" by (simp add: s'_def)
  have occ: "occupied s' q \<longleftrightarrow> q = n \<or> occupied s q" for q by (simp add: s'_def)
  have nheap: "nheap s' = h'" by (simp add: s'_def)
  have split: "set (free_list a # hp # n # us @ vs @ ys) = set (free_list a # F a) \<union> set (hp # ys)"
    using F by auto
  have nd: "distinct (F a)" using P(3) [OF a] by (simp add: dlist_def)
  have n: "n \<in> set (arena_pages s a)" using P(4) [OF a] F by auto
  have "pool s' A (F(a := us @ vs))"
    unfolding pool_def geometry_cong [OF g] nheap occ
  proof (intro conjI ballI)
    show "layout s A" by (rule P(1))
    show "dlist h' (arena_list s) A"
      by (rule fr [OF P(2)]) (use D(2,3) [OF a] split in auto)
    fix b assume b: "b \<in> set A"
    show "dlist h' (free_list b) ((F(a := us @ vs)) b)"
    proof (cases "b = a")
      case False
      then show ?thesis
        by (simp, intro fr [OF P(3) [OF b]])
          (use D(1) [OF b] D(4) [OF a b False] in \<open>unfold split, blast\<close>)
    qed (use ga in simp)
    show "set ((F(a := us @ vs)) b) = {p \<in> set (arena_pages s b). \<not> (p = n \<or> occupied s p)}"
    proof (cases "b = a")
      case True
      then show ?thesis using P(4) [OF a] F nd by auto
    next
      case False
      then show ?thesis
        using P(4) [OF b] layoutD(5) [OF P(1) b a False] n by auto
    qed
    show "ar_free (narenas s' b) = of_nat (length ((F(a := us @ vs)) b))"
      using P(5) [OF b] F by (auto simp: s'_def upd_arena_def upd_page_def)
  qed
  moreover have "held s' A hp (n # ys)"
    using h gh n a unfolding held_def geometry_cong [OF g] nheap occ by auto
  ultimately show ?thesis using h1 \<open>h1 n = nheap s n\<close> run g occ by blast
qed

lemma free_list_bound:
  assumes "pool s A F" "a \<in> set A"
  shows "length (F a) \<le> unat (ar_size (narenas s a))" "length (F a) < 2 ^ 32"
proof -
  have "length (F a) = card (set (F a))"
    using poolD(3) [OF assms] by (simp add: dlist_def distinct_card)
  also have "\<dots> \<le> card (set (arena_pages s a))"
    using poolD(4) [OF assms] by (intro card_mono) auto
  also have "\<dots> \<le> length (arena_pages s a)" by (rule card_length)
  finally show 1: "length (F a) \<le> unat (ar_size (narenas s a))" by (simp add: arena_pages_def)
  have "unat (ar_size (narenas s a)) < 2 ^ LENGTH(32)" by (rule unsigned_less)
  with 1 show "length (F a) < 2 ^ 32" by simp
qed

lemma arena_empty_iff:
  assumes "pool s A F" "a \<in> set A"
  shows "ar_free (narenas s a) = 0 \<longleftrightarrow> F a = []" "lnext (nheap s (free_list a)) = NULL \<longleftrightarrow> F a = []"
proof -
  have "unat (ar_free (narenas s a)) = length (F a)"
    unfolding poolD(5) [OF assms] by (rule unat_of_nat_small) (use free_list_bound [OF assms] in simp)
  then show "ar_free (narenas s a) = 0 \<longleftrightarrow> F a = []" by (metis length_0_conv unat_eq_zero unat_0)
  show "lnext (nheap s (free_list a)) = NULL \<longleftrightarrow> F a = []"
    by (rule dlist_next_NULL [OF poolD(3) [OF assms]])
qed

lemma take_pages_result:
  assumes "pool s A F" "held s A hp ys" "a \<in> set A" "ret \<le> cnt"
    and "k = min (unat cnt - unat ret) (length (F a))"
  shows "\<exists>s'. take_pages a hp cnt ret s
      = Inr (length (F a) < unat cnt - unat ret, ret + of_nat k, s')
    \<and> pool s' A (F(a := drop k (F a))) \<and> held s' A hp (rev (take k (F a)) @ ys)
    \<and> geometry s' = geometry s"
  using assms
proof (induction "unat cnt - unat ret" arbitrary: ret s F ys k)
  case 0
  then have "\<not> ret < cnt" by (simp add: word_less_nat_alt)
  with 0 show ?case by (simp add: take_pages.simps)
next
  case (Suc m)
  then have lt: "ret < cnt" by (simp add: word_less_nat_alt)
  note empty = arena_empty_iff [OF Suc.prems(1,3)]
  show ?case
  proof (cases "F a")
    case Nil
    with Suc.prems lt empty show ?thesis
      by (subst take_pages.simps) (simp add: fun_upd_idem word_less_nat_alt)
  next
    case (Cons n F')
    have nx: "lnext (nheap s (free_list a)) = n" and pv: "lprev (nheap s n) = free_list a"
      and nf: "n \<noteq> free_list a" "n \<noteq> NULL"
      using poolD(3) [OF Suc.prems(1,3)] Cons by (auto simp: dlist_def linked_def)
    obtain h1 s1 where s1: "list_remove n (nheap s) = Inr (n, h1)" "h1 n = nheap s n"
      "on_heap (list_append hp n) (taken s a n h1) = Inr s1"
      "pool s1 A (F(a := F'))" "held s1 A hp (n # ys)" "geometry s1 = geometry s"
      using take_page_step [OF Suc.prems(1-3), of "[]" n F'] Cons by auto
    have step: "take_pages a hp cnt ret s = take_pages a hp cnt (ret + 1) s1"
      by (subst take_pages.simps) (use lt nx pv nf empty s1 Cons in simp)
    have u: "unat (ret + 1) = Suc (unat ret)" by (rule unat_plus_one_less [OF lt])
    have le: "ret + 1 \<le> cnt" using lt u by (simp add: word_le_nat_alt word_less_nat_alt)
    have m: "m = unat cnt - unat (ret + 1)" using Suc.hyps(2) u by simp
    define k' where "k' = min (unat cnt - unat (ret + 1)) (length F')"
    have k: "k = Suc k'"
      unfolding k'_def Suc.prems(5) using Cons u Suc.hyps(2) by simp
    have k'2: "k' = min (unat cnt - unat (ret + 1)) (length ((F(a := F')) a))"
      by (simp add: k'_def)
    obtain s' where "take_pages a hp cnt (ret + 1) s1
        = Inr (length F' < unat cnt - unat (ret + 1), ret + 1 + of_nat k', s')"
      "pool s' A (F(a := drop k' F'))" "held s' A hp (rev (take k' F') @ n # ys)"
      "geometry s' = geometry s1"
      using Suc.hyps(1) [OF m s1(4,5) Suc.prems(3) le k'2]
      unfolding fun_upd_upd fun_upd_same by auto
    then show ?thesis
      using step s1(6) Cons k u Suc.hyps(2) by (auto simp: algebra_simps)
  qed
qed

lemma pool_heap_frame [heap_frame]:
  assumes p: "pool s A F"
    and eq: "\<And>x. x \<in> set (arena_list s # A) \<Longrightarrow> h x = nheap s x"
      "\<And>a x. a \<in> set A \<Longrightarrow> x \<in> set (free_list a # F a) \<Longrightarrow> h x = nheap s x"
  shows "pool (s\<lparr>nheap := h\<rparr>) A F"
proof -
  have g: "geometry (s\<lparr>nheap := h\<rparr>) = geometry s" by simp
  show ?thesis
    unfolding pool_def geometry_cong [OF g]
    using poolD [OF p] dlist_frame [of "arena_list s" A h "nheap s"] eq
      dlist_frame [of "free_list a" "F a" h "nheap s" for a]
    by (auto simp del: set_simps)
qed

text \<open>Nodes the pool's lists do not use: a fresh stack node and the occupied pages.\<close>

definition outside :: "pmm_node \<Rightarrow> addr list \<Rightarrow> addr \<Rightarrow> bool" where
  "outside s A x \<longleftrightarrow> x \<notin> set (footprint s A)
     \<or> occupied s x \<and> x \<in> (\<Union>a \<in> set A. set (arena_pages s a))"

lemma outside_not_used:
  assumes "pool s A F" "outside s A x"
  shows "x \<notin> set (arena_list s # A)" "a \<in> set A \<Longrightarrow> x \<notin> set (free_list a # F a)"
proof -
  note L = layoutD [OF poolD(1) [OF assms(1)]]
  show "x \<notin> set (arena_list s # A)"
    using assms(2) L(3) [of _ x] by (auto simp: outside_def footprint_def)
  show "x \<notin> set (free_list a # F a)" if a: "a \<in> set A"
    using assms(2) poolD(4) [OF assms(1) a] L(4) [OF _ a, of _ x] a
    by (auto simp: outside_def footprint_def)
qed

lemma pool_outside_frame [heap_frame]:
  assumes "pool s A F" and "\<And>x. \<not> outside s A x \<Longrightarrow> h x = nheap s x"
  shows "pool (s\<lparr>nheap := h\<rparr>) A F"
  by (rule pool_heap_frame [OF assms(1)]) (use outside_not_used [OF assms(1)] assms(2) in blast)+

lemma take_pages_idle: "take_pages a hp cnt cnt s = Inr (False, cnt, s)"
  by (subst take_pages.simps) simp

lemma take_arenas_idle:
  "dlist (nheap s) p B \<Longrightarrow> take_arenas hp cnt cnt (lnext (nheap s p)) s = Some (Inr (cnt, s))"
proof (induction B arbitrary: p)
  case Nil
  then show ?case by (simp add: take_arenas.simps)
next
  case (Cons b B)
  then have "lnext (nheap s p) = b" "b \<noteq> NULL" by (auto simp: dlist_def linked_def)
  with Cons.IH [OF dlist_tail [OF Cons.prems]] show ?case
    by (simp add: take_arenas.simps [of _ _ _ b] take_pages_idle)
qed

lemma init_pool:
  assumes "pool s A F" "hp \<notin> set (footprint s A)" "hp \<noteq> NULL"
  shows "\<exists>h. on_heap (INIT_LLIST hp) s = Inr (s\<lparr>nheap := h\<rparr>) \<and> pool (s\<lparr>nheap := h\<rparr>) A F
    \<and> held (s\<lparr>nheap := h\<rparr>) A hp [] \<and> (\<forall>a. a \<noteq> hp \<longrightarrow> h a = nheap s a)"
proof -
  obtain h where h: "INIT_LLIST hp (nheap s) = Inr h" "rooted h hp []"
    "\<And>a. a \<noteq> hp \<Longrightarrow> h a = nheap s a"
    using init_dlist [OF assms(3), of "nheap s"] by blast
  have "pool (s\<lparr>nheap := h\<rparr>) A F"
    by (rule pool_outside_frame [OF assms(1)]) (use h(3) assms(2) in \<open>metis outside_def\<close>)
  moreover have g: "geometry (s\<lparr>nheap := h\<rparr>) = geometry s" by simp
  have "held (s\<lparr>nheap := h\<rparr>) A hp []"
    unfolding held_def geometry_cong [OF g] using h(2) assms(2) by (simp add: rooted_def)
  moreover have "on_heap (INIT_LLIST hp) s = Inr (s\<lparr>nheap := h\<rparr>)"
    using h(1) by (simp add: on_heap_def)
  ultimately show ?thesis using h by blast
qed

text \<open>Handing the held pages over: the first one points back to itself.\<close>

lemma return_list_result:
  assumes p: "pool s A F" and h: "held s A hp ys" and y: "ys \<noteq> []"
  shows "\<exists>s'. return_list hp ret s = Inr (ret, Some (hd ys), s')
    \<and> pool s' A F \<and> rooted (nheap s') (hd ys) (tl ys) \<and> geometry s' = geometry s
    \<and> npages s' = npages s"
proof -
  obtain z zs where ys: "ys = z # zs" using y by (cases ys) auto
  have l: "dlist (nheap s) hp (z # zs)" using h ys by (simp add: held_def)
  then have nx: "lnext (nheap s hp) = z" "z \<noteq> NULL" by (auto simp: dlist_def linked_def)
  let ?h = "set_prev z z (nheap s)"
  have out: "outside s A z" using h ys by (auto simp: held_def outside_def)
  have "pool (s\<lparr>nheap := ?h\<rparr>) A F"
    by (rule pool_outside_frame [OF p]) (use out in \<open>metis set_other(1)\<close>)
  moreover have "dlist ?h z zs" using dlist_tail [OF l] by simp
  ultimately show ?thesis
    using nx ys by (auto simp: return_list_def rooted_def Let_def)
qed

section \<open>Lookup and freeing\<close>

lemma arena_page_index:
  assumes "layout s A" "a \<in> set A" "n \<in> set (arena_pages s a)"
  obtains i where "i < unat (ar_size (narenas s a))" "n = page_at (narenas s a) (of_nat i)"
    "unat n = unat (ar_pages (narenas s a)) + 16 * i"
proof -
  obtain i where i: "i < unat (ar_size (narenas s a))" "n = page_at (narenas s a) (of_nat i)"
    using assms(3) by (auto simp: arena_pages_def)
  moreover have "array_end (narenas s a) < 2 ^ 32" using assms(1,2) by (simp add: layout_def)
  ultimately show thesis using that page_address by blast
qed

lemma in_arena_unique:
  assumes "layout s A" "a \<in> set A" "b \<in> set A" "n \<in> set (arena_pages s a)"
  shows "PAGE_IS_IN_ARENA n (narenas s b) \<longleftrightarrow> b = a"
proof -
  obtain i where i: "i < unat (ar_size (narenas s a))"
    "unat n = unat (ar_pages (narenas s a)) + 16 * i"
    using arena_page_index [OF assms(1,2,4)] by metis
  have e: "array_end (narenas s b) < 2 ^ 32" using assms(1,3) by (simp add: layout_def)
  have "b \<noteq> a \<Longrightarrow> array_end (narenas s b) \<le> unat (ar_pages (narenas s a))
      \<or> array_end (narenas s a) \<le> unat (ar_pages (narenas s b))"
    using assms(1-3) by (auto simp: layout_def)
  with i show ?thesis
    unfolding in_arena_iff [OF e] by (cases "b = a") (auto simp: array_end_def)
qed

lemma find_arena_result:
  assumes "layout s A" "a \<in> set A" "n \<in> set (arena_pages s a)"
    and "dlist (nheap s) p B" "set B \<subseteq> set A"
  shows "find_arena s n (lnext (nheap s p)) = Some (if a \<in> set B then a else NULL)"
  using assms(4,5)
proof (induction B arbitrary: p)
  case Nil
  then show ?case by (simp add: find_arena.simps)
next
  case (Cons b B)
  then have b: "lnext (nheap s p) = b" "b \<noteq> NULL" "b \<in> set A" by (auto simp: dlist_def linked_def)
  with Cons.IH [OF dlist_tail [OF Cons.prems(1)]] Cons.prems(2) show ?case
    using in_arena_unique [OF assms(1,2) b(3) assms(3)]
    by (auto simp: find_arena.simps [of _ _ b])
qed

lemma find_arena_none:
  assumes "dlist (nheap s) p B" "\<forall>b \<in> set B. \<not> PAGE_IS_IN_ARENA n (narenas s b)"
  shows "find_arena s n (lnext (nheap s p)) = Some NULL"
  using assms
proof (induction B arbitrary: p)
  case Nil
  then show ?case by (simp add: find_arena.simps)
next
  case (Cons b B)
  then have "lnext (nheap s p) = b" "b \<noteq> NULL" by (auto simp: dlist_def linked_def)
  with Cons.IH [OF dlist_tail [OF Cons.prems(1)]] Cons.prems(2) show ?case
    by (simp add: find_arena.simps [of _ _ b])
qed

abbreviation (input) freed :: "pmm_node \<Rightarrow> addr \<Rightarrow> lheap \<Rightarrow> pmm_node" where
  "freed s n h \<equiv> upd_page n (\<lambda>q. q\<lparr>pg_flags := pg_flags q AND NOT CX_PAGE_OCCUPIED\<rparr>) (s\<lparr>nheap := h\<rparr>)"

lemma free_page_step:
  assumes p: "pool s A F" and h: "held s A hp (n # ys)" and a: "a \<in> set A"
    and n: "n \<in> set (arena_pages s a)"
  shows "\<exists>h1 s'. list_remove n (nheap s) = Inr (n, h1)
    \<and> find_arena (s\<lparr>nheap := h1\<rparr>) n (lnext (h1 (arena_list s))) = Some a
    \<and> on_heap (list_append (free_list a) n) (freed s n h1) = Inr s'
    \<and> (let s'' = upd_arena a (\<lambda>ar. ar\<lparr>ar_free := ar_free ar + 1\<rparr>) s' in
        pool s'' A (F(a := n # F a)) \<and> held s'' A hp ys \<and> geometry s'' = geometry s)"
proof -
  note P = poolD [OF p] and D = pool_disjoint [OF p h]
  have la: "dlist (nheap s) (free_list a) (F a)" by (rule P(3) [OF a])
  have lh: "dlist (nheap s) hp (n # ys)" using h by (simp add: held_def)
  have dis: "set (hp # [] @ n # ys) \<inter> set (free_list a # F a) = {}"
    using D(1) [OF a] unfolding append.simps by blast
  obtain h1 h' where h1: "list_remove n (nheap s) = Inr (n, h1)" and h': "list_append (free_list a) n h1 = Inr h'"
    and ga: "dlist h' (free_list a) (n # F a)" and gh: "dlist h' hp ys"
    and fr: "\<And>r zs. dlist (nheap s) r zs \<Longrightarrow>
       set (r # zs) \<inter> set (hp # free_list a # n # ys @ F a) = {} \<Longrightarrow> dlist h1 r zs \<and> dlist h' r zs"
    using dl.move_valid [of "nheap s" hp "[]" n ys, OF _ la] lh dis by auto
  have split: "set (hp # free_list a # n # ys @ F a) = set (free_list a # F a) \<union> set (hp # n # ys)"
    by auto
  have al: "dlist h1 (arena_list s) A \<and> dlist h' (arena_list s) A"
    by (rule fr [OF P(2)]) (use D(2,3) [OF a] split in auto)
  have g1: "geometry (s\<lparr>nheap := h1\<rparr>) = geometry s" by simp
  have find: "find_arena (s\<lparr>nheap := h1\<rparr>) n (lnext (h1 (arena_list s))) = Some a"
    using find_arena_result [of "s\<lparr>nheap := h1\<rparr>" A a n "arena_list s" A] P(1) al a n
    unfolding geometry_cong [OF g1] by simp
  define s' where "s' = freed s n h'"
  have run: "on_heap (list_append (free_list a) n) (freed s n h1) = Inr s'"
    using h' by (simp add: on_heap_def s'_def upd_page_def)
  define s'' where "s'' = upd_arena a (\<lambda>ar. ar\<lparr>ar_free := ar_free ar + 1\<rparr>) s'"
  have g: "geometry s'' = geometry s" by (simp add: s''_def s'_def)
  have occ: "occupied s'' q \<longleftrightarrow> q \<noteq> n \<and> occupied s q" for q by (simp add: s''_def s'_def)
  have nheap: "nheap s'' = h'" by (simp add: s''_def s'_def)
  have "pool s'' A (F(a := n # F a))"
    unfolding pool_def geometry_cong [OF g] nheap occ
  proof (intro conjI ballI)
    show "layout s A" by (rule P(1))
    show "dlist h' (arena_list s) A" using al by simp
    fix b assume b: "b \<in> set A"
    show "dlist h' (free_list b) ((F(a := n # F a)) b)"
    proof (cases "b = a")
      case False
      then show ?thesis
        by (simp, intro fr [OF P(3) [OF b], THEN conjunct2])
          (use D(1) [OF b] D(4) [OF a b False] in \<open>unfold split, blast\<close>)
    qed (use ga in simp)
    show "set ((F(a := n # F a)) b) = {p \<in> set (arena_pages s b). \<not> (p \<noteq> n \<and> occupied s p)}"
    proof (cases "b = a")
      case True
      then show ?thesis using P(4) [OF a] n by auto
    next
      case False
      then show ?thesis
        using P(4) [OF b] layoutD(5) [OF P(1) b a False] n by auto
    qed
    show "ar_free (narenas s'' b) = of_nat (length ((F(a := n # F a)) b))"
      using P(5) [OF b] by (auto simp: s''_def s'_def upd_arena_def upd_page_def)
  qed
  moreover have "held s'' A hp ys"
    using h gh lh unfolding held_def geometry_cong [OF g] nheap occ by (auto simp: dlist_def)
  ultimately show ?thesis using h1 find run g unfolding s''_def by (auto simp: Let_def)
qed

lemma free_pages_result:
  assumes "pool s A F" "held s A hp ys"
  shows "\<exists>s' F'. free_pages hp ret s = Some (Inr (ret + of_nat (length ys), s'))
    \<and> pool s' A F' \<and> held s' A hp [] \<and> geometry s' = geometry s
    \<and> (\<forall>a \<in> set A. F' a = rev (filter (\<lambda>p. p \<in> set (arena_pages s a)) ys) @ F a)"
  using assms
proof (induction ys arbitrary: s F ret)
  case Nil
  then have "lnext (nheap s hp) = NULL" by (simp add: held_def)
  with Nil show ?case by (subst free_pages.simps) auto
next
  case (Cons n ys)
  obtain a where a: "a \<in> set A" "n \<in> set (arena_pages s a)"
    using Cons.prems(2) by (auto simp: held_def)
  have "dlist (nheap s) hp (n # ys)" using Cons.prems(2) by (simp add: held_def)
  then have nx: "lnext (nheap s hp) = n" "n \<noteq> NULL" by (auto simp: dlist_def linked_def)
  have a0: "a \<noteq> NULL" using layoutD(7) [OF poolD(1) [OF Cons.prems(1)]] a(1) by (auto simp: footprint_def)
  obtain h1 s1 s2 where st: "list_remove n (nheap s) = Inr (n, h1)"
    "find_arena (s\<lparr>nheap := h1\<rparr>) n (lnext (h1 (arena_list s))) = Some a"
    "on_heap (list_append (free_list a) n) (freed s n h1) = Inr s1"
    "s2 = upd_arena a (\<lambda>ar. ar\<lparr>ar_free := ar_free ar + 1\<rparr>) s1"
    "pool s2 A (F(a := n # F a))" "held s2 A hp ys" "geometry s2 = geometry s"
    using free_page_step [OF Cons.prems a] by (auto simp: Let_def)
  have step: "free_pages hp ret s = free_pages hp (ret + 1) s2"
    by (subst free_pages.simps) (simp add: nx st(1-4) a0)
  obtain s' F' where s': "free_pages hp (ret + 1) s2 = Some (Inr (ret + 1 + of_nat (length ys), s'))"
    "pool s' A F'" "held s' A hp []" "geometry s' = geometry s2"
    "\<forall>b \<in> set A. F' b = rev (filter (\<lambda>p. p \<in> set (arena_pages s2 b)) ys) @ (F(a := n # F a)) b"
    using Cons.IH [OF st(5,6), of "ret + 1"] by blast
  have "\<forall>b \<in> set A. F' b = rev (filter (\<lambda>p. p \<in> set (arena_pages s b)) (n # ys)) @ F b"
  proof
    fix b assume b: "b \<in> set A"
    show "F' b = rev (filter (\<lambda>p. p \<in> set (arena_pages s b)) (n # ys)) @ F b"
    proof (cases "b = a")
      case True
      then show ?thesis using s'(5) b a(2) geometry_cong(2) [OF st(7)] by simp
    next
      case False
      then have "n \<notin> set (arena_pages s b)"
        using layoutD(5) [OF poolD(1) [OF Cons.prems(1)] b a(1)] a(2) by auto
      with False show ?thesis using s'(5) b geometry_cong(2) [OF st(7)] by simp
    qed
  qed
  with step s' st(7) show ?case by (auto simp: algebra_simps)
qed

text \<open>A list of pages in a client's hands: it starts with its first page.\<close>

definition page_chain :: "pmm_node \<Rightarrow> addr list \<Rightarrow> bool" where
  "page_chain s ys \<longleftrightarrow> ys \<noteq> [] \<and> rooted (nheap s) (hd ys) (tl ys)"

definition occupied_pages :: "pmm_node \<Rightarrow> addr list \<Rightarrow> addr set" where
  "occupied_pages s A = {p \<in> (\<Union>a \<in> set A. set (arena_pages s a)). occupied s p}"

lemma dlist_new_head:
  assumes "dlist h p xs" "hp \<noteq> NULL" "hp \<notin> set (p # xs)"
  shows "dlist (set_prev p hp (set_next hp p h)) hp (p # xs)"
proof -
  have "\<And>x. x \<in> set (p # xs) \<Longrightarrow> set_next hp p h x = h x"
    using assms(3) by (metis set_other(2))
  then have "dlist (set_next hp p h) p xs" using assms(1) dlist_frame by blast
  then have "dlist (set_prev p hp (set_next hp p h)) p xs" by simp
  moreover have "linked (set_prev p hp (set_next hp p h)) hp p" by (simp add: linked_def)
  ultimately show ?thesis
    using assms(2,3) unfolding dlist_def by (simp add: successively_Cons)
qed

lemma PmmNode_allocate_result:
  assumes p: "pool s (a # A) F" and hp: "hp \<notin> set (footprint s (a # A))" "hp \<noteq> NULL"
    and cnt: "cnt \<noteq> 0" and ne: "F a \<noteq> []" and k: "k = min (unat cnt) (length (F a))"
  shows "\<exists>s'. PmmNode_allocate hp cnt s = Inr (of_nat k, Some (hd (rev (take k (F a)))), s')
    \<and> pool s' (a # A) (F(a := drop k (F a))) \<and> page_chain s' (rev (take k (F a)))
    \<and> geometry s' = geometry s \<and> set (take k (F a)) \<subseteq> occupied_pages s' (a # A)"
proof -
  obtain h0 where h0: "on_heap (INIT_LLIST hp) s = Inr (s\<lparr>nheap := h0\<rparr>)" "pool (s\<lparr>nheap := h0\<rparr>) (a # A) F"
    "held (s\<lparr>nheap := h0\<rparr>) (a # A) hp []"
    using init_pool [OF p hp] by blast
  let ?s = "s\<lparr>nheap := h0\<rparr>"
  have init: "on_heap (INIT_LLIST hp) s = Inr ?s" by (rule h0(1))
  have la: "dlist (nheap ?s) (arena_list ?s) (a # A)" by (rule poolD(2) [OF h0(2)])
  then have nx: "lnext (nheap ?s (arena_list ?s)) = a" "a \<noteq> NULL" by (auto simp: dlist_def linked_def)
  have k2: "k = min (unat cnt - unat (0 :: u32)) (length (F a))" by (simp add: k)
  obtain s1 where s1: "take_pages a hp cnt 0 ?s = Inr (length (F a) < unat cnt, of_nat k, s1)"
    "pool s1 (a # A) (F(a := drop k (F a)))" "held s1 (a # A) hp (rev (take k (F a)))"
    "geometry s1 = geometry ?s"
    using take_pages_result [OF h0(2,3) _ _ k2] by auto
  have la1: "dlist (nheap s1) a A" by (rule dlist_tail [OF poolD(2) [OF s1(2)]])
  have "take_arenas hp cnt 0 a ?s = Some (Inr (of_nat k, s1))"
  proof (cases "length (F a) < unat cnt")
    case True
    then show ?thesis using nx s1(1) by (simp add: take_arenas.simps [of _ _ _ a])
  next
    case False
    then have "(of_nat k :: u32) = cnt" by (simp add: k)
    with False show ?thesis
      using nx s1(1) take_arenas_idle [OF la1, of hp cnt] by (simp add: take_arenas.simps [of _ _ 0 a])
  qed
  then have run: "loop_err (take_arenas hp cnt 0 (lnext (nheap ?s (arena_list ?s))) ?s)
      = Inr (of_nat k, s1)"
    unfolding nx(1) by simp
  have "k \<noteq> 0" using cnt ne by (simp add: k unat_gt_0)
  then have ne': "rev (take k (F a)) \<noteq> []" using ne by simp
  obtain s' where s': "return_list hp (of_nat k) s1 = Inr (of_nat k, Some (hd (rev (take k (F a)))), s')"
    "pool s' (a # A) (F(a := drop k (F a)))"
    "rooted (nheap s') (hd (rev (take k (F a)))) (tl (rev (take k (F a))))"
    "geometry s' = geometry s1" "npages s' = npages s1"
    using return_list_result [OF s1(2,3) ne', of "of_nat k"] by blast
  have alloc: "PmmNode_allocate hp cnt s = return_list hp (of_nat k) s1"
    unfolding PmmNode_allocate_def init bind_res.simps run using cnt by simp
  have g: "geometry s' = geometry s" using s'(4) s1(4) by simp
  have "set (take k (F a)) \<subseteq> occupied_pages s' (a # A)"
    using s1(3) s'(5) geometry_cong(2) [OF s'(4)]
    by (auto simp: held_def occupied_pages_def occupied_def)
  with alloc s' ne' g show ?thesis by (simp add: page_chain_def)
qed

lemma PmmNode_allocate_empty:
  assumes p: "pool s (a # A) F" and hp: "hp \<notin> set (footprint s (a # A))" "hp \<noteq> NULL"
    and cnt: "cnt \<noteq> 0" and e: "F a = []"
  shows "PmmNode_allocate hp cnt s = Inl Null_deref"
proof -
  obtain h0 where h0: "on_heap (INIT_LLIST hp) s = Inr (s\<lparr>nheap := h0\<rparr>)" "pool (s\<lparr>nheap := h0\<rparr>) (a # A) F"
    "held (s\<lparr>nheap := h0\<rparr>) (a # A) hp []"
    using init_pool [OF p hp] by blast
  let ?s = "s\<lparr>nheap := h0\<rparr>"
  have init: "on_heap (INIT_LLIST hp) s = Inr ?s" by (rule h0(1))
  have nx: "lnext (nheap ?s (arena_list ?s)) = a" "a \<noteq> NULL"
    using poolD(2) [OF h0(2)] by (auto simp: dlist_def linked_def)
  have "take_pages a hp cnt 0 ?s = Inr (True, 0, ?s)"
    using arena_empty_iff [OF h0(2), of a] e cnt
    by (subst take_pages.simps) (simp add: word_gt_0)
  then have run: "loop_err (take_arenas hp cnt 0 (lnext (nheap ?s (arena_list ?s))) ?s) = Inr (0, ?s)"
    unfolding nx(1) using nx(2) by (simp add: take_arenas.simps [of _ _ 0 a])
  have "lnext (nheap ?s hp) = NULL" using h0(3) by (simp add: held_def)
  then show ?thesis
    unfolding PmmNode_allocate_def init bind_res.simps run using cnt
    by (simp add: return_list_def)
qed

lemma PmmNode_free_result:
  assumes p: "pool s A F" and hp: "hp \<notin> set (footprint s A)" "hp \<noteq> NULL"
    and c: "page_chain s ys" and o: "set ys \<subseteq> occupied_pages s A"
  shows "\<exists>s' F'. PmmNode_free hp (hd ys) s = Inr (of_nat (length ys), NULL, s')
    \<and> pool s' A F' \<and> geometry s' = geometry s
    \<and> (\<forall>a \<in> set A. F' a = rev (filter (\<lambda>p. p \<in> set (arena_pages s a)) ys) @ F a)"
proof -
  obtain h0 where h0: "on_heap (INIT_LLIST hp) s = Inr (s\<lparr>nheap := h0\<rparr>)" "\<And>x. x \<noteq> hp \<Longrightarrow> h0 x = nheap s x"
    using init_pool [OF p hp] by blast
  obtain z zs where ys: "ys = z # zs" using c by (cases ys) (auto simp: page_chain_def)
  have sub: "set ys \<subseteq> set (footprint s A)"
    using o by (auto simp: occupied_pages_def footprint_def)
  then have nin: "hp \<notin> set (z # zs)" using hp(1) ys by blast
  have "dlist (nheap s) z zs" using c ys by (simp add: page_chain_def rooted_def)
  then have l0: "dlist h0 z zs" using dlist_frame [of z zs h0 "nheap s"] h0(2) nin by metis
  then have z0: "z \<noteq> NULL" by (simp add: dlist_def)
  define s1 where "s1 = s\<lparr>nheap := set_prev z hp (set_next hp z h0)\<rparr>"
  have g: "geometry s1 = geometry s" by (simp add: s1_def)
  have outz: "outside s A z" and outhp: "outside s A hp"
    using o ys hp by (auto simp: outside_def occupied_pages_def)
  have "pool s1 A F"
    unfolding s1_def
  proof (rule pool_outside_frame [OF p])
    fix x assume "\<not> outside s A x"
    with outz outhp have "x \<noteq> z" "x \<noteq> hp" by metis+
    then show "set_prev z hp (set_next hp z h0) x = nheap s x" by (simp add: set_other h0(2))
  qed
  moreover have "held s1 A hp ys"
    unfolding held_def geometry_cong [OF g]
    using hp o dlist_new_head [OF l0 hp(2) nin] ys
    by (auto simp: s1_def occupied_pages_def)
  ultimately obtain s2 F' where s2: "free_pages hp 0 s1 = Some (Inr (0 + of_nat (length ys), s2))"
    "pool s2 A F'" "held s2 A hp []" "geometry s2 = geometry s1"
    "\<forall>a \<in> set A. F' a = rev (filter (\<lambda>p. p \<in> set (arena_pages s1 a)) ys) @ F a"
    using free_pages_result [of s1 A F hp ys 0] by blast
  have "lnext (nheap s2 hp) = NULL" using s2(3) by (simp add: held_def)
  then have "PmmNode_free hp (hd ys) s = Inr (of_nat (length ys), NULL, s2)"
    using z0 ys s2(1) h0(1)
    by (simp add: PmmNode_free_def s1_def Let_def)
  with s2(2,4,5) geometry_cong(2) [OF g] g show ?thesis by auto
qed

section \<open>Contiguous runs\<close>

definition page_free :: "pmm_node \<Rightarrow> addr \<Rightarrow> nat \<Rightarrow> bool" where
  "page_free s a i \<longleftrightarrow> \<not> occupied s (page_at (narenas s a) (of_nat i))"

text \<open>The \<open>c\<close> pages that end with page \<open>e\<close> are free.\<close>

definition free_window :: "pmm_node \<Rightarrow> addr \<Rightarrow> nat \<Rightarrow> nat \<Rightarrow> bool" where
  "free_window s a c e \<longleftrightarrow> c \<le> Suc e \<and> (\<forall>j. Suc e - c \<le> j \<and> j \<le> e \<longrightarrow> page_free s a j)"

lemma contig_pages_result:
  assumes c: "c = unat cnt" "0 < c" and b: "cnt \<le> fst best"
    and r: "r \<le> c" "r \<le> i" "\<And>j. i - r \<le> j \<Longrightarrow> j < i \<Longrightarrow> page_free s a j"
    and max: "r = c \<or> r = i \<or> \<not> page_free s a (i - r - 1)"
    and none: "\<And>e. Suc e < i \<Longrightarrow> \<not> free_window s a c e"
  shows "(\<exists>e. Suc e < n \<and> free_window s a c e \<and> (\<forall>e' < e. \<not> free_window s a c e')
        \<and> contig_pages s a cnt n i (of_nat r) best = (True, cnt, int e, a))
    \<or> (\<forall>e. Suc e < n \<longrightarrow> \<not> free_window s a c e)
        \<and> contig_pages s a cnt n i (of_nat r) best = (False, best)"
  using r max none
proof (induction "n - i" arbitrary: i r)
  case 0
  then have "contig_pages s a cnt n i (of_nat r) best = (False, best)"
    by (subst contig_pages.simps) simp
  moreover have "\<not> free_window s a c e" if "Suc e < n" for e
    by (rule "0.prems"(5)) (use 0(1) that in simp)
  ultimately show ?case by blast
next
  case (Suc m)
  then have i: "i < n" by simp
  have m: "m = n - Suc i" using Suc.hyps(2) by simp
  have "c < 2 ^ LENGTH(32)" unfolding c(1) by (rule unsigned_less)
  then have ru: "unat (of_nat r :: u32) = r" using Suc.prems(1) by (intro unat_of_nat_small) simp
  have lt: "(of_nat r :: u32) < cnt \<longleftrightarrow> r < c" by (simp add: word_less_nat_alt ru c(1))
  have eq: "(of_nat r :: u32) = cnt \<longleftrightarrow> r = c" using ru c(1) by (metis word_unat_eq_iff)
  have ge: "(of_nat r :: u32) \<ge> cnt \<longleftrightarrow> r = c" using Suc.prems(1) by (auto simp: word_le_nat_alt ru c(1))
  have free: "pg_flags (npages s (page_at (narenas s a) (of_nat i))) AND CX_PAGE_OCCUPIED = 0 \<longleftrightarrow> page_free s a i"
    by (simp add: page_free_def occupied_def)
  have window: "\<not> free_window s a c (i - 1)" if "r < c" "0 < i"
  proof
    assume w: "free_window s a c (i - 1)"
    show False
    proof (cases "r = i")
      case True
      have "c \<le> Suc (i - 1)" using w by (simp add: free_window_def)
      with True that show False by simp
    next
      case False
      with that Suc.prems(4) have "\<not> page_free s a (i - r - 1)" by simp
      moreover have "Suc (i - 1) - c \<le> i - r - 1" "i - r - 1 \<le> i - 1" using that(1) False Suc.prems(2) by auto
      ultimately show False using w by (auto simp: free_window_def)
    qed
  qed
  have none': "\<not> free_window s a c e" if e: "Suc e < Suc i" "r < c" for e
  proof (cases "Suc e = i")
    case True
    then show ?thesis using window [OF e(2)] by auto
  next
    case False
    then show ?thesis by (intro Suc.prems(5)) (use e(1) in simp)
  qed
  consider (grow) "page_free s a i" "r < c" | (hit) "r = c" | (reset) "\<not> page_free s a i" "r < c"
    using Suc.prems(1) by fastforce
  then show ?case
  proof cases
    case grow
    then have step: "contig_pages s a cnt n i (of_nat r) best = contig_pages s a cnt n (Suc i) (of_nat (Suc r)) best"
      by (subst contig_pages.simps) (simp add: i free lt add.commute)
    have pf: "page_free s a j" if "Suc i - Suc r \<le> j" "j < Suc i" for j
      using that grow(1) Suc.prems(3) [of j] by (cases "j = i") auto
    show ?thesis
      unfolding step
    proof (rule Suc.hyps(1) [OF m])
      show "Suc r \<le> c" using grow by simp
      show "Suc r \<le> Suc i" using Suc.prems(2) by simp
      show "Suc r = c \<or> Suc r = Suc i \<or> \<not> page_free s a (Suc i - Suc r - 1)"
        using Suc.prems(4) grow by auto
      show "\<And>j. Suc i - Suc r \<le> j \<Longrightarrow> j < Suc i \<Longrightarrow> page_free s a j" by (rule pf)
      show "\<And>e. Suc e < Suc i \<Longrightarrow> \<not> free_window s a c e" by (rule none' [OF _ grow(2)])
    qed
  next
    case hit
    have int: "int (i - 1) = int i - 1" using hit Suc.prems(2) c(2) by simp
    have "contig_pages s a cnt n i (of_nat r) best = (True, cnt, int (i - 1), a)"
      unfolding int using hit b eq by (subst contig_pages.simps) (simp add: i)
    moreover have "free_window s a c (i - 1)"
      using hit Suc.prems(2,3) c(2) by (auto simp: free_window_def)
    moreover have "\<forall>e' < i - 1. \<not> free_window s a c e'" using Suc.prems(5) by simp
    moreover have "Suc (i - 1) < n" using hit i Suc.prems(2) c(2) by simp
    ultimately show ?thesis by blast
  next
    case reset
    then have step: "contig_pages s a cnt n i (of_nat r) best = contig_pages s a cnt n (Suc i) (of_nat 0) best"
      using ge eq by (subst contig_pages.simps) (simp add: i free lt)
    show ?thesis
      unfolding step
    proof (rule Suc.hyps(1) [OF m])
      show "0 = c \<or> 0 = Suc i \<or> \<not> page_free s a (Suc i - 0 - 1)" using reset(1) by simp
      show "\<And>e. Suc e < Suc i \<Longrightarrow> \<not> free_window s a c e" by (rule none' [OF _ reset(2)])
    qed simp_all
  qed
qed

lemma arena_size_int:
  assumes "layout s A" "a \<in> set A"
  shows "nat (sint (ar_size (narenas s a))) = unat (ar_size (narenas s a))"
    "unat (ar_size (narenas s a)) < 2 ^ 28"
proof -
  have "array_end (narenas s a) < 2 ^ 32" using assms by (simp add: layout_def)
  then show b: "unat (ar_size (narenas s a)) < 2 ^ 28" by (simp add: array_end_def)
  have "sint (of_nat (unat (ar_size (narenas s a))) :: u32) = int (unat (ar_size (narenas s a)))"
    by (rule sint_of_nat_small) (use b in simp)
  then show "nat (sint (ar_size (narenas s a))) = unat (ar_size (narenas s a))" by simp
qed

definition run_in :: "pmm_node \<Rightarrow> nat \<Rightarrow> addr \<Rightarrow> nat \<Rightarrow> bool" where
  "run_in s c a e \<longleftrightarrow> Suc e < unat (ar_size (narenas s a)) \<and> free_window s a c e"

lemma contig_arenas_result:
  assumes L: "layout s A" and c: "c = unat cnt" "0 < c" and b: "cnt \<le> fst best"
    and d: "dlist (nheap s) p B" "set B \<subseteq> set A"
  shows "(\<exists>a \<in> set B. \<exists>e. run_in s c a e
        \<and> contig_arenas s cnt (lnext (nheap s p)) best = Some (cnt, int e, a))
    \<or> (\<forall>a \<in> set B. \<forall>e. \<not> run_in s c a e)
        \<and> contig_arenas s cnt (lnext (nheap s p)) best = Some best"
  using d
proof (induction B arbitrary: p)
  case Nil
  then show ?case by (simp add: contig_arenas.simps)
next
  case (Cons a B)
  then have a: "lnext (nheap s p) = a" "a \<noteq> NULL" "a \<in> set A" by (auto simp: dlist_def linked_def)
  note size = arena_size_int(1) [OF L a(3)]
  consider e where "run_in s c a e"
      "contig_pages s a cnt (unat (ar_size (narenas s a))) 0 0 best = (True, cnt, int e, a)"
    | "\<forall>e. \<not> run_in s c a e"
      "contig_pages s a cnt (unat (ar_size (narenas s a))) 0 0 best = (False, best)"
    using contig_pages_result [OF c b, of 0 0 s a "unat (ar_size (narenas s a))"]
    by (auto simp: run_in_def)
  then show ?case
  proof cases
    case 1
    then have "contig_arenas s cnt a best = Some (cnt, int e, a)"
      using a(2) by (simp add: contig_arenas.simps [of _ _ a] size)
    with 1(1) a show ?thesis by auto
  next
    case 2
    then have "contig_arenas s cnt a best = contig_arenas s cnt (lnext (nheap s a)) best"
      using a(2) by (simp add: contig_arenas.simps [of _ _ a] size)
    with 2(1) a Cons.IH [OF dlist_tail [OF Cons.prems(1)]] Cons.prems(2) show ?thesis by auto
  qed
qed

text \<open>Taking pages \<open>e - n + 1, \<dots>, e\<close>, the last one first: the list comes out in address order.\<close>

lemma page_at_inj:
  assumes "layout s A" "a \<in> set A" "i < unat (ar_size (narenas s a))" "j < unat (ar_size (narenas s a))"
  shows "page_at (narenas s a) (of_nat i) = page_at (narenas s a) (of_nat j) \<longleftrightarrow> i = j"
proof -
  have "array_end (narenas s a) < 2 ^ 32" using assms by (simp add: layout_def)
  note pa = page_address [OF this assms(3)] page_address [OF this assms(4)]
  show ?thesis
  proof
    assume "page_at (narenas s a) (of_nat i) = page_at (narenas s a) (of_nat j)"
    with pa have "unat (ar_pages (narenas s a)) + 16 * i = unat (ar_pages (narenas s a)) + 16 * j"
      by (simp only:)
    then show "i = j" by simp
  qed simp
qed

lemma take_run_result:
  assumes "pool s A F" "held s A hp ys" "a \<in> set A"
    and "n \<le> k" "k \<le> unat (ar_size (narenas s a))" "\<And>j. k - n \<le> j \<Longrightarrow> j < k \<Longrightarrow> page_free s a j"
  shows "\<exists>s' F'. take_run n a hp (int k - 1) ret s = Inr (ret + of_nat n, s')
    \<and> pool s' A F' \<and> held s' A hp (map (\<lambda>j. page_at (narenas s a) (of_nat j)) [k - n ..< k] @ ys)
    \<and> geometry s' = geometry s \<and> (\<forall>b. b \<noteq> a \<longrightarrow> F' b = F b)"
  using assms
proof (induction n arbitrary: s F k ys ret)
  case 0
  then show ?case by auto
next
  case (Suc n)
  let ?pg = "page_at (narenas s a) (of_nat (k - 1))"
  have k: "0 < k" "k - 1 < unat (ar_size (narenas s a))" using Suc.prems(4,5) by auto
  have "?pg \<in> set (arena_pages s a)"
    unfolding arena_pages_def set_map by (rule image_eqI [OF refl]) (use k in simp)
  moreover have "\<not> occupied s ?pg" using Suc.prems(6) [of "k - 1"] k Suc.prems(4) by (simp add: page_free_def)
  ultimately have "?pg \<in> set (F a)" using poolD(4) [OF Suc.prems(1,3)] by simp
  then obtain us vs where F: "F a = us @ ?pg # vs" by (meson split_list)
  obtain h1 s1 where s1: "list_remove ?pg (nheap s) = Inr (?pg, h1)"
    "on_heap (list_append hp ?pg) (taken s a ?pg h1) = Inr s1"
    "pool s1 A (F(a := us @ vs))" "held s1 A hp (?pg # ys)" "geometry s1 = geometry s"
    "\<And>q. occupied s1 q \<longleftrightarrow> q = ?pg \<or> occupied s q"
    using take_page_step [OF Suc.prems(1-3) F] by blast
  note g = geometry_cong [OF s1(5)]
  have pa: "page_at (narenas s1 a) i = page_at (narenas s a) i" for i
    by (simp add: page_at_def g)
  have pf: "page_free s1 a j" if "k - 1 - n \<le> j" "j < k - 1" for j
  proof -
    have "j < unat (ar_size (narenas s a))" using that k by simp
    then have "page_at (narenas s a) (of_nat j) \<noteq> ?pg"
      using page_at_inj [OF poolD(1) [OF Suc.prems(1)] Suc.prems(3) _ k(2)] that by auto
    then show ?thesis
      using Suc.prems(6) [of j] that by (simp add: page_free_def pa s1(6))
  qed
  have idx: "(of_int (int k - 1) :: u32) = of_nat (k - 1)" using k(1) by (simp add: of_nat_diff)
  have step: "take_run (Suc n) a hp (int k - 1) ret s = take_run n a hp (int (k - 1) - 1) (ret + 1) s1"
    using s1(1,2) k(1) by (simp add: Let_def of_nat_diff)
  have "n \<le> k - 1" "k - 1 \<le> unat (ar_size (narenas s1 a))" using Suc.prems(4,5) g(5) by auto
  from Suc.IH [OF s1(3,4) Suc.prems(3) this pf] obtain s' F' where s':
    "take_run n a hp (int (k - 1) - 1) (ret + 1) s1 = Inr (ret + 1 + of_nat n, s')" "pool s' A F'"
    "held s' A hp (map (\<lambda>j. page_at (narenas s a) (of_nat j)) [k - 1 - n ..< k - 1] @ ?pg # ys)"
    "geometry s' = geometry s1" "\<forall>b. b \<noteq> a \<longrightarrow> F' b = (F(a := us @ vs)) b"
    unfolding pa by blast
  have "[k - Suc n ..< k] = [k - 1 - n ..< k - 1] @ [k - 1]"
    using k(1) Suc.prems(4) by (cases k) (auto simp: upt_Suc_append)
  with step s' s1(5) show ?case by (auto simp: algebra_simps)
qed

section \<open>Properties\<close>

text \<open>C3. \<open>PmmNode::allocate\<close>: when the first arena has a free page, the call returns the smaller of
  the count asked for and that arena's free pages, and \<open>*pages\<close> heads a well-formed list of that many
  pages: the first pages of that arena's free list, in reverse, the last one taken at the head. They were
  not flagged occupied before and all are now; the remaining pages stay on the free list, in order, the
  other arenas are not touched, and the allocator's invariant holds again.\<close>

theorem pmm_allocate_correct:
  assumes "pool s (a # A) F" and "hp \<notin> set (footprint s (a # A))" and "hp \<noteq> NULL"
    and "cnt \<noteq> 0" and "F a \<noteq> []"
  shows "let k = min (unat cnt) (length (F a)); ys = rev (take k (F a)) in
    \<exists>s'. PmmNode_allocate hp cnt s = Inr (of_nat k, Some (hd ys), s')
      \<and> pool s' (a # A) (F(a := drop k (F a))) \<and> page_chain s' ys
      \<and> set ys \<subseteq> occupied_pages s' (a # A) \<and> set ys \<inter> occupied_pages s (a # A) = {}"
proof -
  define k where "k = min (unat cnt) (length (F a))"
  have "set (take k (F a)) \<inter> occupied_pages s (a # A) = {}"
    using poolD(4) [OF assms(1), of a] set_take_subset [of k "F a"]
    by (auto simp: occupied_pages_def)
  with PmmNode_allocate_result [OF assms k_def] show ?thesis
    unfolding k_def [symmetric] by (auto simp: Let_def)
qed

text \<open>C4. \<open>PmmNode::free\<close> undoes \<open>PmmNode::allocate\<close>: freeing the list just returned gives back the
  same count, stores NULL in \<open>*p\<close>, and restores every arena's free list to exactly what it was,
  order included.\<close>

theorem pmm_allocate_free_roundtrip:
  assumes "pool s (a # A) F" and "hp \<notin> set (footprint s (a # A))" and "hp \<noteq> NULL"
    and "PmmNode_allocate hp cnt s = Inr (n, Some p, s')"
  shows "\<exists>s'' F''. PmmNode_free hp p s' = Inr (n, NULL, s'') \<and> pool s'' (a # A) F''
    \<and> (\<forall>b \<in> set (a # A). F'' b = F b)"
proof -
  have cnt: "cnt \<noteq> 0"
  proof
    assume "cnt = 0"
    with assms(4) show False
      by (cases "on_heap (INIT_LLIST hp) s") (auto simp: PmmNode_allocate_def)
  qed
  have ne: "F a \<noteq> []"
    using PmmNode_allocate_empty [OF assms(1-3) cnt] assms(4) by auto
  define k where "k = min (unat cnt) (length (F a))"
  let ?ys = "rev (take k (F a))"
  from PmmNode_allocate_result [OF assms(1-3) cnt ne k_def] assms(4)
  have r: "n = of_nat k" "p = hd ?ys" "pool s' (a # A) (F(a := drop k (F a)))"
    "page_chain s' ?ys" "geometry s' = geometry s" "set ?ys \<subseteq> occupied_pages s' (a # A)"
    by auto
  note g = geometry_cong [OF r(5)]
  have hp: "hp \<notin> set (footprint s' (a # A))" unfolding g using assms(2) .
  obtain s'' F'' where f: "PmmNode_free hp p s' = Inr (of_nat (length ?ys), NULL, s'')"
    "pool s'' (a # A) F''" and F'': "\<And>b. b \<in> set (a # A) \<Longrightarrow>
      F'' b = rev (filter (\<lambda>q. q \<in> set (arena_pages s' b)) ?ys) @ (F(a := drop k (F a))) b"
    using PmmNode_free_result [OF r(3) hp assms(3) r(4,6)] unfolding r(2) by blast
  have "F'' b = F b" if b: "b \<in> set (a # A)" for b
  proof -
    have sub: "set (take k (F a)) \<subseteq> set (arena_pages s a)"
      using poolD(4) [OF assms(1), of a] set_take_subset [of k "F a"] by auto
    show ?thesis
    proof (cases "b = a")
      case True
      then have "filter (\<lambda>q. q \<in> set (arena_pages s' b)) ?ys = ?ys"
        using sub by (intro filter_True) (auto simp: g)
      with F'' [OF b] True show ?thesis by simp
    next
      case False
      then have "filter (\<lambda>q. q \<in> set (arena_pages s' b)) ?ys = []"
        using sub layoutD(5) [OF poolD(1) [OF assms(1)] b _ False] by (auto simp: g filter_empty_conv)
      with F'' [OF b] False show ?thesis by simp
    qed
  qed
  with f r(1) show ?thesis by (auto simp: k_def)
qed

text \<open>\<open>PmmNode::free\<close> on any list of occupied pages, from whatever arenas and in whatever order:
  it frees all of them, every page goes to the free list of its own arena, and the result counts
  the pages.\<close>

theorem pmm_free_correct:
  assumes "pool s A F" and "hp \<notin> set (footprint s A)" and "hp \<noteq> NULL"
    and "page_chain s ys" and "set ys \<subseteq> occupied_pages s A"
  shows "\<exists>s' F'. PmmNode_free hp (hd ys) s = Inr (of_nat (length ys), NULL, s') \<and> pool s' A F'
    \<and> (\<forall>a \<in> set A. F' a = rev (filter (\<lambda>p. p \<in> set (arena_pages s a)) ys) @ F a)
    \<and> occupied_pages s' A = occupied_pages s A - set ys"
proof -
  obtain s' F' where r: "PmmNode_free hp (hd ys) s = Inr (of_nat (length ys), NULL, s')" "pool s' A F'"
    "geometry s' = geometry s"
    "\<forall>a \<in> set A. F' a = rev (filter (\<lambda>p. p \<in> set (arena_pages s a)) ys) @ F a"
    using PmmNode_free_result [OF assms] by blast
  have "p \<in> occupied_pages s' A \<longleftrightarrow> p \<in> occupied_pages s A - set ys" for p
  proof (cases "\<exists>a \<in> set A. p \<in> set (arena_pages s a)")
    case True
    then obtain a where a: "a \<in> set A" "p \<in> set (arena_pages s a)" by blast
    have "\<not> occupied s' p \<longleftrightarrow> p \<in> set (F' a)"
      using poolD(4) [OF r(2) a(1)] a(2) geometry_cong(2) [OF r(3)] by auto
    also have "\<dots> \<longleftrightarrow> p \<in> set ys \<or> \<not> occupied s p"
      using r(4) a poolD(4) [OF assms(1) a(1)] by auto
    finally show ?thesis
      using a geometry_cong(2) [OF r(3)] by (auto simp: occupied_pages_def)
  next
    case False
    then show ?thesis using geometry_cong(2) [OF r(3)] by (auto simp: occupied_pages_def)
  qed
  with r show ?thesis by blast
qed

lemma PmmNode_contiguous_result:
  assumes p: "pool s A F" and hp: "hp \<notin> set (footprint s A)" "hp \<noteq> NULL"
    and cnt: "cnt \<noteq> 0" "cnt \<le> 0x7FFFFFFF"
  shows "if \<exists>a \<in> set A. \<exists>e. run_in s (unat cnt) a e
    then \<exists>a \<in> set A. \<exists>e s' F'. run_in s (unat cnt) a e
      \<and> (let ys = map (\<lambda>j. page_at (narenas s a) (of_nat j)) [Suc e - unat cnt ..< Suc e] in
          PmmNode_allocate_contiguous hp cnt s = Inr (cnt, Some (hd ys), s')
          \<and> page_chain s' ys \<and> pool s' A F' \<and> set ys \<subseteq> occupied_pages s' A
          \<and> geometry s' = geometry s)
    else \<exists>h. PmmNode_allocate_contiguous hp cnt s = Inr (0, None, s\<lparr>nheap := h\<rparr>)
      \<and> pool (s\<lparr>nheap := h\<rparr>) A F"
proof -
  obtain h0 where h0: "on_heap (INIT_LLIST hp) s = Inr (s\<lparr>nheap := h0\<rparr>)"
    "pool (s\<lparr>nheap := h0\<rparr>) A F" "held (s\<lparr>nheap := h0\<rparr>) A hp []"
    using init_pool [OF p hp] by blast
  let ?s = "s\<lparr>nheap := h0\<rparr>" and ?c = "unat cnt"
  have g0: "geometry ?s = geometry s" by simp
  have run: "run_in ?s ?c a e = run_in s ?c a e" for a e
    by (simp add: run_in_def free_window_def page_free_def)
  have c: "0 < ?c" "cnt \<le> fst (0x7FFFFFFF :: u32, 0 :: int, NULL)"
    using cnt by (auto simp: unat_gt_0)
  have b31: "?c < 2 ^ 31" using cnt(2) by (simp add: word_le_nat_alt)
  have n: "nat (sint cnt) = ?c"
  proof -
    have "sint (of_nat ?c :: u32) = int ?c" by (rule sint_of_nat_small) (use b31 in simp)
    then show ?thesis by simp
  qed
  consider a e where "a \<in> set A" "run_in s ?c a e"
      "contig_arenas ?s cnt (lnext (nheap ?s (arena_list ?s))) (0x7FFFFFFF, 0, NULL) = Some (cnt, int e, a)"
    | "\<forall>a \<in> set A. \<forall>e. \<not> run_in s ?c a e"
      "contig_arenas ?s cnt (lnext (nheap ?s (arena_list ?s))) (0x7FFFFFFF, 0, NULL)
        = Some (0x7FFFFFFF, 0, NULL)"
    using contig_arenas_result [OF poolD(1) [OF h0(2)] refl c poolD(2) [OF h0(2)] subset_refl] run by blast
  then show ?thesis
  proof cases
    case 1
    have a0: "a \<noteq> NULL" using layoutD(7) [OF poolD(1) [OF p]] 1(1) by (auto simp: footprint_def)
    have w: "Suc e < unat (ar_size (narenas s a))" "?c \<le> Suc e"
      "\<And>j. Suc e - ?c \<le> j \<Longrightarrow> j \<le> e \<Longrightarrow> page_free s a j"
      using 1(2) by (auto simp: run_in_def free_window_def)
    let ?ys = "map (\<lambda>j. page_at (narenas s a) (of_nat j)) [Suc e - ?c ..< Suc e]"
    have sz: "Suc e \<le> unat (ar_size (narenas ?s a))" using w(1) by simp
    have pf: "page_free ?s a j" if "Suc e - ?c \<le> j" "j < Suc e" for j
      using w(3) [of j] that by (simp add: page_free_def)
    obtain s1 F' where s1: "take_run ?c a hp (int (Suc e) - 1) 0 ?s = Inr (0 + of_nat ?c, s1)"
      "pool s1 A F'" "held s1 A hp ?ys" "geometry s1 = geometry ?s"
      using take_run_result [OF h0(2,3) 1(1) w(2) sz pf, of 0] by auto
    have "?ys \<noteq> []" using c(1) by simp
    obtain s' where s': "return_list hp cnt s1 = Inr (cnt, Some (hd ?ys), s')" "pool s' A F'"
      "rooted (nheap s') (hd ?ys) (tl ?ys)" "geometry s' = geometry s1" "npages s' = npages s1"
      using return_list_result [OF s1(2,3) \<open>?ys \<noteq> []\<close>, of cnt] by blast
    have "PmmNode_allocate_contiguous hp cnt s = Inr (cnt, Some (hd ?ys), s')"
      unfolding PmmNode_allocate_contiguous_def h0(1) bind_res.simps 1(3)
      using cnt(1) a0 s1(1) s'(1) by (simp add: n)
    moreover have "set ?ys \<subseteq> occupied_pages s' A"
      using s1(3) s'(5) geometry_cong(2) [OF s'(4)]
      by (auto simp: held_def occupied_pages_def occupied_def)
    moreover have "page_chain s' ?ys" unfolding page_chain_def using s'(3) \<open>?ys \<noteq> []\<close> by blast
    moreover have cond: "\<exists>a \<in> set A. \<exists>e. run_in s ?c a e" using 1(1,2) by blast
    moreover have "geometry s' = geometry s" using s'(4) s1(4) g0 by simp
    ultimately show ?thesis
      using 1(1,2) s'(2) unfolding if_P [OF cond] Let_def by blast
  next
    case 2
    then have "PmmNode_allocate_contiguous hp cnt s = Inr (0, None, ?s)"
      unfolding PmmNode_allocate_contiguous_def h0(1) bind_res.simps 2(2) using cnt by simp
    with 2(1) h0(2) show ?thesis by auto
  qed
qed

text \<open>C5. \<open>PmmNode::allocate_contiguous\<close> succeeds exactly when some arena has a run of \<open>cnt\<close> free
  pages that does not reach the arena's last page, and then hands out such a run, in address
  order, all of it free before and occupied after; otherwise it returns 0, stores nothing in
  \<open>*pages\<close> and leaves the pool as it was.\<close>

theorem pmm_contiguous_correct:
  assumes p: "pool s A F" and hp: "hp \<notin> set (footprint s A)" "hp \<noteq> NULL"
    and cnt: "cnt \<noteq> 0" "cnt \<le> 0x7FFFFFFF"
  shows "if \<exists>a \<in> set A. \<exists>e. run_in s (unat cnt) a e
    then \<exists>a \<in> set A. \<exists>e s' F'. run_in s (unat cnt) a e
      \<and> (let ys = map (\<lambda>j. page_at (narenas s a) (of_nat j)) [Suc e - unat cnt ..< Suc e] in
          PmmNode_allocate_contiguous hp cnt s = Inr (cnt, Some (hd ys), s')
          \<and> page_chain s' ys \<and> pool s' A F' \<and> set ys \<subseteq> occupied_pages s' A
          \<and> geometry s' = geometry s)
    else \<exists>h. PmmNode_allocate_contiguous hp cnt s = Inr (0, None, s\<lparr>nheap := h\<rparr>)
      \<and> pool (s\<lparr>nheap := h\<rparr>) A F"
  by (rule PmmNode_contiguous_result [OF p hp cnt])

text \<open>\<open>PmmNode::page_to_physical\<close> gives page \<open>i\<close> of an arena the address \<open>base + i * 4096\<close>,
  whichever arena of the list it is.\<close>

theorem pmm_page_to_physical:
  assumes p: "pool s A F" and a: "a \<in> set A" and i: "i < unat (ar_size (narenas s a))"
  shows "PmmNode_page_to_physical (page_at (narenas s a) (of_nat i)) s
    = Inr (ar_base (narenas s a) + of_nat i * 4096)"
proof -
  let ?pg = "page_at (narenas s a) (of_nat i)"
  have "?pg \<in> set (arena_pages s a)"
    unfolding arena_pages_def set_map by (rule image_eqI [OF refl]) (use i in simp)
  from find_arena_result [OF poolD(1) [OF p] a this poolD(2) [OF p] subset_refl] a
  have f: "find_arena s ?pg (lnext (nheap s (arena_list s))) = Some a" by simp
  have a0: "a \<noteq> NULL" using layoutD(7) [OF poolD(1) [OF p]] a by (auto simp: footprint_def)
  have b: "i < 2 ^ 28" using arena_size_int(2) [OF poolD(1) [OF p] a] i by simp
  have "?pg - ar_pages (narenas s a) = of_nat (i * 16)" by (simp add: page_at_def sizeof_page_def)
  moreover have "(of_nat (i * 16) :: u32) div sizeof_page = of_nat i"
  proof -
    have "unat (of_nat (i * 16) :: u32) = i * 16" using b by (intro unat_of_nat_small) simp
    then have "unat ((of_nat (i * 16) :: u32) div sizeof_page) = i"
      by (simp only: unat_div_distrib sizeof_page_def) simp
    moreover have "unat (of_nat i :: u32) = i" using b by (intro unat_of_nat_small) simp
    ultimately show ?thesis by (simp only: word_unat_eq_iff)
  qed
  moreover have "(ucast (of_nat i :: u32) :: u64) = of_nat i"
    using b by (simp add: unsigned_of_nat take_bit_nat_eq_self)
  ultimately show ?thesis
    using f a0 by (simp add: PmmNode_page_to_physical_def ADDRESS_FROM_ARENA_def page_size_val)
qed

text \<open>An exhausted first arena: \<open>PmmNode::allocate\<close> never looks at the next arena and
  dereferences the null list head, however many pages the other arenas have.\<close>

theorem pmm_allocate_exhausted:
  assumes "pool s (a # A) F" and "hp \<notin> set (footprint s (a # A))" and "hp \<noteq> NULL"
    and "cnt \<noteq> 0" and "F a = []"
  shows "PmmNode_allocate hp cnt s = Inl Null_deref"
  by (rule PmmNode_allocate_empty [OF assms])

subsection \<open>Witnesses\<close>

text \<open>An allocator at \<open>0x100\<close> with one arena of three free pages at physical \<open>0x100000\<close>, and the
  same arena with all its pages taken.\<close>

definition pmm_example :: pmm_node where
  "pmm_example = \<lparr>
     nheap = (\<lambda>_. \<lparr>lprev = 0, lnext = 0\<rparr>)(
       0x100 := \<lparr>lprev = 0x100, lnext = 0x1000\<rparr>, 0x1000 := \<lparr>lprev = 0x100, lnext = 0\<rparr>,
       0x1024 := \<lparr>lprev = 0x1024, lnext = 0x2000\<rparr>, 0x2000 := \<lparr>lprev = 0x1024, lnext = 0x2010\<rparr>,
       0x2010 := \<lparr>lprev = 0x2000, lnext = 0x2020\<rparr>, 0x2020 := \<lparr>lprev = 0x2010, lnext = 0\<rparr>),
     narenas = (\<lambda>_. \<lparr>ar_flags = 1, ar_base = 0x100000, ar_size = 3, ar_free = 3, ar_priority = 1,
       ar_pages = 0x2000\<rparr>),
     npages = (\<lambda>_. \<lparr>pg_flags = 0, pg_ref = 0\<rparr>), arena_list = 0x100\<rparr>"

definition pmm_example_full :: pmm_node where
  "pmm_example_full = pmm_example\<lparr>
     nheap := (nheap pmm_example)(0x1024 := \<lparr>lprev = 0x1024, lnext = 0\<rparr>),
     narenas := (\<lambda>a. (narenas pmm_example a)\<lparr>ar_free := 0\<rparr>),
     npages := (\<lambda>_. \<lparr>pg_flags = 1, pg_ref = 0\<rparr>)\<rparr>"

lemma example_pages: "arena_pages pmm_example 0x1000 = [0x2000, 0x2010, 0x2020]"
  "arena_pages pmm_example_full 0x1000 = [0x2000, 0x2010, 0x2020]"
  by (simp_all add: arena_pages_def page_at_def pmm_example_def pmm_example_full_def sizeof_page_def
      upt_conv_Cons)

lemma example_footprint:
  "footprint pmm_example [0x1000] = [0x100, 0x1000, 0x1024, 0x2000, 0x2010, 0x2020]"
  "footprint pmm_example_full [0x1000] = [0x100, 0x1000, 0x1024, 0x2000, 0x2010, 0x2020]"
proof -
  have "arena_list pmm_example = 0x100" "arena_list pmm_example_full = 0x100" "free_list 0x1000 = 0x1024"
    by (simp_all add: pmm_example_def pmm_example_full_def free_list_def)
  then show "footprint pmm_example [0x1000] = [0x100, 0x1000, 0x1024, 0x2000, 0x2010, 0x2020]"
    "footprint pmm_example_full [0x1000] = [0x100, 0x1000, 0x1024, 0x2000, 0x2010, 0x2020]"
    by (simp_all add: footprint_def example_pages)
qed

lemma example_pool: "pool pmm_example [0x1000] (\<lambda>_. [0x2000, 0x2010, 0x2020])"
proof -
  have "layout pmm_example [0x1000]"
    unfolding layout_def example_footprint by (simp add: array_end_def pmm_example_def)
  then show ?thesis
    unfolding pool_def
    by (simp add: example_pages occupied_def free_list_def)
      (auto simp: pmm_example_def dlist_def linked_def)
qed

lemma example_full_pool: "pool pmm_example_full [0x1000] (\<lambda>_. [])"
proof -
  have "layout pmm_example_full [0x1000]"
    unfolding layout_def example_footprint by (simp add: array_end_def pmm_example_def pmm_example_full_def)
  then show ?thesis
    unfolding pool_def
    by (simp add: example_pages occupied_def free_list_def)
      (simp add: pmm_example_def pmm_example_full_def dlist_def linked_def CX_PAGE_OCCUPIED_def)
qed

lemma example_stack: "(0x9000 :: addr) \<notin> set (footprint pmm_example [0x1000])"
  "(0x9000 :: addr) \<notin> set (footprint pmm_example_full [0x1000])"
  by (simp_all add: example_footprint)

lemma example_two: "min (unat (2 :: u32)) (length [a, b, c]) = 2" "take 2 [a, b, c] = [a, b]"
    "drop 2 [a, b, c] = [c]"
  by simp_all

theorem pmm_allocate_correct_witness:
  "\<exists>s'. PmmNode_allocate 0x9000 2 pmm_example = Inr (2, Some 0x2010, s')
    \<and> pool s' [0x1000] ((\<lambda>_. [0x2000, 0x2010, 0x2020])(0x1000 := [0x2020]))"
  using pmm_allocate_correct [OF example_pool example_stack(1), of 2]
  unfolding Let_def example_two by auto

lemma example_allocated:
  obtains s' where "PmmNode_allocate 0x9000 2 pmm_example = Inr (2, Some 0x2010, s')"
    "pool s' [0x1000] ((\<lambda>_. [0x2000, 0x2010, 0x2020])(0x1000 := [0x2020]))"
    "page_chain s' [0x2010, 0x2000]" "geometry s' = geometry pmm_example"
    "set [0x2010, 0x2000] \<subseteq> occupied_pages s' [0x1000]"
  using PmmNode_allocate_result [OF example_pool example_stack(1) _ _ _ example_two(1) [symmetric]] that
  unfolding example_two by auto

theorem pmm_allocate_free_roundtrip_witness:
  "\<exists>s' s'' F. PmmNode_allocate 0x9000 2 pmm_example = Inr (2, Some 0x2010, s')
    \<and> PmmNode_free 0x9000 0x2010 s' = Inr (2, NULL, s'') \<and> pool s'' [0x1000] F
    \<and> F 0x1000 = [0x2000, 0x2010, 0x2020]"
proof (rule example_allocated)
  fix s' assume "PmmNode_allocate 0x9000 2 pmm_example = Inr (2, Some 0x2010, s')"
  with pmm_allocate_free_roundtrip [OF example_pool example_stack(1) _ this] show ?thesis by auto
qed

theorem pmm_free_correct_witness:
  "\<exists>s s' F. PmmNode_free 0x9000 0x2010 s = Inr (2, NULL, s') \<and> pool s' [0x1000] F
    \<and> set (F 0x1000) = {0x2000, 0x2010, 0x2020}"
proof (rule example_allocated)
  fix s' assume s': "pool s' [0x1000] ((\<lambda>_. [0x2000, 0x2010, 0x2020])(0x1000 := [0x2020]))"
    "page_chain s' [0x2010, 0x2000]" "geometry s' = geometry pmm_example"
    "set [0x2010, 0x2000] \<subseteq> occupied_pages s' [0x1000]"
  have "0x9000 \<notin> set (footprint s' [0x1000])"
    unfolding geometry_cong(3) [OF s'(3)] by (rule example_stack)
  from pmm_free_correct [OF s'(1) this _ s'(2,4)]
  obtain s'' F' where "PmmNode_free 0x9000 0x2010 s' = Inr (2, NULL, s'')" "pool s'' [0x1000] F'"
    "set (F' 0x1000) = {0x2000, 0x2010, 0x2020}"
    by (auto simp: geometry_cong(2) [OF s'(3)] example_pages)
  then show ?thesis by blast
qed

theorem pmm_contiguous_correct_witness:
  "\<exists>ys s' F. PmmNode_allocate_contiguous 0x9000 2 pmm_example = Inr (2, Some (hd ys), s')
    \<and> length ys = 2 \<and> page_chain s' ys \<and> pool s' [0x1000] F"
proof -
  have "page_free pmm_example a j" for a j
    by (simp add: page_free_def occupied_def pmm_example_def)
  then have "run_in pmm_example (unat (2 :: u32)) 0x1000 1"
    by (simp add: run_in_def free_window_def) (simp add: pmm_example_def)
  then have c: "\<exists>a \<in> set [0x1000]. \<exists>e. run_in pmm_example (unat (2 :: u32)) a e" by auto
  have "(2 :: u32) \<noteq> 0" "(2 :: u32) \<le> 0x7FFFFFFF" "(0x9000 :: addr) \<noteq> NULL" by simp_all
  from pmm_contiguous_correct [OF example_pool example_stack(1) this(3,1,2)] c
  obtain e s' F' where r: "run_in pmm_example (unat (2 :: u32)) 0x1000 e"
    "let ys = map (\<lambda>j. page_at (narenas pmm_example 0x1000) (of_nat j)) [Suc e - unat (2 :: u32) ..< Suc e] in
      PmmNode_allocate_contiguous 0x9000 2 pmm_example = Inr (2, Some (hd ys), s')
      \<and> page_chain s' ys \<and> pool s' [0x1000] F' \<and> set ys \<subseteq> occupied_pages s' [0x1000]
      \<and> geometry s' = geometry pmm_example"
    unfolding if_P [OF c] by auto
  let ?ys = "map (\<lambda>j. page_at (narenas pmm_example 0x1000) (of_nat j)) [Suc e - unat (2 :: u32) ..< Suc e]"
  have "length ?ys = 2" using r(1) by (simp add: run_in_def free_window_def)
  with r(2) show ?thesis unfolding Let_def by blast
qed

theorem pmm_page_to_physical_witness:
  "PmmNode_page_to_physical 0x2010 pmm_example = Inr 0x101000"
  using pmm_page_to_physical [OF example_pool, of "0x1000" 1]
  by (simp add: page_at_def sizeof_page_def) (simp add: pmm_example_def)

theorem pmm_allocate_exhausted_witness:
  "PmmNode_allocate 0x9000 1 pmm_example_full = Inl Null_deref"
  by (rule pmm_allocate_exhausted [OF example_full_pool example_stack(2)]) simp_all

end
