(* ===== verification/PmmInit.thy ===== *)
theory PmmInit
  imports PmmNode "HOL-Library.Multiset"
begin

text \<open>
  \<open>PmmNode::add_arena\<close> brings the allocator of \<open>PmmNode\<close> into the state the other operations need,
  from the arena's geometry and the boot bitmap. The lemmas follow the four loops of the
  function: the place in the arena list, the cleared page array, the free list linked through
  it, and the bitmap.
\<close>

section \<open>The place in the list\<close>

text \<open>
  Before the first arena of higher priority value; at the front of the whole list when there is
  none (\<open>list_append\<close> takes the list head).
\<close>

definition arena_order :: "pmm_node \<Rightarrow> addr \<Rightarrow> addr list \<Rightarrow> addr list" where
  "arena_order s a A =
     (let lower = (\<lambda>b. sint (ar_priority (narenas s b)) \<le> sint (ar_priority (narenas s a)))
      in if dropWhile lower A = [] then a # A else takeWhile lower A @ a # dropWhile lower A)"

lemma arena_order_split:
  obtains us vs where "arena_order s a A = us @ a # vs" "A = us @ vs"
proof -
  let ?l = "\<lambda>b. sint (ar_priority (narenas s b)) \<le> sint (ar_priority (narenas s a))"
  show thesis
  proof (cases "dropWhile ?l A = []")
    case True
    then show thesis using that [of "[]" A] by (simp add: arena_order_def)
  next
    case False
    then have "arena_order s a A = takeWhile ?l A @ a # dropWhile ?l A"
      by (simp only: arena_order_def Let_def if_False)
    then show thesis by (rule that) simp
  qed
qed

lemma find_priority_result:
  assumes "dlist (nheap s) p B"
  shows "find_priority s prio (lnext (nheap s p))
    = Some (case dropWhile (\<lambda>b. sint (ar_priority (narenas s b)) \<le> sint prio) B of
        [] \<Rightarrow> NULL | b # _ \<Rightarrow> b)"
  using assms
proof (induction B arbitrary: p)
  case Nil
  then show ?case by (simp add: find_priority.simps)
next
  case (Cons b B)
  then have "lnext (nheap s p) = b" "b \<noteq> NULL" by (auto simp: dlist_def linked_def)
  with Cons.IH [OF dlist_tail [OF Cons.prems]] show ?case
    by (simp add: find_priority.simps [of _ _ b])
qed

section \<open>The page array\<close>

lemma clear_pages_result:
  "narenas (clear_pages p n s) = narenas s \<and> arena_list (clear_pages p n s) = arena_list s
    \<and> (\<forall>x. x \<notin> (\<lambda>i. p + of_nat i * sizeof_page) ` {..< n} \<longrightarrow>
         nheap (clear_pages p n s) x = nheap s x \<and> npages (clear_pages p n s) x = npages s x)
    \<and> (\<forall>x \<in> (\<lambda>i. p + of_nat i * sizeof_page) ` {..< n}. pg_flags (npages (clear_pages p n s) x) = 0)"
proof (induction n arbitrary: p s)
  case 0
  then show ?case by simp
next
  case (Suc n)
  have img: "(\<lambda>i. p + of_nat i * sizeof_page) ` {..< Suc n}
      = insert p ((\<lambda>i. p + sizeof_page + of_nat i * sizeof_page) ` {..< n})"
    by (simp add: lessThan_Suc_eq_insert_0 image_image algebra_simps)
  define T where "T = (\<lambda>i. p + sizeof_page + of_nat i * sizeof_page) ` {..< n}"
  define t where "t = s\<lparr>nheap := (nheap s)(p := \<lparr>lprev = NULL, lnext = NULL\<rparr>),
          npages := (npages s)(p := \<lparr>pg_flags = 0, pg_ref = 0\<rparr>)\<rparr>"
  define u where "u = clear_pages (p + sizeof_page) n t"
  have IH: "narenas u = narenas t" "arena_list u = arena_list t"
    "\<And>x. x \<notin> T \<Longrightarrow> nheap u x = nheap t x \<and> npages u x = npages t x"
    "\<And>x. x \<in> T \<Longrightarrow> pg_flags (npages u x) = 0"
    using Suc [of "p + sizeof_page" t] unfolding T_def u_def by blast+
  have "pg_flags (npages u p) = 0"
    using IH(3,4) [of p] by (cases "p \<in> T") (simp_all add: t_def)
  moreover have "nheap u x = nheap s x \<and> npages u x = npages s x" if "x \<noteq> p" "x \<notin> T" for x
    using IH(3) [OF that(2)] that(1) by (simp add: t_def)
  ultimately show ?case
    unfolding img clear_pages.simps t_def [symmetric] u_def [symmetric] T_def [symmetric]
    using IH(1,2,4) by (auto simp: t_def)
qed

text \<open>The page addresses of one arena, by index.\<close>

definition page_ix :: "pmm_arena \<Rightarrow> nat \<Rightarrow> addr" where
  "page_ix ar i = page_at ar (of_nat i)"

definition good_array :: "pmm_arena \<Rightarrow> addr \<Rightarrow> bool" where
  "good_array ar fl \<longleftrightarrow> inj_on (page_ix ar) {..< unat (ar_size ar)} \<and> fl \<noteq> NULL
     \<and> fl \<notin> page_ix ar ` {..< unat (ar_size ar)} \<and> NULL \<notin> page_ix ar ` {..< unat (ar_size ar)}"

lemma page_ix_free_upd [simp]: "page_ix (ar\<lparr>ar_free := v\<rparr>) = page_ix ar"
  by (simp add: fun_eq_iff page_ix_def page_at_def)

lemma link_pages_result:
  assumes "good_array (narenas s a) (free_list a)" and "i \<le> unat (ar_size (narenas s a))"
    and "dlist (nheap s) (free_list a) (map (page_ix (narenas s a)) [0 ..< i])"
  shows "\<exists>s'. link_pages a (of_nat i) (last (free_list a # map (page_ix (narenas s a)) [0 ..< i])) s = Inr s'
    \<and> dlist (nheap s') (free_list a) (map (page_ix (narenas s a)) [0 ..< unat (ar_size (narenas s a))])
    \<and> (\<forall>x. x \<noteq> free_list a \<and> x \<notin> page_ix (narenas s a) ` {..< unat (ar_size (narenas s a))}
          \<longrightarrow> nheap s' x = nheap s x)
    \<and> npages s' = npages s \<and> arena_list s' = arena_list s
    \<and> narenas s' = (narenas s)(a := (narenas s a)\<lparr>ar_free := ar_free (narenas s a)
          + of_nat (unat (ar_size (narenas s a)) - i)\<rparr>)"
  using assms
proof (induction "unat (ar_size (narenas s a)) - i" arbitrary: i s)
  case 0
  then have i: "i = unat (ar_size (narenas s a))" by simp
  then have "link_pages a (of_nat i) q s = Inr s" for q by (subst link_pages.simps) simp
  with 0 i show ?case by auto
next
  case (Suc m)
  let ?ar = "narenas s a" and ?fl = "free_list a"
  let ?n = "unat (ar_size ?ar)" and ?P = "page_ix ?ar"
  define pg where "pg = ?P i"
  define prev where "prev = last (?fl # map ?P [0 ..< i])"
  have i: "i < ?n" using Suc.hyps(2) by simp
  have ul: "unat (of_nat i :: u32) = i"
  proof (rule unat_of_nat_small)
    have "?n < 2 ^ LENGTH(32)" by (rule unsigned_less)
    with i show "i < 2 ^ LENGTH(32)" by simp
  qed
  have lt: "of_nat i < ar_size ?ar" using i ul by (simp add: word_less_nat_alt)
  have pg: "pg \<noteq> NULL" "pg \<notin> set (?fl # map ?P [0 ..< i])"
  proof -
    have "?P i \<in> ?P ` {..< ?n}" using i by simp
    then have a: "?P i \<noteq> NULL" "?P i \<noteq> ?fl" using Suc.prems(1) unfolding good_array_def by metis+
    have "?P i \<noteq> ?P j" if "j < i" for j
      using Suc.prems(1) i that unfolding good_array_def by (metis inj_onD lessThan_iff less_trans nat_neq_iff)
    then have b: "?P i \<notin> ?P ` {0 ..< i}" by (metis atLeastLessThan_iff imageE)
    show "pg \<noteq> NULL" unfolding pg_def by (rule a)
    show "pg \<notin> set (?fl # map ?P [0 ..< i])" unfolding pg_def using a(2) b by simp
  qed
  obtain h1 where h1: "INIT_LLIST pg (nheap s) = Inr h1" "\<And>x. x \<noteq> pg \<Longrightarrow> h1 x = nheap s x"
    using init_dlist [OF pg(1)] by blast
  have "dlist h1 ?fl (map ?P [0 ..< i])"
    using Suc.prems(3) dlist_frame [of ?fl "map ?P [0 ..< i]" h1 "nheap s"] h1(2) pg(2) by metis
  then obtain h2 where h2: "list_append prev pg h1 = Inr h2" "dlist h2 ?fl (map ?P [0 ..< i] @ [pg])"
    "\<And>x. x \<notin> set (?fl # pg # map ?P [0 ..< i]) \<Longrightarrow> h2 x = h1 x"
    using list_append_dlist [of h1 ?fl "map ?P [0 ..< i]" "[]" prev pg] pg prev_def by auto
  define s1 where "s1 = upd_arena a (\<lambda>ar. ar\<lparr>ar_free := ar_free ar + 1\<rparr>) (s\<lparr>nheap := h2\<rparr>)"
  have ar1: "narenas s1 a = ?ar\<lparr>ar_free := ar_free ?ar + 1\<rparr>" by (simp add: s1_def upd_arena_def)
  have step: "link_pages a (of_nat i) prev s = link_pages a (of_nat (Suc i)) pg s1"
    using lt h1(1) h2(1)
    by (subst link_pages.simps) (simp add: on_heap_def s1_def Let_def pg_def page_ix_def add.commute)
  have d1: "dlist (nheap s1) ?fl (map (page_ix (narenas s1 a)) [0 ..< Suc i])"
    using h2(2) ar1 by (simp add: s1_def pg_def)
  have m: "m = unat (ar_size (narenas s1 a)) - Suc i" using Suc.hyps(2) ar1 by simp
  have last1: "last (?fl # map (page_ix (narenas s1 a)) [0 ..< Suc i]) = pg" by (simp add: ar1 pg_def)
  have g1: "good_array (narenas s1 a) ?fl" using Suc.prems(1) by (simp add: good_array_def ar1)
  have le1: "Suc i \<le> unat (ar_size (narenas s1 a))" using i ar1 by simp
  obtain s' where s': "link_pages a (of_nat (Suc i)) pg s1 = Inr s'"
    "dlist (nheap s') ?fl (map ?P [0 ..< ?n])"
    "\<And>x. x \<noteq> ?fl \<Longrightarrow> x \<notin> ?P ` {..< ?n} \<Longrightarrow> nheap s' x = nheap s1 x"
    "npages s' = npages s1" "arena_list s' = arena_list s1"
    "narenas s' = (narenas s1)(a := (narenas s1 a)\<lparr>ar_free := ar_free (narenas s1 a) + of_nat (?n - Suc i)\<rparr>)"
    using Suc.hyps(1) [OF m g1 le1 d1] unfolding last1 unfolding ar1 by auto
  have "nheap s' x = nheap s x" if "x \<noteq> ?fl" "x \<notin> ?P ` {..< ?n}" for x
  proof -
    have "x \<notin> set (?fl # pg # map ?P [0 ..< i])" using that i by (auto simp: pg_def)
    then show ?thesis using s'(3) [OF that] h2(3) [of x] h1(2) [of x] by (simp add: s1_def)
  qed
  moreover have "narenas s' = (narenas s)(a := ?ar\<lparr>ar_free := ar_free ?ar + of_nat (?n - i)\<rparr>)"
    using s'(6) i by (auto simp: ar1 s1_def upd_arena_def fun_eq_iff of_nat_diff)
  ultimately show ?case
    using step s'(1,2,4,5) by (auto simp: prev_def s1_def upd_arena_def)
qed

section \<open>The bitmap\<close>

lemma occupy_pages_result:
  assumes "good_array (narenas s a) (free_list a)" and "i \<le> unat (ar_size (narenas s a))"
    and "dlist (nheap s) (free_list a) (map (page_ix (narenas s a)) L)"
    and "distinct L" and "{i ..< unat (ar_size (narenas s a))} \<subseteq> set L"
    and "set L \<subseteq> {..< unat (ar_size (narenas s a))}" and "ar_free (narenas s a) = of_nat (length L)"
  shows "\<exists>s' L'. occupy_pages a bt (of_nat i) s = Inr s'
    \<and> L' = filter (\<lambda>j. \<not> (i \<le> j \<and> bm_bit (bm_words bt) j)) L
    \<and> dlist (nheap s') (free_list a) (map (page_ix (narenas s a)) L')
    \<and> (\<forall>x. x \<noteq> free_list a \<and> x \<notin> page_ix (narenas s a) ` {..< unat (ar_size (narenas s a))}
          \<longrightarrow> nheap s' x = nheap s x)
    \<and> arena_list s' = arena_list s
    \<and> narenas s' = (narenas s)(a := (narenas s a)\<lparr>ar_free := of_nat (length L')\<rparr>)
    \<and> (\<forall>x. occupied s' x \<longleftrightarrow> occupied s x \<or> x \<in> page_ix (narenas s a) ` (set L - set L'))"
  using assms
proof (induction "unat (ar_size (narenas s a)) - i" arbitrary: i s L)
  case 0
  then have i: "i = unat (ar_size (narenas s a))" by simp
  then have "occupy_pages a bt (of_nat i) s = Inr s" by (subst occupy_pages.simps) simp
  moreover have "filter (\<lambda>j. \<not> (i \<le> j \<and> bm_bit (bm_words bt) j)) L = L"
    using 0(7) i by (intro filter_True) auto
  moreover have "narenas s = (narenas s)(a := (narenas s a)\<lparr>ar_free := of_nat (length L)\<rparr>)"
    using 0(8) by (simp add: fun_upd_idem)
  ultimately show ?case using 0(4) by (intro exI [of _ s] exI [of _ L]) auto
next
  case (Suc m)
  let ?ar = "narenas s a" and ?fl = "free_list a"
  let ?n = "unat (ar_size ?ar)" and ?P = "page_ix ?ar" and ?B = "bm_bit (bm_words bt)"
  have i: "i < ?n" using Suc.hyps(2) by simp
  have ul: "unat (of_nat i :: u32) = i"
  proof (rule unat_of_nat_small)
    have "?n < 2 ^ LENGTH(32)" by (rule unsigned_less)
    with i show "i < 2 ^ LENGTH(32)" by simp
  qed
  have lt: "of_nat i < ar_size ?ar" using i ul by (simp add: word_less_nat_alt)
  show ?case
  proof (cases "?B i")
    case False
    then have step: "occupy_pages a bt (of_nat i) s = occupy_pages a bt (of_nat (Suc i)) s"
      using lt by (subst occupy_pages.simps) (simp add: ul bits add.commute)
    have eq: "(\<lambda>j. \<not> (i \<le> j \<and> ?B j)) = (\<lambda>j. \<not> (Suc i \<le> j \<and> ?B j))"
      using False by (auto simp: fun_eq_iff Suc_le_eq le_less)
    have m: "m = ?n - Suc i" "Suc i \<le> ?n" "{Suc i ..< ?n} \<subseteq> set L"
      using Suc.hyps(2) Suc.prems(5) i by auto
    show ?thesis
      unfolding step eq by (rule Suc.hyps(1) [OF m(1) Suc.prems(1) m(2) Suc.prems(3,4) m(3) Suc.prems(6,7)])
  next
    case True
    have "i \<in> set L" using Suc.prems(5) i by auto
    then obtain us vs where L: "L = us @ i # vs" by (meson split_list)
    define pg where "pg = ?P i"
    have dl: "dlist (nheap s) ?fl (map ?P us @ pg # map ?P vs)"
      using Suc.prems(3) L by (simp add: pg_def)
    obtain h1 where h1: "list_remove pg (nheap s) = Inr (pg, h1)" "dlist h1 ?fl (map ?P us @ map ?P vs)"
      "\<And>x. x \<notin> set (?fl # map ?P us @ map ?P vs) \<Longrightarrow> h1 x = nheap s x"
      using list_remove_dlist [OF dl] by blast
    define s1 where "s1 = taken s a pg h1"
    have ar1: "narenas s1 a = ?ar\<lparr>ar_free := ar_free ?ar - 1\<rparr>" by (simp add: s1_def upd_arena_def)
    have sub: "{Suc i ..< ?n} \<subseteq> set us \<union> set vs"
    proof
      fix x assume x: "x \<in> {Suc i ..< ?n}"
      have "x \<in> set L" by (rule subsetD [OF Suc.prems(5)]) (use x in simp)
      then show "x \<in> set us \<union> set vs" using L x by auto
    qed
    have nh1: "nheap s1 = h1" by (simp add: s1_def)
    have step: "occupy_pages a bt (of_nat i) s = occupy_pages a bt (of_nat (Suc i)) s1"
      using lt True h1(1)
      by (subst occupy_pages.simps) (simp add: ul bits s1_def Let_def pg_def page_ix_def add.commute)
    have pre: "m = unat (ar_size (narenas s1 a)) - Suc i" "good_array (narenas s1 a) ?fl"
      "Suc i \<le> unat (ar_size (narenas s1 a))" "dlist (nheap s1) ?fl (map (page_ix (narenas s1 a)) (us @ vs))"
      "distinct (us @ vs)" "{Suc i ..< unat (ar_size (narenas s1 a))} \<subseteq> set (us @ vs)"
      "set (us @ vs) \<subseteq> {..< unat (ar_size (narenas s1 a))}"
      "ar_free (narenas s1 a) = of_nat (length (us @ vs))"
      using Suc.hyps(2) Suc.prems(1,4,6,7) i L h1(2) sub by (simp_all add: ar1 good_array_def nh1)
    define L' where "L' = filter (\<lambda>j. \<not> (Suc i \<le> j \<and> ?B j)) (us @ vs)"
    obtain s' where s': "occupy_pages a bt (of_nat (Suc i)) s1 = Inr s'"
      "dlist (nheap s') ?fl (map ?P L')"
      "\<And>x. x \<noteq> ?fl \<Longrightarrow> x \<notin> ?P ` {..< ?n} \<Longrightarrow> nheap s' x = nheap s1 x"
      "arena_list s' = arena_list s1"
      "narenas s' = (narenas s1)(a := (narenas s1 a)\<lparr>ar_free := of_nat (length L')\<rparr>)"
      "\<And>x. occupied s' x \<longleftrightarrow> occupied s1 x \<or> x \<in> ?P ` (set (us @ vs) - set L')"
      using Suc.hyps(1) [OF pre] unfolding L'_def [symmetric] unfolding ar1 by auto
    have L'_eq: "L' = filter (\<lambda>j. \<not> (i \<le> j \<and> ?B j)) L"
    proof -
      have "j \<noteq> i" if "j \<in> set (us @ vs)" for j using that Suc.prems(4) L by auto
      then have "L' = filter (\<lambda>j. \<not> (i \<le> j \<and> ?B j)) (us @ vs)"
        unfolding L'_def by (intro filter_cong) (auto simp: Suc_le_eq le_less)
      also have "\<dots> = filter (\<lambda>j. \<not> (i \<le> j \<and> ?B j)) L" using True L by simp
      finally show ?thesis .
    qed
    have "nheap s' x = nheap s x" if "x \<noteq> ?fl" "x \<notin> ?P ` {..< ?n}" for x
    proof -
      have "x \<notin> set (?fl # map ?P us @ map ?P vs)" using that Suc.prems(6) L by auto
      then show ?thesis using s'(3) [OF that] h1(3) [of x] by (simp add: s1_def)
    qed
    moreover have "occupied s' x \<longleftrightarrow> occupied s x \<or> x \<in> ?P ` (set L - set L')" for x
    proof -
      have "set L - set L' = insert i (set (us @ vs) - set L')"
        using L Suc.prems(4) by (auto simp: L'_def)
      then show ?thesis using s'(6) [of x] by (auto simp: s1_def pg_def)
    qed
    moreover have "narenas s' = (narenas s)(a := ?ar\<lparr>ar_free := of_nat (length L')\<rparr>)"
      using s'(5) by (auto simp: ar1 s1_def upd_arena_def fun_eq_iff)
    ultimately show ?thesis
      using step s'(1,2,4) L'_eq by (auto simp: s1_def)
  qed
qed

section \<open>The new arena\<close>

lemma layout_new:
  assumes L: "layout s (a # A)" and A': "mset A' = mset (a # A)"
  shows "layout s A'"
proof -
  have m: "mset (footprint s A') = mset (footprint s (a # A))"
  proof -
    have "mset (concat (map (arena_pages s) xs)) = (\<Sum>x\<in>#mset xs. mset (arena_pages s x))" for xs
      by (induction xs) auto
    then show ?thesis using A' by (simp add: footprint_def)
  qed
  have s: "set A' = set (a # A)" using A' by (metis set_mset_mset)
  have fs: "set (footprint s A') = set (footprint s (a # A))" using m by (metis set_mset_mset)
  have "distinct (footprint s A')" using L m by (metis layout_def mset_eq_imp_distinct_iff)
  then show ?thesis using L unfolding layout_def s fs by simp
qed

lemma layout_good_array:
  assumes L: "layout s A" and a: "a \<in> set A"
  shows "good_array (narenas s a) (free_list a)"
    "page_ix (narenas s a) ` {..< unat (ar_size (narenas s a))} = set (arena_pages s a)"
proof -
  show pg: "page_ix (narenas s a) ` {..< unat (ar_size (narenas s a))} = set (arena_pages s a)"
    by (auto simp: arena_pages_def page_ix_def)
  have "inj_on (page_ix (narenas s a)) {..< unat (ar_size (narenas s a))}"
    using page_at_inj [OF L a] by (auto simp: inj_on_def page_ix_def)
  then show "good_array (narenas s a) (free_list a)"
    using L a layoutD(4) [OF L a a] unfolding good_array_def pg
    by (auto simp: layout_def footprint_def)
qed

lemma place_arena:
  assumes l: "dlist (nheap s) (arena_list s) A" and al: "arena_list s \<noteq> NULL"
    and a: "a \<noteq> NULL" "a \<notin> set (arena_list s # A)"
  shows "\<exists>an h'. (if lnext (nheap s (arena_list s)) \<noteq> NULL
        then loop_res (find_priority s (ar_priority (narenas s a)) (lnext (nheap s (arena_list s))))
        else Inr NULL) = Inr an
    \<and> (if an = NULL then list_append (arena_list s) a else list_insert an a) (nheap s) = Inr h'
    \<and> dlist h' (arena_list s) (arena_order s a A)
    \<and> (\<forall>x. x \<notin> set (arena_list s # a # A) \<longrightarrow> h' x = nheap s x)"
proof -
  define low where "low = (\<lambda>b. sint (ar_priority (narenas s b)) \<le> sint (ar_priority (narenas s a)))"
  define an where "an = (case dropWhile low A of [] \<Rightarrow> NULL | b # _ \<Rightarrow> b)"
  have find: "(if lnext (nheap s (arena_list s)) \<noteq> NULL
      then loop_res (find_priority s (ar_priority (narenas s a)) (lnext (nheap s (arena_list s))))
      else Inr NULL) = Inr an"
  proof (cases "A = []")
    case True
    with dlist_next_NULL [OF l] show ?thesis by (simp add: an_def)
  next
    case False
    with dlist_next_NULL [OF l] find_priority_result [OF l, of "ar_priority (narenas s a)"]
    show ?thesis unfolding low_def [symmetric] an_def [symmetric] by simp
  qed
  show ?thesis
  proof (cases "dropWhile low A")
    case Nil
    have an: "an = NULL" unfolding an_def Nil by simp
    have ord: "arena_order s a A = a # A"
      unfolding arena_order_def low_def [symmetric] Let_def Nil by simp
    obtain h' where "list_append (arena_list s) a (nheap s) = Inr h'"
      "dlist h' (arena_list s) (a # A)" "\<forall>x. x \<notin> set (arena_list s # a # A) \<longrightarrow> h' x = nheap s x"
      using list_append_dlist [of "nheap s" "arena_list s" "[]" A "arena_list s" a] l a by auto
    with find an ord show ?thesis by auto
  next
    case (Cons b B)
    obtain us where us: "us = takeWhile low A" by simp
    have A: "us @ b # B = A" using takeWhile_dropWhile_id [of low A] unfolding us Cons .
    have an: "an = b" unfolding an_def Cons by simp
    have ord: "arena_order s a A = us @ a # b # B"
      unfolding arena_order_def low_def [symmetric] Let_def Cons us by simp
    have l': "dlist (nheap s) (arena_list s) (us @ b # B)" unfolding A by (rule l)
    have a': "a \<notin> set (arena_list s # us @ b # B)" unfolding A by (rule a)
    have b: "b \<noteq> NULL" using l' by (auto simp: dlist_def)
    obtain h' where "list_insert b a (nheap s) = Inr h'" "dlist h' (arena_list s) (us @ a # b # B)"
      "\<forall>x. x \<notin> set (arena_list s # a # us @ b # B) \<longrightarrow> h' x = nheap s x"
      using list_insert_dlist [OF l' a(1) a'] by blast
    with find an ord b show ?thesis unfolding A by auto
  qed
qed

text \<open>The free list of the new arena: all pages but those whose bit is set, in address order.\<close>

definition free_indices :: "pmm_arena \<Rightarrow> bitmap option \<Rightarrow> nat list" where
  "free_indices ar bt = (case bt of
      None \<Rightarrow> [0 ..< unat (ar_size ar)]
    | Some b \<Rightarrow> filter (\<lambda>j. \<not> (unat (ucast (ar_base ar div ARCH_PAGE_SIZE) :: u32) \<le> j
        \<and> bm_bit (bm_words b) j)) [0 ..< unat (ar_size ar)])"

text \<open>The state after the node is in place and the page array linked, before the bitmap.\<close>

lemma add_arena_linked:
  assumes p: "pool s A F" and L: "layout s (a # A)"
  shows "\<exists>s1. PmmNode_add_arena a bt s = (case bt of None \<Rightarrow> Inr s1
        | Some b \<Rightarrow> occupy_pages a b (ucast (ar_base (narenas s a) div ARCH_PAGE_SIZE)) s1)
    \<and> dlist (nheap s1) (arena_list s) (arena_order s a A)
    \<and> dlist (nheap s1) (free_list a) (map (page_ix (narenas s a)) [0 ..< unat (ar_size (narenas s a))])
    \<and> (\<forall>b \<in> set A. dlist (nheap s1) (free_list b) (F b))
    \<and> arena_list s1 = arena_list s
    \<and> narenas s1 = (narenas s)(a := (narenas s a)\<lparr>ar_free := ar_size (narenas s a)\<rparr>)
    \<and> (\<forall>x. occupied s1 x \<longleftrightarrow> occupied s x \<and> x \<notin> set (arena_pages s a))"
proof -
  let ?ar = "narenas s a" and ?fl = "free_list a" and ?al = "arena_list s"
  let ?n = "unat (ar_size ?ar)" and ?P = "set (arena_pages s a)"
  note D = layoutD [OF L] and good = layout_good_array [OF L, of a, simplified]
  have nn: "a \<noteq> NULL" "?fl \<noteq> NULL" "?al \<noteq> NULL" using D(7) by (auto simp: footprint_def)
  have aA: "a \<notin> set (?al # A)" using D(1) by auto
  have fl: "?fl \<notin> set (?al # a # A)" using D(2) [of a] by auto
  have P: "?P \<inter> set (?al # ?fl # a # A) = {}" using D(3,4) [of a] by (auto 4 3)
  have old: "x \<notin> insert ?fl ?P \<and> x \<noteq> a \<and> x \<notin> set (?al # A)" if "b \<in> set A" "x \<in> set (free_list b # F b)" for b x
  proof -
    have ba: "b \<noteq> a" using aA that(1) by auto
    have Fb: "set (F b) \<subseteq> set (arena_pages s b)" using poolD(4) [OF p that(1)] by auto
    have "free_list b \<noteq> ?fl" using ba by (simp add: free_list_def)
    moreover have "free_list b \<notin> ?P" using D(4) [of a b] that(1) by auto
    moreover have "?P \<inter> set (F b) = {}" using D(5) [of a b] ba that(1) Fb by auto
    moreover have "?fl \<notin> set (F b)" using D(4) [of b a] that(1) Fb by auto
    moreover have "free_list b \<notin> set (?al # a # A)" using D(2) [of b] that(1) by auto
    moreover have "set (F b) \<inter> set (?al # a # A) = {}" using D(3) [of b] that(1) Fb by auto
    ultimately show ?thesis using that(2) by auto
  qed
  obtain h1 where h1: "INIT_LLIST a (nheap s) = Inr h1" "\<And>x. x \<noteq> a \<Longrightarrow> h1 x = nheap s x"
    using init_dlist [OF nn(1)] by blast
  obtain h2 where h2: "INIT_LLIST ?fl h1 = Inr h2" "rooted h2 ?fl []" "\<And>x. x \<noteq> ?fl \<Longrightarrow> h2 x = h1 x"
    using init_dlist [OF nn(2)] by blast
  define s2 where "s2 = upd_arena a (\<lambda>ar. ar\<lparr>ar_free := 0\<rparr>) (s\<lparr>nheap := h2\<rparr>)"
  have s2: "nheap s2 = h2" "arena_list s2 = ?al" "narenas s2 = (narenas s)(a := ?ar\<lparr>ar_free := 0\<rparr>)"
    "npages s2 = npages s"
    by (simp_all add: s2_def upd_arena_def)
  have l2: "dlist (nheap s2) (arena_list s2) A"
  proof -
    have "h2 x = nheap s x" if "x \<in> set (?al # A)" for x
    proof -
      have "x \<noteq> a" "x \<noteq> ?fl" using that aA fl by auto
      then show ?thesis using h1(2) h2(3) by simp
    qed
    then have "dlist h2 ?al A" using poolD(2) [OF p] dlist_frame by blast
    then show ?thesis by (simp only: s2)
  qed
  have ord: "arena_order s2 a A = arena_order s a A"
  proof -
    have "ar_priority (narenas s2 b) = ar_priority (narenas s b)" for b by (simp add: s2)
    then show ?thesis by (simp add: arena_order_def)
  qed
  have "a \<notin> set (arena_list s2 # A)" "arena_list s2 \<noteq> NULL" using aA nn(3) s2(2) by auto
  from place_arena [OF l2 this(2) nn(1) this(1)] obtain an h3 where h3:
    "(if lnext (nheap s2 ?al) \<noteq> NULL
        then loop_res (find_priority s2 (ar_priority (narenas s2 a)) (lnext (nheap s2 ?al)))
        else Inr NULL) = Inr an"
    "(if an = NULL then list_append ?al a else list_insert an a) h2 = Inr h3"
    "dlist h3 ?al (arena_order s a A)"
    "\<And>x. x \<notin> set (?al # a # A) \<Longrightarrow> h3 x = h2 x"
    unfolding ord s2 by blast
  define s4 where "s4 = clear_pages (ar_pages ?ar) ?n (s2\<lparr>nheap := h3\<rparr>)"
  have img: "(\<lambda>i. ar_pages ?ar + of_nat i * sizeof_page) ` {..< ?n} = ?P"
    by (auto simp: arena_pages_def page_at_def)
  have s4: "narenas s4 = narenas s2" "arena_list s4 = ?al" "\<And>x. x \<notin> ?P \<Longrightarrow> nheap s4 x = h3 x"
    "\<And>x. x \<notin> ?P \<Longrightarrow> npages s4 x = npages s x" "\<And>x. x \<in> ?P \<Longrightarrow> pg_flags (npages s4 x) = 0"
    using clear_pages_result [of "ar_pages ?ar" ?n "s2\<lparr>nheap := h3\<rparr>"]
    unfolding img s4_def [symmetric] by (auto simp: s2)
  have size: "unat (ar_size ?ar * sizeof_page) div 16 = ?n"
  proof -
    have "ar_size ?ar * sizeof_page = of_nat (?n * 16)" by (simp add: sizeof_page_def)
    moreover have "array_end ?ar < 2 ^ 32" using L by (simp add: layout_def)
    then have "?n * 16 < 2 ^ LENGTH(32)" by (simp add: array_end_def)
    ultimately have "unat (ar_size ?ar * sizeof_page) = ?n * 16" by (simp only: unat_of_nat_small)
    then show ?thesis by simp
  qed
  have ar4: "narenas s4 a = ?ar\<lparr>ar_free := 0\<rparr>" by (simp add: s4(1) s2(3))
  have fl4: "nheap s4 ?fl = h2 ?fl" using s4(3) [of ?fl] h3(4) [of ?fl] fl P by auto
  then have "dlist (nheap s4) ?fl (map (page_ix (narenas s4 a)) [0 ..< 0])"
    using h2(2) nn(2) by (simp add: rooted_def)
  moreover have "good_array (narenas s4 a) ?fl" using good(1) by (simp add: ar4 good_array_def)
  ultimately obtain s5 where s5: "link_pages a 0 ?fl s4 = Inr s5"
    "dlist (nheap s5) ?fl (map (page_ix ?ar) [0 ..< ?n])"
    "\<And>x. x \<noteq> ?fl \<Longrightarrow> x \<notin> ?P \<Longrightarrow> nheap s5 x = nheap s4 x"
    "npages s5 = npages s4" "arena_list s5 = arena_list s4"
    "narenas s5 = (narenas s4)(a := (narenas s4 a)\<lparr>ar_free := of_nat ?n\<rparr>)"
    using link_pages_result [of s4 a 0] good(2) by (auto simp: ar4)
  have ar5: "narenas s5 = (narenas s)(a := ?ar\<lparr>ar_free := ar_size ?ar\<rparr>)"
    by (simp add: s5(6) s4(1) s2(3))
  have run: "PmmNode_add_arena a bt s = (case bt of None \<Rightarrow> Inr s5
        | Some b \<Rightarrow> occupy_pages a b (ucast (ar_base ?ar div ARCH_PAGE_SIZE)) s5)"
  proof -
    have i1: "on_heap (INIT_LLIST a) s = Inr (s\<lparr>nheap := h1\<rparr>)" using h1(1) by (simp add: on_heap_def)
    have i2: "on_heap (INIT_LLIST ?fl) (s\<lparr>nheap := h1\<rparr>) = Inr (s\<lparr>nheap := h2\<rparr>)"
      using h2(1) by (simp add: on_heap_def)
    have i3: "on_heap (if an = NULL then list_append ?al a else list_insert an a) s2 = Inr (s2\<lparr>nheap := h3\<rparr>)"
      using h3(2) by (simp only: on_heap_def s2 map_sum.simps)
    have ars: "narenas (s2\<lparr>nheap := h3\<rparr>) a = ?ar\<lparr>ar_free := 0\<rparr>" by (simp add: s2)
    show ?thesis
      unfolding PmmNode_add_arena_def i1 i2 bind_res.simps s2_def [symmetric] Let_def s2(2) h3(1) i3 ars
      using nn(1) s5(1) by (cases bt) (simp_all add: size s4_def [symmetric] ar5)
  qed
  have far: "nheap s5 x = h2 x" if "x \<noteq> ?fl" "x \<notin> ?P" "x \<notin> set (?al # a # A)" for x
    using s5(3) [OF that(1,2)] s4(3) [OF that(2)] h3(4) [OF that(3)] by simp
  have "dlist (nheap s5) ?al (arena_order s a A)"
  proof -
    have sub: "set (?al # arena_order s a A) = set (?al # a # A)"
      by (rule arena_order_split [of s a A]) auto
    have "nheap s5 x = h3 x" if "x \<in> set (?al # arena_order s a A)" for x
      using s5(3) [of x] s4(3) [of x] that fl P unfolding sub by (metis Int_iff empty_iff list.set_intros set_ConsD)
    then show ?thesis using h3(3) dlist_frame by blast
  qed
  moreover have "dlist (nheap s5) (free_list b) (F b)" if b: "b \<in> set A" for b
  proof -
    have "nheap s5 x = nheap s x" if x: "x \<in> set (free_list b # F b)" for x
      using old [OF b x] far [of x] h2(3) [of x] h1(2) [of x] by auto
    then show ?thesis using poolD(3) [OF p b] dlist_frame by blast
  qed
  moreover have "occupied s5 x \<longleftrightarrow> occupied s x \<and> x \<notin> ?P" for x
    using s4(4,5) [of x] by (cases "x \<in> ?P") (simp_all add: occupied_def s5(4))
  ultimately show ?thesis using run s5(2,5) s4(2) ar5 by auto
qed

lemma add_arena_result:
  assumes p: "pool s A F" and L: "layout s (a # A)"
  shows "\<exists>s'. PmmNode_add_arena a bt s = Inr s'
    \<and> pool s' (arena_order s a A) (F(a := map (page_ix (narenas s a)) (free_indices (narenas s a) bt)))"
proof -
  let ?ar = "narenas s a" and ?fl = "free_list a"
  let ?n = "unat (ar_size ?ar)" and ?P = "set (arena_pages s a)" and ?ix = "page_ix (narenas s a)"
  note D = layoutD [OF L] and good = layout_good_array [OF L, of a, simplified]
  obtain s1 where s1: "PmmNode_add_arena a bt s = (case bt of None \<Rightarrow> Inr s1
        | Some b \<Rightarrow> occupy_pages a b (ucast (ar_base ?ar div ARCH_PAGE_SIZE)) s1)"
    "dlist (nheap s1) (arena_list s) (arena_order s a A)"
    "dlist (nheap s1) ?fl (map ?ix [0 ..< ?n])" "\<And>b. b \<in> set A \<Longrightarrow> dlist (nheap s1) (free_list b) (F b)"
    "arena_list s1 = arena_list s" "narenas s1 = (narenas s)(a := ?ar\<lparr>ar_free := ar_size ?ar\<rparr>)"
    "\<And>x. occupied s1 x \<longleftrightarrow> occupied s x \<and> x \<notin> ?P"
    using add_arena_linked [OF p L, of bt] by blast
  let ?L = "free_indices ?ar bt"
  have sub: "set ?L \<subseteq> {..< ?n}" by (auto simp: free_indices_def split: option.splits)
  obtain s' where s': "PmmNode_add_arena a bt s = Inr s'"
    "dlist (nheap s') ?fl (map ?ix ?L)" "\<And>x. x \<noteq> ?fl \<Longrightarrow> x \<notin> ?P \<Longrightarrow> nheap s' x = nheap s1 x"
    "arena_list s' = arena_list s" "narenas s' = (narenas s)(a := ?ar\<lparr>ar_free := of_nat (length ?L)\<rparr>)"
    "\<And>x. occupied s' x \<longleftrightarrow> occupied s1 x \<or> x \<in> ?ix ` ({..< ?n} - set ?L)"
  proof (cases bt)
    case None
    then have "?L = [0 ..< ?n]" by (simp add: free_indices_def)
    with None s1 show thesis by (intro that [of s1]) auto
  next
    case (Some b)
    define i where "i = unat (ucast (ar_base ?ar div ARCH_PAGE_SIZE) :: u32)"
    have iw: "(ucast (ar_base ?ar div ARCH_PAGE_SIZE) :: u32) = of_nat i" by (simp add: i_def)
    have Leq: "?L = filter (\<lambda>j. \<not> (i \<le> j \<and> bm_bit (bm_words b) j)) [0 ..< ?n]"
      by (simp add: free_indices_def Some i_def)
    have ar1: "narenas s1 a = ?ar\<lparr>ar_free := ar_size ?ar\<rparr>" by (simp add: s1(6))
    show thesis
    proof (cases "i \<le> ?n")
      case True
      have pre: "good_array (narenas s1 a) ?fl" "i \<le> unat (ar_size (narenas s1 a))"
        "dlist (nheap s1) ?fl (map (page_ix (narenas s1 a)) [0 ..< ?n])" "distinct [0 ..< ?n]"
        "{i ..< unat (ar_size (narenas s1 a))} \<subseteq> set [0 ..< ?n]"
        "set [0 ..< ?n] \<subseteq> {..< unat (ar_size (narenas s1 a))}"
        "ar_free (narenas s1 a) = of_nat (length [0 ..< ?n])"
        using good(1) True s1(3) by (auto simp: ar1 good_array_def)
      obtain s' where "occupy_pages a b (of_nat i) s1 = Inr s'" "dlist (nheap s') ?fl (map ?ix ?L)"
        "\<And>x. x \<noteq> ?fl \<Longrightarrow> x \<notin> ?P \<Longrightarrow> nheap s' x = nheap s1 x" "arena_list s' = arena_list s1"
        "narenas s' = (narenas s1)(a := (narenas s1 a)\<lparr>ar_free := of_nat (length ?L)\<rparr>)"
        "\<And>x. occupied s' x \<longleftrightarrow> occupied s1 x \<or> x \<in> ?ix ` (set [0 ..< ?n] - set ?L)"
        using occupy_pages_result [OF pre, of b] good(2) unfolding Leq [symmetric] by (auto simp: ar1)
      then show thesis
        using s1(1,5) Some iw by (intro that [of s']) (auto simp: s1(6) atLeast0LessThan)
    next
      case False
      have "?L = [0 ..< ?n]" unfolding Leq by (rule filter_True) (use False in auto)
      moreover have "occupy_pages a b (of_nat i) s1 = Inr s1"
      proof -
        have "\<not> of_nat i < ar_size ?ar" using False by (simp add: word_less_nat_alt i_def)
        then show ?thesis by (subst occupy_pages.simps) (simp add: ar1)
      qed
      ultimately show thesis using s1 Some iw by (intro that [of s1]) auto
    qed
  qed
  have g: "geometry s' = geometry s" using s'(4,5) by (auto simp: geometry_def fun_eq_iff)
  note G = geometry_cong [OF g]
  have ordm: "mset (arena_order s a A) = mset (a # A)"
    by (rule arena_order_split [of s a A]) auto
  then have ords: "set (arena_order s a A) = set (a # A)" by (metis set_mset_mset)
  have aA: "a \<notin> set A" using D(1) by auto
  have frame: "nheap s' x = nheap s1 x" if "x \<noteq> ?fl" "x \<notin> ?P" for x by (rule s'(3) [OF that])
  have "pool s' (arena_order s a A) (F(a := map ?ix ?L))"
    unfolding pool_def G ords
  proof (intro conjI ballI)
    show "layout s (arena_order s a A)" by (rule layout_new [OF L ordm])
    have "nheap s' x = nheap s1 x" if "x \<in> set (arena_list s # arena_order s a A)" for x
    proof (rule frame)
      have "x \<in> set (arena_list s # a # A)" using that ords by auto
      then show "x \<noteq> ?fl" "x \<notin> ?P" using D(2,3) [of a] by auto
    qed
    then show "dlist (nheap s') (arena_list s) (arena_order s a A)"
      using s1(2) dlist_frame by blast
    fix b assume b: "b \<in> set (a # A)"
    have ab: "b \<noteq> a \<Longrightarrow> b \<in> set A" using b by auto
    have Fb: "set (F b) \<subseteq> set (arena_pages s b)" if "b \<noteq> a" using poolD(4) [OF p ab [OF that]] by auto
    show "dlist (nheap s') (free_list b) ((F(a := map ?ix ?L)) b)"
    proof (cases "b = a")
      case False
      have "nheap s' x = nheap s1 x" if "x \<in> set (free_list b # F b)" for x
      proof (rule frame)
        show "x \<noteq> ?fl" using that False Fb D(4) [of b a] b by (auto simp: free_list_def)
        show "x \<notin> ?P" using that Fb [OF False] D(4) [of a b] D(5) [of a b] b False by auto
      qed
      then have "dlist (nheap s') (free_list b) (F b)"
        using s1(4) [OF ab [OF False]] dlist_frame by blast
      then show ?thesis using False by simp
    qed (use s'(2) in simp)
    show "set ((F(a := map ?ix ?L)) b) = {q \<in> set (arena_pages s b). \<not> occupied s' q}"
    proof (cases "b = a")
      case True
      have "q \<in> ?ix ` set ?L \<longleftrightarrow> q \<in> ?P \<and> \<not> occupied s' q" for q
      proof (cases "q \<in> ?P")
        case True
        then obtain j where j: "j < ?n" "q = ?ix j" using good(2) by auto
        have inj: "?ix j = ?ix k \<longleftrightarrow> j = k" if "k < ?n" for k
          using good(1) j(1) that by (auto simp: good_array_def inj_on_def)
        have "q \<in> ?ix ` set ?L \<longleftrightarrow> j \<in> set ?L" using j inj sub by (auto simp: image_iff)
        moreover have "q \<in> ?ix ` ({..< ?n} - set ?L) \<longleftrightarrow> j \<notin> set ?L"
          using j inj by (auto simp: image_iff)
        ultimately show ?thesis using True by (simp add: s'(6) s1(7))
      next
        case False
        then show ?thesis using sub good(2) by auto
      qed
      then show ?thesis using True by auto
    next
      case False
      have "q \<notin> ?P" if "q \<in> set (arena_pages s b)" for q using D(5) [of b a] b False that by auto
      moreover have "?ix ` ({..< ?n} - set ?L) \<subseteq> ?P" using good(2) by auto
      ultimately show ?thesis
        using False poolD(4) [OF p ab [OF False]] by (auto simp: s'(6) s1(7))
    qed
    show "ar_free (narenas s' b) = of_nat (length ((F(a := map ?ix ?L)) b))"
      using poolD(5) [OF p] ab by (auto simp: s'(5))
  qed
  with s'(1) show ?thesis by blast
qed

section \<open>Properties\<close>

text \<open>C15. \<open>PmmNode::add_arena\<close> on an allocator in a good state, with an arena whose page array
  overlaps nothing else, always returns and leaves the allocator in a good state: the arena
  joins the list right before the first arena of a higher priority value, and at the front, before
  all the others, when there is none, so that a new arena of the highest value is allocated from first;
  its free list is its pages in address order
  without those whose bit is set from index \<open>base / 4096\<close> on, and the other arenas keep theirs.\<close>

theorem pmm_add_arena_correct:
  assumes "pool s A F" and "layout s (a # A)"
  shows "\<exists>s'. PmmNode_add_arena a bt s = Inr s' \<and> pool s' (arena_order s a A)
    (F(a := map (\<lambda>i. page_at (narenas s a) (of_nat i)) (free_indices (narenas s a) bt)))"
proof -
  have "page_ix (narenas s a) = (\<lambda>i. page_at (narenas s a) (of_nat i))"
    by (simp add: fun_eq_iff page_ix_def)
  with add_arena_result [OF assms, of bt] show ?thesis by simp
qed

text \<open>An empty allocator, an arena of four pages at physical 0 and a bitmap with bits 0 and 2 set.\<close>

definition pmm_empty_example :: pmm_node where
  "pmm_empty_example = \<lparr>
     nheap = (\<lambda>_. \<lparr>lprev = 0, lnext = 0\<rparr>)(0x100 := \<lparr>lprev = 0x100, lnext = 0\<rparr>),
     narenas = (\<lambda>_. \<lparr>ar_flags = 1, ar_base = 0, ar_size = 4, ar_free = 0, ar_priority = 1,
       ar_pages = 0x2000\<rparr>),
     npages = (\<lambda>_. \<lparr>pg_flags = 7, pg_ref = 7\<rparr>), arena_list = 0x100\<rparr>"

lemma empty_example_layout: "layout pmm_empty_example [0x1000]" "layout pmm_empty_example []"
proof -
  have "arena_list pmm_empty_example = 0x100" "free_list 0x1000 = 0x1024"
    "arena_pages pmm_empty_example 0x1000 = [0x2000, 0x2010, 0x2020, 0x2030]"
    by (simp_all add: pmm_empty_example_def free_list_def arena_pages_def page_at_def sizeof_page_def upt_conv_Cons)
  then show "layout pmm_empty_example [0x1000]" "layout pmm_empty_example []"
    by (simp_all add: layout_def footprint_def) (simp_all add: array_end_def pmm_empty_example_def)
qed

lemma empty_example_pool: "pool pmm_empty_example [] F"
  using empty_example_layout(2) by (simp add: pool_def) (simp add: pmm_empty_example_def)

theorem pmm_add_arena_correct_witness:
  "\<exists>s' F. PmmNode_add_arena 0x1000 (Some \<lparr>bm_length = 1, bm_bit_count = 4, bm_words = (\<lambda>_. 5)\<rparr>)
      pmm_empty_example = Inr s'
    \<and> pool s' [0x1000] F \<and> F 0x1000 = [0x2010, 0x2030]"
proof -
  let ?b = "\<lparr>bm_length = 1, bm_bit_count = 4, bm_words = (\<lambda>_. 5)\<rparr> :: bitmap"
  have "(5 :: u32) = push_bit 0 1 OR push_bit 2 1" by simp
  then have bit5: "bit (5 :: u32) k \<longleftrightarrow> k = 0 \<or> k = 2" for k
    by (simp only: bit_simps) auto
  have "free_indices (narenas pmm_empty_example 0x1000) (Some ?b) = [1, 3]"
    by (simp add: free_indices_def pmm_empty_example_def bm_bit_def bit5 upt_conv_Cons)
  moreover have "arena_order pmm_empty_example 0x1000 [] = [0x1000]" by (simp add: arena_order_def)
  ultimately show ?thesis
    using pmm_add_arena_correct [OF empty_example_pool empty_example_layout(1), of "Some ?b" "\<lambda>_. []"]
    by (auto simp: page_at_def sizeof_page_def) (auto simp: pmm_empty_example_def)
qed

end
