(* ===== verification/Pmm.thy ===== *)
theory Pmm
  imports PmmInit
begin

text \<open>
  \<open>core/mm/pmm.cc\<close>: the front end of physical memory. The kernel holds a pointer to one
  \<open>PhysicalAllocator\<close>; the calls dispatch on its class. The base class answers for the methods a
  subclass does not override. \<open>ASSERT\<close> (\<open>lib/libc/panic_assert.c\<close>) prints and goes on, so a call
  on an allocator of the wrong type is not stopped; the model leaves the message out.
\<close>

datatype allocator_class = PhysicalAllocator | BootAllocator | PmmNode

record pmm =
  pm_allocator :: "allocator_class option"     \<comment> \<open>the null pointer before \<open>set_allocator\<close>\<close>
  pm_boot :: boot_allocator
  pm_node :: pmm_node

section \<open>The base class\<close>

definition PhysicalAllocator_add_arena :: "addr \<Rightarrow> bitmap option \<Rightarrow> pmm \<Rightarrow> kerror + pmm" where
  "PhysicalAllocator_add_arena arena bt s = Inr s"

definition PhysicalAllocator_page_to_physical :: "addr \<Rightarrow> phys_t" where
  "PhysicalAllocator_page_to_physical page = - 1"

definition PhysicalAllocator_allocate :: "u32 \<Rightarrow> pmm \<Rightarrow> kerror + (u32 \<times> addr option \<times> pmm)" where
  "PhysicalAllocator_allocate sz s = Inr (0, None, s)"

definition PhysicalAllocator_allocate_contiguous :: "u32 \<Rightarrow> pmm \<Rightarrow> kerror + (u32 \<times> addr option \<times> pmm)" where
  "PhysicalAllocator_allocate_contiguous sz s = Inr (0, None, s)"

definition PhysicalAllocator_allocate_single :: "pmm \<Rightarrow> kerror + (u32 \<times> addr option \<times> pmm)" where
  "PhysicalAllocator_allocate_single s = PhysicalAllocator_allocate 1 s"

definition PhysicalAllocator_get_type :: u32 where "PhysicalAllocator_get_type = PMM_TYPE_OTHER"

definition PhysicalAllocator_get_size :: u32 where "PhysicalAllocator_get_size = 4"

section \<open>Dispatch\<close>

definition set_allocator :: "allocator_class option \<Rightarrow> pmm \<Rightarrow> pmm" where
  "set_allocator a s = s\<lparr>pm_allocator := a\<rparr>"

definition get_allocator :: "pmm \<Rightarrow> kerror + allocator_class" where
  "get_allocator s = (case pm_allocator s of None \<Rightarrow> Inl Null_deref | Some c \<Rightarrow> Inr c)"

definition allocator_get_type :: "allocator_class \<Rightarrow> u32" where
  "allocator_get_type c = (case c of
      PhysicalAllocator \<Rightarrow> PhysicalAllocator_get_type
    | BootAllocator \<Rightarrow> BootAllocator_get_type
    | PmmNode \<Rightarrow> PmmNode_get_type)"

definition allocator_get_size :: "allocator_class \<Rightarrow> u32" where
  "allocator_get_size c = (case c of
      BootAllocator \<Rightarrow> BootAllocator_get_size
    | _ \<Rightarrow> PhysicalAllocator_get_size)"

definition pmm_add_arena :: "addr \<Rightarrow> bitmap option \<Rightarrow> pmm \<Rightarrow> kerror + pmm" where
  "pmm_add_arena arena bt s = bind_res (get_allocator s) (\<lambda>c. case c of
      PhysicalAllocator \<Rightarrow> PhysicalAllocator_add_arena arena bt s
    | BootAllocator \<Rightarrow> map_sum id (\<lambda>b. s\<lparr>pm_boot := b\<rparr>) (BootAllocator_add_arena bt (pm_boot s))
    | PmmNode \<Rightarrow> map_sum id (\<lambda>n. s\<lparr>pm_node := n\<rparr>) (PmmNode_add_arena arena bt (pm_node s)))"

text \<open>\<open>hp\<close>: the stack node of the list allocator; the results are as in \<open>PmmNode\<close>.\<close>

definition pmm_alloc_pages :: "addr \<Rightarrow> u32 \<Rightarrow> pmm \<Rightarrow> kerror + (u32 \<times> addr option \<times> pmm)" where
  "pmm_alloc_pages hp cnt s = bind_res (get_allocator s) (\<lambda>c. case c of
      PmmNode \<Rightarrow> map_sum id (\<lambda>(n, p, t). (n, p, s\<lparr>pm_node := t\<rparr>)) (PmmNode_allocate hp cnt (pm_node s))
    | _ \<Rightarrow> PhysicalAllocator_allocate cnt s)"

definition pmm_alloc_pages_contig :: "addr \<Rightarrow> u32 \<Rightarrow> pmm \<Rightarrow> kerror + (u32 \<times> addr option \<times> pmm)" where
  "pmm_alloc_pages_contig hp cnt s = bind_res (get_allocator s) (\<lambda>c. case c of
      PmmNode \<Rightarrow> map_sum id (\<lambda>(n, p, t). (n, p, s\<lparr>pm_node := t\<rparr>))
        (PmmNode_allocate_contiguous hp cnt (pm_node s))
    | _ \<Rightarrow> PhysicalAllocator_allocate_contiguous cnt s)"

text \<open>
  \<open>bafree_at\<close> reads a \<open>bafree_t\<close> at an address, which is what the boot allocator takes its
  argument for. The base class frees nothing and leaves \<open>*pages\<close> as it is.
\<close>

definition pmm_free :: "(addr \<Rightarrow> bafree) \<Rightarrow> addr \<Rightarrow> addr \<Rightarrow> addr \<Rightarrow> pmm \<Rightarrow> kerror + (u32 \<times> addr \<times> pmm)" where
  "pmm_free bafree_at hp pages pglist s = bind_res (get_allocator s) (\<lambda>c. case c of
      PmmNode \<Rightarrow> map_sum id (\<lambda>(n, p, t). (n, p, s\<lparr>pm_node := t\<rparr>)) (PmmNode_free hp pglist (pm_node s))
    | BootAllocator \<Rightarrow> map_sum id (\<lambda>(n, b). (n, pglist, s\<lparr>pm_boot := b\<rparr>))
        (BootAllocator_free (bafree_at pages) (pm_boot s))
    | PhysicalAllocator \<Rightarrow> Inr (0, pglist, s))"

definition pmm_get_phys :: "(addr \<Rightarrow> bafree) \<Rightarrow> addr \<Rightarrow> pmm \<Rightarrow> kerror + phys_t" where
  "pmm_get_phys bafree_at page s = bind_res (get_allocator s) (\<lambda>c. case c of
      PmmNode \<Rightarrow> PmmNode_page_to_physical page (pm_node s)
    | BootAllocator \<Rightarrow> Inr (BootAllocator_page_to_physical (bafree_at page))
    | PhysicalAllocator \<Rightarrow> Inr (PhysicalAllocator_page_to_physical page))"

section \<open>Lemmas\<close>

lemma get_allocator_set: "get_allocator (set_allocator (Some c) s) = Inr c"
  by (simp add: get_allocator_def set_allocator_def)

text \<open>On the list allocator the front end is the allocator's own operations.\<close>

lemma pmm_node_dispatch:
  assumes "pm_allocator s = Some PmmNode"
  shows "pmm_alloc_pages hp cnt s
      = map_sum id (\<lambda>(n, p, t). (n, p, s\<lparr>pm_node := t\<rparr>)) (PmmNode_allocate hp cnt (pm_node s))"
    and "pmm_free bf hp pages pglist s
      = map_sum id (\<lambda>(n, p, t). (n, p, s\<lparr>pm_node := t\<rparr>)) (PmmNode_free hp pglist (pm_node s))"
    and "pmm_get_phys bf page s = PmmNode_page_to_physical page (pm_node s)"
  using assms by (simp_all add: pmm_alloc_pages_def pmm_free_def pmm_get_phys_def get_allocator_def)

end
