(* ===== verification/Libc.thy ===== *)
theory Libc
  imports Prelude "HOL-Library.Signed_Division"
begin

text \<open>
  \<open>lib/libc/ctype.c\<close>, \<open>lib/libc/stdlib.c\<close> and the integer helpers of \<open>lib/libc/include/math.h\<close>.
  A C \<open>int\<close> or \<open>long\<close> is a 32-bit word read with \<^const>\<open>sint\<close>; a truth value is 0 or 1.
\<close>

section \<open>Character classes\<close>

definition between :: "u32 \<Rightarrow> char \<Rightarrow> char \<Rightarrow> bool" where
  "between c lo hi \<longleftrightarrow> sint c \<ge> of_char lo \<and> sint c \<le> of_char hi"

definition isalnum :: "u32 \<Rightarrow> u32" where
  "isalnum c = of_bool (between c CHR ''A'' CHR ''Z'' \<or> between c CHR ''a'' CHR ''z'' \<or> between c CHR ''0'' CHR ''9'')"

definition isalpha :: "u32 \<Rightarrow> u32" where
  "isalpha c = of_bool (between c CHR ''A'' CHR ''Z'' \<or> between c CHR ''a'' CHR ''z'')"

definition isascii :: "u32 \<Rightarrow> u32" where
  "isascii c = of_bool (sint c \<ge> 0 \<and> sint c \<le> 255)"

definition isdigit :: "u32 \<Rightarrow> u32" where
  "isdigit c = of_bool (sint c \<ge> of_char CHR ''0'' \<or> sint c \<le> of_char CHR ''9'')"

definition islower :: "u32 \<Rightarrow> u32" where
  "islower c = of_bool (between c CHR ''a'' CHR ''z'')"

definition isspace :: "u32 \<Rightarrow> u32" where
  "isspace c = of_bool (c = of_char CHR '' '' \<or> c = 9)"

definition isupper :: "u32 \<Rightarrow> u32" where
  "isupper c = of_bool (between c CHR ''A'' CHR ''Z'')"

definition isxdigit :: "u32 \<Rightarrow> u32" where
  "isxdigit c = of_bool (between c CHR ''A'' CHR ''F'' \<or> between c CHR ''a'' CHR ''f'' \<or> between c CHR ''0'' CHR ''9'')"

definition toascii :: "u32 \<Rightarrow> u32" where
  "toascii c = c"

definition tolower :: "u32 \<Rightarrow> u32" where
  "tolower c = (if between c CHR ''A'' CHR ''Z'' then c + (of_char CHR ''a'' - of_char CHR ''A'') else c)"

definition toupper :: "u32 \<Rightarrow> u32" where
  "toupper c = (if between c CHR ''a'' CHR ''z'' then c + (of_char CHR ''A'' - of_char CHR ''a'') else c)"

section \<open>Arithmetic\<close>

definition abs_int :: "u32 \<Rightarrow> u32" where
  "abs_int j = (if sint j \<ge> 0 then j else - j)"

definition labs :: "u32 \<Rightarrow> u32" where
  "labs j = (if sint j \<ge> 0 then j else - j)"

record ldiv_t =
  quot :: u32
  rem :: u32

text \<open>The processor's signed division truncates, and traps on 0 and on a quotient that does not fit.\<close>

definition ldiv :: "u32 \<Rightarrow> u32 \<Rightarrow> ldiv_t option" where
  "ldiv n d =
     (if d = 0 \<or> sint n = - (2 ^ 31) \<and> sint d = - 1 then None
      else let q = word_of_int (sint n sdiv sint d); r = word_of_int (sint n smod sint d)
           in Some (if sint n \<ge> 0 \<and> sint r < 0 then \<lparr>quot = q + 1, rem = r - d\<rparr> else \<lparr>quot = q, rem = r\<rparr>))"

text \<open>The generator's state is the static \<open>next\<close>.\<close>

definition rand :: "u32 \<Rightarrow> u32 \<times> u32" where
  "rand nxt = (let nxt' = nxt * 1103515245 + 12345 in ((nxt' div 65536) mod 32768, nxt'))"

text \<open>
  \<open>1 << (32 - __builtin_clz(x-1))\<close>. The builtin is undefined for 0, and so is a shift of an
  \<open>int\<close> by its width or more; such a result is \<^const>\<open>None\<close>.
\<close>

fun bit_width :: "nat \<Rightarrow> nat" where
  "bit_width n = (if n = 0 then 0 else Suc (bit_width (n div 2)))"

declare bit_width.simps [simp del]

definition clz :: "u32 \<Rightarrow> nat option" where
  "clz x = (if x = 0 then None else Some (32 - bit_width (unat x)))"

definition next_pow2 :: "u32 \<Rightarrow> u32 option" where
  "next_pow2 x =
     (if x = 1 then Some 1
      else Option.bind (clz (x - 1)) (\<lambda>k. if 32 - k < 32 then Some (push_bit (32 - k) 1) else None))"

text \<open>\<open>__builtin_clzl\<close> takes an \<open>unsigned long\<close>, of 32 bits here, and the shift is that of an \<open>int\<close>.\<close>

definition next_pow2l :: "u64 \<Rightarrow> u64 option" where
  "next_pow2l x =
     (if x = 1 then Some 1
      else Option.bind (clz (ucast (x - 1))) (\<lambda>k.
        if 64 - k < 32 then Some (scast (push_bit (64 - k) 1 :: u32)) else None))"

section \<open>Lemmas\<close>

lemma bit_width_bounds: "n < 2 ^ bit_width n \<and> (0 < n \<longrightarrow> 2 ^ (bit_width n - 1) \<le> n)"
proof (induction n rule: bit_width.induct)
  case (1 n)
  show ?case
  proof (cases "n = 0")
    case True
    then show ?thesis by (simp add: bit_width.simps)
  next
    case False
    let ?k = "bit_width (n div 2)"
    have k: "bit_width n = Suc ?k" using False by (subst bit_width.simps) simp
    have IH: "n div 2 < 2 ^ ?k" "0 < n div 2 \<Longrightarrow> 2 ^ (?k - 1) \<le> n div 2" using 1 False by auto
    have "2 ^ ?k \<le> n"
    proof (cases "n div 2 = 0")
      case True
      then have "?k = 0" by (simp add: bit_width.simps)
      with False show ?thesis by simp
    next
      case nz: False
      then have "0 < ?k" using IH(1) by (cases ?k) auto
      then have "2 ^ ?k = 2 * (2::nat) ^ (?k - 1)" by (simp flip: power_Suc)
      with IH(2) nz show ?thesis by auto
    qed
    with IH(1) show ?thesis by (auto simp: k)
  qed
qed

lemma bit_width_le: "n < 2 ^ k \<Longrightarrow> bit_width n \<le> k"
proof (rule ccontr)
  assume n: "n < 2 ^ k" and "\<not> bit_width n \<le> k"
  then have "k \<le> bit_width n - 1" by simp
  then have "(2::nat) ^ k \<le> 2 ^ (bit_width n - 1)" by (intro power_increasing) simp_all
  moreover have "0 < n" using \<open>\<not> bit_width n \<le> k\<close> by (cases n) (auto simp: bit_width.simps)
  ultimately show False using bit_width_bounds [of n] n by linarith
qed

lemma sint_range: "- (2 ^ 31) \<le> sint (x :: u32)" "sint x < 2 ^ 31"
  using sint_greater_eq [of x] sint_less [of x] by simp_all

lemma sint_word_of_int: "- (2 ^ 31) \<le> k \<Longrightarrow> k < 2 ^ 31 \<Longrightarrow> sint (word_of_int k :: u32) = k"
  by (simp add: sint_uint uint_word_of_int_eq signed_take_bit_take_bit signed_take_bit_int_eq_self)

section \<open>Properties\<close>

text \<open>\<open>ldiv\<close> traps exactly on a zero divisor and on \<open>LONG_MIN / -1\<close>; otherwise the quotient and
  remainder satisfy the division equation, the remainder is smaller than the divisor and has
  the sign of the numerator, so that the code's correction never applies.\<close>

theorem ldiv_correct:
  "case ldiv n d of
     None \<Rightarrow> d = 0 \<or> sint n = - (2 ^ 31) \<and> sint d = - 1
   | Some r \<Rightarrow> d \<noteq> 0 \<and> sint n = sint (quot r) * sint d + sint (rem r)
       \<and> \<bar>sint (rem r)\<bar> < \<bar>sint d\<bar> \<and> (sint (rem r) = 0 \<or> sgn (sint (rem r)) = sgn (sint n))"
proof (cases "d = 0 \<or> sint n = - (2 ^ 31) \<and> sint d = - 1")
  case True
  then show ?thesis by (simp add: ldiv_def)
next
  case False
  define N where "N = sint n"
  define D where "D = sint d"
  have N: "- (2 ^ 31) \<le> N" "N < 2 ^ 31" and D: "- (2 ^ 31) \<le> D" "D < 2 ^ 31" "D \<noteq> 0"
    using sint_range [of n] sint_range [of d] False by (auto simp: N_def D_def signed_eq_0_iff)
  have trap: "\<not> (N = - (2 ^ 31) \<and> D = - 1)" using False by (simp add: N_def D_def)
  have q: "- (2 ^ 31) \<le> N sdiv D" "N sdiv D < 2 ^ 31"
  proof -
    have r: "- \<bar>N\<bar> \<le> N sdiv D" "N sdiv D \<le> \<bar>N\<bar>" using sdiv_int_range [of N D] by auto
    then show "- (2 ^ 31) \<le> N sdiv D" using N by linarith
    have "N = - (2 ^ 31) \<Longrightarrow> N sdiv D \<noteq> - N" using int_sdiv_negated_is_minus1 [of N D] trap by auto
    with r N show "N sdiv D < 2 ^ 31" by linarith
  qed
  have m: "- \<bar>D\<bar> + 1 \<le> N smod D" "N smod D \<le> \<bar>D\<bar> - 1" using smod_int_range [OF D(3), of N] by auto
  then have m': "- (2 ^ 31) \<le> N smod D" "N smod D < 2 ^ 31" using D by linarith+
  have sgn: "N smod D = 0 \<or> sgn (N smod D) = sgn N"
  proof -
    define r where "r = \<bar>N\<bar> mod \<bar>D\<bar>"
    have "0 \<le> r" using D(3) by (simp add: r_def)
    moreover have "N smod D = sgn N * r" by (simp add: smod_int_alt_def r_def)
    ultimately show ?thesis by (cases "r = 0") (simp_all add: sgn_mult)
  qed
  then have no: "\<not> (N \<ge> 0 \<and> N smod D < 0)" by (auto simp: sgn_if split: if_splits)
  have "ldiv n d = Some \<lparr>quot = word_of_int (N sdiv D), rem = word_of_int (N smod D)\<rparr>"
    using False no sint_word_of_int [OF m'] by (simp add: ldiv_def N_def D_def Let_def)
  moreover have "N = (N sdiv D) * D + N smod D" by (simp add: sdiv_mult_smod_eq)
  ultimately show ?thesis
    using False m sgn sint_word_of_int [OF q] sint_word_of_int [OF m']
    by (auto simp: N_def D_def)
qed

text \<open>\<open>isdigit\<close> accepts every argument: its two bounds are joined with \<open>||\<close>.\<close>

theorem isdigit_constant: "isdigit c = 1"
proof -
  have "sint c \<ge> 48 \<or> sint c \<le> 57" by linarith
  then show ?thesis by (simp add: isdigit_def)
qed

text \<open>C37. \<open>next_pow2\<close> of \<open>x\<close> from 1 to \<open>2^31\<close> is the least power of two that is at least \<open>x\<close>; for 0 and above
  \<open>2^31\<close> the expression is an undefined shift.\<close>

theorem next_pow2_correct:
  "case next_pow2 x of
     None \<Rightarrow> x = 0 \<or> 2 ^ 31 < unat x
   | Some p \<Rightarrow> \<exists>k. p = push_bit k 1 \<and> k < 32 \<and> unat x \<le> 2 ^ k \<and> 2 ^ k < 2 * unat x"
proof (cases "x = 1")
  case True
  then show ?thesis by (auto simp: next_pow2_def intro!: exI [of _ 0])
next
  case x1: False
  let ?k = "bit_width (unat (x - 1))"
  have "x - 1 \<noteq> 0" using x1 by simp
  then have np: "next_pow2 x = (if 32 - (32 - ?k) < 32 then Some (push_bit (32 - (32 - ?k)) 1) else None)"
    using x1 by (simp add: next_pow2_def clz_def)
  have u: "unat (x - 1) < 2 ^ 32" using unsigned_less [of "x - 1"] by simp
  have b: "unat (x - 1) < 2 ^ ?k" "0 < unat (x - 1) \<Longrightarrow> 2 ^ (?k - 1) \<le> unat (x - 1)"
    using bit_width_bounds [of "unat (x - 1)"] by auto
  have k32: "32 - (32 - ?k) = ?k" using bit_width_le [OF u] by simp
  show ?thesis
  proof (cases "x = 0")
    case True
    then have m1: "unat (x - 1) = 2 ^ 32 - 1" by (simp add: unsigned_minus_1_eq_mask mask_eq_exp_minus_1)
    have "\<not> ?k < 32"
    proof
      assume "?k < 32"
      then have "(2::nat) ^ ?k \<le> 2 ^ 31" by (intro power_increasing) simp_all
      with b(1) m1 show False by simp
    qed
    with True show ?thesis unfolding np k32 by simp
  next
    case False
    then have x: "unat (x - 1) = unat x - 1" by (rule unat_minus_one)
    have "unat x \<noteq> 0" "unat x \<noteq> 1" using False x1 by (auto simp: word_unat_eq_iff)
    then have x2: "2 \<le> unat x" by linarith
    have "0 < ?k" using b(1) x x2 by (cases ?k) auto
    then have d: "(2::nat) ^ ?k = 2 * 2 ^ (?k - 1)" by (simp flip: power_Suc)
    have lo: "unat x \<le> 2 ^ ?k" using b(1) x2 unfolding x by linarith
    have hi: "2 ^ ?k < 2 * unat x" using b(2) x2 d unfolding x by linarith
    show ?thesis
    proof (cases "?k < 32")
      case True
      with lo hi show ?thesis unfolding np k32 by auto
    next
      case False
      then have "?k = 32" using bit_width_le [OF u] by simp
      with hi have "2 ^ 31 < unat x" by simp
      with False show ?thesis unfolding np k32 by simp
    qed
  qed
qed

theorem next_pow2_correct_witness:
  "\<exists>k. next_pow2 5 = Some (push_bit k 1) \<and> 5 \<le> (2::nat) ^ k \<and> (2::nat) ^ k < 10"
  using next_pow2_correct [of 5] by (cases "next_pow2 5") auto

end
