(* ===== verification/Memory.thy ===== *)
theory Memory
  imports Prelude
begin

text \<open>
  The flat byte memory of the i386: a function from 32-bit addresses to bytes, with the
  little-endian reads and writes the C code makes through pointers. Addresses wrap around.
\<close>

type_synonym mem = "addr \<Rightarrow> u8"

section \<open>Reads and writes\<close>

definition ld16 :: "mem \<Rightarrow> addr \<Rightarrow> u16" where
  "ld16 m a = ucast (m a) OR push_bit 8 (ucast (m (a + 1)))"

definition ld32 :: "mem \<Rightarrow> addr \<Rightarrow> u32" where
  "ld32 m a = ucast (m a) OR push_bit 8 (ucast (m (a + 1))) OR push_bit 16 (ucast (m (a + 2)))
     OR push_bit 24 (ucast (m (a + 3)))"

definition ld64 :: "mem \<Rightarrow> addr \<Rightarrow> u64" where
  "ld64 m a = ucast (ld32 m a) OR push_bit 32 (ucast (ld32 m (a + 4)))"

definition st8 :: "addr \<Rightarrow> u8 \<Rightarrow> mem \<Rightarrow> mem" where
  "st8 a v m = m(a := v)"

definition st16 :: "addr \<Rightarrow> u16 \<Rightarrow> mem \<Rightarrow> mem" where
  "st16 a v m = m(a := ucast v, a + 1 := ucast (drop_bit 8 v))"

definition st32 :: "addr \<Rightarrow> u32 \<Rightarrow> mem \<Rightarrow> mem" where
  "st32 a v m = m(a := ucast v, a + 1 := ucast (drop_bit 8 v), a + 2 := ucast (drop_bit 16 v),
     a + 3 := ucast (drop_bit 24 v))"

section \<open>Bytes and words\<close>

lemma addr_offset_neq: "(a :: u32) + 1 \<noteq> a" "a + 2 \<noteq> a" "a + 3 \<noteq> a"
    "a + 2 \<noteq> a + 1" "a + 3 \<noteq> a + 1" "a + 3 \<noteq> a + 2"
    "a \<noteq> a + 1" "a \<noteq> a + 2" "a \<noteq> a + 3" "a + 1 \<noteq> a + 2" "a + 1 \<noteq> a + 3" "a + 2 \<noteq> a + 3"
  by simp_all

lemma ld32_st32 [simp]: "ld32 (st32 a v m) a = v"
proof (rule bit_word_eqI)
  fix n assume "n < LENGTH(32)"
  then consider "n < 8" | "8 \<le> n" "n < 16" | "16 \<le> n" "n < 24" | "24 \<le> n" "n < 32" by fastforce
  then show "bit (ld32 (st32 a v m) a) n = bit v n"
    by cases (auto simp: ld32_def st32_def bit_simps addr_offset_neq dest: bit_imp_le_length)
qed

lemma ld16_st16 [simp]: "ld16 (st16 a v m) a = v"
proof (rule bit_word_eqI)
  fix n assume "n < LENGTH(16)"
  then consider "n < 8" | "8 \<le> n" "n < 16" by fastforce
  then show "bit (ld16 (st16 a v m) a) n = bit v n"
    by cases (auto simp: ld16_def st16_def bit_simps addr_offset_neq)
qed

lemma bit_ld32:
  "bit (ld32 m a) n \<longleftrightarrow> n < 32 \<and> bit (m (a + of_nat (n div 8))) (n mod 8)"
proof -
  consider "n < 8" | "8 \<le> n" "n < 16" | "16 \<le> n" "n < 24" | "24 \<le> n" "n < 32" | "32 \<le> n" by fastforce
  then show ?thesis
  proof cases
    case 2
    then have "n div 8 = 1" "n mod 8 = n - 8" by (auto simp: mod_if le_div_geq)
    with 2 show ?thesis by (auto simp: ld32_def bit_simps dest: bit_imp_le_length)
  next
    case 3
    then have "n div 8 = 2" "n mod 8 = n - 16" by (auto simp: mod_if le_div_geq)
    with 3 show ?thesis by (auto simp: ld32_def bit_simps dest: bit_imp_le_length)
  next
    case 4
    then have "n div 8 = 3" "n mod 8 = n - 24" by (auto simp: mod_if le_div_geq)
    with 4 show ?thesis by (auto simp: ld32_def bit_simps dest: bit_imp_le_length)
  next
    case 5
    then show ?thesis using bit_imp_le_length [of "ld32 m a" n] by auto
  qed (auto simp: ld32_def bit_simps dest: bit_imp_le_length)
qed

text \<open>The value of a word in terms of its bytes.\<close>

lemma uint_ld32:
  "uint (ld32 m a) = uint (m a) + 256 * uint (m (a + 1)) + 65536 * uint (m (a + 2))
     + 16777216 * uint (m (a + 3))"
proof -
  have b: "0 \<le> uint (m x) \<and> uint (m x) < 256" for x
    using uint_nonnegative [of "m x"] uint_bounded [of "m x"] by simp
  have u: "(ucast (m x) :: u32) = word_of_int (uint (m x))" for x
    by simp
  have "ld32 m a = ucast (m a) + push_bit 8 (ucast (m (a + 1))) + push_bit 16 (ucast (m (a + 2)))
      + push_bit 24 (ucast (m (a + 3)))"
  proof -
    have or: "x OR y = x + y" if "\<And>n. \<not> bit x n \<or> \<not> bit y n" for x y :: u32
      by (rule disjunctive_add [symmetric]) (use that in blast)
    have low: "bit (m x) n \<Longrightarrow> n < 8" for x n using bit_imp_le_length [of "m x" n] by simp
    show ?thesis
      unfolding ld32_def
      by (subst or, fastforce simp: bit_simps dest: low)+ simp
  qed
  then have "ld32 m a = word_of_int (uint (m a) + 256 * uint (m (a + 1)) + 65536 * uint (m (a + 2))
      + 16777216 * uint (m (a + 3)))" (is "_ = word_of_int ?S")
    unfolding u by (simp add: push_bit_eq_mult)
  moreover have "uint (word_of_int k :: u32) = k" if "0 \<le> k" "k < 2 ^ 32" for k
    using that by (simp add: uint_word_of_int_eq take_bit_int_eq_self)
  moreover have "0 \<le> ?S" "?S < 2 ^ 32" using b [of a] b [of "a + 1"] b [of "a + 2"] b [of "a + 3"] by auto
  ultimately show ?thesis by (simp only:)
qed

end
