(* ===== verification/CString.thy ===== *)
theory CString
  imports Memory
begin

text \<open>
  \<open>lib/libc/string.c\<close> on the flat byte memory. Functions that write return the new memory and
  the pointer the C function returns. A scan that never meets a terminator does not end and
  gives \<^const>\<open>None\<close>. The \<open>rep movsb\<close> and \<open>rep stosb\<close> of the i386 branch are the forward loops
  the processor runs with the direction flag clear.
\<close>

section \<open>Blocks of memory\<close>

primrec memcmp_loop :: "mem \<Rightarrow> addr \<Rightarrow> addr \<Rightarrow> nat \<Rightarrow> u32" where
  "memcmp_loop m p1 p2 0 = 0"
| "memcmp_loop m p1 p2 (Suc n) =
     (if m p1 \<noteq> m p2 then ucast (m p1) - ucast (m p2) else memcmp_loop m (p1 + 1) (p2 + 1) n)"

definition memcmp :: "addr \<Rightarrow> addr \<Rightarrow> u32 \<Rightarrow> mem \<Rightarrow> u32" where
  "memcmp buf1 buf2 n m = memcmp_loop m buf1 buf2 (unat n)"

primrec copy_up :: "addr \<Rightarrow> addr \<Rightarrow> nat \<Rightarrow> mem \<Rightarrow> mem" where
  "copy_up d s 0 m = m"
| "copy_up d s (Suc n) m = copy_up (d + 1) (s + 1) n (m(d := m s))"

primrec copy_down :: "addr \<Rightarrow> addr \<Rightarrow> nat \<Rightarrow> mem \<Rightarrow> mem" where
  "copy_down d s 0 m = m"
| "copy_down d s (Suc n) m = copy_down (d - 1) (s - 1) n (m(d := m s))"

definition memcpy :: "addr \<Rightarrow> addr \<Rightarrow> u32 \<Rightarrow> mem \<Rightarrow> addr \<times> mem" where
  "memcpy dest src n m = (dest, copy_up dest src (unat n) m)"

primrec fill_up :: "addr \<Rightarrow> u8 \<Rightarrow> nat \<Rightarrow> mem \<Rightarrow> mem" where
  "fill_up d c 0 m = m"
| "fill_up d c (Suc n) m = fill_up (d + 1) c n (m(d := c))"

definition memset :: "addr \<Rightarrow> u32 \<Rightarrow> u32 \<Rightarrow> mem \<Rightarrow> addr \<times> mem" where
  "memset dest c n m = (dest, fill_up dest (ucast c) (unat n) m)"

definition memmove :: "addr \<Rightarrow> addr \<Rightarrow> u32 \<Rightarrow> mem \<Rightarrow> addr \<times> mem" where
  "memmove dest src n m =
     (dest, if dest < src then copy_up dest src (unat n) m
            else copy_down (dest + (n - 1)) (src + (n - 1)) (unat n) m)"

section \<open>Strings\<close>

text \<open>The loop of \<open>strlen\<close> up to the first aligned address: at most three rounds.\<close>

function strlen_head :: "mem \<Rightarrow> addr \<Rightarrow> addr \<Rightarrow> u32 + addr" where
  "strlen_head m str ptr =
     (if ptr AND 3 \<noteq> 0
      then if m ptr = 0 then Inl (ptr - str) else strlen_head m str (ptr + 1)
      else Inr ptr)"
  by pat_completeness auto

definition himagic :: u32 where "himagic = 0x80808080"
definition lomagic :: u32 where "lomagic = 0x01010101"

partial_function (option) strlen_words :: "mem \<Rightarrow> addr \<Rightarrow> addr \<Rightarrow> u32 option" where
  "strlen_words m str p =
     (let longword = ld32 m p in
      if (longword - lomagic) AND NOT longword AND himagic \<noteq> 0
      then if m p = 0 then Some (p - str)
        else if m (p + 1) = 0 then Some (p - str + 1)
        else if m (p + 2) = 0 then Some (p - str + 2)
        else if m (p + 3) = 0 then Some (p - str + 3)
        else strlen_words m str (p + 4)
      else strlen_words m str (p + 4))"

partial_function (option) strcmp_loop :: "mem \<Rightarrow> addr \<Rightarrow> addr \<Rightarrow> u32 option" where
  "strcmp_loop m s1 s2 =
     (if m s1 \<noteq> 0 \<and> m s1 = m s2 then strcmp_loop m (s1 + 1) (s2 + 1)
      else Some (ucast (m s1) - ucast (m s2)))"

definition strcmp :: "addr \<Rightarrow> addr \<Rightarrow> mem \<Rightarrow> u32 option" where
  "strcmp str1 str2 m = strcmp_loop m str1 str2"

primrec strncmp_loop :: "mem \<Rightarrow> addr \<Rightarrow> addr \<Rightarrow> nat \<Rightarrow> u32" where
  "strncmp_loop m s1 s2 0 = 0"
| "strncmp_loop m s1 s2 (Suc n) =
     (if m s1 \<noteq> m s2 then ucast (m s1) - ucast (m s2)
      else if m s1 = 0 then 0
      else strncmp_loop m (s1 + 1) (s2 + 1) n)"

definition strncmp :: "addr \<Rightarrow> addr \<Rightarrow> u32 \<Rightarrow> mem \<Rightarrow> u32" where
  "strncmp s1 s2 n m = strncmp_loop m s1 s2 (unat n)"

partial_function (option) strchr :: "mem \<Rightarrow> addr \<Rightarrow> u32 \<Rightarrow> addr option" where
  "strchr m s c =
     (if m s \<noteq> ucast c then if m s = 0 then Some NULL else strchr m (s + 1) c
      else Some s)"

section \<open>The aligned head of \<open>strlen\<close>\<close>

lemma and_3_eq: "unat (ptr AND 3 :: u32) = unat ptr mod 4"
proof -
  have "(3 :: u32) = mask 2" by (simp add: mask_eq_exp_minus_1)
  then have "ptr AND 3 = take_bit 2 ptr" by (simp only: take_bit_eq_mask)
  then have "unat (ptr AND 3) = take_bit 2 (unat ptr)" by (simp only: unsigned_take_bit_eq)
  then show ?thesis by (simp add: take_bit_eq_mod)
qed

lemma strlen_head_step: "unat (p + 1 :: u32) mod 4 = (unat p + 1) mod 4"
  by (simp add: unat_word_ariths mod_mod_cancel)

termination strlen_head
proof (relation "measure (\<lambda>(m, str, ptr). (4 - unat ptr mod 4) mod 4)", goal_cases)
  case (2 m str ptr)
  have "unat (ptr AND 3) \<noteq> 0" using 2(1) by (simp add: unat_eq_0)
  then have "unat ptr mod 4 \<noteq> 0" by (simp only: and_3_eq not_False_eq_True)
  then have "(4 - unat (ptr + 1) mod 4) mod 4 < (4 - unat ptr mod 4) mod 4"
  proof -
    from \<open>unat ptr mod 4 \<noteq> 0\<close> consider "unat ptr mod 4 = 1" | "unat ptr mod 4 = 2" | "unat ptr mod 4 = 3"
      using mod_less_divisor [of 4 "unat ptr"] by linarith
    then show ?thesis unfolding strlen_head_step by cases (simp_all add: mod_Suc)
  qed
  then show ?case by simp
qed simp

declare strlen_head.simps [simp del]

definition strlen :: "addr \<Rightarrow> mem \<Rightarrow> u32 option" where
  "strlen str m = (case strlen_head m str str of Inl n \<Rightarrow> Some n | Inr p \<Rightarrow> strlen_words m str p)"

text \<open>\<open>strcpy\<close> copies \<open>strlen(src)\<close> bytes: the terminator is not among them.\<close>

definition strcpy :: "addr \<Rightarrow> addr \<Rightarrow> mem \<Rightarrow> (addr \<times> mem) option" where
  "strcpy dest src m = map_option (\<lambda>n. memcpy dest src n m) (strlen src m)"

definition strcat :: "addr \<Rightarrow> addr \<Rightarrow> mem \<Rightarrow> (addr \<times> mem) option" where
  "strcat dest src m =
     Option.bind (strlen dest m) (\<lambda>n. map_option (\<lambda>(_, m'). (dest, m')) (strcpy (dest + n) src m))"

text \<open>Without \<open>malloc\<close> the result is always null.\<close>

definition strdup :: "addr \<Rightarrow> mem \<Rightarrow> addr" where
  "strdup str m = (if str = NULL then NULL else NULL)"

partial_function (option) strstr_loop :: "mem \<Rightarrow> addr \<Rightarrow> addr \<Rightarrow> u32 \<Rightarrow> addr option" where
  "strstr_loop m s2 p n =
     Option.bind (strchr m p (scast (m s2))) (\<lambda>q.
       if q \<noteq> NULL then if strncmp q s2 n m = 0 then Some q else strstr_loop m s2 (q + 1) n
       else Some NULL)"

definition strstr :: "addr \<Rightarrow> addr \<Rightarrow> mem \<Rightarrow> addr option" where
  "strstr s1 s2 m = Option.bind (strlen s2 m) (\<lambda>n. strstr_loop m s2 s1 n)"

section \<open>Terminated strings\<close>

text \<open>\<open>cstring m s n\<close>: the first zero byte from \<open>s\<close> on is at offset \<open>n\<close>.\<close>

definition cstring :: "mem \<Rightarrow> addr \<Rightarrow> nat \<Rightarrow> bool" where
  "cstring m s n \<longleftrightarrow> m (s + of_nat n) = 0 \<and> (\<forall>i < n. m (s + of_nat i) \<noteq> 0)"

lemma cstring_step: "m s \<noteq> 0 \<Longrightarrow> cstring m s n \<longleftrightarrow> (\<exists>k. n = Suc k \<and> cstring m (s + 1) k)"
proof (cases n)
  case (Suc k)
  assume "m s \<noteq> 0"
  with Suc show ?thesis
    by (auto simp: cstring_def All_less_Suc2 add.assoc)
qed (simp add: cstring_def)

text \<open>The word test finds every zero byte.\<close>

lemma magic_test:
  assumes z: "\<exists>k < 4. m (p + of_nat k) = 0"
  shows "(ld32 m p - lomagic) AND NOT (ld32 m p) AND himagic \<noteq> 0"
proof -
  obtain k0 where k0: "k0 < 4" "m (p + of_nat k0) = 0" using z by blast
  define k where "k = (LEAST k. m (p + of_nat k) = 0)"
  have k: "m (p + of_nat k) = 0" unfolding k_def by (rule LeastI [where P = "\<lambda>k. m (p + of_nat k) = 0", OF k0(2)])
  have "k \<le> k0" unfolding k_def by (rule Least_le) (rule k0(2))
  then have k4: "k < 4" using k0(1) by simp
  have kl: "m (p + of_nat j) \<noteq> 0" if "j < k" for j using not_less_Least [OF that [unfolded k_def]] .
  let ?n = "8 * k + 7"
  have n: "?n < 32" using k4 by simp
  have zero: "\<not> bit (ld32 m p) ?n" using k by (simp add: bit_ld32)
  have hi: "bit himagic ?n"
  proof -
    have eq: "himagic = push_bit 7 1 OR push_bit 15 1 OR push_bit 23 1 OR push_bit 31 1"
      by (simp add: himagic_def)
    have "bit himagic n \<longleftrightarrow> n = 7 \<or> n = 15 \<or> n = 23 \<or> n = 31" for n
      unfolding eq bit_or_iff bit_push_bit_iff bit_1_iff by auto
    moreover from k4 have "k = 0 \<or> k = 1 \<or> k = 2 \<or> k = 3" by linarith
    ultimately show ?thesis by auto
  qed
  let ?b = "\<lambda>i. uint (m (p + of_nat i))"
  let ?x = "?b 0 + 256 * ?b 1 + 65536 * ?b 2 + 16777216 * ?b 3 - 16843009"
  have b1: "0 \<le> ?b i" and b2: "?b i < 256" for i
    using uint_nonnegative [of "m (p + of_nat i)"] uint_bounded [of "m (p + of_nat i)"] by auto
  have b3: "1 \<le> ?b i" if "i < k" for i
    using kl [OF that] b1 [of i] uint_0_iff [of "m (p + of_nat i)"] by linarith
  have b4: "?b k = 0" using k by simp
  have "odd (?x div 2 ^ ?n)"
  proof -
    from k4 consider "k = 0" | "k = 1" | "k = 2" | "k = 3" by linarith
    then show ?thesis
    proof cases
      case 1
      have "?x div 2 ^ ?n = 2 * (?b 1 + 256 * ?b 2 + 65536 * ?b 3) - 131587"
        by (rule int_div_pos_eq [where r = 127]) (use b4 1 in simp_all)
      then show ?thesis by simp
    next
      case 2
      have "?x div 2 ^ ?n = 2 * (?b 2 + 256 * ?b 3) - 515"
        by (rule int_div_pos_eq [where r = "?b 0 + 32511"])
          (use b4 b1 [of 0] b2 [of 0] 2 in simp_all)
      then show ?thesis by simp
    next
      case 3
      have "?x div 2 ^ ?n = 2 * ?b 3 - 3"
        by (rule int_div_pos_eq [where r = "?b 0 + 256 * ?b 1 + 8322815"])
          (use b4 b1 [of 0] b1 [of 1] b2 [of 0] b2 [of 1] 3 in simp_all)
      then show ?thesis by simp
    next
      case 4
      have "?x div 2 ^ ?n = - 1"
        by (rule int_div_pos_eq [where r = "?b 0 + 256 * ?b 1 + 65536 * ?b 2 + 2130640639"])
          (use b4 b1 [of 0] b1 [of 1] b1 [of 2] b2 [of 0] b2 [of 1] b2 [of 2] 4 in simp_all)
      then show ?thesis by simp
    qed
  qed
  moreover have "bit (ld32 m p - lomagic) ?n \<longleftrightarrow> bit ?x ?n"
  proof -
    have "uint (ld32 m p - lomagic) = take_bit 32 ?x"
      by (simp add: uint_word_ariths take_bit_eq_mod uint_ld32 lomagic_def mod_diff_left_eq)
    then have "bit (uint (ld32 m p - lomagic)) ?n \<longleftrightarrow> bit ?x ?n"
      using n by (simp add: bit_take_bit_iff)
    then show ?thesis using n by (simp add: bit_uint_iff)
  qed
  ultimately have "bit (ld32 m p - lomagic) ?n" by (simp add: bit_iff_odd)
  with zero hi n have "bit ((ld32 m p - lomagic) AND NOT (ld32 m p) AND himagic) ?n"
    by (simp add: bit_simps)
  then show ?thesis by auto
qed

lemma cstring_skip:
  assumes "cstring m p n" "k \<le> n"
  shows "cstring m (p + of_nat k) (n - k)"
proof -
  have eq: "p + of_nat k + of_nat i = p + of_nat (k + i)" for i by (simp add: add.assoc)
  show ?thesis using assms unfolding cstring_def eq by (simp del: of_nat_add)
qed

lemma cstring_byte: "cstring m p n \<Longrightarrow> i \<le> n \<Longrightarrow> m (p + of_nat i) = 0 \<longleftrightarrow> i = n"
  by (auto simp: cstring_def le_less)

section \<open>\<open>strlen\<close>\<close>

lemma strlen_head_result:
  "cstring m p n \<Longrightarrow> case strlen_head m str p of
      Inl r \<Rightarrow> r = p - str + of_nat n
    | Inr q \<Rightarrow> \<exists>k \<le> n. q = p + of_nat k"
proof (induction m str p arbitrary: n rule: strlen_head.induct)
  case (1 m str p)
  show ?case
  proof (cases "p AND 3 \<noteq> 0")
    case False
    then show ?thesis by (subst strlen_head.simps) (auto intro: exI [of _ 0])
  next
    case odd: True
    show ?thesis
    proof (cases "m p = 0")
      case True
      with cstring_byte [OF "1.prems", of 0] have "n = 0" by simp
      with odd True show ?thesis by (subst strlen_head.simps) simp
    next
      case False
      then obtain k where k: "n = Suc k" "cstring m (p + 1) k" using "1.prems" cstring_step by blast
      have "strlen_head m str p = strlen_head m str (p + 1)"
        using odd False by (subst strlen_head.simps) simp
      with "1.IH" [OF odd False k(2)] show ?thesis
        unfolding k(1) by (auto simp: algebra_simps split: sum.splits)
    qed
  qed
qed

lemma strlen_words_result: "cstring m p n \<Longrightarrow> strlen_words m str p = Some (p - str + of_nat n)"
proof (induction n arbitrary: p rule: less_induct)
  case (less n)
  note byte = cstring_byte [OF less.prems]
  show ?case
  proof (cases "n < 4")
    case True
    have z: "m (p + of_nat n) = 0" using byte [of n] by simp
    then have t: "(ld32 m p - lomagic) AND NOT (ld32 m p) AND himagic \<noteq> 0"
      using True by (intro magic_test) blast
    consider "n = 0" | "n = 1" | "n = 2" | "n = 3" using True by linarith
    then show ?thesis
      by cases (use t byte [of 0] byte [of 1] byte [of 2] byte [of 3] in
        \<open>simp_all add: strlen_words.simps [of m str p] Let_def\<close>)
  next
    case False
    then have nz: "m p \<noteq> 0" "m (p + 1) \<noteq> 0" "m (p + 2) \<noteq> 0" "m (p + 3) \<noteq> 0"
      using byte [of 0] byte [of 1] byte [of 2] byte [of 3] by simp_all
    have "cstring m (p + 4) (n - 4)" using cstring_skip [OF less.prems, of 4] False by simp
    with less.IH [of "n - 4" "p + 4"] False
    have "strlen_words m str (p + 4) = Some (p - str + of_nat n)"
      by (simp add: of_nat_diff)
    with nz show ?thesis by (simp add: strlen_words.simps [of m str p] Let_def)
  qed
qed

lemma strlen_result: "cstring m s n \<Longrightarrow> strlen s m = Some (of_nat n)"
proof -
  assume c: "cstring m s n"
  show ?thesis
  proof (cases "strlen_head m s s")
    case (Inl r)
    with strlen_head_result [OF c, of s] show ?thesis by (simp add: strlen_def)
  next
    case (Inr q)
    with strlen_head_result [OF c, of s] obtain k where k: "k \<le> n" "q = s + of_nat k" by auto
    from strlen_words_result [OF cstring_skip [OF c k(1)], of s] Inr show ?thesis
      by (simp add: strlen_def k of_nat_diff)
  qed
qed

section \<open>Copying\<close>

lemma of_nat_neq_0: "0 < i \<Longrightarrow> i < 2 ^ 32 \<Longrightarrow> (of_nat i :: u32) \<noteq> 0"
  using unat_of_nat_small [of i, where 'a = 32] by auto

lemma copy_up_result:
  assumes "n \<le> 2 ^ 32" and "\<And>i j. i < j \<Longrightarrow> j < n \<Longrightarrow> d + of_nat i \<noteq> s + of_nat j"
  shows "(\<forall>i < n. copy_up d s n m (d + of_nat i) = m (s + of_nat i))
    \<and> (\<forall>a. (\<forall>i < n. a \<noteq> d + of_nat i) \<longrightarrow> copy_up d s n m a = m a)"
  using assms
proof (induction n arbitrary: d s m)
  case 0
  then show ?case by simp
next
  case (Suc n)
  have dd: "d \<noteq> d + 1 + of_nat i" if "i < n" for i
  proof -
    have "d + 1 + of_nat i = d + of_nat (Suc i)" by (simp add: algebra_simps)
    moreover have "(of_nat (Suc i) :: u32) \<noteq> 0" by (rule of_nat_neq_0) (use that Suc.prems(1) in auto)
    ultimately show ?thesis by (metis add_cancel_right_right)
  qed
  have ne: "d + 1 + of_nat i \<noteq> s + 1 + of_nat j" if "i < j" "j < n" for i j
    using Suc.prems(2) [of "Suc i" "Suc j"] that by (simp add: algebra_simps)
  have sd: "s + 1 + of_nat j \<noteq> d" if "j < n" for j
    using Suc.prems(2) [of 0 "Suc j"] that by (auto simp: algebra_simps)
  define m1 where "m1 = m(d := m s)"
  have m1: "m1 d = m s" "\<And>a. a \<noteq> d \<Longrightarrow> m1 a = m a" by (simp_all add: m1_def)
  have "n \<le> 2 ^ 32" using Suc.prems(1) by simp
  then have IH: "\<And>i. i < n \<Longrightarrow> copy_up (d + 1) (s + 1) n m1 (d + 1 + of_nat i) = m1 (s + 1 + of_nat i)"
    "\<And>a. (\<And>i. i < n \<Longrightarrow> a \<noteq> d + 1 + of_nat i) \<Longrightarrow> copy_up (d + 1) (s + 1) n m1 a = m1 a"
    using Suc.IH [of "d + 1" "s + 1" m1] ne by blast+
  have step: "copy_up d s (Suc n) m = copy_up (d + 1) (s + 1) n m1" by (simp add: m1_def)
  have eq: "x + of_nat (Suc i) = x + 1 + of_nat i" for x :: u32 and i by (simp add: algebra_simps)
  show ?case
    unfolding step
  proof (intro conjI allI impI)
    fix i assume i: "i < Suc n"
    show "copy_up (d + 1) (s + 1) n m1 (d + of_nat i) = m (s + of_nat i)"
    proof (cases i)
      case 0
      then show ?thesis using IH(2) [of d] dd m1(1) by simp
    next
      case (Suc j)
      then show ?thesis using IH(1) [of j] i sd [of j] m1(2) unfolding Suc eq by simp
    qed
  next
    fix a assume a: "\<forall>i < Suc n. a \<noteq> d + of_nat i"
    then have "a \<noteq> d" by auto
    moreover have "a \<noteq> d + 1 + of_nat i" if "i < n" for i using a that unfolding eq [symmetric] by blast
    ultimately show "copy_up (d + 1) (s + 1) n m1 a = m a" using IH(2) [of a] m1(2) by simp
  qed
qed

lemma copy_down_result:
  assumes "n \<le> 2 ^ 32" and "\<And>i j. i < j \<Longrightarrow> j < n \<Longrightarrow> d - of_nat i \<noteq> s - of_nat j"
  shows "(\<forall>i < n. copy_down d s n m (d - of_nat i) = m (s - of_nat i))
    \<and> (\<forall>a. (\<forall>i < n. a \<noteq> d - of_nat i) \<longrightarrow> copy_down d s n m a = m a)"
  using assms
proof (induction n arbitrary: d s m)
  case 0
  then show ?case by simp
next
  case (Suc n)
  have dd: "d \<noteq> d - 1 - of_nat i" if "i < n" for i
  proof -
    have "d - 1 - of_nat i = d - of_nat (Suc i)" by (simp add: algebra_simps)
    moreover have "(of_nat (Suc i) :: u32) \<noteq> 0" by (rule of_nat_neq_0) (use that Suc.prems(1) in auto)
    ultimately show ?thesis by (metis diff_0_right diff_left_imp_eq)
  qed
  have ne: "d - 1 - of_nat i \<noteq> s - 1 - of_nat j" if "i < j" "j < n" for i j
    using Suc.prems(2) [of "Suc i" "Suc j"] that by (simp add: algebra_simps)
  have sd: "s - 1 - of_nat j \<noteq> d" if "j < n" for j
    using Suc.prems(2) [of 0 "Suc j"] that by (auto simp: algebra_simps)
  define m1 where "m1 = m(d := m s)"
  have m1: "m1 d = m s" "\<And>a. a \<noteq> d \<Longrightarrow> m1 a = m a" by (simp_all add: m1_def)
  have "n \<le> 2 ^ 32" using Suc.prems(1) by simp
  then have IH: "\<And>i. i < n \<Longrightarrow> copy_down (d - 1) (s - 1) n m1 (d - 1 - of_nat i) = m1 (s - 1 - of_nat i)"
    "\<And>a. (\<And>i. i < n \<Longrightarrow> a \<noteq> d - 1 - of_nat i) \<Longrightarrow> copy_down (d - 1) (s - 1) n m1 a = m1 a"
    using Suc.IH [of "d - 1" "s - 1" m1] ne by blast+
  have step: "copy_down d s (Suc n) m = copy_down (d - 1) (s - 1) n m1" by (simp add: m1_def)
  have eq: "x - of_nat (Suc i) = x - 1 - of_nat i" for x :: u32 and i by (simp add: algebra_simps)
  show ?case
    unfolding step
  proof (intro conjI allI impI)
    fix i assume i: "i < Suc n"
    show "copy_down (d - 1) (s - 1) n m1 (d - of_nat i) = m (s - of_nat i)"
    proof (cases i)
      case 0
      then show ?thesis using IH(2) [of d] dd m1(1) by simp
    next
      case (Suc j)
      then show ?thesis using IH(1) [of j] i sd [of j] m1(2) unfolding Suc eq by simp
    qed
  next
    fix a assume a: "\<forall>i < Suc n. a \<noteq> d - of_nat i"
    then have "a \<noteq> d" by auto
    moreover have "a \<noteq> d - 1 - of_nat i" if "i < n" for i using a that unfolding eq [symmetric] by blast
    ultimately show "copy_down (d - 1) (s - 1) n m1 a = m a" using IH(2) [of a] m1(2) by simp
  qed
qed

lemma offset_of_nat: "a = d + of_nat (unat (a - d :: u32))"
  by simp

text \<open>What a copy of \<open>n\<close> bytes from \<open>src\<close> to \<open>dest\<close> is to leave in memory.\<close>

definition copied :: "addr \<Rightarrow> addr \<Rightarrow> nat \<Rightarrow> mem \<Rightarrow> mem" where
  "copied dest src n m = (\<lambda>a. if unat (a - dest) < n then m (src + (a - dest)) else m a)"

lemma copied_eqI:
  assumes "n \<le> 2 ^ 32" "\<And>i. i < n \<Longrightarrow> m' (d + of_nat i) = m (s + of_nat i)"
    and "\<And>a. (\<And>i. i < n \<Longrightarrow> a \<noteq> d + of_nat i) \<Longrightarrow> m' a = m a"
  shows "m' = copied d s n m"
proof
  fix a
  show "m' a = copied d s n m a"
  proof (cases "unat (a - d) < n")
    case True
    from assms(2) [OF this] show ?thesis using True by (simp add: copied_def)
  next
    case False
    have "a \<noteq> d + of_nat i" if "i < n" for i
    proof
      assume "a = d + of_nat i"
      then have "unat (a - d) = i" using that assms(1) by (simp add: unat_of_nat_small)
      with False that show False by simp
    qed
    then show ?thesis using False assms(3) by (simp add: copied_def)
  qed
qed

lemma copy_up_copied:
  assumes "n \<le> 2 ^ 32" and "\<And>i j. i < j \<Longrightarrow> j < n \<Longrightarrow> d + of_nat i \<noteq> s + of_nat j"
  shows "copy_up d s n m = copied d s n m"
  using copy_up_result [OF assms] by (intro copied_eqI [OF assms(1)]) blast+

lemma memmove_result:
  assumes "unat dest + unat n \<le> 2 ^ 32" "unat src + unat n \<le> 2 ^ 32"
  shows "memmove dest src n m = (dest, copied dest src (unat n) m)"
proof -
  let ?n = "unat n"
  have n: "?n < 2 ^ LENGTH(32)" by (rule unsigned_less)
  have u: "unat (x + of_nat i) = unat x + i" if "i < ?n" "unat x + ?n \<le> 2 ^ 32" for x :: u32 and i
    by (rule unat_add_of_nat) (use that in simp)
  show ?thesis
  proof (cases "dest < src")
    case True
    have "dest + of_nat i \<noteq> src + of_nat j" if "i < j" "j < ?n" for i j
    proof
      assume "dest + of_nat i = src + of_nat j"
      then have "unat (dest + of_nat i) = unat (src + of_nat j)" by (simp only:)
      then have "unat dest + i = unat src + j"
        using u [of i dest] u [of j src] assms that by simp
      with True that show False by (simp add: word_less_nat_alt)
    qed
    with True n show ?thesis by (simp add: memmove_def copy_up_copied)
  next
    case False
    define D where "D = dest + (n - 1)"
    define S where "S = src + (n - 1)"
    have rewind: "x + (n - 1) - of_nat i = x + of_nat (?n - 1 - i)" if "i < ?n" for x :: u32 and i
      using that by (simp add: of_nat_diff algebra_simps)
    have "D - of_nat i \<noteq> S - of_nat j" if "i < j" "j < ?n" for i j
    proof
      assume "D - of_nat i = S - of_nat j"
      then have "dest + of_nat (?n - 1 - i) = src + of_nat (?n - 1 - j)"
        unfolding D_def S_def using rewind [of i dest] rewind [of j src] that by simp
      then have "unat (dest + of_nat (?n - 1 - i)) = unat (src + of_nat (?n - 1 - j))" by (simp only:)
      then have "unat dest + (?n - 1 - i) = unat src + (?n - 1 - j)"
        using u [of "?n - 1 - i" dest] u [of "?n - 1 - j" src] assms that by simp
      with False that show False by (simp add: word_less_nat_alt)
    qed
    moreover have n32: "?n \<le> 2 ^ 32" using n by simp
    ultimately have r: "(\<forall>i < ?n. copy_down D S ?n m (D - of_nat i) = m (S - of_nat i))
        \<and> (\<forall>a. (\<forall>i < ?n. a \<noteq> D - of_nat i) \<longrightarrow> copy_down D S ?n m a = m a)"
      by (intro copy_down_result) blast+
    have "copy_down D S ?n m = copied dest src ?n m"
    proof (rule copied_eqI)
      show "?n \<le> 2 ^ 32" by (rule n32)
      fix i assume i: "i < ?n"
      then have j: "?n - 1 - i < ?n" "?n - 1 - (?n - 1 - i) = i" by auto
      from conjunct1 [OF r] j(1) have "copy_down D S ?n m (D - of_nat (?n - 1 - i)) = m (S - of_nat (?n - 1 - i))" by blast
      then show "copy_down D S ?n m (dest + of_nat i) = m (src + of_nat i)"
        unfolding D_def S_def rewind [OF j(1)] j(2) .
    next
      fix a assume a: "\<And>i. i < ?n \<Longrightarrow> a \<noteq> dest + of_nat i"
      have "a \<noteq> D - of_nat i" if "i < ?n" for i
        using a [of "?n - 1 - i"] that unfolding D_def rewind [OF that] by simp
      with conjunct2 [OF r] show "copy_down D S ?n m a = m a" by blast
    qed
    with False show ?thesis by (simp add: memmove_def D_def S_def)
  qed
qed

section \<open>Comparison\<close>

definition string_at :: "mem \<Rightarrow> addr \<Rightarrow> nat \<Rightarrow> u8 list" where
  "string_at m s n = map (\<lambda>i. m (s + of_nat i)) [0 ..< n]"

lemma string_at_Suc: "string_at m s (Suc n) = m s # string_at m (s + 1) n"
  by (simp add: string_at_def upt_conv_Cons map_Suc_upt [symmetric] add.assoc del: upt_Suc)

text \<open>The difference of two bytes as an \<open>int\<close>.\<close>

lemma byte_diff: "sint ((ucast x :: u32) - ucast (y :: u8)) = int (unat x) - int (unat (y :: u8))"
  for x :: u8
proof -
  have b: "int (unat z) < 256" for z :: u8
    using uint_bounded [of z] by simp
  have "(ucast z :: u32) = word_of_int (int (unat z))" for z :: u8 by simp
  then have eq: "(ucast x :: u32) - ucast y = word_of_int (int (unat x) - int (unat y))"
    by (simp only: wi_hom_sub)
  have small: "sint (word_of_int k :: u32) = k" if "- 2147483648 \<le> k" "k < 2147483648" for k
    using that by (simp add: sint_uint uint_word_of_int_eq signed_take_bit_take_bit signed_take_bit_int_eq_self)
  show ?thesis unfolding eq by (rule small; insert b [of x] b [of y]; linarith)
qed

lemma byte_diff_0: "(ucast x :: u32) - ucast y = 0 \<longleftrightarrow> x = y" for x y :: u8
proof
  assume "(ucast x :: u32) - ucast y = 0"
  then have "sint ((ucast x :: u32) - ucast y) = 0" by simp
  then show "x = y" unfolding byte_diff by (simp add: word_uint_eq_iff)
qed simp

lemma memcmp_loop_0_iff: "memcmp_loop m p q n = 0 \<longleftrightarrow> string_at m p n = string_at m q n"
proof (induction n arbitrary: p q)
  case 0
  then show ?case by (simp add: string_at_def)
next
  case (Suc n)
  then show ?case using byte_diff_0 by (simp add: string_at_Suc)
qed

lemma strcmp_loop_result:
  assumes "cstring m s1 n1" "cstring m s2 n2"
  shows "\<exists>r. strcmp_loop m s1 s2 = Some r
    \<and> (r = 0 \<longleftrightarrow> string_at m s1 n1 = string_at m s2 n2)
    \<and> (sint r < 0 \<longleftrightarrow> ord_class.lexordp (string_at m s1 n1) (string_at m s2 n2))"
  using assms
proof (induction n1 arbitrary: s1 s2 n2)
  case 0
  then have "m s1 = 0" by (simp add: cstring_def)
  moreover have "m s2 = 0 \<longleftrightarrow> n2 = 0" using cstring_byte [OF 0(2), of 0] by auto
  moreover have "sint ((0 :: u32) - ucast (m s2)) = - int (unat (m s2))"
    using byte_diff [of 0 "m s2"] by simp
  moreover have "m s2 \<noteq> 0 \<Longrightarrow> 0 < uint (m s2)"
    using uint_0_iff [of "m s2"] uint_nonnegative [of "m s2"] by linarith
  ultimately show ?case
    using byte_diff_0 [of 0 "m s2"]
    by (cases n2) (auto simp: strcmp_loop.simps [of m s1] string_at_Suc string_at_def)
next
  case (Suc k)
  have a: "m s1 \<noteq> 0" using cstring_byte [OF Suc.prems(1), of 0] by simp
  have s1: "cstring m (s1 + 1) k" using Suc.prems(1) cstring_step [of m s1 "Suc k"] a by auto
  show ?case
  proof (cases "m s2 = 0")
    case True
    then have "n2 = 0" using cstring_byte [OF Suc.prems(2), of 0] by simp
    then show ?thesis
      using a True byte_diff [of "m s1" 0] byte_diff_0 [of "m s1" 0]
      by (auto simp: strcmp_loop.simps [of m s1] string_at_Suc string_at_def)
  next
    case False
    then obtain j where j: "n2 = Suc j" "cstring m (s2 + 1) j"
      using Suc.prems(2) cstring_step by blast
    show ?thesis
    proof (cases "m s1 = m s2")
      case True
      then have "strcmp_loop m s1 s2 = strcmp_loop m (s1 + 1) (s2 + 1)"
        using a by (simp add: strcmp_loop.simps [of m s1])
      with Suc.IH [OF s1 j(2)] True show ?thesis by (auto simp: j(1) string_at_Suc)
    next
      case ne: False
      then have "strcmp_loop m s1 s2 = Some (ucast (m s1) - ucast (m s2))"
        by (simp add: strcmp_loop.simps [of m s1])
      moreover have "sint ((ucast (m s1) :: u32) - ucast (m s2)) < 0 \<longleftrightarrow> m s1 < m s2"
        by (simp add: byte_diff word_less_def)
      ultimately show ?thesis
        using ne byte_diff_0 [of "m s1" "m s2"] neq_iff [of "m s1" "m s2"]
        by (auto simp: j(1) string_at_Suc)
    qed
  qed
qed

lemma cstring_check:
  "cstring m s n \<longleftrightarrow> m (s + of_nat n) = 0 \<and> list_all (\<lambda>i. m (s + of_nat i) \<noteq> 0) [0 ..< n]"
  by (auto simp: cstring_def list_all_iff)

text \<open>\<open>text_of m s xs\<close>: the terminated string at \<open>s\<close> is \<open>xs\<close>.\<close>

definition text_of :: "mem \<Rightarrow> addr \<Rightarrow> u8 list \<Rightarrow> bool" where
  "text_of m s xs \<longleftrightarrow> cstring m s (length xs) \<and> string_at m s (length xs) = xs"

lemma text_of_Nil [simp]: "text_of m s [] \<longleftrightarrow> m s = 0"
  by (simp add: text_of_def cstring_def string_at_def)

lemma cstring_Suc: "cstring m s (Suc n) \<longleftrightarrow> m s \<noteq> 0 \<and> cstring m (s + 1) n"
proof (cases "m s = 0")
  case True
  then have "\<not> (\<forall>i < Suc n. m (s + of_nat i) \<noteq> 0)" by (intro notI) (drule spec [of _ 0], simp)
  with True show ?thesis by (auto simp: cstring_def)
qed (auto simp: cstring_step)

lemma text_of_Cons [simp]: "text_of m s (x # xs) \<longleftrightarrow> m s = x \<and> x \<noteq> 0 \<and> text_of m (s + 1) xs"
  by (auto simp: text_of_def string_at_Suc cstring_Suc)

lemma strcmp_text:
  assumes "text_of m a xs" "text_of m b ys"
  shows "\<exists>r. strcmp a b m = Some r \<and> (r = 0 \<longleftrightarrow> xs = ys)"
  using strcmp_loop_result [of m a "length xs" b "length ys"] assms
  by (auto simp: text_of_def strcmp_def)

section \<open>Writing a list of bytes\<close>

primrec write_list :: "addr \<Rightarrow> u8 list \<Rightarrow> mem \<Rightarrow> mem" where
  "write_list a [] m = m"
| "write_list a (b # bs) m = write_list (a + 1) bs (m(a := b))"

lemma write_list_append: "write_list a (xs @ ys) m = write_list (a + of_nat (length xs)) ys (write_list a xs m)"
  by (induction xs arbitrary: a m) (simp_all add: add.assoc)

lemma write_list_apply:
  "length bs \<le> 2 ^ 32 \<Longrightarrow> write_list a bs m x = (if unat (x - a) < length bs then bs ! unat (x - a) else m x)"
proof (induction bs arbitrary: a m)
  case (Cons b bs)
  show ?case
  proof (cases "x = a")
    case True
    have "unat (a - (a + 1)) = 2 ^ 32 - 1" by (simp add: unsigned_minus_1_eq_mask mask_eq_exp_minus_1)
    then have "\<not> unat (a - (a + 1)) < length bs" using Cons.prems by simp
    with Cons True show ?thesis by simp
  next
    case False
    define d where "d = x - a"
    have "d \<noteq> 0" using False by (simp add: d_def)
    then have d: "unat d = Suc (unat (d - 1))" by (simp add: unat_minus_one unat_gt_0)
    have e: "x - (a + 1) = d - 1" by (simp add: d_def)
    have "write_list (a + 1) bs m' x = (if unat (d - 1) < length bs then bs ! unat (d - 1) else m' x)" for m'
      unfolding e [symmetric] using Cons.prems by (intro Cons.IH) simp
    then have "write_list a (b # bs) m x = (if unat (d - 1) < length bs then bs ! unat (d - 1) else m x)"
      using False by simp
    then show ?thesis unfolding d_def [symmetric] d by simp
  qed
qed simp

lemma string_at_write_list:
  assumes "length bs \<le> 2 ^ 32" shows "string_at (write_list a bs m) a (length bs) = bs"
proof (rule nth_equalityI)
  fix i assume "i < length (string_at (write_list a bs m) a (length bs))"
  then have i: "i < length bs" by (simp add: string_at_def)
  then have "unat (of_nat i :: u32) = i" using assms by (intro unat_of_nat_small) simp
  with i assms show "string_at (write_list a bs m) a (length bs) ! i = bs ! i"
    by (simp add: string_at_def write_list_apply)
qed (simp add: string_at_def)

lemma write_list_outside:
  "(\<And>i. i < length bs \<Longrightarrow> x \<noteq> a + of_nat i) \<Longrightarrow> write_list a bs m x = m x"
proof (induction bs arbitrary: a m)
  case (Cons b bs)
  have "x \<noteq> a + 1 + of_nat i" if "i < length bs" for i
    using Cons.prems [of "Suc i"] that by (simp add: add.assoc)
  with Cons.IH [of "a + 1"] Cons.prems [of 0] show ?case by simp
qed simp

section \<open>Regions apart\<close>

definition apart :: "addr \<Rightarrow> nat \<Rightarrow> addr \<Rightarrow> nat \<Rightarrow> bool" where
  "apart a n b k \<longleftrightarrow> (\<forall>i < n. \<forall>j < k. a + of_nat i \<noteq> b + of_nat j)"

lemma string_at_cong: "(\<And>i. i < n \<Longrightarrow> m (a + of_nat i) = m' (a + of_nat i)) \<Longrightarrow> string_at m a n = string_at m' a n"
  by (simp add: string_at_def)

lemma fill_up_write_list: "fill_up d c n m = write_list d (replicate n c) m"
  by (induction n arbitrary: d m) (simp_all add: fun_upd_def)

lemma ld32_cong: "(\<And>i. i < 4 \<Longrightarrow> m (a + of_nat i) = m' (a + of_nat i)) \<Longrightarrow> ld32 m a = ld32 m' a"
proof -
  assume *: "\<And>i. i < 4 \<Longrightarrow> m (a + of_nat i) = m' (a + of_nat i)"
  from * [of 0] * [of 1] * [of 2] * [of 3] show ?thesis by (simp add: ld32_def)
qed

lemma ld32_st32_apart: "apart a 4 b 4 \<Longrightarrow> ld32 (st32 b v m) a = ld32 m a"
proof (rule ld32_cong)
  fix i :: nat assume "apart a 4 b 4" "i < 4"
  then have "a + of_nat i \<noteq> b + of_nat j" if "j < 4" for j using that by (simp add: apart_def)
  from this [of 0] this [of 1] this [of 2] this [of 3]
  show "st32 b v m (a + of_nat i) = m (a + of_nat i)" by (simp add: st32_def)
qed

lemma ld32_write_list: "apart a 4 b (length bs) \<Longrightarrow> ld32 (write_list b bs m) a = ld32 m a"
  by (intro ld32_cong write_list_outside) (auto simp: apart_def)

section \<open>Properties\<close>

text \<open>C30. The word-at-a-time \<open>strlen\<close> returns the offset of the first zero byte, for any start
  alignment and whatever the bytes around the string hold.\<close>

theorem strlen_correct:
  assumes "cstring m s n"
  shows "strlen s m = Some (of_nat n)"
  by (rule strlen_result [OF assms])

theorem strlen_correct_witness: "strlen 0x1002 (\<lambda>a. if a = 0x1007 then 0 else 0x80) = Some 5"
proof -
  have "cstring (\<lambda>a. if a = 0x1007 then 0 else 0x80) 0x1002 5"
    by (simp add: cstring_check upt_conv_Cons)
  from strlen_correct [OF this] show ?thesis by simp
qed

text \<open>C31. \<open>memmove\<close> copies as if through a temporary buffer, however the two regions overlap, and
  writes nothing outside the destination.\<close>

theorem memmove_correct:
  assumes "unat dest + unat n \<le> 2 ^ 32" and "unat src + unat n \<le> 2 ^ 32"
  shows "memmove dest src n m = (dest, copied dest src (unat n) m)"
  by (rule memmove_result [OF assms])

theorem memmove_correct_witness:
  "memmove 0x1001 0x1000 3 (\<lambda>a. ucast a) = (0x1001, copied 0x1001 0x1000 3 (\<lambda>a. ucast a))"
  using memmove_correct [of "0x1001" 3 "0x1000" "\<lambda>a. ucast a"] by simp

text \<open>\<open>strcmp\<close> of two strings returns, with result 0 exactly for equal strings and a negative
  result exactly when the first comes first in the lexicographic order of unsigned bytes.\<close>

theorem strcmp_correct:
  assumes "cstring m s1 n1" and "cstring m s2 n2"
  shows "\<exists>r. strcmp s1 s2 m = Some r
    \<and> (r = 0 \<longleftrightarrow> string_at m s1 n1 = string_at m s2 n2)
    \<and> (sint r < 0 \<longleftrightarrow> ord_class.lexordp (string_at m s1 n1) (string_at m s2 n2))"
  unfolding strcmp_def by (rule strcmp_loop_result [OF assms])

theorem strcmp_correct_witness:
  "\<exists>r. strcmp 0x10 0x20 (\<lambda>a. if a = 0x12 \<or> a = 0x23 then 0 else 0x61) = Some r \<and> sint r < 0"
proof -
  let ?m = "(\<lambda>a. if a = 0x12 \<or> a = 0x23 then 0 else 0x61) :: mem"
  have "cstring ?m 0x10 2" "cstring ?m 0x20 3"
    by (simp_all add: cstring_check upt_conv_Cons)
  from strcmp_correct [OF this] show ?thesis by (auto simp: string_at_def upt_conv_Cons)
qed

text \<open>\<open>strcpy\<close> copies the characters of the source and not its terminator: the byte after the
  copy is the one that was there before.\<close>

theorem strcpy_unterminated:
  assumes "cstring m src n" and "unat src + n < 2 ^ 32" and "dest < src"
  shows "\<exists>m'. strcpy dest src m = Some (dest, m')
    \<and> (\<forall>i < n. m' (dest + of_nat i) = m (src + of_nat i)) \<and> m' (dest + of_nat n) = m (dest + of_nat n)"
proof -
  have u: "unat (of_nat i :: u32) = i" if "i \<le> n" for i
    by (rule unat_of_nat_small) (use assms(2) that in simp)
  have "snd (memmove dest src (of_nat n) m) = copied dest src n m"
    using memmove_result [of dest "of_nat n" src m] assms(2,3) by (simp add: u word_less_nat_alt)
  then have "strcpy dest src m = Some (dest, copied dest src n m)"
    using strlen_result [OF assms(1)] assms(3) by (simp add: strcpy_def memcpy_def memmove_def)
  moreover have "copied dest src n m (dest + of_nat i) = m (src + of_nat i)" if "i < n" for i
    using that by (simp add: copied_def u)
  moreover have "copied dest src n m (dest + of_nat n) = m (dest + of_nat n)"
    by (simp add: copied_def u)
  ultimately show ?thesis by blast
qed

theorem strcpy_unterminated_witness:
  "\<exists>m'. strcpy 0x10 0x20 (\<lambda>a. if a = 0x22 then 0 else 0x61) = Some (0x10, m') \<and> m' 0x12 = 0x61"
proof -
  let ?m = "(\<lambda>a. if a = 0x22 then 0 else 0x61) :: mem"
  have "cstring ?m 0x20 2" by (simp add: cstring_check upt_conv_Cons)
  from strcpy_unterminated [OF this, of "0x10"] show ?thesis by auto
qed

end
