(* ===== verification/Printf.thy ===== *)
theory Printf
  imports CString
begin

text \<open>
  \<open>lib/libc/vsprintf.c\<close>: formatted output. The character sink \<open>g\<close> of \<open>ssprintf\<close> is a function on
  the pair of the memory and the sink's own state, since a sink may write memory
  (\<open>__swrite_sbuf__\<close> does). The argument list is a pointer into the caller's stack, as \<open>va_list\<close>
  is on i386: \<open>va_arg\<close> of a 32-bit type reads a word and moves on by 4, of a 64-bit type by 8.
  An \<open>int\<close> is a 32-bit word, a \<open>long long\<close> a 64-bit one.
\<close>

type_synonym 's sink = "u8 \<Rightarrow> mem \<times> 's \<Rightarrow> mem \<times> 's"

abbreviation ch :: "char \<Rightarrow> u8" where "ch c \<equiv> of_char c"

section \<open>Flags and numbers in the format\<close>

definition F_SIGNED :: u8 where "F_SIGNED = 1"
definition ZEROPAD :: u8 where "ZEROPAD = 2"
definition FPLUS :: u8 where "FPLUS = 4"
definition SPLUS :: u8 where "SPLUS = 8"
definition PREFIX :: u8 where "PREFIX = 16"
definition SMALL :: u8 where "SMALL = 32"
definition LEFT :: u8 where "LEFT = 64"

definition has :: "u8 \<Rightarrow> u8 \<Rightarrow> bool" where
  "has flags msk \<longleftrightarrow> flags AND msk \<noteq> 0"

definition is_digit :: "u8 \<Rightarrow> bool" where
  "is_digit c \<longleftrightarrow> c \<ge> ch CHR ''0'' \<and> c \<le> ch CHR ''9''"

partial_function (option) parse_num :: "mem \<Rightarrow> addr \<Rightarrow> u32 \<Rightarrow> (u32 \<times> addr) option" where
  "parse_num m c num =
     (if is_digit (m c) then parse_num m (c + 1) (num * 10 + ucast (m c) - ucast (ch CHR ''0''))
      else Some (num, c))"

text \<open>The \<open>repeat\<close> loop: from the character before the first flag to the one after the last.\<close>

partial_function (option) parse_flags :: "mem \<Rightarrow> addr \<Rightarrow> u8 \<Rightarrow> (addr \<times> u8) option" where
  "parse_flags m fmt flags =
     (let fmt = fmt + 1; c = m fmt in
      if c = ch CHR ''0'' then parse_flags m fmt (flags OR ZEROPAD)
      else if c = ch CHR '' '' then parse_flags m fmt (flags OR SPLUS)
      else if c = ch CHR ''+'' then parse_flags m fmt (flags OR FPLUS)
      else if c = ch CHR ''#'' then parse_flags m fmt (flags OR PREFIX)
      else if c = ch CHR ''-'' then parse_flags m fmt (flags OR LEFT)
      else Some (fmt, flags))"

definition parse_width :: "mem \<Rightarrow> addr \<Rightarrow> addr \<Rightarrow> u8 \<Rightarrow> (addr \<times> addr \<times> u8 \<times> u32) option" where
  "parse_width m fmt args flags =
     (if m fmt = ch CHR ''*'' then
        let width = ld32 m args in
        if sint width < 0 then Some (fmt + 1, args + 4, flags OR LEFT, - width)
        else Some (fmt + 1, args + 4, flags, width)
      else if is_digit (m fmt) then map_option (\<lambda>(n, fmt). (fmt, args, flags, n)) (parse_num m fmt 0)
      else Some (fmt, args, flags, - 1))"

definition parse_percision :: "mem \<Rightarrow> addr \<Rightarrow> addr \<Rightarrow> (addr \<times> addr \<times> u32) option" where
  "parse_percision m fmt args =
     (if m fmt = ch CHR ''.'' then
        map_option (\<lambda>(fmt, args, p). (fmt, args, if sint p < 0 then 0 else p))
          (if m (fmt + 1) = ch CHR ''*'' then Some (fmt + 2, args + 4, ld32 m args)
           else if is_digit (m (fmt + 1))
             then map_option (\<lambda>(n, fmt). (fmt, args, n)) (parse_num m (fmt + 1) 0)
           else Some (fmt + 1, args, - 1))
      else Some (fmt, args, - 1))"

text \<open>The length modifier; a second \<open>l\<close> is skipped.\<close>

definition parse_length :: "mem \<Rightarrow> addr \<Rightarrow> addr \<times> u8" where
  "parse_length m fmt =
     (let (fmt, len) = (if m fmt = ch CHR ''h'' \<or> m fmt = ch CHR ''l'' \<or> m fmt = ch CHR ''L''
                        then (fmt + 1, m fmt) else (fmt, 0))
      in (if m fmt = ch CHR ''l'' then fmt + 1 else fmt, len))"

section \<open>Printing a number\<close>

definition base_str :: "bool \<Rightarrow> u8 list" where
  "base_str small = map of_char (if small then ''0123456789abcdef'' else ''0123456789ABCDEF'')"

text \<open>The digits in \<open>str\<close>, least significant first. The callers pass base 8, 10 or 16.\<close>

function num_digits :: "bool \<Rightarrow> u64 \<Rightarrow> u64 \<Rightarrow> u8 list" where
  "num_digits small base dividend =
     (if dividend > 0 \<and> base > 1
      then base_str small ! unat (dividend mod base) # num_digits small base (dividend div base)
      else [])"
  by pat_completeness auto
termination
proof (relation "measure (\<lambda>(small, base, dividend). unat dividend)", goal_cases)
  case (2 small base dividend)
  then have "1 < unat base" "0 < unat dividend" by (simp_all add: word_less_nat_alt)
  then show ?case by (simp add: unat_div_distrib)
qed simp

declare num_digits.simps [simp del]

text \<open>
  A counting loop \<open>while(w-- > 0)\<close> runs \<open>max 0 w\<close> times. The result is the characters in the order
  they go to the sink; \<open>written\<close> is their number.
\<close>

definition pad :: "u32 \<Rightarrow> char \<Rightarrow> u8 list" where
  "pad w c = replicate (nat (sint w)) (ch c)"

definition num_text :: "u64 \<Rightarrow> u64 \<Rightarrow> u8 \<Rightarrow> u32 \<Rightarrow> u32 \<Rightarrow> u8 list" where
  "num_text num base flags width percision =
     (let neg = sint num < 0;
          p = (if percision = - 1 then 0 else percision);
          dividend = (if neg \<and> has flags F_SIGNED then - num else num);
          str = (if num = 0 then [ch CHR ''0''] else num_digits (has flags SMALL) base dividend);
          w = (if has flags PREFIX \<and> base = 16 then 2 else if has flags PREFIX \<and> base = 8 then 1 else 0);
          w = (if has flags F_SIGNED \<and> neg \<or> has flags F_SIGNED \<and> has flags FPLUS
                 \<or> has flags F_SIGNED \<and> has flags SPLUS then w + 1 else w);
          w = of_nat (length str) + w;
          w = (if sint (width - w) > 0 then width - w else 0);
          sign = (if neg \<and> has flags F_SIGNED then [ch CHR ''-''] else []);
          sign = (if \<not> neg \<and> has flags FPLUS then [ch CHR ''+''] else sign);
          sign = (if \<not> neg \<and> has flags SPLUS then [ch CHR '' ''] else sign);
          prefix = (if has flags PREFIX \<and> base = 16
                    then [ch CHR ''0'', if has flags SMALL then ch CHR ''x'' else ch CHR ''X'']
                    else if has flags PREFIX \<and> base = 8 then [ch CHR ''0''] else [])
      in (if \<not> has flags ZEROPAD \<and> \<not> has flags LEFT then pad w CHR '' '' else [])
         @ sign @ prefix @ pad p CHR ''0''
         @ (if has flags ZEROPAD then pad w CHR ''0'' else [])
         @ rev str
         @ (if \<not> has flags ZEROPAD \<and> has flags LEFT then pad w CHR '' '' else []))"

section \<open>The format loop\<close>

definition emit :: "'s sink \<Rightarrow> u8 list \<Rightarrow> u32 \<times> mem \<times> 's \<Rightarrow> u32 \<times> mem \<times> 's" where
  "emit g cs = (\<lambda>(written, st). (written + of_nat (length cs), fold g cs st))"

partial_function (option) put_string :: "'s sink \<Rightarrow> addr \<Rightarrow> u32 \<times> mem \<times> 's \<Rightarrow> (u32 \<times> mem \<times> 's) option" where
  "put_string g str out =
     (let c = fst (snd out) str in
      if c \<noteq> 0 then put_string g (str + 1) (emit g [c] out) else Some out)"

text \<open>After \<open>while(w-- > 0)\<close>, and the rounds and final value of \<open>while(--w > 0)\<close>.\<close>

definition post_dec :: "u32 \<Rightarrow> u32" where
  "post_dec w = (if sint w \<ge> 0 then - 1 else w - 1)"

definition pre_dec :: "u32 \<Rightarrow> u32" where
  "pre_dec w = (if sint (w - 1) > 0 then 0 else w - 1)"

definition put_s :: "'s sink \<Rightarrow> u8 \<Rightarrow> u32 \<Rightarrow> addr \<Rightarrow> u32 \<times> mem \<times> 's \<Rightarrow> (u32 \<times> mem \<times> 's) option" where
  "put_s g flags width str out =
     Option.bind (strlen str (fst (snd out))) (\<lambda>n.
       let w = (if width - n > 0 then width - n else 0);
           (w, out) = (if \<not> has flags LEFT then (post_dec w, emit g (pad w CHR '' '') out) else (w, out))
       in Option.bind (put_string g str out) (\<lambda>out. Some (emit g (pad w CHR '' '') out)))"

definition put_c :: "'s sink \<Rightarrow> u8 \<Rightarrow> u32 \<Rightarrow> u8 \<Rightarrow> u32 \<times> mem \<times> 's \<Rightarrow> u32 \<times> mem \<times> 's" where
  "put_c g flags width c out =
     (let (width, out) = (if \<not> has flags LEFT then (pre_dec width, emit g (pad (width - 1) CHR '' '') out)
                          else (width, out));
          out = emit g [c] out
      in emit g (pad (width - 1) CHR '' '') out)"

text \<open>The result of a directive: the loop goes on with new arguments and output, or returns -1.\<close>

datatype 's directive = Bad_directive | Printed addr "u32 \<times> mem \<times> 's"

definition convert :: "'s sink \<Rightarrow> u8 \<Rightarrow> u8 \<Rightarrow> u32 \<Rightarrow> u32 \<Rightarrow> u8 \<Rightarrow> addr \<Rightarrow> u32 \<times> mem \<times> 's \<Rightarrow> 's directive option" where
  "convert g c flags width percision len args out =
     (let m = fst (snd out) in
      if c = ch CHR ''s'' then
        map_option (Printed (args + 4)) (put_s g flags width (ld32 m args) out)
      else if c = ch CHR ''c'' then
        Some (Printed (args + 4) (put_c g flags width (ucast (ld32 m args)) out))
      else if c = ch CHR ''x'' \<or> c = ch CHR ''X'' \<or> c = ch CHR ''o'' \<or> c = ch CHR ''u'' then
        let flags = (if c = ch CHR ''x'' then flags OR SMALL else flags);
            base = (if c = ch CHR ''x'' \<or> c = ch CHR ''X'' then 16 else if c = ch CHR ''o'' then 8 else 10);
            (val, args) = (if len = ch CHR ''l'' then (ld64 m args, args + 8)
                           else if len = ch CHR ''h'' then (ucast (ucast (ld32 m args) :: u16), args + 4)
                           else (ucast (ld32 m args), args + 4))
        in Some (Printed args (emit g (num_text val base flags width percision) out))
      else if c = ch CHR ''p'' then
        let (width, flags) = (if width = - 1 then (8, flags OR ZEROPAD) else (width, flags))
        in Some (Printed (args + 4) (emit g (num_text (scast (ld32 m args)) 16 flags width percision) out))
      else if c = ch CHR ''i'' \<or> c = ch CHR ''d'' then
        let flags = flags OR F_SIGNED;
            (val, args) = (if len = ch CHR ''l'' then (ld64 m args, args + 8)
                           else if len = ch CHR ''h'' then (scast (ucast (ld32 m args) :: u16), args + 4)
                           else (scast (ld32 m args), args + 4))
        in Some (Printed args (emit g (num_text val 10 flags width percision) out))
      else if c = ch CHR ''n'' then
        Some (Printed (args + 4) (fst out, st32 (ld32 m args) (fst out) m, snd (snd out)))
      else if c = ch CHR ''%'' then Some (Printed args (emit g [ch CHR ''%''] out))
      else Some Bad_directive)"

text \<open>One directive, from its percent sign; the first result is the place of its last character.\<close>

definition directive :: "'s sink \<Rightarrow> addr \<Rightarrow> addr \<Rightarrow> u32 \<times> mem \<times> 's \<Rightarrow> (addr \<times> 's directive) option" where
  "directive g fmt args out =
     (let m = fst (snd out) in
      Option.bind (parse_flags m fmt 0) (\<lambda>(fmt, flags).
      Option.bind (parse_width m fmt args flags) (\<lambda>(fmt, args, flags, width).
      Option.bind (parse_percision m fmt args) (\<lambda>(fmt, args, percision).
        let (fmt, len) = parse_length m fmt in
        map_option (\<lambda>d. (fmt, d)) (convert g (m fmt) flags width percision len args out)))))"

partial_function (option) format_loop :: "'s sink \<Rightarrow> addr \<Rightarrow> addr \<Rightarrow> u32 \<times> mem \<times> 's \<Rightarrow> (u32 \<times> mem \<times> 's) option" where
  "format_loop g fmt args out =
     (let c = fst (snd out) fmt in
      if c = 0 then Some out
      else if c = ch CHR ''%'' then
        Option.bind (directive g fmt args out) (\<lambda>(fmt, d). case d of
            Bad_directive \<Rightarrow> Some (- 1, snd out)
          | Printed args out' \<Rightarrow> format_loop g (fmt + 1) args out')
      else format_loop g (fmt + 1) args (emit g [c] out))"

text \<open>The result is the returned count, the memory and the sink's state.\<close>

definition ssprintf :: "'s sink \<Rightarrow> addr \<Rightarrow> addr \<Rightarrow> mem \<times> 's \<Rightarrow> (u32 \<times> mem \<times> 's) option" where
  "ssprintf g fmt args st = format_loop g fmt args (0, st)"

definition swrite_sbuf :: "addr sink" where
  "swrite_sbuf c = (\<lambda>(m, buf). (st8 buf c m, buf + 1))"

definition vsprintf :: "addr \<Rightarrow> addr \<Rightarrow> addr \<Rightarrow> mem \<Rightarrow> (u32 \<times> mem) option" where
  "vsprintf buf fmt args m = map_option (\<lambda>(ret, m, _). (ret, m)) (ssprintf swrite_sbuf fmt args (m, buf))"

text \<open>\<open>sprintf\<close> finds its arguments after the format pointer on the stack.\<close>

definition sprintf :: "addr \<Rightarrow> addr \<Rightarrow> addr \<Rightarrow> mem \<Rightarrow> (u32 \<times> mem) option" where
  "sprintf buf fmt args m = vsprintf buf fmt args m"

section \<open>Digits\<close>

definition digit_val :: "u8 \<Rightarrow> nat" where
  "digit_val c = unat (if c \<le> ch CHR ''9'' then c - ch CHR ''0''
     else if c \<ge> ch CHR ''a'' then c - ch CHR ''a'' + 10 else c - ch CHR ''A'' + 10)"

definition digits_value :: "nat \<Rightarrow> u8 list \<Rightarrow> nat" where
  "digits_value b ds = foldr (\<lambda>d v. digit_val d + b * v) ds 0"

lemma digit_val_base_str:
  "k < 16 \<Longrightarrow> digit_val (base_str small ! k) = k \<and> base_str small ! k \<noteq> 0 \<and> (base_str small ! k = ch CHR ''0'' \<longleftrightarrow> k = 0)"
proof -
  have "list_all (\<lambda>k. digit_val (base_str small ! k) = k \<and> base_str small ! k \<noteq> 0
      \<and> (base_str small ! k = ch CHR ''0'' \<longleftrightarrow> k = 0)) [0 ..< 16]"
    by (cases small) (simp_all add: upt_conv_Cons base_str_def digit_val_def)
  then show "k < 16 \<Longrightarrow> ?thesis" by (simp add: list_all_iff)
qed

lemma num_digits_0 [simp]: "num_digits small base 0 = []"
  by (simp add: num_digits.simps [of small base 0])

lemma num_digits_correct:
  assumes "1 < unat base" "unat base \<le> 16"
  shows "digits_value (unat base) (num_digits small base n) = unat n
    \<and> (n \<noteq> 0 \<longrightarrow> num_digits small base n \<noteq> [] \<and> last (num_digits small base n) \<noteq> ch CHR ''0'')
    \<and> 0 \<notin> set (num_digits small base n)"
  using assms
proof (induction small base n rule: num_digits.induct)
  case (1 small base n)
  show ?case
  proof (cases "n = 0")
    case True
    then show ?thesis by (simp add: digits_value_def)
  next
    case False
    have b: "1 < base" using "1.prems" by (simp add: word_less_nat_alt)
    have c: "n > 0 \<and> base > 1" using False b by (simp add: word_gt_0)
    let ?k = "unat (n mod base)"
    have k: "?k = unat n mod unat base" by (rule unat_mod_distrib)
    then have "?k < unat base" using "1.prems" by simp
    then have k16: "?k < 16" using "1.prems" by linarith
    have step: "num_digits small base n = base_str small ! ?k # num_digits small base (n div base)"
      using c by (simp add: num_digits.simps [of small base n])
    note IH = "1.IH" [OF c "1.prems"] and dv = digit_val_base_str [OF k16, of small]
    have "digits_value (unat base) (num_digits small base n) = ?k + unat base * unat (n div base)"
      using IH dv by (simp add: step digits_value_def)
    also have "\<dots> = unat n" by (simp add: k unat_div_distrib)
    finally have sum: "digits_value (unat base) (num_digits small base n) = unat n" .
    have "last (num_digits small base n) \<noteq> ch CHR ''0''"
    proof (cases "n div base = 0")
      case True
      then have "num_digits small base (n div base) = []" by (simp add: num_digits.simps [of small base])
      moreover have "unat n div unat base = 0" using True by (simp flip: unat_div_distrib)
      then have "unat n < unat base" using "1.prems" by (simp add: div_eq_0_iff)
      then have "?k \<noteq> 0" using False by (simp add: k unat_eq_0)
      ultimately show ?thesis using dv by (simp add: step)
    next
      case False
      with IH show ?thesis by (simp add: step)
    qed
    with sum IH dv show ?thesis by (auto simp: step)
  qed
qed

lemma num_digits_length:
  "1 < unat base \<Longrightarrow> unat n < unat base ^ k \<Longrightarrow> length (num_digits small base n) \<le> k"
proof (induction k arbitrary: n)
  case 0
  then have "n = 0" by (simp add: unat_eq_0)
  then show ?case by simp
next
  case (Suc k)
  have "unat (n div base) < unat base ^ k"
    using Suc.prems by (simp add: unat_div_distrib less_mult_imp_div_less mult.commute)
  with Suc.IH [OF Suc.prems(1), of "n div base"] show ?case
    by (simp add: num_digits.simps [of small base n])
qed

lemma num_digits_fit: "8 \<le> unat base \<Longrightarrow> length (num_digits small base n) \<le> 22"
proof (rule num_digits_length)
  assume b: "8 \<le> unat base"
  then show "1 < unat base" by simp
  have "unat n < 2 ^ LENGTH(64)" by (rule unsigned_less)
  also have "\<dots> \<le> 8 ^ 22" by simp
  also have "\<dots> \<le> unat base ^ 22" using b by (rule power_mono) simp
  finally show "unat n < unat base ^ 22" .
qed

section \<open>Text without directives\<close>

lemma string_at_nth: "i < n \<Longrightarrow> string_at m s n ! i = m (s + of_nat i)"
  by (simp add: string_at_def)

lemma string_at_length [simp]: "length (string_at m s n) = n"
  by (simp add: string_at_def)

lemma emit_single: "emit g [c] (w, st) = (w + 1, g c st)"
  by (simp add: emit_def)

lemma format_loop_text:
  assumes c: "cstring m fmt n" "ch CHR ''%'' \<notin> set (string_at m fmt n)"
    and keep: "\<And>k i. k \<le> n \<Longrightarrow> i \<le> n \<Longrightarrow>
      fst (fold g (take k (string_at m fmt n)) (m, s)) (fmt + of_nat i) = m (fmt + of_nat i)"
    and k: "k \<le> n"
  shows "format_loop g (fmt + of_nat k) args (of_nat k, fold g (take k (string_at m fmt n)) (m, s))
    = Some (of_nat n, fold g (string_at m fmt n) (m, s))"
  using k
proof (induction "n - k" arbitrary: k)
  case 0
  then have "k = n" by simp
  moreover have "m (fmt + of_nat n) = 0" using cstring_byte [OF c(1), of n] by simp
  ultimately show ?case using keep [of n n] by (simp add: format_loop.simps Let_def)
next
  case (Suc j)
  then have k: "k < n" "j = n - Suc k" by auto
  let ?t = "string_at m fmt n" and ?c = "m (fmt + of_nat k)"
  have cc: "?c \<noteq> 0" "?c \<noteq> ch CHR ''%''"
    using cstring_byte [OF c(1), of k] k(1) c(2) nth_mem [of k ?t] by (auto simp: string_at_nth)
  have byte: "fst (fold g (take k ?t) (m, s)) (fmt + of_nat k) = ?c" using keep [of k k] k(1) by simp
  have take: "take (Suc k) ?t = take k ?t @ [?c]"
    using k(1) by (simp add: take_Suc_conv_app_nth string_at_nth)
  have "format_loop g (fmt + of_nat k) args (of_nat k, fold g (take k ?t) (m, s))
      = format_loop g (fmt + of_nat (Suc k)) args (of_nat (Suc k), fold g (take (Suc k) ?t) (m, s))"
    using byte cc
    by (subst format_loop.simps) (simp add: Let_def emit_single take add.commute add.left_commute)
  with Suc.hyps(1) [OF k(2)] k(1) show ?case by simp
qed

lemma ssprintf_text:
  assumes "cstring m fmt n" "ch CHR ''%'' \<notin> set (string_at m fmt n)"
    and "\<And>k i. k \<le> n \<Longrightarrow> i \<le> n \<Longrightarrow>
      fst (fold g (take k (string_at m fmt n)) (m, s)) (fmt + of_nat i) = m (fmt + of_nat i)"
  shows "ssprintf g fmt args (m, s) = Some (of_nat n, fold g (string_at m fmt n) (m, s))"
  using format_loop_text [OF assms, of 0] by (simp add: ssprintf_def)

lemma fold_swrite:
  "length cs \<le> 2 ^ 32 \<Longrightarrow> \<exists>m'. fold swrite_sbuf cs (m, buf) = (m', buf + of_nat (length cs))
    \<and> (\<forall>i < length cs. m' (buf + of_nat i) = cs ! i)
    \<and> (\<forall>a. (\<forall>i < length cs. a \<noteq> buf + of_nat i) \<longrightarrow> m' a = m a)"
proof (induction cs arbitrary: m buf)
  case Nil
  then show ?case by simp
next
  case (Cons c cs)
  have eq: "buf + of_nat (Suc i) = buf + 1 + of_nat i" for i by simp
  have ne: "buf \<noteq> buf + 1 + of_nat i" if "i < length cs" for i
  proof -
    have "(of_nat (Suc i) :: u32) \<noteq> 0" by (rule of_nat_neq_0) (use that Cons.prems in auto)
    then show ?thesis unfolding eq [symmetric] by (simp only: add_cancel_right_right not_False_eq_True)
  qed
  define m1 where "m1 = m(buf := c)"
  obtain m' where m': "fold swrite_sbuf cs (m1, buf + 1) = (m', buf + 1 + of_nat (length cs))"
    "\<And>i. i < length cs \<Longrightarrow> m' (buf + 1 + of_nat i) = cs ! i"
    "\<And>a. (\<And>i. i < length cs \<Longrightarrow> a \<noteq> buf + 1 + of_nat i) \<Longrightarrow> m' a = m1 a"
    using Cons.IH [of m1 "buf + 1"] Cons.prems by auto
  have "m' (buf + of_nat i) = (c # cs) ! i" if "i < length (c # cs)" for i
  proof (cases i)
    case 0
    then show ?thesis using m'(3) [of buf] ne by (simp add: m1_def)
  next
    case (Suc j)
    then show ?thesis using m'(2) [of j] that unfolding Suc eq by simp
  qed
  moreover have "m' a = m a" if a: "\<forall>i < length (c # cs). a \<noteq> buf + of_nat i" for a
  proof -
    have "a \<noteq> buf" using a by auto
    moreover have "a \<noteq> buf + 1 + of_nat i" if "i < length cs" for i
      using a that unfolding eq [symmetric] by auto
    ultimately show ?thesis using m'(3) [of a] by (simp add: m1_def)
  qed
  moreover have "fold swrite_sbuf (c # cs) (m, buf) = (m', buf + of_nat (length (c # cs)))"
    using m'(1) by (simp add: swrite_sbuf_def st8_def m1_def)
  ultimately show ?case by blast
qed

section \<open>One number\<close>

text \<open>The decimal representation of a number, by its value: the digits of a natural number in ASCII, most
  significant first, and a minus sign before those of a negative one.\<close>

fun decimal_digits :: "nat \<Rightarrow> u8 list" where
  "decimal_digits n = (if n < 10 then [of_nat (48 + n)] else decimal_digits (n div 10) @ [of_nat (48 + n mod 10)])"

declare decimal_digits.simps [simp del]

definition decimal :: "int \<Rightarrow> u8 list" where
  "decimal x = (if x < 0 then [ch CHR ''-''] else []) @ decimal_digits (nat \<bar>x\<bar>)"

lemma base_str_ascii: "k < 10 \<Longrightarrow> base_str False ! k = of_nat (48 + k)"
proof -
  have "list_all (\<lambda>k. base_str False ! k = of_nat (48 + k)) [0 ..< 10]"
    by (simp add: upt_conv_Cons base_str_def)
  then show "k < 10 \<Longrightarrow> ?thesis" by (simp add: list_all_iff)
qed

lemma num_digits_decimal: "n \<noteq> 0 \<Longrightarrow> rev (num_digits False 10 n) = decimal_digits (unat n)"
proof (induction "unat n" arbitrary: n rule: less_induct)
  case less
  have n: "unat n \<noteq> 0" using less.prems by (simp add: unat_eq_0)
  have u: "unat (n mod 10) = unat n mod 10" "unat (n div 10) = unat n div 10"
    by (simp_all add: unat_mod_distrib unat_div_distrib)
  have step: "num_digits False 10 n = of_nat (48 + unat n mod 10) # num_digits False 10 (n div 10)"
    using less.prems by (subst num_digits.simps) (simp add: u(1) base_str_ascii word_gt_0)
  show ?case
  proof (cases "unat n < 10")
    case True
    then have "unat (n div 10) = 0" by (simp add: u(2))
    then have "n div 10 = 0" by (simp only: unat_eq_0)
    with True show ?thesis unfolding step by (simp add: decimal_digits.simps [of "unat n"])
  next
    case False
    then have "unat (n div 10) \<noteq> 0" unfolding u(2) by simp
    then have "n div 10 \<noteq> 0" by (metis unat_0)
    then have "rev (num_digits False 10 (n div 10)) = decimal_digits (unat n div 10)"
      using less.hyps [of "n div 10"] n by (simp add: u(2))
    with False show ?thesis unfolding step by (simp add: decimal_digits.simps [of "unat n"])
  qed
qed

lemma has_signed: "has F_SIGNED F_SIGNED" "\<not> has F_SIGNED ZEROPAD" "\<not> has F_SIGNED FPLUS"
    "\<not> has F_SIGNED SPLUS" "\<not> has F_SIGNED PREFIX" "\<not> has F_SIGNED SMALL" "\<not> has F_SIGNED LEFT"
  by (simp_all add: has_def F_SIGNED_def ZEROPAD_def FPLUS_def SPLUS_def PREFIX_def SMALL_def LEFT_def)

lemma pad_0 [simp]: "pad 0 c = []" "pad (- 1) c = []"
  by (simp_all add: pad_def)

lemma scast_sint: "sint (scast x :: u64) = sint (x :: u32)"
  by (simp add: sint_up_scast is_up)

lemma num_text_decimal: "num_text (scast x) 10 F_SIGNED (- 1) (- 1) = decimal (sint (x :: u32))"
proof -
  define v :: u64 where "v = scast x"
  have sv: "sint v = sint x" by (simp add: v_def scast_sint)
  define str where "str = (if v = 0 then [ch CHR ''0'']
      else num_digits False 10 (if sint v < 0 then - v else v))"
  define w where "w = of_nat (length str) + (if sint v < 0 then 1 else 0 :: u32)"
  have len: "length str \<le> 22" using num_digits_fit [of 10 False] by (simp add: str_def)
  have w: "sint (- 1 - w) < 0"
  proof -
    define k where "k = - 1 - int (length str) - (if sint v < 0 then 1 else 0)"
    have "- 1 - w = word_of_int k" by (simp add: w_def k_def)
    moreover have "sint (word_of_int k :: u32) = k" if "- 2147483648 \<le> k" "k < 2147483648" for k
      using that by (simp add: sint_uint uint_word_of_int_eq signed_take_bit_take_bit signed_take_bit_int_eq_self)
    moreover have "- 2147483648 \<le> k" "k < 0" using len by (auto simp: k_def)
    ultimately show ?thesis by simp
  qed
  have v0: "v = 0 \<longleftrightarrow> sint x = 0" using sv by (metis signed_eq_0_iff)
  have vi: "v = of_int (sint x)" by (simp add: v_def)
  have strx: "str = (if sint x = 0 then [ch CHR ''0''] else num_digits False 10 (of_int \<bar>sint x\<bar>))"
  proof (cases "sint x = 0")
    case True
    then show ?thesis using v0 by (simp add: str_def)
  next
    case False
    have "(if sint v < 0 then - v else v) = of_int \<bar>sint x\<bar>"
    proof (cases "sint x < 0")
      case True
      then have "sint v < 0" "\<bar>sint x\<bar> = - sint x" by (simp_all add: sv)
      moreover have "- v = of_int (- sint x)" by (simp only: vi of_int_minus)
      ultimately show ?thesis by (simp only: if_True)
    next
      case False
      then have "\<not> sint v < 0" "\<bar>sint x\<bar> = sint x" by (simp_all add: sv)
      with vi show ?thesis by (simp only: if_False)
    qed
    with False v0 show ?thesis by (simp only: str_def if_False simp_thms)
  qed
  have "num_text v 10 F_SIGNED (- 1) (- 1) = (if sint v < 0 then [ch CHR ''-''] else []) @ rev str"
    using w unfolding w_def str_def
    by (cases "v = 0"; cases "sint v < 0") (simp_all add: num_text_def has_signed Let_def)
  moreover have "rev str = decimal_digits (nat \<bar>sint x\<bar>)"
  proof (cases "sint x = 0")
    case True
    then show ?thesis by (simp add: strx decimal_digits.simps)
  next
    case False
    define a :: u64 where "a = of_int \<bar>sint x\<bar>"
    have "\<bar>sint x\<bar> < 2 ^ 64" using sint_less [of x] sint_greater_eq [of x] by simp
    then have ua: "unat a = nat \<bar>sint x\<bar>" by (simp add: a_def unsigned_of_int take_bit_int_eq_self flip: nat_uint_eq)
    with False have "a \<noteq> 0" by auto
    with False ua num_digits_decimal [of a] show ?thesis by (simp add: strx a_def)
  qed
  ultimately show ?thesis by (simp add: v_def [symmetric] sv decimal_def)
qed

text \<open>A stretch of the format without directives, from wherever the loop is, and the directive \<open>%d\<close>.\<close>

definition keeps :: "'s sink \<Rightarrow> addr set \<Rightarrow> bool" where
  "keeps g R \<longleftrightarrow> (\<forall>c st. \<forall>a \<in> R. fst (g c st) a = fst st a)"

lemma keepsD: "keeps g R \<Longrightarrow> a \<in> R \<Longrightarrow> fst (g c st) a = fst st a"
  unfolding keeps_def by blast

lemma keeps_fold: "keeps g R \<Longrightarrow> a \<in> R \<Longrightarrow> fst (fold g cs st) a = fst st a"
  by (induction cs arbitrary: st) (simp_all add: keepsD)

lemma format_loop_run:
  assumes "j \<le> k" and "\<And>i. j \<le> i \<Longrightarrow> i < k \<Longrightarrow> m (fmt + of_nat i) \<noteq> 0 \<and> m (fmt + of_nat i) \<noteq> ch CHR ''%''"
    and keep: "keeps g ((\<lambda>i. fmt + of_nat i) ` {.. n})" and kn: "k \<le> n"
    and same: "\<And>i. i \<le> n \<Longrightarrow> fst st (fmt + of_nat i) = m (fmt + of_nat i)"
  shows "format_loop g (fmt + of_nat j) args (w, st) = format_loop g (fmt + of_nat k) args
    (emit g (map (\<lambda>i. m (fmt + of_nat i)) [j ..< k]) (w, st))"
  using assms(1,2) same
proof (induction "k - j" arbitrary: j w st)
  case 0
  then show ?case by (simp add: emit_def)
next
  case (Suc d)
  then have j: "j < k" "d = k - Suc j" by auto
  let ?c = "m (fmt + of_nat j)"
  have c: "fst st (fmt + of_nat j) = ?c" "?c \<noteq> 0" "?c \<noteq> ch CHR ''%''" using Suc.prems j(1) kn by auto
  have "fst (g ?c st) (fmt + of_nat i) = m (fmt + of_nat i)" if "i \<le> n" for i
    using keepsD [OF keep, of "fmt + of_nat i" ?c st] that Suc.prems(3) [OF that] by simp
  then have "format_loop g (fmt + of_nat (Suc j)) args (w + 1, g ?c st) = format_loop g (fmt + of_nat k) args
      (emit g (map (\<lambda>i. m (fmt + of_nat i)) [Suc j ..< k]) (w + 1, g ?c st))"
    using Suc.hyps(1) [OF j(2)] Suc.prems(2) j(1) by simp
  moreover have "format_loop g (fmt + of_nat j) args (w, st) = format_loop g (fmt + of_nat (Suc j)) args (w + 1, g ?c st)"
    using c by (subst format_loop.simps) (simp add: Let_def emit_single add.commute add.left_commute)
  moreover have "[j ..< k] = j # [Suc j ..< k]" using j(1) by (simp add: upt_conv_Cons)
  ultimately show ?case by (simp add: emit_def add.assoc)
qed

lemma directive_d:
  assumes "m (fmt + 1) = ch CHR ''d''"
  shows "directive g fmt args (w, m, s)
    = Some (fmt + 1, Printed (args + 4) (emit g (decimal (sint (ld32 m args))) (w, m, s)))"
proof -
  have fl: "parse_flags m fmt 0 = Some (fmt + 1, 0)"
    using assms by (subst parse_flags.simps) (simp add: Let_def)
  have p: "parse_width m (fmt + 1) args 0 = Some (fmt + 1, args, 0, - 1)"
      "parse_percision m (fmt + 1) args = Some (fmt + 1, args, - 1)" "parse_length m (fmt + 1) = (fmt + 1, 0)"
    using assms by (simp_all add: parse_width_def is_digit_def parse_percision_def parse_length_def)
  have "convert g (m (fmt + 1)) 0 (- 1) (- 1) 0 args (w, m, s)
      = Some (Printed (args + 4) (emit g (decimal (sint (ld32 m args))) (w, m, s)))"
    using assms by (simp add: convert_def Let_def num_text_decimal)
  then show ?thesis by (simp add: directive_def Let_def fl p)
qed

section \<open>Properties\<close>

text \<open>The digit loop of \<open>num\<close>, in each base the formats use: the digits it stores have the value
  of the number in that base, there is no leading zero, and with at most 22 of them the 23-byte
  buffer keeps its terminator.\<close>

theorem num_digits_roundtrip:
  assumes "base = 8 \<or> base = 10 \<or> base = 16"
  shows "digits_value (unat base) (num_digits small base n) = unat n
    \<and> (n \<noteq> 0 \<longrightarrow> last (num_digits small base n) \<noteq> ch CHR ''0'')
    \<and> 0 \<notin> set (num_digits small base n) \<and> length (num_digits small base n) \<le> 22"
proof -
  from assms have "1 < unat base" "unat base \<le> 16" "8 \<le> unat base" by auto
  with num_digits_correct [of base small n] num_digits_fit [of base small n] show ?thesis by blast
qed

theorem num_digits_roundtrip_witness:
  "digits_value 16 (num_digits True 16 0xBEEF) = 0xBEEF \<and> length (num_digits True 16 0xBEEF) \<le> 22"
  using num_digits_roundtrip [of 16 True "0xBEEF"] by simp

text \<open>C33. A format with one \<open>%d\<close> anywhere in a text prints the text with the argument in decimal in its
  place, to any sink that leaves the format and the argument alone, and the result counts the characters.\<close>

theorem printf_decimal:
  assumes "cstring m fmt n" and "p + 2 \<le> n" and "m (fmt + of_nat p) = ch CHR ''%''"
    and "m (fmt + of_nat (p + 1)) = ch CHR ''d''"
    and "\<And>i. i < n \<Longrightarrow> i \<noteq> p \<Longrightarrow> m (fmt + of_nat i) \<noteq> ch CHR ''%''"
    and "keeps g ((\<lambda>i. fmt + of_nat i) ` {.. n} \<union> (\<lambda>i. args + of_nat i) ` {..< 4})"
  shows "let t = string_at m fmt p @ decimal (sint (ld32 m args)) @ string_at m (fmt + of_nat (p + 2)) (n - (p + 2)) in
    ssprintf g fmt args (m, s) = Some (of_nat (length t), fold g t (m, s))"
proof -
  let ?b = "\<lambda>i. m (fmt + of_nat i)"
  let ?t1 = "map ?b [0 ..< p]" and ?d = "decimal (sint (ld32 m args))" and ?t2 = "map ?b [p + 2 ..< n]"
  have keep: "keeps g ((\<lambda>i. fmt + of_nat i) ` {.. n})" using assms(6) by (auto simp: keeps_def)
  have same: "fst (fold g cs (m, s)) (fmt + of_nat i) = ?b i" if "i \<le> n" for cs i
    using keeps_fold [OF keep, of _ cs "(m, s)"] that by simp
  have arg: "ld32 (fst (fold g cs (m, s))) args = ld32 m args" for cs
  proof (rule ld32_cong)
    fix k :: nat assume "k < 4"
    then show "fst (fold g cs (m, s)) (args + of_nat k) = m (args + of_nat k)"
      using keeps_fold [OF assms(6), of "args + of_nat k" cs "(m, s)"] by simp
  qed
  have nz: "?b i \<noteq> 0" if "i < n" for i using cstring_byte [OF assms(1), of i] that by simp
  have tail: "[p + 2 ..< n] = map (\<lambda>i. i + (p + 2)) [0 ..< n - (p + 2)]" 
    by (intro nth_equalityI) (simp_all add: add.commute)
  have t2: "string_at m (fmt + of_nat (p + 2)) (n - (p + 2)) = ?t2"
    unfolding tail by (simp add: string_at_def add.commute add.left_commute)
  have "ssprintf g fmt args (m, s) = format_loop g (fmt + of_nat p) args (of_nat p, fold g ?t1 (m, s))"
    using format_loop_run [of 0 p m fmt g n "(m, s)" args 0] keep assms(2,5) nz by (simp add: ssprintf_def emit_def)
  also have "\<dots> = format_loop g (fmt + of_nat (p + 2)) (args + 4) (emit g ?d (of_nat p, fold g ?t1 (m, s)))"
  proof -
    obtain m1 s1 where 1: "fold g ?t1 (m, s) = (m1, s1)" by fastforce
    have "m1 (fmt + of_nat p) = ch CHR ''%''" "m1 (fmt + of_nat p + 1) = ch CHR ''d''"
      using same [of p ?t1] same [of "p + 1" ?t1] assms(2-4) by (simp_all add: 1 ac_simps)
    moreover have "ld32 m1 args = ld32 m args" using arg [of ?t1] by (simp add: 1)
    ultimately show ?thesis
      unfolding 1 by (subst format_loop.simps) (simp add: Let_def directive_d add.assoc add.commute [of 2])
  qed
  also have "emit g ?d (of_nat p, fold g ?t1 (m, s)) = (of_nat (p + length ?d), fold g (?t1 @ ?d) (m, s))"
    by (simp add: emit_def)
  also have "format_loop g (fmt + of_nat (p + 2)) (args + 4) \<dots> = format_loop g (fmt + of_nat n) (args + 4)
      (emit g ?t2 (of_nat (p + length ?d), fold g (?t1 @ ?d) (m, s)))"
    by (rule format_loop_run [OF assms(2) _ keep order.refl same]) (use nz assms(5) in auto)
  also have "\<dots> = Some (emit g ?t2 (of_nat (p + length ?d), fold g (?t1 @ ?d) (m, s)))"
  proof -
    have "fst (fold g ?t2 (fold g (?t1 @ ?d) (m, s))) (fmt + of_nat n) = 0"
      using same [of n "?t1 @ ?d @ ?t2"] assms(1) by (simp add: cstring_def)
    then show ?thesis by (subst format_loop.simps) (simp add: emit_def Let_def)
  qed
  finally show ?thesis unfolding Let_def t2 by (simp add: emit_def string_at_def)
qed

text \<open>The format \<open>x%d.\<close> and the argument -42.\<close>

definition demo_format :: mem where
  "demo_format = (\<lambda>_. 0)(0x100 := 0x78, 0x101 := 0x25, 0x102 := 0x64, 0x103 := 0x2E,
     0x200 := 0xD6, 0x201 := 0xFF, 0x202 := 0xFF, 0x203 := 0xFF)"

theorem printf_decimal_witness:
  "ssprintf (\<lambda>c (m, out). (m, out @ [c])) 0x100 0x200 (demo_format, [])
    = Some (5, demo_format, map of_char ''x-42.'')"
proof -
  let ?g = "(\<lambda>c (m, out). (m, out @ [c])) :: u8 list sink"
  have "uint (ld32 demo_format 0x200) = 4294967254" by (simp add: uint_ld32 demo_format_def)
  then have "sint (ld32 demo_format 0x200) = - 42"
    by (simp add: sint_uint signed_take_bit_eq_take_bit_shift take_bit_eq_mod)
  moreover have "decimal (- 42) = map of_char ''-42''" by (simp add: decimal_def decimal_digits.simps)
  moreover have "fold ?g cs (m, out) = (m, out @ cs)" for cs m out
    by (induction cs arbitrary: out) auto
  moreover have "cstring demo_format 0x100 4" by (simp add: cstring_check demo_format_def upt_conv_Cons)
  moreover have "demo_format (0x100 + of_nat i) \<noteq> ch CHR ''%''" if "i < 4" "i \<noteq> 1" for i
  proof -
    have "i = 0 \<or> i = 2 \<or> i = 3" using that by linarith
    then show ?thesis by (auto simp: demo_format_def)
  qed
  moreover have "keeps ?g R" for R by (simp add: keeps_def split_beta)
  moreover have "string_at demo_format 0x100 1 = [0x78]" "string_at demo_format 0x103 1 = [0x2E]"
    by (simp_all add: string_at_def demo_format_def)
  ultimately show ?thesis
    using printf_decimal [of demo_format "0x100" 4 1 ?g "0x200" "[]"] by (simp add: Let_def demo_format_def)
qed

text \<open>\<open>vsprintf\<close> of a text without directives stores exactly the text and returns its length, but
  no terminator: the byte after the text is the one that was there before.\<close>

theorem vsprintf_text:
  assumes "cstring m fmt n" and "ch CHR ''%'' \<notin> set (string_at m fmt n)" and "n < 2 ^ 32"
    and "\<And>i j. i \<le> n \<Longrightarrow> j < n \<Longrightarrow> fmt + of_nat i \<noteq> buf + of_nat j"
  shows "\<exists>m'. vsprintf buf fmt args m = Some (of_nat n, m') \<and> string_at m' buf n = string_at m fmt n
    \<and> m' (buf + of_nat n) = m (buf + of_nat n)"
proof -
  let ?t = "string_at m fmt n"
  have "fst (fold swrite_sbuf (take k ?t) (m, buf)) (fmt + of_nat i) = m (fmt + of_nat i)"
    if "k \<le> n" "i \<le> n" for k i
    using fold_swrite [of "take k ?t" m buf] assms(3,4) that by auto
  from ssprintf_text [OF assms(1,2) this, of args]
  have r: "ssprintf swrite_sbuf fmt args (m, buf) = Some (of_nat n, fold swrite_sbuf ?t (m, buf))" .
  obtain m' where m': "fold swrite_sbuf ?t (m, buf) = (m', buf + of_nat n)"
    "\<And>i. i < n \<Longrightarrow> m' (buf + of_nat i) = ?t ! i" "\<And>a. (\<And>i. i < n \<Longrightarrow> a \<noteq> buf + of_nat i) \<Longrightarrow> m' a = m a"
    using fold_swrite [of ?t m buf] assms(3) by auto
  have "buf + of_nat n \<noteq> buf + (of_nat i :: u32)" if "i < n" for i
    using that assms(3) of_nat_inj_small [of n i, where 'a = 32] by simp
  with m'(3) have "m' (buf + of_nat n) = m (buf + of_nat n)" by blast
  moreover have "string_at m' buf n = ?t"
    using m'(2) by (intro nth_equalityI) (simp_all add: string_at_nth)
  ultimately show ?thesis using r m'(1) by (simp add: vsprintf_def)
qed

theorem vsprintf_text_witness:
  "\<exists>m'. vsprintf 0x200 0x100 0x300 (\<lambda>a. if a = 0x102 then 0 else 0x61) = Some (2, m') \<and> m' 0x202 = 0x61"
proof -
  let ?m = "(\<lambda>a. if a = 0x102 then 0 else 0x61) :: mem"
  have "cstring ?m 0x100 2" by (simp add: cstring_check upt_conv_Cons)
  moreover have "ch CHR ''%'' \<notin> set (string_at ?m 0x100 2)" by (simp add: string_at_def upt_conv_Cons)
  moreover have "(0x100 :: addr) + of_nat i \<noteq> 0x200 + of_nat j" if "i \<le> 2" "j < 2" for i j
  proof -
    have "i = 0 \<or> i = 1 \<or> i = 2" "j = 0 \<or> j = 1" using that by linarith+
    then show ?thesis by auto
  qed
  ultimately show ?thesis using vsprintf_text [of ?m "0x100" 2 "0x200" "0x300"] by auto
qed

end
