(* ===== verification/Printk.thy ===== *)
theory Printk
  imports Printf
begin

text \<open>
  \<open>lib/libc/printk.c\<close>: the kernel's output streams. \<open>stdout\<close> and the log are buffered by lines in
  \<open>__stream_buffer_org[2][512]\<close>, one array whose second row follows the first: element \<open>[k][i]\<close>
  is at \<open>512 * k + i\<close> of \<open>sb_org\<close>, and a write past the end of a row lands where it does in
  memory. The console is the list of the calls made on it. \<open>LOG_ENABLE\<close> and \<open>LOG_ALL_OUTPUT\<close> are
  build options, the fields of \<open>log_config\<close>.
\<close>

section \<open>State\<close>

datatype console_call = Putc u8 | Log u8

record streams =
  sb_org :: "nat \<Rightarrow> u8"
  sb_ptr0 :: nat               \<comment> \<open>\<open>__stream_buffer[0]\<close>, as an index of \<open>sb_org\<close>\<close>
  sb_ptr1 :: nat
  console :: "console_call list"

record log_config =
  log_enable :: bool
  log_all_output :: bool

definition STREAM_OUT :: u32 where "STREAM_OUT = 0"
definition STREAM_ERR :: u32 where "STREAM_ERR = 1"
definition STREAM_LOG :: u32 where "STREAM_LOG = 2"

section \<open>Flushing\<close>

text \<open>\<open>console_puts\<close> and \<open>console_log\<close> run to the terminator; one is in place at index \<open>e\<close>.\<close>

definition text_upto :: "(nat \<Rightarrow> u8) \<Rightarrow> nat \<Rightarrow> nat \<Rightarrow> u8 list" where
  "text_upto org i e = takeWhile (\<lambda>c. c \<noteq> 0) (map org [i ..< e])"

definition console_puts :: "u8 list \<Rightarrow> streams \<Rightarrow> streams" where
  "console_puts cs s = s\<lparr>console := console s @ map Putc cs\<rparr>"

definition console_log :: "u8 list \<Rightarrow> streams \<Rightarrow> streams" where
  "console_log cs s = s\<lparr>console := console s @ map Log cs\<rparr>"

text \<open>The loop of the \<open>STREAM_OUT\<close> case, which also stops after 512 characters.\<close>

function out_text :: "(nat \<Rightarrow> u8) \<Rightarrow> nat \<Rightarrow> u8 list" where
  "out_text org i = (if org i \<noteq> 0 \<and> i < 512 then org i # out_text org (Suc i) else [])"
  by pat_completeness auto
termination by (relation "measure (\<lambda>(org, i). 512 - i)") auto

declare out_text.simps [simp del]

definition fflush :: "log_config \<Rightarrow> u32 \<Rightarrow> streams \<Rightarrow> streams" where
  "fflush cfg fd s =
     (if fd = STREAM_LOG then
        let s = s\<lparr>sb_org := (sb_org s)(sb_ptr1 s := 0)\<rparr>;
            cs = text_upto (sb_org s) 512 (sb_ptr1 s);
            s = (if log_enable cfg then console_log cs s else console_puts cs s)
        in s\<lparr>sb_ptr1 := 512\<rparr>
      else if fd = STREAM_OUT then
        let e = sb_ptr0 s;
            s = s\<lparr>sb_org := (sb_org s)(e := 0)\<rparr>;
            s = console_puts (out_text (sb_org s) 0) s;
            s = (if log_all_output cfg then console_log (text_upto (sb_org s) 0 e) s else s)
        in s\<lparr>sb_ptr0 := 0\<rparr>
      else s)"

section \<open>The sinks\<close>

definition newline :: u8 where "newline = 10"

definition stream_log :: "log_config \<Rightarrow> u8 \<Rightarrow> streams \<Rightarrow> streams" where
  "stream_log cfg c s =
     (let s = s\<lparr>sb_org := (sb_org s)(sb_ptr1 s := c), sb_ptr1 := sb_ptr1 s + 1\<rparr>
      in if c = newline \<or> sb_ptr1 s - 512 > 512 then fflush cfg STREAM_LOG s else s)"

definition stream_out :: "log_config \<Rightarrow> u8 \<Rightarrow> streams \<Rightarrow> streams" where
  "stream_out cfg c s =
     (let s = s\<lparr>sb_org := (sb_org s)(sb_ptr0 s := c), sb_ptr0 := sb_ptr0 s + 1\<rparr>
      in if c = newline \<or> sb_ptr0 s > 512 then fflush cfg STREAM_OUT s else s)"

definition stream_err :: "u8 \<Rightarrow> streams \<Rightarrow> streams" where
  "stream_err c s = console_puts [c] s"

definition to_sink :: "(u8 \<Rightarrow> 's \<Rightarrow> 's) \<Rightarrow> 's sink" where
  "to_sink f c st = (fst st, f c (snd st))"

definition printf :: "log_config \<Rightarrow> addr \<Rightarrow> addr \<Rightarrow> mem \<times> streams \<Rightarrow> (u32 \<times> mem \<times> streams) option" where
  "printf cfg format args st = ssprintf (to_sink (stream_out cfg)) format args st"

definition fprintf :: "log_config \<Rightarrow> u32 \<Rightarrow> addr \<Rightarrow> addr \<Rightarrow> mem \<times> streams \<Rightarrow> (u32 \<times> mem \<times> streams) option" where
  "fprintf cfg file format args st =
     (if file = STREAM_OUT then ssprintf (to_sink (stream_out cfg)) format args st
      else if file = STREAM_LOG then ssprintf (to_sink (stream_log cfg)) format args st
      else if file = STREAM_ERR then ssprintf (to_sink stream_err) format args st
      else ssprintf (to_sink (stream_out cfg)) format args st)"

section \<open>Lemmas\<close>

text \<open>Filling the first row.\<close>

lemma fill_row:
  assumes "sb_ptr0 s + length cs \<le> 512" and "newline \<notin> set cs"
  shows "\<exists>org. fold (stream_out cfg) cs s = s\<lparr>sb_org := org, sb_ptr0 := sb_ptr0 s + length cs\<rparr>
    \<and> (\<forall>i < length cs. org (sb_ptr0 s + i) = cs ! i)
    \<and> (\<forall>i. i < sb_ptr0 s \<or> sb_ptr0 s + length cs \<le> i \<longrightarrow> org i = sb_org s i)"
  using assms
proof (induction cs arbitrary: s)
  case Nil
  then show ?case by (intro exI [of _ "sb_org s"]) simp
next
  case (Cons c cs)
  let ?s = "s\<lparr>sb_org := (sb_org s)(sb_ptr0 s := c), sb_ptr0 := sb_ptr0 s + 1\<rparr>"
  have "stream_out cfg c s = ?s" using Cons.prems by (auto simp: stream_out_def)
  moreover obtain org where org: "fold (stream_out cfg) cs ?s = ?s\<lparr>sb_org := org, sb_ptr0 := sb_ptr0 ?s + length cs\<rparr>"
    "\<forall>i < length cs. org (sb_ptr0 ?s + i) = cs ! i"
    "\<forall>i. i < sb_ptr0 ?s \<or> sb_ptr0 ?s + length cs \<le> i \<longrightarrow> org i = sb_org ?s i"
    using Cons.IH [of ?s] Cons.prems by auto
  moreover have "org (sb_ptr0 s + i) = (c # cs) ! i" if "i < length (c # cs)" for i
    using org(2,3) that by (cases i) auto
  ultimately show ?case
    by (intro exI [of _ org]) auto
qed

lemma out_text_row:
  assumes "\<And>i. i < n \<Longrightarrow> org i = cs ! i" and "length cs = n" and "0 \<notin> set cs" and "n \<le> 512"
    and "n < 512 \<Longrightarrow> org n = 0"
  shows "i \<le> n \<Longrightarrow> out_text org i = drop i cs"
proof (induction "n - i" arbitrary: i)
  case 0
  then have "i = n" by simp
  with assms(2,4,5) show ?case by (subst out_text.simps) (auto simp: le_less)
next
  case (Suc k)
  then have i: "i < n" by simp
  then have "cs ! i \<in> set cs" using assms(2) by simp
  then have "cs ! i \<noteq> 0" using assms(3) by metis
  with i assms(1) [OF i] assms(4) have "out_text org i = cs ! i # out_text org (Suc i)"
    by (subst out_text.simps) simp
  with Suc.hyps(1) [of "Suc i"] Suc.hyps(2) i assms(2) show ?case
    by (simp add: Cons_nth_drop_Suc)
qed

section \<open>Properties\<close>

text \<open>A line of less than 512 characters written to \<open>stdout\<close> from an empty buffer reaches the
  console whole and in order, and leaves the buffer empty.\<close>

theorem stdout_line:
  assumes "sb_ptr0 s = 0" and "length cs < 512" and "newline \<notin> set cs" and "0 \<notin> set cs"
    and "\<not> log_all_output cfg"
  shows "let s' = fold (stream_out cfg) (cs @ [newline]) s in
    console s' = console s @ map Putc (cs @ [newline]) \<and> sb_ptr0 s' = 0"
proof -
  obtain org where org: "fold (stream_out cfg) cs s = s\<lparr>sb_org := org, sb_ptr0 := length cs\<rparr>"
    "\<And>i. i < length cs \<Longrightarrow> org i = cs ! i"
    using fill_row [of s cs cfg] assms(1-3) by auto
  define org' where "org' = org(length cs := newline, Suc (length cs) := 0)"
  have "out_text org' 0 = drop 0 (cs @ [newline])"
    by (rule out_text_row [of "Suc (length cs)"])
      (use org(2) assms(2,4) in \<open>auto simp: org'_def nth_append less_Suc_eq newline_def\<close>)
  then have "out_text (org(length cs := newline, Suc (length cs) := 0)) 0 = cs @ [newline]"
    by (simp add: org'_def)
  then show ?thesis
    by (simp add: org(1) stream_out_def fflush_def STREAM_OUT_def STREAM_LOG_def console_puts_def assms(5) Let_def)
qed

theorem stdout_line_witness:
  "console (fold (stream_out \<lparr>log_enable = True, log_all_output = False\<rparr>) [0x68, 0x69, newline]
      \<lparr>sb_org = (\<lambda>_. 0x58), sb_ptr0 = 0, sb_ptr1 = 512, console = []\<rparr>) = [Putc 0x68, Putc 0x69, Putc newline]"
  using stdout_line [of "\<lparr>sb_org = (\<lambda>_. 0x58), sb_ptr0 = 0, sb_ptr1 = 512, console = []\<rparr>" "[0x68, 0x69]"
      "\<lparr>log_enable = True, log_all_output = False\<rparr>"]
  by (simp add: newline_def Let_def)

text \<open>The bound of the buffer is checked one character late: of 513 characters without a newline
  the last is stored over the first byte of the log buffer, the terminator over the second, and
  only the first 512 reach the console.\<close>

theorem stdout_overflow:
  assumes "sb_ptr0 s = 0" and "length cs = 512" and "newline \<notin> set (cs @ [c])" and "0 \<notin> set cs"
    and "\<not> log_all_output cfg"
  shows "let s' = fold (stream_out cfg) (cs @ [c]) s in
    console s' = console s @ map Putc cs \<and> sb_org s' 512 = c \<and> sb_org s' 513 = 0"
proof -
  obtain org where org: "fold (stream_out cfg) cs s = s\<lparr>sb_org := org, sb_ptr0 := 512\<rparr>"
    "\<And>i. i < 512 \<Longrightarrow> org i = cs ! i"
    using fill_row [of s cs cfg] assms(1-3) by auto
  have "out_text (org(512 := c, 513 := 0)) 0 = drop 0 cs"
    by (rule out_text_row [of 512]) (use org(2) assms(2,4) in auto)
  then show ?thesis
    using assms(3)
    by (simp add: org(1) stream_out_def fflush_def STREAM_OUT_def STREAM_LOG_def console_puts_def assms(5) Let_def)
qed

theorem stdout_overflow_witness:
  "sb_org (fold (stream_out \<lparr>log_enable = True, log_all_output = False\<rparr>) (replicate 512 0x61 @ [0x7A])
      \<lparr>sb_org = (\<lambda>_. 0x58), sb_ptr0 = 0, sb_ptr1 = 512, console = []\<rparr>) 512 = 0x7A"
  using stdout_overflow [of "\<lparr>sb_org = (\<lambda>_. 0x58), sb_ptr0 = 0, sb_ptr1 = 512, console = []\<rparr>"
      "replicate 512 0x61" "0x7A" "\<lparr>log_enable = True, log_all_output = False\<rparr>"]
  by (simp add: newline_def Let_def)

end
