(* ===== verification/Elf.thy ===== *)
theory Elf
  imports CString
begin

text \<open>
  \<open>lib/elf\<close>: the parser of 32-bit ELF images, on the byte memory. The structures of \<open>elf.h\<close> are
  records, read from their addresses by the \<open>ld_\<close> functions with the offsets the i386 ABI gives
  the fields. Sizes: header 52 bytes, program header 32, section header 40, symbol 16. String
  literals are addresses of \<open>.rodata\<close>, given in \<open>elf_rodata\<close>. The tables printed in a debug build are the
  list of the \<open>fprintf(STREAM_LOG, ...)\<close> calls, each with its format and arguments.
\<close>

section \<open>Constants of the format\<close>

definition EI_MAG0 :: nat where "EI_MAG0 = 0"
definition EI_MAG1 :: nat where "EI_MAG1 = 1"
definition EI_MAG2 :: nat where "EI_MAG2 = 2"
definition EI_MAG3 :: nat where "EI_MAG3 = 3"
definition EI_CLASS :: nat where "EI_CLASS = 4"

definition ELFMAG0 :: u8 where "ELFMAG0 = 0x7f"
definition ELFMAG1 :: u8 where "ELFMAG1 = 0x45"
definition ELFMAG2 :: u8 where "ELFMAG2 = 0x4C"
definition ELFMAG3 :: u8 where "ELFMAG3 = 0x46"
definition ELFCLASS32 :: u8 where "ELFCLASS32 = 1"
definition ELFCLASS64 :: u8 where "ELFCLASS64 = 2"

definition SHT_NULL :: u32 where "SHT_NULL = 0"
definition SHT_PROGBITS :: u32 where "SHT_PROGBITS = 1"
definition SHT_SYMTAB :: u32 where "SHT_SYMTAB = 2"
definition SHT_STRTAB :: u32 where "SHT_STRTAB = 3"
definition SHT_RELA :: u32 where "SHT_RELA = 4"
definition SHT_HASH :: u32 where "SHT_HASH = 5"
definition SHT_DYNAMIC :: u32 where "SHT_DYNAMIC = 6"
definition SHT_NOTE :: u32 where "SHT_NOTE = 7"
definition SHT_NOBITS :: u32 where "SHT_NOBITS = 8"
definition SHT_REL :: u32 where "SHT_REL = 9"
definition SHT_SHLIB :: u32 where "SHT_SHLIB = 10"
definition SHT_DYNSYM :: u32 where "SHT_DYNSYM = 11"
definition SHT_INIT_ARRAY :: u32 where "SHT_INIT_ARRAY = 14"
definition SHT_FINI_ARRAY :: u32 where "SHT_FINI_ARRAY = 15"
definition SHT_PREINIT_ARRAY :: u32 where "SHT_PREINIT_ARRAY = 16"
definition SHT_GROUP :: u32 where "SHT_GROUP = 17"
definition SHT_SYMTAB_SHNDX :: u32 where "SHT_SYMTAB_SHNDX = 18"

definition SHF_WRITE :: u32 where "SHF_WRITE = 0x1"
definition SHF_ALLOC :: u32 where "SHF_ALLOC = 0x2"
definition SHF_EXECINSTR :: u32 where "SHF_EXECINSTR = 0x4"
definition SHF_MERGE :: u32 where "SHF_MERGE = 0x10"
definition SHF_STRINGS :: u32 where "SHF_STRINGS = 0x20"
definition SHF_INFO_LINK :: u32 where "SHF_INFO_LINK = 0x40"
definition SHF_LINK_ORDER :: u32 where "SHF_LINK_ORDER = 0x80"
definition SHF_OS_NONCONFORMING :: u32 where "SHF_OS_NONCONFORMING = 0x100"
definition SHF_GROUP :: u32 where "SHF_GROUP = 0x200"
definition SHF_TLS :: u32 where "SHF_TLS = 0x400"

definition PT_NULL :: u32 where "PT_NULL = 0"
definition PT_LOAD :: u32 where "PT_LOAD = 1"
definition PT_DYNAMIC :: u32 where "PT_DYNAMIC = 2"
definition PT_INTERP :: u32 where "PT_INTERP = 3"
definition PT_NOTE :: u32 where "PT_NOTE = 4"
definition PT_SHLIB :: u32 where "PT_SHLIB = 5"
definition PT_PHDR :: u32 where "PT_PHDR = 6"
definition PT_TLS :: u32 where "PT_TLS = 7"

definition PF_X :: u32 where "PF_X = 1"
definition PF_W :: u32 where "PF_W = 2"
definition PF_R :: u32 where "PF_R = 4"

section \<open>Structures\<close>

record elf32_ehdr =
  e_ident :: "u8 list"
  e_type :: u16
  e_machine :: u16
  e_version :: u32
  e_entry :: addr
  e_phoff :: u32
  e_shoff :: u32
  e_flags :: u32
  e_ehsize :: u16
  e_phentsize :: u16
  e_phnum :: u16
  e_shentsize :: u16
  e_shnum :: u16
  e_shstrndx :: u16

definition ld_ehdr :: "mem \<Rightarrow> addr \<Rightarrow> elf32_ehdr" where
  "ld_ehdr m a = \<lparr>e_ident = map (\<lambda>i. m (a + of_nat i)) [0 ..< 16],
     e_type = ld16 m (a + 16), e_machine = ld16 m (a + 18), e_version = ld32 m (a + 20),
     e_entry = ld32 m (a + 24), e_phoff = ld32 m (a + 28), e_shoff = ld32 m (a + 32),
     e_flags = ld32 m (a + 36), e_ehsize = ld16 m (a + 40), e_phentsize = ld16 m (a + 42),
     e_phnum = ld16 m (a + 44), e_shentsize = ld16 m (a + 46), e_shnum = ld16 m (a + 48),
     e_shstrndx = ld16 m (a + 50)\<rparr>"

record elf32_phdr =
  p_type :: u32
  p_offset :: u32
  p_vaddr :: addr
  p_paddr :: addr
  p_filesz :: u32
  p_memsz :: u32
  p_flags :: u32
  p_align :: u32

definition ld_phdr :: "mem \<Rightarrow> addr \<Rightarrow> nat \<Rightarrow> elf32_phdr" where
  "ld_phdr m tab i = (let a = tab + 32 * of_nat i in
     \<lparr>p_type = ld32 m a, p_offset = ld32 m (a + 4), p_vaddr = ld32 m (a + 8),
      p_paddr = ld32 m (a + 12), p_filesz = ld32 m (a + 16), p_memsz = ld32 m (a + 20),
      p_flags = ld32 m (a + 24), p_align = ld32 m (a + 28)\<rparr>)"

record elf32_shdr =
  sh_name :: u32
  sh_type :: u32
  sh_flags :: u32
  sh_addr :: addr
  sh_offset :: u32
  sh_size :: u32
  sh_link :: u32
  sh_info :: u32
  sh_addralign :: u32
  sh_entsize :: u32

definition ld_shdr :: "mem \<Rightarrow> addr \<Rightarrow> nat \<Rightarrow> elf32_shdr" where
  "ld_shdr m tab i = (let a = tab + 40 * of_nat i in
     \<lparr>sh_name = ld32 m a, sh_type = ld32 m (a + 4), sh_flags = ld32 m (a + 8),
      sh_addr = ld32 m (a + 12), sh_offset = ld32 m (a + 16), sh_size = ld32 m (a + 20),
      sh_link = ld32 m (a + 24), sh_info = ld32 m (a + 28), sh_addralign = ld32 m (a + 32),
      sh_entsize = ld32 m (a + 36)\<rparr>)"

record elf32_sym =
  st_name :: u32
  st_value :: addr
  st_size :: u32
  st_info :: u8
  st_other :: u8
  st_shndx :: u16

definition ld_sym :: "mem \<Rightarrow> addr \<Rightarrow> nat \<Rightarrow> elf32_sym" where
  "ld_sym m tab i = (let a = tab + 16 * of_nat i in
     \<lparr>st_name = ld32 m a, st_value = ld32 m (a + 4), st_size = ld32 m (a + 8),
      st_info = m (a + 12), st_other = m (a + 13), st_shndx = ld16 m (a + 14)\<rparr>)"

text \<open>\<open>struct Context\<close>: pointers into the image.\<close>

record elf_context =
  img32 :: addr
  shdr32 :: addr
  phdr32 :: addr
  symtab32 :: addr
  strtab32 :: addr

record elf_rodata =
  lit_null :: addr      \<comment> \<open>\<open>".null"\<close>\<close>
  lit_strtab :: addr    \<comment> \<open>\<open>".strtab"\<close>\<close>
  lit_symtab :: addr    \<comment> \<open>\<open>".symtab"\<close>\<close>

section \<open>Sections\<close>

definition isValidElf :: "elf32_ehdr \<Rightarrow> bool" where
  "isValidElf h \<longleftrightarrow> e_ident h ! EI_MAG0 = ELFMAG0 \<and> e_ident h ! EI_MAG1 = ELFMAG1
     \<and> e_ident h ! EI_MAG2 = ELFMAG2 \<and> e_ident h ! EI_MAG3 = ELFMAG3"

definition read_section32 :: "mem \<Rightarrow> elf_context \<Rightarrow> nat \<Rightarrow> addr" where
  "read_section32 m ctx idx = img32 ctx + sh_offset (ld_shdr m (shdr32 ctx) idx)"

text \<open>The loop of \<open>find_section32\<close>: \<open>k\<close> rounds left, \<open>i\<close> the index. \<open>strcmp\<close> may not return.\<close>

primrec find_section_loop :: "elf_rodata \<Rightarrow> mem \<Rightarrow> addr \<Rightarrow> elf_context \<Rightarrow> addr \<Rightarrow> nat \<Rightarrow> nat \<Rightarrow> addr option" where
  "find_section_loop ro m name ctx sh_str 0 i = Some NULL"
| "find_section_loop ro m name ctx sh_str (Suc k) i =
     Option.bind (if m name = 0 then map_option (\<lambda>r. r = 0) (strcmp (lit_null ro) name m) else Some False)
       (\<lambda>found. if found then Some (shdr32 ctx + 40 * of_nat i)
         else Option.bind (strcmp (sh_str + sh_name (ld_shdr m (shdr32 ctx) i)) name m)
           (\<lambda>r. if r = 0 then Some (shdr32 ctx + 40 * of_nat i)
             else find_section_loop ro m name ctx sh_str k (Suc i)))"

definition find_section32 :: "elf_rodata \<Rightarrow> mem \<Rightarrow> addr \<Rightarrow> elf_context \<Rightarrow> addr option" where
  "find_section32 ro m name ctx =
     (let hdr = ld_ehdr m (img32 ctx);
          sh_str = read_section32 m ctx (unat (e_shstrndx hdr))
      in find_section_loop ro m name ctx sh_str (unat (e_shnum hdr)) 0)"

section \<open>Symbols\<close>

definition get_symbol_name32 :: "mem \<Rightarrow> addr \<Rightarrow> elf_context \<Rightarrow> addr" where
  "get_symbol_name32 m addr ctx =
     (let symtab = ld_shdr m (symtab32 ctx) 0;
          tab = sh_offset symtab + img32 ctx;
          (sym, val) = fold (\<lambda>i (sym, val).
              if st_value (ld_sym m tab i) > val \<and> st_value (ld_sym m tab i) \<le> addr
              then (tab + 16 * of_nat i, st_value (ld_sym m tab i)) else (sym, val))
            [0 ..< unat (sh_size symtab div 16)] (NULL, 0)
      in if sym = NULL then NULL
         else let sh_str = sh_offset (ld_shdr m (strtab32 ctx) 0) + img32 ctx
              in sh_str + st_name (ld_sym m sym 0))"

definition get_symbol_addr32 :: "mem \<Rightarrow> addr \<Rightarrow> elf_context \<Rightarrow> addr" where
  "get_symbol_addr32 m addr ctx =
     (let symtab = ld_shdr m (symtab32 ctx) 0;
          tab = sh_offset symtab + img32 ctx
      in fold (\<lambda>i val. if st_value (ld_sym m tab i) > val \<and> st_value (ld_sym m tab i) \<le> addr
              then st_value (ld_sym m tab i) else val)
            [0 ..< unat (sh_size symtab div 16)] 0)"

section \<open>Tables in the log\<close>

datatype log_arg = Num u32 | Str addr | Chars string

datatype log_call = Fprintf string "log_arg list"

definition flag_char :: "u32 \<Rightarrow> u32 \<Rightarrow> char \<Rightarrow> char" where
  "flag_char flag msk c = (if flag AND msk \<noteq> 0 then c else CHR ''-'')"

definition print_section_flags32 :: "u32 \<Rightarrow> string" where
  "print_section_flags32 flag =
     [flag_char flag SHF_WRITE CHR ''w'', flag_char flag SHF_ALLOC CHR ''a'',
      flag_char flag SHF_EXECINSTR CHR ''x'', flag_char flag SHF_MERGE CHR ''m'',
      flag_char flag SHF_STRINGS CHR ''s'', flag_char flag SHF_INFO_LINK CHR ''i'',
      flag_char flag SHF_LINK_ORDER CHR ''l'', flag_char flag SHF_OS_NONCONFORMING CHR ''o'',
      flag_char flag SHF_GROUP CHR ''g'', flag_char flag SHF_TLS CHR ''t'']"

definition print_program_flags32 :: "u32 \<Rightarrow> string" where
  "print_program_flags32 flag =
     [flag_char flag PF_R CHR ''r'', flag_char flag PF_W CHR ''w'', flag_char flag PF_X CHR ''x'']"

definition section_type_name :: "u32 \<Rightarrow> string" where
  "section_type_name t =
  (if t = SHT_NULL then ''NULL      ''
   else if t = SHT_PROGBITS then ''PROGBITS  ''
   else if t = SHT_SYMTAB then ''SYMTAB    ''
   else if t = SHT_STRTAB then ''STRTAB    ''
   else if t = SHT_RELA then ''RELA      ''
   else if t = SHT_HASH then ''HASH      ''
   else if t = SHT_DYNAMIC then ''DYNAMIC   ''
   else if t = SHT_NOTE then ''NOTE      ''
   else if t = SHT_NOBITS then ''NOBITS    ''
   else if t = SHT_REL then ''REL       ''
   else if t = SHT_SHLIB then ''SHLIB     ''
   else if t = SHT_DYNSYM then ''DYNSYM    ''
   else if t = SHT_INIT_ARRAY then ''INIT_ARR  ''
   else if t = SHT_FINI_ARRAY then ''FINI_ARR  ''
   else if t = SHT_PREINIT_ARRAY then ''PREINIT   ''
   else if t = SHT_GROUP then ''GROUP     ''
   else if t = SHT_SYMTAB_SHNDX then ''SHNDX     ''
   else ''????      '')"

definition program_type_name :: "u32 \<Rightarrow> string" where
  "program_type_name t =
  (if t = PT_NULL then ''NULL    ''
   else if t = PT_LOAD then ''LOAD    ''
   else if t = PT_DYNAMIC then ''DYNAMIC ''
   else if t = PT_INTERP then ''INTERP  ''
   else if t = PT_NOTE then ''NOTE    ''
   else if t = PT_SHLIB then ''SLIB    ''
   else if t = PT_PHDR then ''PHDR    ''
   else if t = PT_TLS then ''TLS     ''
   else ''????    '')"

abbreviation NL :: string where "NL \<equiv> [CHR 0x0A]"

definition log_line :: string where
  "log_line = replicate 80 CHR ''='' @ NL"

definition print_section_row :: "elf32_shdr \<Rightarrow> addr \<Rightarrow> nat \<Rightarrow> log_call list" where
  "print_section_row h sh_str i =
     [Fprintf '' %03d '' [Num (of_nat i)],
      Fprintf ''0x%08x '' [Num (sh_offset h)],
      Fprintf ''0x%08x '' [Num (sh_addr h)],
      Fprintf ''0x%08x '' [Num (sh_size h)],
      Fprintf ''%4d '' [Num (sh_addralign h)],
      Fprintf ''%s '' [Chars (print_section_flags32 (sh_flags h))],
      Fprintf (section_type_name (sh_type h)) [],
      Fprintf ''%s'' [Str (sh_str + sh_name h)],
      Fprintf NL []]"

definition print_section_headers32 :: "mem \<Rightarrow> elf_context \<Rightarrow> log_call list" where
  "print_section_headers32 m ctx =
     (let hdr = ld_ehdr m (img32 ctx); sh_str = read_section32 m ctx (unat (e_shstrndx hdr)) in
      [Fprintf (''[%-5s] Begin section headers dump.'' @ NL) [Chars ''ELF''],
       Fprintf (''eh.e_shstrndx = 0x%x'' @ NL) [Num (ucast (e_shstrndx hdr))],
       Fprintf log_line [],
       Fprintf ('' idx offset     load-addr  size       algn flags      type       section'' @ NL) [],
       Fprintf log_line []]
      @ concat (map (\<lambda>i. print_section_row (ld_shdr m (shdr32 ctx) i) sh_str i) [0 ..< unat (e_shnum hdr)])
      @ [Fprintf log_line []])"

definition print_program_row :: "elf32_phdr \<Rightarrow> nat \<Rightarrow> log_call list" where
  "print_program_row h i =
     [Fprintf '' %03d '' [Num (of_nat i)],
      Fprintf (program_type_name (p_type h)) [],
      Fprintf ''0x%08x '' [Num (p_offset h)],
      Fprintf ''0x%08x '' [Num (p_vaddr h)],
      Fprintf ''0x%08x '' [Num (p_paddr h)],
      Fprintf ''0x%08x '' [Num (p_memsz h)],
      Fprintf ''0x%08x '' [Num (p_filesz h)],
      Fprintf ''%4d '' [Num (p_align h)],
      Fprintf ''%s '' [Chars (print_program_flags32 (p_flags h))],
      Fprintf NL []]"

definition print_program_headers :: "mem \<Rightarrow> elf_context \<Rightarrow> log_call list" where
  "print_program_headers m ctx =
     [Fprintf (''[%-5s] Begin program headers dump.'' @ NL) [Chars ''ELF''],
      Fprintf log_line [],
      Fprintf ('' idx type    offset     virt addr  phys addr  mem size   file size  algn flags'' @ NL) [],
      Fprintf log_line []]
     @ concat (map (\<lambda>i. print_program_row (ld_phdr m (phdr32 ctx) i) i)
         [0 ..< unat (e_phnum (ld_ehdr m (img32 ctx)))])
     @ [Fprintf log_line []]"

section \<open>Loading an image\<close>

text \<open>The result is the context and, in a debug build, the calls to the log.\<close>

definition load_img32 :: "bool \<Rightarrow> elf_rodata \<Rightarrow> mem \<Rightarrow> addr \<Rightarrow> elf_context \<Rightarrow> (elf_context \<times> log_call list) option" where
  "load_img32 debug ro m img ctx =
     (let ctx = ctx\<lparr>img32 := img\<rparr>;
          ctx = ctx\<lparr>shdr32 := img + e_shoff (ld_ehdr m img)\<rparr>;
          ctx = ctx\<lparr>phdr32 := img + e_phoff (ld_ehdr m img)\<rparr>
      in Option.bind (find_section32 ro m (lit_strtab ro) ctx) (\<lambda>strtab.
         let ctx = ctx\<lparr>strtab32 := strtab\<rparr> in
         Option.bind (find_section32 ro m (lit_symtab ro) ctx) (\<lambda>symtab.
         let ctx = ctx\<lparr>symtab32 := symtab\<rparr> in
         Some (ctx, if debug then print_section_headers32 m ctx @ print_program_headers m ctx else []))))"

definition load_img64 :: "addr \<Rightarrow> elf_context \<Rightarrow> elf_context" where
  "load_img64 img ctx = ctx"

definition load_img :: "bool \<Rightarrow> elf_rodata \<Rightarrow> mem \<Rightarrow> addr \<Rightarrow> elf_context \<Rightarrow> (elf_context \<times> log_call list) option" where
  "load_img debug ro m img ctx =
     (let hdr = ld_ehdr m img in
      if isValidElf hdr \<and> e_ident hdr ! EI_CLASS = ELFCLASS32 then load_img32 debug ro m img ctx
      else if isValidElf hdr \<and> e_ident hdr ! EI_CLASS = ELFCLASS64 then Some (load_img64 img ctx, [])
      else Some (ctx, []))"


section \<open>Strings of the image\<close>

lemma strcmp_differ: "m a \<noteq> m b \<Longrightarrow> \<exists>r. strcmp a b m = Some r \<and> r \<noteq> 0"
proof -
  assume "m a \<noteq> m b"
  then have "(ucast (m a) :: u32) \<noteq> ucast (m b)" using byte_diff_0 [of "m a" "m b"] by (metis diff_self)
  with \<open>m a \<noteq> m b\<close> show ?thesis unfolding strcmp_def by (subst strcmp_loop.simps) simp
qed

definition section_name :: "mem \<Rightarrow> elf_context \<Rightarrow> nat \<Rightarrow> addr" where
  "section_name m ctx i =
     read_section32 m ctx (unat (e_shstrndx (ld_ehdr m (img32 ctx)))) + sh_name (ld_shdr m (shdr32 ctx) i)"

lemma find_section_loop_result:
  assumes "\<And>i. i < length names \<Longrightarrow> text_of m (sh_str + sh_name (ld_shdr m (shdr32 ctx) i)) (names ! i)"
    and "text_of m name nm" and "m (lit_null ro) \<noteq> 0" and "i + k = length names"
  shows "find_section_loop ro m name ctx sh_str k i =
    Some (case List.find (\<lambda>i. names ! i = nm) [i ..< length names] of
        None \<Rightarrow> NULL | Some j \<Rightarrow> shdr32 ctx + 40 * of_nat j)"
  using assms(4)
proof (induction k arbitrary: i)
  case 0
  then show ?case by simp
next
  case (Suc k)
  then have i: "i < length names" by simp
  have null: "(if m name = 0 then map_option (\<lambda>r. r = 0) (strcmp (lit_null ro) name m) else Some False) = Some False"
    using strcmp_differ [of m "lit_null ro" name] assms(3) by auto
  obtain r where "strcmp (sh_str + sh_name (ld_shdr m (shdr32 ctx) i)) name m = Some r" "r = 0 \<longleftrightarrow> names ! i = nm"
    using strcmp_text [OF assms(1) [OF i] assms(2)] by blast
  with Suc.IH [of "Suc i"] Suc.prems i show ?case
    by (simp add: null upt_conv_Cons del: upt_Suc)
qed

section \<open>The nearest symbol\<close>

definition symtab_values :: "mem \<Rightarrow> elf_context \<Rightarrow> addr list" where
  "symtab_values m ctx =
     (let symtab = ld_shdr m (symtab32 ctx) 0 in
      map (\<lambda>i. st_value (ld_sym m (sh_offset symtab + img32 ctx) i)) [0 ..< unat (sh_size symtab div 16)])"

text \<open>The largest value at or below an address, 0 when there is none.\<close>

definition nearest :: "addr list \<Rightarrow> addr \<Rightarrow> addr" where
  "nearest vs a = Max (insert 0 {v \<in> set vs. v \<le> a})"

lemma fold_nearest:
  "fold (\<lambda>v val. if v > val \<and> v \<le> a then v else val) vs x = Max (insert x {v \<in> set vs. v \<le> a})"
proof (induction vs arbitrary: x)
  case (Cons v vs)
  have "insert x {w \<in> set (v # vs). w \<le> a} = (if v \<le> a then insert v (insert x {w \<in> set vs. w \<le> a})
      else insert x {w \<in> set vs. w \<le> a})"
    by auto
  moreover have "Max (insert v (insert x {w \<in> set vs. w \<le> a})) = Max (insert (max v x) {w \<in> set vs. w \<le> a})"
  proof -
    define S where "S = {w \<in> set vs. w \<le> a}"
    have "finite S" by (simp add: S_def)
    then show ?thesis unfolding S_def [symmetric] by (cases "S = {}") (simp_all add: max.assoc)
  qed
  ultimately show ?case using Cons.IH by (auto simp: max_def not_less)
qed simp

lemma nearest_fold: "nearest vs a = fold (\<lambda>v val. if v > val \<and> v \<le> a then v else val) vs 0"
  by (simp add: nearest_def fold_nearest)

lemma get_symbol_addr_nearest: "get_symbol_addr32 m a ctx = nearest (symtab_values m ctx) a"
  by (simp add: get_symbol_addr32_def symtab_values_def Let_def nearest_fold fold_map o_def)

text \<open>The fold of \<open>get_symbol_name32\<close> keeps the value of \<open>get_symbol_addr32\<close> and its first index.\<close>

lemma fold_symbol:
  assumes "n \<le> length vs"
  shows "fold (\<lambda>i (sym, val). if vs ! i > val \<and> vs ! i \<le> a then (tab + 16 * of_nat i, vs ! i) else (sym, val))
      [0 ..< n] (NULL, 0) =
    (let v = nearest (take n vs) a in
     (if v = 0 then NULL else tab + 16 * of_nat (length (takeWhile (\<lambda>w. w \<noteq> v) vs)), v))"
  using assms
proof (induction n)
  case 0
  then show ?case by (simp add: nearest_def)
next
  case (Suc n)
  let ?v = "nearest (take n vs) a"
  have tk: "take (Suc n) vs = take n vs @ [vs ! n]" using Suc.prems by (simp add: take_Suc_conv_app_nth)
  have step: "nearest (take (Suc n) vs) a = (if vs ! n > ?v \<and> vs ! n \<le> a then vs ! n else ?v)"
    by (simp add: nearest_fold tk)
  have "length (takeWhile (\<lambda>w. w \<noteq> vs ! n) vs) = n" if "vs ! n > ?v" "vs ! n \<le> a"
  proof -
    have "vs ! j \<noteq> vs ! n" if "j < n" for j
    proof
      assume eq: "vs ! j = vs ! n"
      have "vs ! j \<in> set (take n vs)" using \<open>j < n\<close> Suc.prems by (metis in_set_conv_nth length_take less_or_eq_imp_le min.absorb2 nth_take Suc_leD)
      then have "vs ! j \<le> ?v" using eq \<open>vs ! n \<le> a\<close> unfolding nearest_def by (intro Max_ge) auto
      with eq \<open>vs ! n > ?v\<close> show False by simp
    qed
    then have "takeWhile (\<lambda>w. w \<noteq> vs ! n) vs = take n vs" by (intro takeWhile_eq_take_P_nth) auto
    then show ?thesis using Suc.prems by simp
  qed
  then show ?case using Suc by (auto simp: Let_def step)
qed

section \<open>An image\<close>

text \<open>An image of two sections at \<open>0x1000\<close>, its names, and literals at \<open>0x2000\<close>.\<close>

definition bytes_at :: "(addr \<times> u8 list) list \<Rightarrow> mem" where
  "bytes_at bs a = (case List.find (\<lambda>(s, b). s \<le> a \<and> unat (a - s) < length b) bs of
     None \<Rightarrow> 0 | Some (s, b) \<Rightarrow> b ! unat (a - s))"

definition demo_image :: mem where
  "demo_image = bytes_at
     [(0x1000, [0x7F, 0x45, 0x4C, 0x46, 1]), (0x1020, [0x34]), (0x1030, [2, 0, 1]),
      (0x105C, [8]), (0x106C, [0, 1]),
      (0x1100, map of_char ''.symtab'' @ [0] @ map of_char ''.strtab'' @ [0]),
      (0x2000, map of_char ''.null'' @ [0]), (0x2010, map of_char ''.strtab'' @ [0]),
      (0x2020, map of_char ''.symtab'' @ [0])]"

definition demo_rodata :: elf_rodata where
  "demo_rodata = \<lparr>lit_null = 0x2000, lit_strtab = 0x2010, lit_symtab = 0x2020\<rparr>"

lemmas demo_simps = demo_image_def bytes_at_def demo_rodata_def ld16_def ld32_def section_name_def read_section32_def

text \<open>The fields the code reads, one load each.\<close>

lemma field_loads:
  "e_ident (ld_ehdr m a) = map (\<lambda>i. m (a + of_nat i)) [0 ..< 16]" "e_shnum (ld_ehdr m a) = ld16 m (a + 48)"
  "e_shoff (ld_ehdr m a) = ld32 m (a + 32)" "e_phoff (ld_ehdr m a) = ld32 m (a + 28)" "e_phnum (ld_ehdr m a) = ld16 m (a + 44)"
  "e_entry (ld_ehdr m a) = ld32 m (a + 24)" "e_shstrndx (ld_ehdr m a) = ld16 m (a + 50)"
  "sh_offset (ld_shdr m t i) = ld32 m (t + 40 * of_nat i + 16)" "sh_name (ld_shdr m t i) = ld32 m (t + 40 * of_nat i)"
  by (simp_all add: ld_ehdr_def ld_shdr_def Let_def)

lemma demo_literals:
  "text_of demo_image 0x1100 (map of_char ''.symtab'')" "text_of demo_image 0x1108 (map of_char ''.strtab'')"
  "text_of demo_image 0x2010 (map of_char ''.strtab'')" "text_of demo_image 0x2020 (map of_char ''.symtab'')"
  by (simp_all add: text_of_def cstring_check string_at_def upt_conv_Cons demo_image_def bytes_at_def)

lemma demo_header:
  "e_shnum (ld_ehdr demo_image 0x1000) = 2" "e_shoff (ld_ehdr demo_image 0x1000) = 0x34"
  "e_phoff (ld_ehdr demo_image 0x1000) = 0"
  by (simp_all add: field_loads demo_simps)

lemma demo_tables:
  "e_shstrndx (ld_ehdr demo_image 0x1000) = 1" "sh_offset (ld_shdr demo_image 0x1034 (Suc 0)) = 0x100"
  "sh_name (ld_shdr demo_image 0x1034 0) = 0" "sh_name (ld_shdr demo_image 0x1034 (Suc 0)) = 8"
  by (simp_all add: field_loads demo_simps)

lemma demo_null: "demo_image (lit_null demo_rodata) \<noteq> 0"
  by (simp add: demo_rodata_def demo_image_def bytes_at_def)

text \<open>The context after the first three assignments of \<open>load_img32\<close>.\<close>

definition demo_context :: "addr \<Rightarrow> elf_context" where
  "demo_context x = \<lparr>img32 = 0x1000, shdr32 = 0x1034, phdr32 = 0x1000, symtab32 = x, strtab32 = 0\<rparr>"

definition demo_names :: "u8 list list" where
  "demo_names = [map of_char ''.symtab'', map of_char ''.strtab'']"

lemma demo_length: "length demo_names = unat (e_shnum (ld_ehdr demo_image (img32 (demo_context x))))"
  by (simp add: demo_names_def demo_context_def demo_header)

lemma demo_section_names:
  "section_name demo_image (demo_context x) 0 = 0x1100" "section_name demo_image (demo_context x) 1 = 0x1108"
  by (simp_all add: section_name_def read_section32_def demo_context_def demo_header demo_tables)

lemma demo_names_ok:
  assumes "i < length demo_names"
  shows "text_of demo_image (section_name demo_image (demo_context x) i) (demo_names ! i)"
proof -
  from assms consider "i = 0" | "i = 1" by (auto simp: demo_names_def less_Suc_eq)
  then show ?thesis
    by cases (simp_all only: demo_section_names demo_names_def nth_Cons_0 nth_Cons_Suc One_nat_def demo_literals
        demo_section_names [unfolded One_nat_def])
qed

lemma demo_find:
  "List.find (\<lambda>i. demo_names ! i = map of_char ''.symtab'') [0 ..< length demo_names] = Some 0"
  "List.find (\<lambda>i. demo_names ! i = map of_char ''.strtab'') [0 ..< length demo_names] = Some 1"
  by (simp_all add: demo_names_def upt_conv_Cons)

section \<open>Properties\<close>

text \<open>C34. \<open>find_section32\<close> returns, and returns the header of the first section whose name is the one
  asked for, and null when no section has it. An empty name is no exception, although the loop has
  a test for it: comparing it with \<open>.null\<close> never succeeds.\<close>

theorem find_section32_correct:
  assumes "length names = unat (e_shnum (ld_ehdr m (img32 ctx)))"
    and "\<And>i. i < length names \<Longrightarrow> text_of m (section_name m ctx i) (names ! i)"
    and "text_of m name nm" and "m (lit_null ro) \<noteq> 0"
  shows "find_section32 ro m name ctx =
    Some (case List.find (\<lambda>i. names ! i = nm) [0 ..< length names] of
        None \<Rightarrow> NULL | Some j \<Rightarrow> shdr32 ctx + 40 * of_nat j)"
  unfolding find_section32_def Let_def
  by (rule find_section_loop_result) (use assms in \<open>simp_all add: section_name_def\<close>)

theorem find_section32_correct_witness:
  "find_section32 demo_rodata demo_image 0x2010 (demo_context 0) = Some 0x105C"
proof -
  have "find_section32 demo_rodata demo_image 0x2010 (demo_context 0) =
    Some (case List.find (\<lambda>i. demo_names ! i = map of_char ''.strtab'') [0 ..< length demo_names] of
        None \<Rightarrow> NULL | Some j \<Rightarrow> shdr32 (demo_context 0) + 40 * of_nat j)"
    by (rule find_section32_correct [OF demo_length demo_names_ok demo_literals(3) demo_null])
  then show ?thesis unfolding demo_find by (simp add: demo_context_def)
qed

text \<open>C36. \<open>get_symbol_addr32\<close> is the largest symbol value not above the address, 0 when every symbol
  is above it, and \<open>get_symbol_name32\<close> is the name of the first symbol with that value.\<close>

theorem get_symbol32_nearest:
  assumes "\<And>i. i < length vs \<Longrightarrow> tab + 16 * of_nat i \<noteq> NULL"
    and "vs = symtab_values m ctx" and "tab = sh_offset (ld_shdr m (symtab32 ctx) 0) + img32 ctx"
    and "v = get_symbol_addr32 m a ctx"
  shows "v = nearest vs a \<and>
    get_symbol_name32 m a ctx =
      (if v = 0 then NULL
       else sh_offset (ld_shdr m (strtab32 ctx) 0) + img32 ctx
         + st_name (ld_sym m (tab + 16 * of_nat (length (takeWhile (\<lambda>w. w \<noteq> v) vs))) 0))"
proof -
  have v: "v = nearest vs a" unfolding assms(2,4) by (rule get_symbol_addr_nearest)
  let ?i = "length (takeWhile (\<lambda>w. w \<noteq> v) vs)"
  have "nearest vs a \<in> insert 0 {v \<in> set vs. v \<le> a}" unfolding nearest_def by (rule Max_in) auto
  then have "v \<noteq> 0 \<Longrightarrow> v \<in> set vs" unfolding v by auto
  then have "v \<noteq> 0 \<Longrightarrow> ?i < length vs" by (auto dest!: split_list_first simp: takeWhile_append)
  then have nn: "v \<noteq> 0 \<Longrightarrow> tab + 16 * of_nat ?i \<noteq> NULL" by (intro assms(1))
  let ?n = "unat (sh_size (ld_shdr m (symtab32 ctx) 0) div 16)"
  have len: "length vs = ?n" by (simp add: assms(2) symtab_values_def Let_def)
  have vs: "i < ?n \<Longrightarrow> st_value (ld_sym m tab i) = vs ! i" for i
    by (simp add: assms(2,3) symtab_values_def Let_def)
  have "fold (\<lambda>i (sym, val). if st_value (ld_sym m tab i) > val \<and> st_value (ld_sym m tab i) \<le> a
        then (tab + 16 * of_nat i, st_value (ld_sym m tab i)) else (sym, val)) [0 ..< ?n] (NULL, 0) =
      fold (\<lambda>i (sym, val). if vs ! i > val \<and> vs ! i \<le> a then (tab + 16 * of_nat i, vs ! i) else (sym, val))
        [0 ..< ?n] (NULL, 0)"
    by (rule fold_cong) (auto simp: vs)
  also have "\<dots> = (if v = 0 then NULL else tab + 16 * of_nat ?i, v)"
    using fold_symbol [of ?n vs a tab] by (simp add: len v Let_def flip: len)
  finally have fold: "fold (\<lambda>i (sym, val). if st_value (ld_sym m tab i) > val \<and> st_value (ld_sym m tab i) \<le> a
        then (tab + 16 * of_nat i, st_value (ld_sym m tab i)) else (sym, val)) [0 ..< ?n] (NULL, 0) =
      (if v = 0 then NULL else tab + 16 * of_nat ?i, v)" .
  show ?thesis using nn
    unfolding get_symbol_name32_def Let_def assms(3) [symmetric] fold prod.case v [symmetric] by simp
qed

theorem get_symbol32_nearest_witness:
  "get_symbol_addr32 (bytes_at [(0x1010, [0x60, 0, 0, 0, 0x20]), (0x1064, [8]), (0x1070, [5, 0, 0, 0, 6])]) 7
     \<lparr>img32 = 0x1000, shdr32 = 0x1000, phdr32 = 0x1000, symtab32 = 0x1000, strtab32 = 0x1000\<rparr> = 6"
proof -
  let ?m = "bytes_at [(0x1010, [0x60, 0, 0, 0, 0x20]), (0x1064, [8]), (0x1070, [5, 0, 0, 0, 6])]"
  let ?ctx = "\<lparr>img32 = 0x1000, shdr32 = 0x1000, phdr32 = 0x1000, symtab32 = 0x1000, strtab32 = 0x1000\<rparr> :: elf_context"
  have tab: "sh_offset (ld_shdr ?m (symtab32 ?ctx) 0) + img32 ?ctx = 0x1060"
    and vs: "symtab_values ?m ?ctx = [8, 6]"
    by (simp_all add: bytes_at_def ld_shdr_def ld_sym_def ld32_def symtab_values_def Let_def upt_conv_Cons)
  have "i < length [8, 6 :: addr] \<Longrightarrow> (0x1060 :: addr) + 16 * of_nat i \<noteq> NULL" for i
    by (auto simp: less_Suc_eq)
  then have "get_symbol_addr32 ?m 7 ?ctx = nearest [8, 6] 7"
    by (rule get_symbol32_nearest [THEN conjunct1, OF _ vs [symmetric] tab [symmetric] refl])
  then show ?thesis by (simp add: nearest_fold)
qed

text \<open>\<open>load_img\<close> of an image with the magic number and the 32-bit class fills the context with the
  header's tables and the first sections called \<open>.strtab\<close> and \<open>.symtab\<close>.\<close>

theorem load_img_correct:
  assumes "map m [img, img + 1, img + 2, img + 3, img + 4] = [0x7F, 0x45, 0x4C, 0x46, 1]"
    and "hdr = ld_ehdr m img" and "ctx' = \<lparr>img32 = img, shdr32 = img + e_shoff hdr, phdr32 = img + e_phoff hdr,
           symtab32 = symtab32 ctx, strtab32 = strtab32 ctx\<rparr>"
    and "length names = unat (e_shnum hdr)"
    and "\<And>i. i < length names \<Longrightarrow> text_of m (section_name m ctx' i) (names ! i)"
    and "text_of m (lit_strtab ro) nm1" "text_of m (lit_symtab ro) nm2" and "m (lit_null ro) \<noteq> 0"
  shows "load_img False ro m img ctx = Some (ctx'\<lparr>
    strtab32 := (case List.find (\<lambda>i. names ! i = nm1) [0 ..< length names] of
        None \<Rightarrow> NULL | Some j \<Rightarrow> shdr32 ctx' + 40 * of_nat j),
    symtab32 := (case List.find (\<lambda>i. names ! i = nm2) [0 ..< length names] of
        None \<Rightarrow> NULL | Some j \<Rightarrow> shdr32 ctx' + 40 * of_nat j)\<rparr>, [])"
proof -
  have valid: "isValidElf (ld_ehdr m img) \<and> e_ident (ld_ehdr m img) ! EI_CLASS = ELFCLASS32"
    using assms(1)
    by (simp add: isValidElf_def ld_ehdr_def EI_MAG0_def EI_MAG1_def EI_MAG2_def EI_MAG3_def EI_CLASS_def
        ELFMAG0_def ELFMAG1_def ELFMAG2_def ELFMAG3_def ELFCLASS32_def)
  have names: "section_name m (ctx'\<lparr>strtab32 := x\<rparr>) i = section_name m ctx' i" for x i
    by (simp add: section_name_def read_section32_def)
  have find: "find_section32 ro m name (ctx'\<lparr>strtab32 := x\<rparr>) =
      Some (case List.find (\<lambda>i. names ! i = nm) [0 ..< length names] of
        None \<Rightarrow> NULL | Some j \<Rightarrow> shdr32 ctx' + 40 * of_nat j)"
    if "text_of m name nm" for name nm x
    using find_section_loop_result [of names m _ "ctx'\<lparr>strtab32 := x\<rparr>" name nm ro 0] assms(2-5,8) that names [of x]
    by (simp add: find_section32_def section_name_def Let_def cong: option.case_cong)
  have ctx: "ctx\<lparr>img32 := img, shdr32 := img + e_shoff hdr, phdr32 := img + e_phoff hdr\<rparr> = ctx'\<lparr>strtab32 := strtab32 ctx\<rparr>"
    by (simp add: assms(3))
  show ?thesis
    using valid find [OF assms(6), of "strtab32 ctx"] find [OF assms(7)]
    by (simp add: load_img_def load_img32_def Let_def assms(2) [symmetric] ctx [simplified])
qed

theorem load_img_correct_witness:
  "load_img False demo_rodata demo_image 0x1000 (demo_context 7) =
    Some (\<lparr>img32 = 0x1000, shdr32 = 0x1034, phdr32 = 0x1000, symtab32 = 0x1034, strtab32 = 0x105C\<rparr>, [])"
proof -
  have magic: "map demo_image [0x1000, 0x1000 + 1, 0x1000 + 2, 0x1000 + 3, 0x1000 + 4] = [0x7F, 0x45, 0x4C, 0x46, 1]"
    by (simp add: demo_image_def bytes_at_def)
  have ctx: "demo_context 7 = \<lparr>img32 = 0x1000, shdr32 = 0x1000 + e_shoff (ld_ehdr demo_image 0x1000),
      phdr32 = 0x1000 + e_phoff (ld_ehdr demo_image 0x1000), symtab32 = symtab32 (demo_context 7),
      strtab32 = strtab32 (demo_context 7)\<rparr>"
    by (simp add: demo_header demo_context_def)
  have len: "length demo_names = unat (e_shnum (ld_ehdr demo_image 0x1000))"
    by (simp add: demo_header demo_names_def)
  have lits: "text_of demo_image (lit_strtab demo_rodata) (map of_char ''.strtab'')"
    "text_of demo_image (lit_symtab demo_rodata) (map of_char ''.symtab'')"
    unfolding demo_rodata_def elf_rodata.simps by (rule demo_literals)+
  show ?thesis
    using load_img_correct [OF magic refl ctx len demo_names_ok lits demo_null] unfolding demo_find
    by (simp add: demo_context_def)
qed

end
