(* ===== verification/GdbStub.thy ===== *)
theory GdbStub
  imports CString Printf
begin

text \<open>
  \<open>arch/x86/32/i386-stub.c\<close>: the GDB remote stub. Its registers and packet buffers lie in the
  flat memory, at the addresses of \<open>gdb_layout\<close>, where the commands of the debugger can reach them
  too. The serial line is the list of the characters still to come and the list of those sent; a stub
  that polls an exhausted line polls forever and gives \<^const>\<open>Diverges\<close>, as any endless loop does.
  \<open>mapped\<close> tells the addresses that \<open>get_char\<close> and \<open>set_char\<close> can reach without a fault; the
  stub's own data and literals, which it uses directly, are mapped. \<open>mem_fault_routine\<close> is null or
  \<open>set_mem_err\<close>, a Boolean; the entry \<open>mem_fault\<close> of the traps runs the routine and clears the variable.
  The calls of \<open>printf\<close> and \<open>fprintf\<close> are recorded.
\<close>

section \<open>State\<close>

definition BUFMAX :: nat where "BUFMAX = 400"
definition NUMREGS :: nat where "NUMREGS = 16"
definition NUMREGBYTES :: nat where "NUMREGBYTES = NUMREGS * 4"

datatype regnames = EAX | ECX | EDX | EBX | ESP | EBP | ESI | EDI | PC | PS | CS | SS | DS | ES | FS | GS

primrec regno :: "regnames \<Rightarrow> nat" where
  "regno EAX = 0" | "regno ECX = 1" | "regno EDX = 2" | "regno EBX = 3"
| "regno ESP = 4" | "regno EBP = 5" | "regno ESI = 6" | "regno EDI = 7"
| "regno PC = 8" | "regno PS = 9" | "regno CS = 10" | "regno SS = 11"
| "regno DS = 12" | "regno ES = 13" | "regno FS = 14" | "regno GS = 15"

datatype gdb_message = Vector u32 u32 u32 | Bad_checksum u8 u8 addr | Debug_error string

record gdb_layout =
  registers :: addr
  remcomInBuffer :: addr
  remcomOutBuffer :: addr
  lit_OK :: addr
  lit_E01 :: addr
  lit_E02 :: addr
  lit_E03 :: addr

record gdb =
  memory :: mem
  mapped :: "addr \<Rightarrow> bool"
  serial_in :: "u8 list"
  serial_out :: "u8 list"
  remote_debug :: bool
  mem_fault_routine :: bool
  mem_err :: bool
  messages :: "gdb_message list"

definition hexchars :: "u8 list" where
  "hexchars = map of_char ''0123456789abcdef''"

definition hexchar :: "'a::len word \<Rightarrow> u8" where
  "hexchar v = hexchars ! unat v"

definition store :: "addr \<Rightarrow> u8 \<Rightarrow> gdb \<Rightarrow> gdb" where
  "store a c s = s\<lparr>memory := st8 a c (memory s)\<rparr>"

section \<open>The line\<close>

definition getDebugChar :: "gdb \<Rightarrow> kerror + (u8 \<times> gdb)" where
  "getDebugChar s = (case serial_in s of [] \<Rightarrow> Inl Diverges | c # cs \<Rightarrow> Inr (c, s\<lparr>serial_in := cs\<rparr>))"

definition putDebugChar :: "u8 \<Rightarrow> gdb \<Rightarrow> gdb" where
  "putDebugChar c s = s\<lparr>serial_out := serial_out s @ [c]\<rparr>"

section \<open>Hexadecimal\<close>

definition hex :: "u8 \<Rightarrow> u32" where
  "hex c = (if c \<ge> ch CHR ''a'' \<and> c \<le> ch CHR ''f'' then ucast (c - ch CHR ''a'') + 10
     else if c \<ge> ch CHR ''0'' \<and> c \<le> ch CHR ''9'' then ucast (c - ch CHR ''0'')
     else if c \<ge> ch CHR ''A'' \<and> c \<le> ch CHR ''F'' then ucast (c - ch CHR ''A'') + 10
     else - 1)"

text \<open>\<open>hexToInt(&ptr, &intValue)\<close>: the number of digits, the value, and the new pointer.\<close>

partial_function (option) hexToInt_loop :: "mem \<Rightarrow> addr \<Rightarrow> u32 \<Rightarrow> u32 \<Rightarrow> (u32 \<times> u32 \<times> addr) option" where
  "hexToInt_loop m ptr numChars intValue =
     (if m ptr = 0 then Some (numChars, intValue, ptr)
      else let hexValue = hex (m ptr) in
        if sint hexValue \<ge> 0
        then hexToInt_loop m (ptr + 1) (numChars + 1) (push_bit 4 intValue OR hexValue)
        else Some (numChars, intValue, ptr))"

definition hexToInt :: "mem \<Rightarrow> addr \<Rightarrow> (u32 \<times> u32 \<times> addr) option" where
  "hexToInt m ptr = hexToInt_loop m ptr 0 0"

section \<open>Packets\<close>

function wait_start :: "gdb \<Rightarrow> kerror + gdb" where
  "wait_start s = bind_res (getDebugChar s) (\<lambda>(c, s). if c \<noteq> ch CHR ''$'' then wait_start s else Inr s)"
  by pat_completeness auto

lemma getDebugChar_shorter: "getDebugChar s = Inr (c, s') \<Longrightarrow> length (serial_in s') < length (serial_in s)"
  by (auto simp: getDebugChar_def split: list.splits)

termination wait_start
  by (relation "measure (\<lambda>s. length (serial_in s))") (auto dest: getDebugChar_shorter)

declare wait_start.simps [simp del]

text \<open>
  The loop after \<open>retry\<close>: the last character read, the checksum, the count and the state when it ends,
  at a \<open>#\<close> or with a full buffer.
\<close>

function read_body :: "gdb_layout \<Rightarrow> u8 \<Rightarrow> u8 \<Rightarrow> nat \<Rightarrow> gdb \<Rightarrow> kerror + (u8 \<times> u8 \<times> nat \<times> gdb)" where
  "read_body L c checksum count s =
     (if count < BUFMAX - 1 then
        bind_res (getDebugChar s) (\<lambda>(c, s).
          if c = ch CHR ''$'' then read_body L c 0 0 s
          else if c = ch CHR ''#'' then Inr (c, checksum, count, s)
          else read_body L c (checksum + c) (count + 1) (store (remcomInBuffer L + of_nat count) c s))
      else Inr (c, checksum, count, s))"
  by pat_completeness auto

termination read_body
  by (relation "measure (\<lambda>(L, c, checksum, count, s). length (serial_in s))")
    (auto simp: store_def dest: getDebugChar_shorter)

declare read_body.simps [simp del]

text \<open>After a \<open>#\<close>: no packet when the checksum is wrong, else the pointer \<open>getpacket\<close> returns.\<close>

definition accept_packet :: "gdb_layout \<Rightarrow> gdb \<Rightarrow> addr \<times> gdb" where
  "accept_packet L s =
     (let s = putDebugChar (ch CHR ''+'') s in
      if memory s (remcomInBuffer L + 2) = ch CHR '':'' then
        let s = putDebugChar (memory s (remcomInBuffer L)) s;
            s = putDebugChar (memory s (remcomInBuffer L + 1)) s
        in (remcomInBuffer L + 3, s)
      else (remcomInBuffer L, s))"

definition check_packet :: "gdb_layout \<Rightarrow> u8 \<Rightarrow> gdb \<Rightarrow> kerror + (addr option \<times> gdb)" where
  "check_packet L checksum s =
     bind_res (getDebugChar s) (\<lambda>(c, s).
       let xmitcsum = ucast (push_bit 4 (hex c)) in
       bind_res (getDebugChar s) (\<lambda>(c, s).
         let xmitcsum = xmitcsum + ucast (hex c) in
         if checksum \<noteq> xmitcsum then
           let s = (if remote_debug s
                    then s\<lparr>messages := messages s @ [Bad_checksum checksum xmitcsum (remcomInBuffer L)]\<rparr> else s)
           in Inr (None, putDebugChar (ch CHR ''-'') s)
         else let (ptr, s) = accept_packet L s in Inr (Some ptr, s)))"

text \<open>One round of the loop of \<open>getpacket\<close>.\<close>

definition getpacket_round :: "gdb_layout \<Rightarrow> gdb \<Rightarrow> kerror + (addr option \<times> gdb)" where
  "getpacket_round L s =
     bind_res (wait_start s) (\<lambda>s.
     bind_res (read_body L (ch CHR ''$'') 0 0 s) (\<lambda>(c, checksum, count, s).
       let s = store (remcomInBuffer L + of_nat count) 0 s in
       if c = ch CHR ''#'' then check_packet L checksum s else Inr (None, s)))"

lemma wait_start_shorter: "wait_start s = Inr s' \<Longrightarrow> length (serial_in s') < length (serial_in s)"
proof (induction s rule: wait_start.induct)
  case (1 s)
  then show ?case
    by (subst (asm) (2) wait_start.simps)
      (fastforce simp: bind_res_Inr_conv dest: getDebugChar_shorter split: if_splits)
qed

lemma read_body_shorter:
  "read_body L c k n s = Inr (c', k', n', s') \<Longrightarrow> length (serial_in s') \<le> length (serial_in s)"
proof (induction L c k n s rule: read_body.induct)
  case (1 L c k n s)
  then show ?case
    by (subst (asm) (3) read_body.simps)
      (fastforce simp: bind_res_Inr_conv store_def dest: getDebugChar_shorter split: if_splits)
qed

lemma accept_packet_in: "accept_packet L s = (p, s') \<Longrightarrow> serial_in s' = serial_in s"
  by (auto simp: accept_packet_def Let_def putDebugChar_def split: if_splits)

lemma check_packet_shorter:
  assumes "check_packet L k s = Inr (p, s')" shows "length (serial_in s') \<le> length (serial_in s)"
proof (cases "getDebugChar s")
  case (Inr r)
  obtain c1 s1 where r: "r = (c1, s1)" by (cases r)
  show ?thesis
  proof (cases "getDebugChar s1")
    case (Inr r2)
    obtain c2 s2 where r2: "r2 = (c2, s2)" by (cases r2)
    have "serial_in s' = serial_in s2"
      using assms \<open>getDebugChar s = Inr r\<close> Inr accept_packet_in [of L s2]
      by (cases "accept_packet L s2")
        (auto simp: check_packet_def r r2 Let_def putDebugChar_def split: if_splits)
    then show ?thesis
      using getDebugChar_shorter [of s c1 s1] getDebugChar_shorter [of s1 c2 s2] Inr \<open>getDebugChar s = Inr r\<close>
      by (simp add: r r2)
  qed (use assms Inr in \<open>simp add: check_packet_def r Let_def\<close>)
qed (use assms in \<open>simp add: check_packet_def\<close>)

lemma getpacket_round_shorter:
  assumes "getpacket_round L s = Inr (p, s')" shows "length (serial_in s') < length (serial_in s)"
proof -
  obtain s1 c k n s2 where 1: "wait_start s = Inr s1"
    and 2: "read_body L (ch CHR ''$'') 0 0 s1 = Inr (c, k, n, s2)"
    and 3: "(if c = ch CHR ''#'' then check_packet L k (store (remcomInBuffer L + of_nat n) 0 s2)
      else Inr (None, store (remcomInBuffer L + of_nat n) 0 s2)) = Inr (p, s')"
    using assms unfolding getpacket_round_def bind_res_Inr_conv Let_def by auto
  have "length (serial_in s') \<le> length (serial_in s2)"
    using 3 check_packet_shorter [of L k "store (remcomInBuffer L + of_nat n) 0 s2" p s']
    by (auto simp: store_def split: if_splits)
  with wait_start_shorter [OF 1] read_body_shorter [OF 2] show ?thesis by linarith
qed

function getpacket :: "gdb_layout \<Rightarrow> gdb \<Rightarrow> kerror + (addr \<times> gdb)" where
  "getpacket L s = bind_res (getpacket_round L s) (\<lambda>(p, s).
     case p of None \<Rightarrow> getpacket L s | Some ptr \<Rightarrow> Inr (ptr, s))"
  by pat_completeness auto

termination getpacket
  by (relation "measure (\<lambda>(L, s). length (serial_in s))") (auto dest: getpacket_round_shorter)

declare getpacket.simps [simp del]

text \<open>\<open>putpacket\<close>: the body up to the terminator, then the checksum, until a \<open>+\<close> comes back.\<close>

partial_function (option) put_body :: "mem \<Rightarrow> addr \<Rightarrow> u8 \<Rightarrow> u8 list \<Rightarrow> (u8 \<times> u8 list) option" where
  "put_body m buffer checksum out =
     (let c = m buffer in
      if c \<noteq> 0 then put_body m (buffer + 1) (checksum + c) (out @ [c]) else Some (checksum, out))"

definition send_packet :: "addr \<Rightarrow> gdb \<Rightarrow> kerror + gdb" where
  "send_packet buffer s =
     (let s = putDebugChar (ch CHR ''$'') s in
      bind_res (loop_res (put_body (memory s) buffer 0 (serial_out s))) (\<lambda>(checksum, out).
        let s = s\<lparr>serial_out := out\<rparr>;
            s = putDebugChar (ch CHR ''#'') s;
            s = putDebugChar (hexchar (drop_bit 4 checksum)) s;
            s = putDebugChar (hexchar (checksum mod 16)) s
        in Inr s))"

lemma send_packet_in: "send_packet b s = Inr s' \<Longrightarrow> serial_in s' = serial_in s"
  by (auto simp: send_packet_def bind_res_Inr_conv Let_def putDebugChar_def)

function putpacket :: "addr \<Rightarrow> gdb \<Rightarrow> kerror + gdb" where
  "putpacket buffer s =
     bind_res (send_packet buffer s) (\<lambda>s.
     bind_res (getDebugChar s) (\<lambda>(c, s). if c \<noteq> ch CHR ''+'' then putpacket buffer s else Inr s))"
  by pat_completeness auto

termination putpacket
proof (relation "measure (\<lambda>(b, s). length (serial_in s))", goal_cases)
  case (2 buffer s s1 p c s2)
  then show ?case using send_packet_in [of buffer s s1] getDebugChar_shorter [of s1 c s2] by simp
qed simp

declare putpacket.simps [simp del]

section \<open>Memory\<close>

text \<open>A byte of the debugged program. After a fault the value is the one left in a register.\<close>

definition get_char :: "addr \<Rightarrow> gdb \<Rightarrow> kerror + (u8 \<times> gdb)" where
  "get_char a s =
     (if mapped s a then Inr (memory s a, s)
      else if mem_fault_routine s then Inr (0, s\<lparr>mem_err := True, mem_fault_routine := False\<rparr>)
      else Inl Page_fault)"

definition set_char :: "addr \<Rightarrow> u8 \<Rightarrow> gdb \<Rightarrow> kerror + gdb" where
  "set_char a v s =
     (if mapped s a then Inr (store a v s)
      else if mem_fault_routine s then Inr (s\<lparr>mem_err := True, mem_fault_routine := False\<rparr>)
      else Inl Page_fault)"

text \<open>The loops return whether they ran to their end, the pointer and the state.\<close>

primrec mem2hex_loop :: "bool \<Rightarrow> nat \<Rightarrow> addr \<Rightarrow> addr \<Rightarrow> gdb \<Rightarrow> kerror + (bool \<times> addr \<times> gdb)" where
  "mem2hex_loop may_fault 0 a buf s = Inr (True, buf, s)"
| "mem2hex_loop may_fault (Suc n) a buf s =
     bind_res (get_char a s) (\<lambda>(c, s).
       if may_fault \<and> mem_err s then Inr (False, buf, s)
       else mem2hex_loop may_fault n (a + 1) (buf + 2)
         (store (buf + 1) (hexchar (c mod 16)) (store buf (hexchar (drop_bit 4 c)) s)))"

definition mem2hex :: "addr \<Rightarrow> addr \<Rightarrow> u32 \<Rightarrow> bool \<Rightarrow> gdb \<Rightarrow> kerror + (addr \<times> gdb)" where
  "mem2hex a buf count may_fault s =
     (let s = (if may_fault then s\<lparr>mem_fault_routine := True\<rparr> else s) in
      bind_res (mem2hex_loop may_fault (nat (sint count)) a buf s) (\<lambda>(finished, buf, s).
        if finished then
          let s = store buf 0 s;
              s = (if may_fault then s\<lparr>mem_fault_routine := False\<rparr> else s)
          in Inr (buf, s)
        else Inr (buf, s)))"

primrec hex2mem_loop :: "bool \<Rightarrow> nat \<Rightarrow> addr \<Rightarrow> addr \<Rightarrow> gdb \<Rightarrow> kerror + (bool \<times> addr \<times> gdb)" where
  "hex2mem_loop may_fault 0 buf a s = Inr (True, a, s)"
| "hex2mem_loop may_fault (Suc n) buf a s =
     (let c = ucast (push_bit 4 (hex (memory s buf)));
          c = c + ucast (hex (memory s (buf + 1)))
      in bind_res (set_char a c s) (\<lambda>s.
        if may_fault \<and> mem_err s then Inr (False, a + 1, s)
        else hex2mem_loop may_fault n (buf + 2) (a + 1) s))"

definition hex2mem :: "addr \<Rightarrow> addr \<Rightarrow> u32 \<Rightarrow> bool \<Rightarrow> gdb \<Rightarrow> kerror + (addr \<times> gdb)" where
  "hex2mem buf a count may_fault s =
     (let s = (if may_fault then s\<lparr>mem_fault_routine := True\<rparr> else s) in
      bind_res (hex2mem_loop may_fault (nat (sint count)) buf a s) (\<lambda>(finished, a, s).
        if finished then Inr (a, if may_fault then s\<lparr>mem_fault_routine := False\<rparr> else s)
        else Inr (a, s)))"

section \<open>Signals\<close>

definition computeSignal :: "u32 \<Rightarrow> u32" where
  "computeSignal v =
     (if v = 0 then 8 else if v = 1 then 5 else if v = 3 then 5 else if v = 4 then 16
      else if v = 5 then 16 else if v = 6 then 4 else if v = 7 then 8 else if v = 8 then 7
      else if v = 9 then 11 else if v = 10 then 11 else if v = 11 then 11 else if v = 12 then 11
      else if v = 13 then 11 else if v = 14 then 11 else if v = 16 then 7 else 7)"

section \<open>Commands\<close>

definition reg_addr :: "gdb_layout \<Rightarrow> regnames \<Rightarrow> addr" where
  "reg_addr L r = registers L + 4 * of_nat (regno r)"

definition reply :: "gdb_layout \<Rightarrow> addr \<Rightarrow> gdb \<Rightarrow> kerror + gdb" where
  "reply L lit s = bind_res (loop_res (strcpy (remcomOutBuffer L) lit (memory s)))
     (\<lambda>(_, m). Inr (s\<lparr>memory := m\<rparr>))"

definition debug_error :: "string \<Rightarrow> gdb \<Rightarrow> gdb" where
  "debug_error f s = (if remote_debug s then s\<lparr>messages := messages s @ [Debug_error f]\<rparr> else s)"

definition cmd_status :: "gdb_layout \<Rightarrow> u32 \<Rightarrow> gdb \<Rightarrow> gdb" where
  "cmd_status L sigval s =
     (let b = remcomOutBuffer L;
          s = store b (ch CHR ''S'') s;
          s = store (b + 1) (hexchar (drop_bit 4 sigval)) s;
          s = store (b + 2) (hexchar (sigval mod 16)) s
      in store (b + 3) 0 s)"

definition cmd_get_registers :: "gdb_layout \<Rightarrow> gdb \<Rightarrow> kerror + gdb" where
  "cmd_get_registers L s =
     bind_res (mem2hex (registers L) (remcomOutBuffer L) (of_nat NUMREGBYTES) False s) (\<lambda>(_, s). Inr s)"

definition cmd_set_registers :: "gdb_layout \<Rightarrow> addr \<Rightarrow> gdb \<Rightarrow> kerror + gdb" where
  "cmd_set_registers L ptr s =
     bind_res (hex2mem ptr (registers L) (of_nat NUMREGBYTES) False s) (\<lambda>(_, s). reply L (lit_OK L) s)"

definition cmd_set_register :: "gdb_layout \<Rightarrow> addr \<Rightarrow> gdb \<Rightarrow> kerror + gdb" where
  "cmd_set_register L ptr s =
     bind_res (loop_res (hexToInt (memory s) ptr)) (\<lambda>(n, regno, ptr).
       if n \<noteq> 0 \<and> memory s ptr = ch CHR ''='' \<and> sint regno \<ge> 0 \<and> sint regno < int NUMREGS then
         bind_res (hex2mem (ptr + 1) (registers L + 4 * regno) 4 False s) (\<lambda>(_, s). reply L (lit_OK L) s)
       else reply L (lit_E01 L) s)"

text \<open>The reply to a malformed command: \<open>ptr\<close> is still set.\<close>

definition malformed :: "gdb_layout \<Rightarrow> addr \<Rightarrow> addr \<Rightarrow> gdb \<Rightarrow> kerror + gdb" where
  "malformed L lit ptr s = (if ptr \<noteq> NULL then reply L lit s else Inr s)"

definition cmd_read :: "gdb_layout \<Rightarrow> addr \<Rightarrow> gdb \<Rightarrow> kerror + gdb" where
  "cmd_read L ptr s =
     bind_res (loop_res (hexToInt (memory s) ptr)) (\<lambda>(n, addr, ptr).
       if n = 0 then malformed L (lit_E01 L) ptr s
       else if memory s ptr \<noteq> ch CHR '','' then malformed L (lit_E01 L) (ptr + 1) s
       else bind_res (loop_res (hexToInt (memory s) (ptr + 1))) (\<lambda>(n, len, ptr).
         if n = 0 then malformed L (lit_E01 L) ptr s
         else bind_res (mem2hex addr (remcomOutBuffer L) len True (s\<lparr>mem_err := False\<rparr>)) (\<lambda>(_, s).
           if mem_err s
           then bind_res (reply L (lit_E03 L) s) (\<lambda>s. Inr (debug_error ''memory fault'' s))
           else Inr s)))"

definition cmd_write :: "gdb_layout \<Rightarrow> addr \<Rightarrow> gdb \<Rightarrow> kerror + gdb" where
  "cmd_write L ptr s =
     bind_res (loop_res (hexToInt (memory s) ptr)) (\<lambda>(n, addr, ptr).
       if n = 0 then malformed L (lit_E02 L) ptr s
       else if memory s ptr \<noteq> ch CHR '','' then malformed L (lit_E02 L) (ptr + 1) s
       else bind_res (loop_res (hexToInt (memory s) (ptr + 1))) (\<lambda>(n, len, ptr).
         if n = 0 then malformed L (lit_E02 L) ptr s
         else if memory s ptr \<noteq> ch CHR '':'' then malformed L (lit_E02 L) (ptr + 1) s
         else bind_res (hex2mem (ptr + 1) addr len True (s\<lparr>mem_err := False\<rparr>)) (\<lambda>(_, s).
           if mem_err s
           then bind_res (reply L (lit_E03 L) s) (\<lambda>s. Inr (debug_error ''memory fault'' s))
           else reply L (lit_OK L) s)))"

text \<open>\<open>s\<close> and \<open>c\<close>: the state in which \<open>return_to_prog\<close> takes over.\<close>

definition cmd_resume :: "gdb_layout \<Rightarrow> bool \<Rightarrow> addr \<Rightarrow> gdb \<Rightarrow> kerror + gdb" where
  "cmd_resume L stepping ptr s =
     bind_res (loop_res (hexToInt (memory s) ptr)) (\<lambda>(n, addr, ptr).
       let m = memory s;
           m = (if n \<noteq> 0 then st32 (reg_addr L PC) addr m else m);
           m = st32 (reg_addr L PS) (ld32 m (reg_addr L PS) AND 0xFFFFFEFF) m;
           m = (if stepping then st32 (reg_addr L PS) (ld32 m (reg_addr L PS) OR 0x100) m else m);
           m = snd (memset (remcomOutBuffer L) 0 (of_nat BUFMAX) m)
       in Inr (s\<lparr>memory := m\<rparr>))"

text \<open>A command is answered, or the program goes on.\<close>

datatype outcome = Reply gdb | Resume gdb

definition command :: "gdb_layout \<Rightarrow> u32 \<Rightarrow> addr \<Rightarrow> gdb \<Rightarrow> kerror + outcome" where
  "command L sigval ptr s =
     (let c = memory s ptr; ptr = ptr + 1; answer = (\<lambda>r. bind_res r (\<lambda>s. Inr (Reply s))) in
      if c = ch CHR ''?'' then answer (Inr (cmd_status L sigval s))
      else if c = ch CHR ''d'' then answer (Inr (s\<lparr>remote_debug := \<not> remote_debug s\<rparr>))
      else if c = ch CHR ''g'' then answer (cmd_get_registers L s)
      else if c = ch CHR ''G'' then answer (cmd_set_registers L ptr s)
      else if c = ch CHR ''P'' then answer (cmd_set_register L ptr s)
      else if c = ch CHR ''m'' then answer (cmd_read L ptr s)
      else if c = ch CHR ''M'' then answer (cmd_write L ptr s)
      else if c = ch CHR ''s'' then bind_res (cmd_resume L True ptr s) (\<lambda>s. Inr (Resume s))
      else if c = ch CHR ''c'' then bind_res (cmd_resume L False ptr s) (\<lambda>s. Inr (Resume s))
      else answer (Inr s))"

section \<open>Commands leave the line alone\<close>

definition same_line :: "gdb \<Rightarrow> gdb \<Rightarrow> bool" where
  "same_line s s' \<longleftrightarrow> serial_in s' = serial_in s \<and> serial_out s' = serial_out s \<and> mapped s' = mapped s"

lemma same_line_refl [simp]: "same_line s s"
  by (simp add: same_line_def)

lemma same_line_trans [trans]: "same_line s s' \<Longrightarrow> same_line s' s'' \<Longrightarrow> same_line s s''"
  by (simp add: same_line_def)

lemma same_line_updates [simp]:
  "same_line s (store a c s)" "same_line s (debug_error f s)"
  "same_line (s\<lparr>memory := m\<rparr>) s' \<longleftrightarrow> same_line s s'" "same_line (store a c s) s' \<longleftrightarrow> same_line s s'"
  "same_line (s\<lparr>mem_err := b\<rparr>) s' \<longleftrightarrow> same_line s s'" "same_line (s\<lparr>mem_fault_routine := b\<rparr>) s' \<longleftrightarrow> same_line s s'"
  "same_line s (s'\<lparr>memory := m\<rparr>) \<longleftrightarrow> same_line s s'" "same_line s (store a c s') \<longleftrightarrow> same_line s s'"
  "same_line s (s'\<lparr>mem_err := b\<rparr>) \<longleftrightarrow> same_line s s'" "same_line s (s'\<lparr>mem_fault_routine := b\<rparr>) \<longleftrightarrow> same_line s s'"
  "same_line s (s'\<lparr>remote_debug := b\<rparr>) \<longleftrightarrow> same_line s s'" "same_line s (debug_error f s') \<longleftrightarrow> same_line s s'"
  by (auto simp: same_line_def store_def debug_error_def)

lemma char_line:
  "get_char a s = Inr (c, s') \<Longrightarrow> same_line s s'" "set_char a v s = Inr s' \<Longrightarrow> same_line s s'"
  by (auto simp: get_char_def set_char_def split: if_splits)

lemma mem2hex_loop_line: "mem2hex_loop f n a b s = Inr (x, y, s') \<Longrightarrow> same_line s s'"
proof (induction n arbitrary: a b s)
  case (Suc n)
  then obtain c s1 where 1: "get_char a s = Inr (c, s1)"
    and "(if f \<and> mem_err s1 then Inr (False, b, s1) else mem2hex_loop f n (a + 1) (b + 2)
      (store (b + 1) (hexchar (c mod 16)) (store b (hexchar (drop_bit 4 c)) s1))) = Inr (x, y, s')"
    unfolding mem2hex_loop.simps bind_res_Inr_conv by auto
  then have "same_line s1 s'" by (auto dest!: Suc.IH split: if_splits)
  with char_line(1) [OF 1] show ?case by (rule same_line_trans)
qed simp

lemma mem2hex_line: "mem2hex a b n f s = Inr (p, s') \<Longrightarrow> same_line s s'"
  by (auto simp: mem2hex_def Let_def bind_res_Inr_conv split: if_splits dest!: mem2hex_loop_line)

lemma hex2mem_loop_line: "hex2mem_loop f n b a s = Inr (x, y, s') \<Longrightarrow> same_line s s'"
proof (induction n arbitrary: a b s)
  case (Suc n)
  then obtain c s1 where 1: "set_char a c s = Inr s1"
    and "(if f \<and> mem_err s1 then Inr (False, a + 1, s1) else hex2mem_loop f n (b + 2) (a + 1) s1) = Inr (x, y, s')"
    unfolding hex2mem_loop.simps bind_res_Inr_conv Let_def by blast
  then have "same_line s1 s'" by (auto dest!: Suc.IH split: if_splits)
  with char_line(2) [OF 1] show ?case by (rule same_line_trans)
qed simp

lemma hex2mem_line: "hex2mem b a n f s = Inr (p, s') \<Longrightarrow> same_line s s'"
  by (auto simp: hex2mem_def Let_def bind_res_Inr_conv split: if_splits dest!: hex2mem_loop_line)

lemma reply_line: "reply L lit s = Inr s' \<Longrightarrow> same_line s s'"
  by (auto simp: reply_def bind_res_Inr_conv)

lemma malformed_line: "malformed L lit p s = Inr s' \<Longrightarrow> same_line s s'"
  by (auto simp: malformed_def dest: reply_line split: if_splits)

lemma cmd_read_line: "cmd_read L ptr s = Inr s' \<Longrightarrow> same_line s s'"
  unfolding cmd_read_def bind_res_Inr_conv
  by (clarsimp split: if_splits simp: bind_res_Inr_conv)
    (auto dest!: malformed_line mem2hex_line reply_line intro: same_line_trans)

lemma cmd_write_line: "cmd_write L ptr s = Inr s' \<Longrightarrow> same_line s s'"
  unfolding cmd_write_def bind_res_Inr_conv
  by (clarsimp split: if_splits simp: bind_res_Inr_conv)
    (auto dest!: malformed_line hex2mem_line reply_line intro: same_line_trans)

lemma command_line: "command L g ptr s = Inr (Reply s') \<Longrightarrow> same_line s s'"
  by (auto simp: command_def Let_def bind_res_Inr_conv cmd_status_def cmd_get_registers_def
      cmd_set_registers_def cmd_set_register_def split: if_splits
      dest!: mem2hex_line hex2mem_line reply_line cmd_read_line cmd_write_line intro: same_line_trans)

section \<open>The command loop\<close>

lemma getpacket_shorter: "getpacket L s = Inr (p, s') \<Longrightarrow> length (serial_in s') < length (serial_in s)"
proof (induction L s rule: getpacket.induct)
  case (1 L s)
  obtain q s1 where round: "getpacket_round L s = Inr (q, s1)"
    and rest: "(case q of None \<Rightarrow> getpacket L s1 | Some ptr \<Rightarrow> Inr (ptr, s1)) = Inr (p, s')"
    using "1.prems" by (subst (asm) getpacket.simps) (auto simp: bind_res_Inr_conv)
  note shorter = getpacket_round_shorter [OF round]
  show ?case
  proof (cases q)
    case None
    with "1.IH" [OF round refl None] rest shorter show ?thesis by simp
  qed (use rest shorter in simp)
qed

lemma putpacket_shorter: "putpacket b s = Inr s' \<Longrightarrow> length (serial_in s') < length (serial_in s)"
proof (induction b s rule: putpacket.induct)
  case (1 b s)
  obtain s1 c s2 where send: "send_packet b s = Inr s1" and get: "getDebugChar s1 = Inr (c, s2)"
    and rest: "(if c \<noteq> ch CHR ''+'' then putpacket b s2 else Inr s2) = Inr s'"
    using "1.prems" by (subst (asm) putpacket.simps) (auto simp: bind_res_Inr_conv)
  note shorter = getDebugChar_shorter [OF get] send_packet_in [OF send]
  show ?case
  proof (cases "c = ch CHR ''+''")
    case False
    with "1.IH" [OF send get refl] rest shorter show ?thesis by simp
  qed (use rest shorter in simp)
qed

function serve :: "gdb_layout \<Rightarrow> u32 \<Rightarrow> gdb \<Rightarrow> kerror + gdb" where
  "serve L sigval s =
     bind_res (getpacket L (store (remcomOutBuffer L) 0 s)) (\<lambda>(ptr, s).
     bind_res (command L sigval ptr s) (\<lambda>r. case r of
         Resume s \<Rightarrow> Inr s
       | Reply s \<Rightarrow> bind_res (putpacket (remcomOutBuffer L) s) (\<lambda>s. serve L sigval s)))"
  by pat_completeness auto

termination serve
proof (relation "measure (\<lambda>(L, g, s). length (serial_in s))", goal_cases)
  case (2 L g s p ptr s1 r s2 s3)
  then show ?case
    using getpacket_shorter [of L "store (remcomOutBuffer L) 0 s" ptr s1] command_line [of L g ptr s1 s2]
      putpacket_shorter [of "remcomOutBuffer L" s2 s3]
    by (simp add: store_def same_line_def)
qed simp

declare serve.simps [simp del]

text \<open>The stop reply and the loop of \<open>handle_exception\<close>; the result is the state at \<open>return_to_prog\<close>.\<close>

definition report_register :: "gdb_layout \<Rightarrow> regnames \<Rightarrow> addr \<times> gdb \<Rightarrow> kerror + (addr \<times> gdb)" where
  "report_register L r = (\<lambda>(ptr, s).
     let s = store ptr (hexchars ! regno r) s;
         s = store (ptr + 1) (ch CHR '':'') s
     in bind_res (mem2hex (reg_addr L r) (ptr + 2) 4 False s) (\<lambda>(ptr, s).
          Inr (ptr + 1, store ptr (ch CHR '';'') s)))"

definition stop_reply :: "gdb_layout \<Rightarrow> u32 \<Rightarrow> gdb \<Rightarrow> kerror + gdb" where
  "stop_reply L sigval s =
     (let ptr = remcomOutBuffer L;
          s = store ptr (ch CHR ''T'') s;
          s = store (ptr + 1) (hexchar (drop_bit 4 sigval)) s;
          s = store (ptr + 2) (hexchar (sigval AND 0xF)) s
      in bind_res (report_register L ESP (ptr + 3, s)) (\<lambda>ps.
         bind_res (report_register L EBP ps) (\<lambda>ps.
         bind_res (report_register L PC ps) (\<lambda>(ptr, s). Inr (store ptr 0 s)))))"

definition handle_exception :: "gdb_layout \<Rightarrow> u32 \<Rightarrow> gdb \<Rightarrow> kerror + gdb" where
  "handle_exception L exceptionVector s =
     (let s = (if remote_debug s
               then s\<lparr>messages := messages s @ [Vector exceptionVector
                 (ld32 (memory s) (reg_addr L PS)) (ld32 (memory s) (reg_addr L PC))]\<rparr> else s);
          sigval = computeSignal exceptionVector
      in bind_res (stop_reply L sigval s) (\<lambda>s.
         bind_res (putpacket (remcomOutBuffer L) s) (\<lambda>s. serve L sigval s)))"

section \<open>Hexadecimal text\<close>

lemma hexchars_nth:
  assumes "k < 16"
  shows "hex (hexchars ! k) = of_nat k" "hexchars ! k \<noteq> 0" "hexchars ! k \<noteq> ch CHR ''$''" "hexchars ! k \<noteq> ch CHR ''#''"
proof -
  have "list_all (\<lambda>k. hex (hexchars ! k) = of_nat k \<and> hexchars ! k \<noteq> 0 \<and> hexchars ! k \<noteq> ch CHR ''$''
      \<and> hexchars ! k \<noteq> ch CHR ''#'') [0 ..< 16]"
    by (simp add: upt_conv_Cons hexchars_def hex_def)
  with assms show "hex (hexchars ! k) = of_nat k" "hexchars ! k \<noteq> 0" "hexchars ! k \<noteq> ch CHR ''$''" "hexchars ! k \<noteq> ch CHR ''#''"
    by (simp_all add: list_all_iff)
qed

lemma nibbles:
  fixes c :: u8
  shows "unat (drop_bit 4 c) < 16" "unat (c mod 16) < 16" "unat c = 16 * unat (drop_bit 4 c) + unat (c mod 16)"
proof -
  have hi: "unat (drop_bit 4 c) = unat c div 16" by (simp add: drop_bit_eq_div unat_div_distrib)
  have lo: "unat (c mod 16) = unat c mod 16" by (simp add: unat_mod_distrib)
  have "unat c < 256" using unsigned_less [of c] by simp
  with hi lo show "unat (drop_bit 4 c) < 16" "unat (c mod 16) < 16" "unat c = 16 * unat (drop_bit 4 c) + unat (c mod 16)"
    by simp_all
qed

lemma ucast_of_nat_u8: "(ucast (of_nat n :: u32) :: u8) = of_nat n"
  by (rule bit_word_eqI) (auto simp: bit_simps)

lemma decode_byte:
  fixes c :: u8
  shows "ucast (push_bit 4 (hex (hexchar (drop_bit 4 c)))) + ucast (hex (hexchar (c mod 16))) = c"
proof -
  have "push_bit 4 (of_nat k :: u32) = of_nat (16 * k)" for k by (simp add: push_bit_eq_mult)
  then have "ucast (push_bit 4 (hex (hexchar (drop_bit 4 c)))) + ucast (hex (hexchar (c mod 16)))
      = (of_nat (16 * unat (drop_bit 4 c)) + of_nat (unat (c mod 16)) :: u8)"
    by (simp only: hexchar_def hexchars_nth(1) [OF nibbles(1)] hexchars_nth(1) [OF nibbles(2)] ucast_of_nat_u8)
  also have "\<dots> = of_nat (unat c)" by (simp only: nibbles(3) [of c] of_nat_add)
  finally show ?thesis by simp
qed

definition hex_text :: "u8 list \<Rightarrow> u8 list" where
  "hex_text bs = concat (map (\<lambda>c. [hexchar (drop_bit 4 c), hexchar (c mod 16)]) bs)"

lemma hex_text_simps [simp]:
  "hex_text [] = []" "hex_text (c # cs) = hexchar (drop_bit 4 c) # hexchar (c mod 16) # hex_text cs"
  "length (hex_text cs) = 2 * length cs"
  by (simp_all add: hex_text_def) (induction cs, simp_all)

section \<open>Packets on the line\<close>

definition frame :: "u8 list \<Rightarrow> u8 list" where
  "frame cs = ch CHR ''$'' # cs
     @ [ch CHR ''#'', hexchar (drop_bit 4 (sum_list cs)), hexchar (sum_list cs mod 16)]"

lemma getDebugChar_Cons [simp]: "serial_in s = c # cs \<Longrightarrow> getDebugChar s = Inr (c, s\<lparr>serial_in := cs\<rparr>)"
  by (simp add: getDebugChar_def)

lemma wait_start_noise:
  "serial_in s = noise @ ch CHR ''$'' # rest \<Longrightarrow> ch CHR ''$'' \<notin> set noise \<Longrightarrow>
    wait_start s = Inr (s\<lparr>serial_in := rest\<rparr>)"
proof (induction noise arbitrary: s)
  case Nil
  then show ?case by (subst wait_start.simps) simp
next
  case (Cons c noise)
  from Cons.prems have "wait_start s = wait_start (s\<lparr>serial_in := noise @ ch CHR ''$'' # rest\<rparr>)"
    by (subst wait_start.simps) simp
  with Cons show ?case by simp
qed

lemma read_body_text:
  assumes "serial_in s = cs @ ch CHR ''#'' # rest" "ch CHR ''$'' \<notin> set cs" "ch CHR ''#'' \<notin> set cs"
    and "n + length cs < BUFMAX - 1"
  shows "read_body L c k n s = Inr (ch CHR ''#'', k + sum_list cs, n + length cs,
    s\<lparr>serial_in := rest, memory := write_list (remcomInBuffer L + of_nat n) cs (memory s)\<rparr>)"
  using assms
proof (induction cs arbitrary: s c k n)
  case Nil
  then show ?case by (subst read_body.simps) simp
next
  case (Cons d cs)
  let ?s = "store (remcomInBuffer L + of_nat n) d (s\<lparr>serial_in := cs @ ch CHR ''#'' # rest\<rparr>)"
  from Cons.prems have "read_body L c k n s = read_body L d (k + d) (n + 1) ?s"
    by (subst read_body.simps) simp
  also have "\<dots> = Inr (ch CHR ''#'', k + d + sum_list cs, n + 1 + length cs,
      ?s\<lparr>serial_in := rest, memory := write_list (remcomInBuffer L + of_nat (n + 1)) cs (memory ?s)\<rparr>)"
    using Cons.prems by (intro Cons.IH) (simp_all add: store_def)
  finally show ?case by (simp add: store_def st8_def add.assoc add.commute add.left_commute)
qed

lemma getpacket_round_text:
  assumes "serial_in s = noise @ ch CHR ''$'' # cs @ ch CHR ''#'' # rest" "ch CHR ''$'' \<notin> set noise"
    and "ch CHR ''$'' \<notin> set cs" "ch CHR ''#'' \<notin> set cs" "length cs < BUFMAX - 1"
  shows "getpacket_round L s = check_packet L (sum_list cs)
    (s\<lparr>serial_in := rest, memory := write_list (remcomInBuffer L) (cs @ [0]) (memory s)\<rparr>)"
proof -
  have "read_body L c 0 0 (s\<lparr>serial_in := cs @ ch CHR ''#'' # rest\<rparr>) = Inr (ch CHR ''#'', sum_list cs, length cs,
      s\<lparr>serial_in := rest, memory := write_list (remcomInBuffer L) cs (memory s)\<rparr>)" for c
    using read_body_text [of "s\<lparr>serial_in := cs @ ch CHR ''#'' # rest\<rparr>" cs rest 0 L c 0] assms(3-5) by simp
  then show ?thesis
    using wait_start_noise [OF assms(1,2)]
    by (simp add: getpacket_round_def store_def st8_def write_list_append)
qed

lemma put_body_text:
  "text_of m b cs \<Longrightarrow> put_body m b k out = Some (k + sum_list cs, out @ cs)"
proof (induction cs arbitrary: b k out)
  case Nil
  then show ?case by (subst put_body.simps) simp
next
  case (Cons c cs)
  then have "put_body m b k out = put_body m (b + 1) (k + c) (out @ [c])"
    by (subst put_body.simps) simp
  with Cons show ?case by (simp add: add.assoc)
qed

lemma send_packet_text:
  "text_of (memory s) b cs \<Longrightarrow> send_packet b s = Inr (s\<lparr>serial_out := serial_out s @ frame cs\<rparr>)"
  by (simp add: send_packet_def put_body_text putDebugChar_def frame_def)

section \<open>Memory transfers\<close>

definition all_mapped :: "gdb \<Rightarrow> addr \<Rightarrow> nat \<Rightarrow> bool" where
  "all_mapped s a n \<longleftrightarrow> (\<forall>i < n. mapped s (a + of_nat i))"

lemma apart_step:
  assumes "apart a (Suc n) b (Suc (Suc k))"
  shows "apart (a + 1) n (b + 2) k" "a \<noteq> b" "a \<noteq> b + 1"
    and "i < n \<Longrightarrow> a + 1 + of_nat i \<noteq> b" "i < n \<Longrightarrow> a + 1 + of_nat i \<noteq> b + 1"
    and "j < k \<Longrightarrow> b + 2 + of_nat j \<noteq> a"
proof -
  have *: "i < Suc n \<Longrightarrow> j < Suc (Suc k) \<Longrightarrow> a + of_nat i \<noteq> b + of_nat j" for i j
    using assms by (simp add: apart_def)
  show "apart (a + 1) n (b + 2) k"
    unfolding apart_def using * [of "Suc i" "Suc (Suc j)" for i j] by (simp add: add.assoc)
  show "a \<noteq> b" "a \<noteq> b + 1" using * [of 0 0] * [of 0 1] by simp_all
  show "i < n \<Longrightarrow> a + 1 + of_nat i \<noteq> b" "i < n \<Longrightarrow> a + 1 + of_nat i \<noteq> b + 1"
    using * [of "Suc i" 0] * [of "Suc i" 1] by (simp_all add: add.assoc)
  show "j < k \<Longrightarrow> b + 2 + of_nat j \<noteq> a" using * [of 0 "Suc (Suc j)"] by (simp add: add.assoc)
qed

lemma all_mapped_Suc [simp]: "all_mapped s a (Suc n) \<longleftrightarrow> mapped s a \<and> all_mapped s (a + 1) n"
  by (auto simp: all_mapped_def All_less_Suc2 add.assoc)

lemma region_check:
  "apart a n b k \<longleftrightarrow> list_all (\<lambda>i. list_all (\<lambda>j. a + of_nat i \<noteq> b + of_nat j) [0 ..< k]) [0 ..< n]"
  "all_mapped s a n \<longleftrightarrow> list_all (\<lambda>i. mapped s (a + of_nat i)) [0 ..< n]"
  by (auto simp: apart_def all_mapped_def list_all_iff)

lemma all_mapped_updates [simp]:
  "all_mapped (store b c s) a n = all_mapped s a n" "all_mapped (s\<lparr>mem_fault_routine := r\<rparr>) a n = all_mapped s a n"
  "all_mapped (s\<lparr>mem_err := e\<rparr>) a n = all_mapped s a n"
  by (simp_all add: all_mapped_def store_def)

lemma mem2hex_loop_text:
  assumes "all_mapped s a n" "apart a n buf (2 * n)" "f \<longrightarrow> \<not> mem_err s"
  shows "mem2hex_loop f n a buf s = Inr (True, buf + of_nat (2 * n),
    s\<lparr>memory := write_list buf (hex_text (string_at (memory s) a n)) (memory s)\<rparr>)"
  using assms
proof (induction n arbitrary: a buf s)
  case 0
  then show ?case by (simp add: string_at_def)
next
  case (Suc n)
  note ap = apart_step [of a n buf "2 * n", simplified]
  let ?c = "memory s a"
  let ?s = "store (buf + 1) (hexchar (?c mod 16)) (store buf (hexchar (drop_bit 4 ?c)) s)"
  have "mem2hex_loop f (Suc n) a buf s = mem2hex_loop f n (a + 1) (buf + 2) ?s"
    using Suc.prems by (auto simp: get_char_def)
  also have "\<dots> = Inr (True, buf + 2 + of_nat (2 * n),
      ?s\<lparr>memory := write_list (buf + 2) (hex_text (string_at (memory ?s) (a + 1) n)) (memory ?s)\<rparr>)"
    using Suc.prems ap(1) by (intro Suc.IH) (simp_all, simp_all add: store_def)
  also have "string_at (memory ?s) (a + 1) n = string_at (memory s) (a + 1) n"
    using Suc.prems(2) ap(4,5) by (intro string_at_cong) (simp add: store_def st8_def)
  finally show ?case by (simp add: string_at_Suc store_def st8_def add.assoc fun_upd_def)
qed

text \<open>The bytes up to the first unmapped one are written, without a terminator.\<close>

lemma mem2hex_loop_fault:
  assumes "k < n" "all_mapped s a k" "\<not> mapped s (a + of_nat k)" "apart a k buf (2 * k)" "\<not> mem_err s" "mem_fault_routine s"
  shows "mem2hex_loop True n a buf s = Inr (False, buf + of_nat (2 * k),
    s\<lparr>memory := write_list buf (hex_text (string_at (memory s) a k)) (memory s),
      mem_err := True, mem_fault_routine := False\<rparr>)"
  using assms
proof (induction k arbitrary: n a buf s)
  case 0
  then obtain n' where "n = Suc n'" by (cases n) auto
  with 0 show ?case by (simp add: get_char_def string_at_def)
next
  case (Suc k)
  obtain n' where n: "n = Suc n'" using Suc.prems(1) by (cases n) auto
  note ap = apart_step [of a k buf "2 * k", simplified]
  let ?c = "memory s a"
  let ?s = "store (buf + 1) (hexchar (?c mod 16)) (store buf (hexchar (drop_bit 4 ?c)) s)"
  have "mem2hex_loop True n a buf s = mem2hex_loop True n' (a + 1) (buf + 2) ?s"
    using Suc.prems by (simp add: n get_char_def)
  also have "\<dots> = Inr (False, buf + 2 + of_nat (2 * k),
      ?s\<lparr>memory := write_list (buf + 2) (hex_text (string_at (memory ?s) (a + 1) k)) (memory ?s),
        mem_err := True, mem_fault_routine := False\<rparr>)"
    using Suc.prems ap(1) n by (intro Suc.IH) (simp_all, simp_all add: store_def add.assoc)
  also have "string_at (memory ?s) (a + 1) k = string_at (memory s) (a + 1) k"
    using Suc.prems(4) ap(4,5) by (intro string_at_cong) (simp add: store_def st8_def)
  finally show ?case by (simp add: string_at_Suc store_def st8_def add.assoc fun_upd_def)
qed

lemma hex2mem_loop_text:
  assumes "string_at (memory s) buf (2 * length bs) = hex_text bs" "all_mapped s a (length bs)"
    and "apart a (length bs) buf (2 * length bs)" "f \<longrightarrow> \<not> mem_err s"
  shows "hex2mem_loop f (length bs) buf a s = Inr (True, a + of_nat (length bs),
    s\<lparr>memory := write_list a bs (memory s)\<rparr>)"
  using assms
proof (induction bs arbitrary: a buf s)
  case (Cons c bs)
  let ?n = "length bs"
  note ap = apart_step [of a ?n buf "2 * ?n", simplified]
  have buf: "memory s buf = hexchar (drop_bit 4 c)" "memory s (buf + 1) = hexchar (c mod 16)"
    and tail: "string_at (memory s) (buf + 2) (2 * ?n) = hex_text bs"
    using Cons.prems(1) by (simp_all add: string_at_Suc add.assoc)
  have "hex2mem_loop f (length (c # bs)) buf a s = hex2mem_loop f ?n (buf + 2) (a + 1) (store a c s)"
    using Cons.prems buf by (auto simp: set_char_def decode_byte Let_def store_def)
  also have "\<dots> = Inr (True, a + 1 + of_nat ?n, (store a c s)\<lparr>memory := write_list (a + 1) bs (memory (store a c s))\<rparr>)"
  proof (rule Cons.IH)
    have "string_at (memory (store a c s)) (buf + 2) (2 * ?n) = string_at (memory s) (buf + 2) (2 * ?n)"
      using Cons.prems(3) ap(6) by (intro string_at_cong) (simp add: store_def st8_def)
    then show "string_at (memory (store a c s)) (buf + 2) (2 * ?n) = hex_text bs" by (simp only: tail)
  qed (use Cons.prems ap(1) in \<open>simp_all, simp_all add: store_def\<close>)
  finally show ?case by (simp add: store_def st8_def add.assoc)
qed simp

lemma mem2hex_text:
  assumes "all_mapped s a n" "apart a n buf (2 * n)" "f \<longrightarrow> \<not> mem_err s" "nat (sint count) = n"
  shows "mem2hex a buf count f s = Inr (buf + of_nat (2 * n),
    s\<lparr>memory := write_list buf (hex_text (string_at (memory s) a n) @ [0]) (memory s),
      mem_fault_routine := \<not> f \<and> mem_fault_routine s\<rparr>)"
  using mem2hex_loop_text [of "if f then s\<lparr>mem_fault_routine := True\<rparr> else s" a n buf f] assms
  by (cases f) (simp_all add: mem2hex_def all_mapped_def write_list_append store_def st8_def)

lemma hex2mem_text:
  assumes "string_at (memory s) buf (2 * length bs) = hex_text bs" "all_mapped s a (length bs)"
    and "apart a (length bs) buf (2 * length bs)" "f \<longrightarrow> \<not> mem_err s" "nat (sint count) = length bs"
  shows "hex2mem buf a count f s = Inr (a + of_nat (length bs),
    s\<lparr>memory := write_list a bs (memory s), mem_fault_routine := \<not> f \<and> mem_fault_routine s\<rparr>)"
  using hex2mem_loop_text [of "if f then s\<lparr>mem_fault_routine := True\<rparr> else s" buf bs a f] assms
  by (cases f) (simp_all add: hex2mem_def all_mapped_def)

section \<open>Parsing and replying\<close>

definition is_hex :: "u8 \<Rightarrow> bool" where
  "is_hex c \<longleftrightarrow> c \<noteq> 0 \<and> sint (hex c) \<ge> 0"

definition hex_value :: "u8 list \<Rightarrow> u32 \<Rightarrow> u32" where
  "hex_value ds v = fold (\<lambda>d v. push_bit 4 v OR hex d) ds v"

lemma hexToInt_loop_text:
  assumes "string_at m ptr (length ds) = ds" "list_all is_hex ds" "\<not> is_hex (m (ptr + of_nat (length ds)))"
  shows "hexToInt_loop m ptr n v = Some (n + of_nat (length ds), hex_value ds v, ptr + of_nat (length ds))"
  using assms
proof (induction ds arbitrary: ptr n v)
  case Nil
  then show ?case by (subst hexToInt_loop.simps) (auto simp: is_hex_def hex_value_def)
next
  case (Cons d ds)
  then have "m ptr = d" "is_hex d" by (simp_all add: string_at_Suc)
  then have "hexToInt_loop m ptr n v = hexToInt_loop m (ptr + 1) (n + 1) (push_bit 4 v OR hex d)"
    by (subst hexToInt_loop.simps) (simp add: is_hex_def)
  with Cons show ?case by (simp add: string_at_Suc hex_value_def add.assoc)
qed

text \<open>The text of the packet at \<open>ptr\<close>: hexadecimal digits, then the rest.\<close>

lemma hexToInt_text:
  assumes "text_of m ptr (ds @ cs)" "list_all is_hex ds" "cs = [] \<or> \<not> is_hex (List.hd cs)"
  shows "hexToInt m ptr = Some (of_nat (length ds), hex_value ds 0, ptr + of_nat (length ds))
    \<and> text_of m (ptr + of_nat (length ds)) cs"
proof -
  have *: "string_at m ptr (length ds) = ds \<and> text_of m (ptr + of_nat (length ds)) cs"
    using assms(1)
  proof (induction ds arbitrary: ptr)
    case (Cons d ds)
    from Cons.IH [of "ptr + 1"] Cons.prems show ?case by (simp add: string_at_Suc add.assoc)
  qed (simp add: string_at_def)
  moreover have "\<not> is_hex (m (ptr + of_nat (length ds)))"
    using * assms(3) by (cases cs) (auto simp: is_hex_def)
  ultimately show ?thesis
    using hexToInt_loop_text [of m ptr ds 0 0] assms(2) by (simp add: hexToInt_def)
qed

lemma of_nat_length_neq_0: "ds \<noteq> [] \<Longrightarrow> length ds < 2 ^ 32 \<Longrightarrow> (of_nat (length ds) :: u32) \<noteq> 0"
  by (intro of_nat_neq_0) simp_all

text \<open>A reply is copied without its terminator.\<close>

lemma reply_text:
  assumes "text_of (memory s) lit ls" "length ls < 2 ^ 32" "apart lit (length ls) (remcomOutBuffer L) (length ls)"
  shows "reply L lit s = Inr (s\<lparr>memory := write_list (remcomOutBuffer L) ls (memory s)\<rparr>)"
proof -
  let ?n = "length ls" and ?b = "remcomOutBuffer L" and ?m = "memory s"
  have str: "string_at ?m lit ?n = ls" and c: "cstring ?m lit ?n" using assms(1) by (simp_all add: text_of_def)
  have n: "unat (of_nat ?n :: u32) = ?n" using assms(2) by (simp add: unat_of_nat_small)
  have "copy_up ?b lit ?n ?m = copied ?b lit ?n ?m"
  proof (rule copy_up_copied)
    show "?b + of_nat i \<noteq> lit + of_nat j" if "i < j" "j < ?n" for i j
      using assms(3) that unfolding apart_def by (metis order.strict_trans)
  qed (use assms(2) in simp)
  also have "\<dots> = write_list ?b ls ?m"
  proof
    fix x
    have "?m (lit + (x - ?b)) = ls ! unat (x - ?b)" if "unat (x - ?b) < ?n"
    proof -
      have "(of_nat (unat (x - ?b)) :: u32) = x - ?b" by simp
      then show ?thesis using string_at_nth [OF that, of ?m lit] str by (simp only:)
    qed
    then show "copied ?b lit ?n ?m x = write_list ?b ls ?m x"
      using assms(2) by (simp add: copied_def write_list_apply)
  qed
  finally show ?thesis
    by (simp add: reply_def strcpy_def strlen_result [OF c] memcpy_def n)
qed

lemma text_of_write_list:
  assumes "text_of m b (xs @ ys)" "length zs = length xs" "0 \<notin> set zs" "length (xs @ ys) < 2 ^ 32"
  shows "text_of (write_list b zs m) b (zs @ ys)"
  using assms
proof (induction xs arbitrary: b zs m)
  case Nil
  then show ?case by simp
next
  case (Cons x xs)
  then obtain z zs' where zs: "zs = z # zs'" by (cases zs) auto
  have frame: "text_of (m(b := z)) (b + 1) (xs @ ys)"
  proof -
    have b: "b + 1 + of_nat i \<noteq> b" if "i \<le> length (xs @ ys)" for i
      using of_nat_neq_0 [of "Suc i"] that Cons.prems(4) by (auto simp: add.assoc)
    then have eq: "(m(b := z)) (b + 1 + of_nat i) = m (b + 1 + of_nat i)" if "i \<le> length (xs @ ys)" for i
      using that by simp
    have "text_of m (b + 1) (xs @ ys)" using Cons.prems(1) by simp
    moreover have "string_at (m(b := z)) (b + 1) (length (xs @ ys)) = string_at m (b + 1) (length (xs @ ys))"
      by (intro string_at_cong eq) simp
    ultimately show ?thesis
      unfolding text_of_def cstring_def using eq by (metis less_imp_le order_refl)
  qed
  have "text_of (write_list (b + 1) zs' (m(b := z))) (b + 1) (zs' @ ys)"
    using frame Cons.prems zs by (intro Cons.IH) (simp_all add: fun_upd_def)
  moreover have "write_list (b + 1) zs' (m(b := z)) b = z"
  proof -
    have "b \<noteq> b + 1 + of_nat i" if "i < length zs'" for i
      using of_nat_neq_0 [of "Suc i"] that Cons.prems(2,4) zs by (auto simp: add.assoc)
    then show ?thesis by (subst write_list_outside) auto
  qed
  ultimately show ?case using Cons.prems(3) zs by simp
qed

lemma getpacket_frame:
  assumes "serial_in s = noise @ frame cs @ rest" and "ch CHR ''$'' \<notin> set noise"
    and "ch CHR ''$'' \<notin> set cs" and "ch CHR ''#'' \<notin> set cs" and "length cs < BUFMAX - 1"
    and "m = write_list (remcomInBuffer L) (cs @ [0]) (memory s)" and "m (remcomInBuffer L + 2) \<noteq> ch CHR '':''"
  shows "getpacket L s = Inr (remcomInBuffer L,
    s\<lparr>serial_in := rest, serial_out := serial_out s @ [ch CHR ''+''], memory := m\<rparr>)"
proof -
  let ?k = "sum_list cs"
  let ?tail = "hexchar (drop_bit 4 ?k) # hexchar (?k mod 16) # rest"
  have "getpacket_round L s = check_packet L ?k (s\<lparr>serial_in := ?tail, memory := m\<rparr>)"
    unfolding assms(6) by (rule getpacket_round_text) (use assms(1-5) in \<open>simp_all add: frame_def\<close>)
  also have "\<dots> = Inr (Some (remcomInBuffer L),
      s\<lparr>serial_in := rest, serial_out := serial_out s @ [ch CHR ''+''], memory := m\<rparr>)"
    using assms(7) by (simp add: check_packet_def decode_byte accept_packet_def putDebugChar_def Let_def)
  finally show ?thesis by (subst getpacket.simps) simp
qed

lemma putpacket_text:
  "text_of (memory s) b cs \<Longrightarrow> serial_in s = ch CHR ''+'' # rest \<Longrightarrow>
    putpacket b s = Inr (s\<lparr>serial_in := rest, serial_out := serial_out s @ frame cs\<rparr>)"
  by (subst putpacket.simps) (simp add: send_packet_text)

lemma text_of_written:
  assumes "0 \<notin> set cs" "length cs + 1 \<le> 2 ^ 32" shows "text_of (write_list b (cs @ [0]) m) b cs"
proof -
  have at: "write_list b (cs @ [0]) m (b + of_nat i) = (cs @ [0]) ! i" if "i \<le> length cs" for i
  proof -
    have "unat (of_nat i :: u32) = i" using that assms(2) by (intro unat_of_nat_small) simp
    then show ?thesis using that assms(2) by (simp add: write_list_apply)
  qed
  have "string_at (write_list b (cs @ [0]) m) b (length cs) = cs"
    by (rule nth_equalityI) (simp_all add: string_at_nth at nth_append)
  moreover have "cs ! i \<noteq> 0" if "i < length cs" for i using nth_mem [OF that] assms(1) by metis
  ultimately show ?thesis by (simp add: text_of_def cstring_def at nth_append)
qed

section \<open>Registers in memory\<close>

lemma registers_apart: "apart (reg_addr L PC) 4 (reg_addr L PS) 4" "apart (reg_addr L PS) 4 (reg_addr L PC) 4"
proof -
  have "unat (of_nat i :: u32) = i" if "i < 100" for i using that by (intro unat_of_nat_small) simp
  then have *: "(of_nat i :: u32) = of_nat j \<longleftrightarrow> i = j" if "i < 100" "j < 100" for i j using that by metis
  have "reg_addr L PC + of_nat i \<noteq> reg_addr L PS + of_nat j" if "i < 4" "j < 4" for i j
    using * [of "32 + i" "36 + j"] that by (simp add: reg_addr_def add.assoc)
  then show "apart (reg_addr L PC) 4 (reg_addr L PS) 4" "apart (reg_addr L PS) 4 (reg_addr L PC) 4"
    unfolding apart_def by metis+
qed

lemma reg_addr_apart:
  assumes "apart (registers L) NUMREGBYTES b n" shows "apart (reg_addr L r) 4 b n"
  unfolding apart_def
proof (intro allI impI)
  fix i j :: nat assume "i < 4" "j < n"
  moreover have "regno r < NUMREGS" by (cases r) (simp_all add: NUMREGS_def)
  ultimately have "registers L + of_nat (4 * regno r + i) \<noteq> b + of_nat j"
    using assms unfolding apart_def by (metis NUMREGBYTES_def add_less_mono less_Suc_eq_le mult.commute
        mult_le_mono2 Suc_leI order.strict_trans2 mult_Suc_right add.commute add_less_cancel_left)
  then show "reg_addr L r + of_nat i \<noteq> b + of_nat j" by (simp add: reg_addr_def add.assoc)
qed

section \<open>An address and a length\<close>

lemma parse_pair:
  assumes "text_of m ptr (da @ ch CHR '','' # dl @ cs)" "list_all is_hex (da @ dl)" "da \<noteq> []" "dl \<noteq> []"
    "length (da @ dl) < 2 ^ 31" "a = hex_value da 0" "cs = [] \<or> \<not> is_hex (List.hd cs)"
  defines "p \<equiv> ptr + of_nat (length da)"
  shows "hexToInt m ptr = Some (of_nat (length da), a, p)" "m p = ch CHR '',''"
    "hexToInt m (p + 1) = Some (of_nat (length dl), hex_value dl 0, p + 1 + of_nat (length dl))"
    "text_of m (p + 1 + of_nat (length dl)) cs"
    "(of_nat (length da) :: u32) \<noteq> 0" "(of_nat (length dl) :: u32) \<noteq> 0"
proof -
  have "\<not> is_hex (ch CHR '','')" by (simp add: is_hex_def hex_def)
  then have 1: "hexToInt m ptr = Some (of_nat (length da), a, p)" "text_of m p (ch CHR '','' # dl @ cs)"
    using hexToInt_text [OF assms(1)] assms(2,6) by (simp_all add: p_def)
  then have 2: "m p = ch CHR '',''" "text_of m (p + 1) (dl @ cs)" by simp_all
  from hexToInt_text [OF 2(2) _ assms(7)] assms(2)
  have 3: "hexToInt m (p + 1) = Some (of_nat (length dl), hex_value dl 0, p + 1 + of_nat (length dl))"
    "text_of m (p + 1 + of_nat (length dl)) cs" by simp_all
  show "hexToInt m ptr = Some (of_nat (length da), a, p)" "m p = ch CHR '',''"
    "hexToInt m (p + 1) = Some (of_nat (length dl), hex_value dl 0, p + 1 + of_nat (length dl))"
    "text_of m (p + 1 + of_nat (length dl)) cs"
    by (rule 1 2 3)+
  show "(of_nat (length da) :: u32) \<noteq> 0" "(of_nat (length dl) :: u32) \<noteq> 0"
    using assms(3-5) by (simp_all add: of_nat_length_neq_0)
qed

section \<open>Properties\<close>

text \<open>\<open>getpacket\<close> skips everything up to a \<open>$\<close>, stores the text of a well-formed packet in the input
  buffer with a terminator, acknowledges it with a plus, and leaves the rest of the line unread.\<close>

theorem getpacket_accepts:
  assumes "serial_in s = noise @ frame cs @ rest" and "ch CHR ''$'' \<notin> set noise"
    and "ch CHR ''$'' \<notin> set cs" and "ch CHR ''#'' \<notin> set cs" and "length cs < BUFMAX - 1"
    and "m = write_list (remcomInBuffer L) (cs @ [0]) (memory s)" and "m (remcomInBuffer L + 2) \<noteq> ch CHR '':''"
  shows "getpacket L s = Inr (remcomInBuffer L,
    s\<lparr>serial_in := rest, serial_out := serial_out s @ [ch CHR ''+''], memory := m\<rparr>)"
  by (rule getpacket_frame [OF assms])

definition demo_layout :: gdb_layout where
  "demo_layout = \<lparr>registers = 0x1000, remcomInBuffer = 0x2000, remcomOutBuffer = 0x3000,
     lit_OK = 0x4000, lit_E01 = 0x4010, lit_E02 = 0x4020, lit_E03 = 0x4030\<rparr>"

definition demo_gdb :: "mem \<Rightarrow> u8 list \<Rightarrow> gdb" where
  "demo_gdb m line = \<lparr>memory = m, mapped = (\<lambda>a. a < 0x8000), serial_in = line, serial_out = [],
     remote_debug = False, mem_fault_routine = False, mem_err = False, messages = []\<rparr>"

lemmas demo_gdb_simps = demo_layout_def demo_gdb_def

theorem getpacket_accepts_witness:
  "getpacket demo_layout (demo_gdb (\<lambda>_. 0) ([0x78] @ frame [0x67] @ [0x21])) =
    Inr (0x2000, (demo_gdb (write_list 0x2000 [0x67, 0] (\<lambda>_. 0)) [0x21])\<lparr>serial_out := [ch CHR ''+'']\<rparr>)"
  using getpacket_accepts [of "demo_gdb (\<lambda>_. 0) ([0x78] @ frame [0x67] @ [0x21])" "[0x78]" "[0x67]"
      "[0x21]" _ demo_layout, OF _ _ _ _ _ refl]
  by (simp add: demo_gdb_simps BUFMAX_def)

text \<open>A packet whose checksum does not match is answered with a minus, and \<open>getpacket\<close> goes on with
  the rest of the line.\<close>

theorem getpacket_rejects:
  assumes "serial_in s = noise @ ch CHR ''$'' # cs @ ch CHR ''#'' # h1 # h2 # rest" and "ch CHR ''$'' \<notin> set noise"
    and "ch CHR ''$'' \<notin> set cs" and "ch CHR ''#'' \<notin> set cs" and "length cs < BUFMAX - 1"
    and "x = ucast (push_bit 4 (hex h1)) + ucast (hex h2)" and "sum_list cs \<noteq> x"
  shows "getpacket L s = getpacket L
    (s\<lparr>serial_in := rest, serial_out := serial_out s @ [ch CHR ''-''],
       memory := write_list (remcomInBuffer L) (cs @ [0]) (memory s),
       messages := messages s @ (if remote_debug s then [Bad_checksum (sum_list cs) x (remcomInBuffer L)] else [])\<rparr>)"
    (is "_ = getpacket L ?s'")
proof -
  have "getpacket_round L s = Inr (None, ?s')"
    using getpacket_round_text [OF assms(1-5), of L] assms(7) unfolding assms(6)
    by (simp add: check_packet_def putDebugChar_def Let_def)
  then show ?thesis by (subst getpacket.simps) simp
qed

theorem getpacket_rejects_witness:
  "getpacket demo_layout (demo_gdb (\<lambda>_. 0) (map of_char ''$g#77$g#67'')) =
   getpacket demo_layout ((demo_gdb (write_list 0x2000 [0x67, 0] (\<lambda>_. 0)) (map of_char ''$g#67''))
      \<lparr>serial_out := [ch CHR ''-'']\<rparr>)"
  using getpacket_rejects [of "demo_gdb (\<lambda>_. 0) (map of_char ''$g#77$g#67'')" "[]" "[0x67]"
      "ch CHR ''7''" "ch CHR ''7''" "map of_char ''$g#67''" _ demo_layout, OF _ _ _ _ _ refl]
  by (simp add: demo_gdb_simps BUFMAX_def hex_def push_bit_eq_mult)

text \<open>\<open>putpacket\<close> sends the text between \<open>$\<close> and \<open>#\<close> with the two digits of its checksum, and sends it
  again for every answer other than a plus, however many there are.\<close>

theorem putpacket_retransmits:
  assumes "text_of (memory s) b cs" and "serial_in s = naks @ ch CHR ''+'' # rest" and "ch CHR ''+'' \<notin> set naks"
  shows "putpacket b s = Inr (s\<lparr>serial_in := rest,
    serial_out := serial_out s @ concat (replicate (Suc (length naks)) (frame cs))\<rparr>)"
  using assms
proof (induction naks arbitrary: s)
  case Nil
  then show ?case by (subst putpacket.simps) (simp add: send_packet_text)
next
  case (Cons c naks)
  let ?s = "s\<lparr>serial_in := naks @ ch CHR ''+'' # rest, serial_out := serial_out s @ frame cs\<rparr>"
  have "putpacket b s = putpacket b ?s"
    using Cons.prems by (subst putpacket.simps) (cases s, simp add: send_packet_text)
  also have "\<dots> = Inr (?s\<lparr>serial_in := rest,
      serial_out := serial_out ?s @ concat (replicate (Suc (length naks)) (frame cs))\<rparr>)"
    using Cons.prems by (intro Cons.IH) simp_all
  finally show ?case by simp
qed

theorem putpacket_retransmits_witness:
  "putpacket 0x3000 (demo_gdb (\<lambda>a. if a = 0x3000 then 0x61 else 0) [0x2D, 0x2B]) =
    Inr ((demo_gdb (\<lambda>a. if a = 0x3000 then 0x61 else 0) [])\<lparr>serial_out := frame [0x61] @ frame [0x61]\<rparr>)"
  using putpacket_retransmits [of "demo_gdb (\<lambda>a. if a = 0x3000 then 0x61 else 0) [0x2D, 0x2B]" "0x3000" "[0x61]" "[0x2D]" "[]"]
  by (simp add: demo_gdb_simps)

text \<open>C24. A packet sent by \<open>putpacket\<close> and read by the \<open>getpacket\<close> of a second stub arrives as the same
  text, when the text has no character that delimits packets.\<close>

theorem packet_roundtrip:
  assumes "text_of (memory s) b cs" and "serial_in s = [ch CHR ''+'']" and "serial_out s = []"
    and "ch CHR ''$'' \<notin> set cs" and "ch CHR ''#'' \<notin> set cs" and "length cs < BUFMAX - 1"
    and "putpacket b s = Inr s'" and "serial_in t = serial_out s'"
    and "(if length cs < 2 then memory t (remcomInBuffer L + 2) else (cs @ [0]) ! 2) \<noteq> ch CHR '':''"
  shows "\<exists>t'. getpacket L t = Inr (remcomInBuffer L, t') \<and> text_of (memory t') (remcomInBuffer L) cs
    \<and> serial_in t' = [] \<and> serial_out t' = serial_out t @ [ch CHR ''+'']"
proof -
  have cs0: "0 \<notin> set cs" using assms(1)
    by (induction cs arbitrary: b) auto
  have "serial_out s' = frame cs" using assms(2,3,7) putpacket_text [OF assms(1), of "[]"] by auto
  then have line: "serial_in t = [] @ frame cs @ []" using assms(8) by simp
  let ?m = "write_list (remcomInBuffer L) (cs @ [0]) (memory t)"
  have "?m (remcomInBuffer L + 2) \<noteq> ch CHR '':''"
    using assms(6,9) by (simp add: write_list_apply BUFMAX_def less_Suc_eq_le not_less split: if_splits)
  from getpacket_frame [OF line _ assms(4-6) refl this] text_of_written [OF cs0] assms(6)
  show ?thesis by (simp add: BUFMAX_def)
qed

theorem packet_roundtrip_witness:
  "\<exists>t'. getpacket demo_layout (demo_gdb (\<lambda>_. 0) (frame [0x61])) = Inr (0x2000, t') \<and> text_of (memory t') 0x2000 [0x61]"
  using packet_roundtrip [of "demo_gdb (\<lambda>a. if a = 0x3000 then 0x61 else 0) [0x2B]" "0x3000" "[0x61]" _
      "demo_gdb (\<lambda>_. 0) (frame [0x61])" demo_layout,
      OF _ _ _ _ _ _ putpacket_text [of "demo_gdb (\<lambda>a. if a = 0x3000 then 0x61 else 0) [0x2B]" "0x3000" "[0x61]" "[]"]]
  by (auto simp: demo_gdb_simps BUFMAX_def)

text \<open>The hexadecimal text \<open>mem2hex\<close> makes of a block of memory, given back to \<open>hex2mem\<close>, restores the
  block, whatever was written to it in between.\<close>

theorem hex_memory_roundtrip:
  assumes "all_mapped s a n" and "apart a n buf (2 * n)" and "n < 2 ^ 30" and "\<not> mem_err s"
    and "mem2hex a buf (of_nat n) f s = Inr (p, s')"
    and "string_at (memory t) buf (2 * n) = string_at (memory s') buf (2 * n)" and "mapped t = mapped s" and "\<not> mem_err t"
  shows "\<exists>t'. hex2mem buf a (of_nat n) f t = Inr (a + of_nat n, t')
    \<and> string_at (memory t') a n = string_at (memory s) a n"
proof -
  let ?bs = "string_at (memory s) a n"
  have n: "nat (sint (of_nat n :: u32)) = n" using assms(3) by (simp add: sint_of_nat_small)
  have "memory s' = write_list buf (hex_text ?bs @ [0]) (memory s)"
    using assms(5) mem2hex_text [OF assms(1,2) _ n, of f] assms(4) by auto
  then have "string_at (memory s') buf (2 * n) = hex_text ?bs"
    using assms(3)
    by (intro nth_equalityI) (simp_all add: string_at_nth write_list_apply unat_of_nat_small nth_append)
  with assms(6) have hx: "string_at (memory t) buf (2 * length ?bs) = hex_text ?bs" by simp
  have mapped: "all_mapped t a (length ?bs)" using assms(1,7) by (simp add: all_mapped_def)
  have ap: "apart a (length ?bs) buf (2 * length ?bs)" using assms(2) by simp
  have n': "nat (sint (of_nat n :: u32)) = length ?bs" using n by simp
  have "string_at (write_list a ?bs (memory t)) a n = ?bs"
    using string_at_write_list [of ?bs a "memory t"] assms(3) by simp
  with hex2mem_text [OF hx mapped ap _ n', of f] assms(8) show ?thesis by simp
qed

theorem hex_memory_roundtrip_witness:
  "\<exists>t'. hex2mem 0x3000 0x5000 2 True (demo_gdb (write_list 0x3000 (hex_text [0xAB, 0x07]) (\<lambda>_. 0)) []) = Inr (0x5002, t')
    \<and> string_at (memory t') 0x5000 2 = [0xAB, 0x07]"
proof -
  let ?s = "demo_gdb (write_list 0x5000 [0xAB, 0x07] (\<lambda>_. 0)) []"
  let ?t = "demo_gdb (write_list 0x3000 (hex_text [0xAB, 0x07]) (\<lambda>_. 0)) []"
  have at: "string_at (memory ?s) 0x5000 2 = [0xAB, 0x07]" by (simp add: demo_gdb_simps numeral_2_eq_2 string_at_Suc string_at_def [of _ _ 0])
  have m: "all_mapped ?s 0x5000 2" "apart 0x5000 2 0x3000 (2 * 2)"
    by (simp_all add: region_check demo_gdb_simps upt_conv_Cons)
  have "mem2hex 0x5000 0x3000 (of_nat 2) True ?s = Inr (0x3004, ?s\<lparr>memory := write_list 0x3000 (hex_text [0xAB, 0x07] @ [0]) (memory ?s)\<rparr>)"
    using mem2hex_text [OF m, of True 2] at by (simp add: demo_gdb_def)
  from hex_memory_roundtrip [OF m _ _ this, of ?t] at show ?thesis
    by (simp add: demo_gdb_simps string_at_def upt_conv_Cons)
qed

text \<open>The command \<open>m\<close> with address \<open>a\<close> and length \<open>n\<close> of a mapped block leaves the block's hexadecimal
  text and a terminator in the output buffer, \<open>2 * n + 1\<close> characters whatever the size of the buffer.\<close>

theorem cmd_read_correct:
  assumes "text_of (memory s) ptr (da @ ch CHR '','' # dl)" and "list_all is_hex (da @ dl)" and "da \<noteq> []" and "dl \<noteq> []"
    and "length (da @ dl) < 2 ^ 31" and "a = hex_value da 0" and "n = nat (sint (hex_value dl 0))"
    and "all_mapped s a n" and "apart a n (remcomOutBuffer L) (2 * n)"
  shows "cmd_read L ptr s = Inr (s\<lparr>mem_err := False,
    memory := write_list (remcomOutBuffer L) (hex_text (string_at (memory s) a n) @ [0]) (memory s),
    mem_fault_routine := False\<rparr>)"
proof -
  have "text_of (memory s) ptr (da @ ch CHR '','' # dl @ [])" using assms(1) by simp
  note parse = parse_pair [OF this assms(2-6) disjI1 [OF refl]]
  have "all_mapped (s\<lparr>mem_err := False\<rparr>) a n" "True \<longrightarrow> \<not> mem_err (s\<lparr>mem_err := False\<rparr>)"
    using assms(8) by simp_all
  note 5 = mem2hex_text [OF this(1) assms(9) this(2) assms(7) [symmetric]]
  show ?thesis
    unfolding cmd_read_def parse(1) loop_simps bind_res.simps prod.case parse(2) parse(3) 5
    using parse(5,6) by simp
qed

theorem cmd_read_correct_witness:
  "string_at (case cmd_read demo_layout 0x2001 (demo_gdb (write_list 0x2001 (map of_char ''5000,2'') (\<lambda>_. 0)) [])
     of Inr s \<Rightarrow> memory s) 0x3000 4 = map of_char ''0000''"
proof -
  let ?s = "demo_gdb (write_list 0x2001 (map of_char ''5000,2'') (\<lambda>_. 0)) []"
  have v: "hex_value (map of_char ''5000'') 0 = 0x5000" "nat (sint (hex_value (map of_char ''2'') 0)) = 2"
    by (simp_all add: hex_value_def hex_def push_bit_eq_mult)
  have h: "list_all is_hex (map of_char ''5000'' @ map of_char ''2'')" by (simp add: is_hex_def hex_def)
  have r: "all_mapped ?s 0x5000 2" "apart 0x5000 2 (remcomOutBuffer demo_layout) (2 * 2)"
    by (simp_all add: region_check demo_gdb_simps upt_conv_Cons)
  have t: "text_of (memory ?s) 0x2001 (map of_char ''5000'' @ ch CHR '','' # map of_char ''2'')"
    by (simp add: demo_gdb_def)
  from cmd_read_correct [OF t h _ _ _ v(1) [symmetric] v(2) [symmetric] r] show ?thesis
    by (simp add: demo_gdb_simps string_at_def upt_conv_Cons hexchar_def hexchars_def)
qed

text \<open>When a byte of the block is not mapped, \<open>mem_err\<close> is set and the reply is \<open>E03\<close>, but copied
  over the digits already written and without a terminator: the packet goes on with the digits of the
  bytes before the fault.\<close>

theorem cmd_read_fault:
  assumes "text_of (memory s) ptr (da @ ch CHR '','' # dl)" and "list_all is_hex (da @ dl)" and "da \<noteq> []" and "dl \<noteq> []"
    and "length (da @ dl) < 2 ^ 31" and "a = hex_value da 0" and "k < nat (sint (hex_value dl 0))"
    and "all_mapped s a k" and "\<not> mapped s (a + of_nat k)" and "apart a k (remcomOutBuffer L) (2 * k)"
    and "m = write_list (remcomOutBuffer L) (hex_text (string_at (memory s) a k)) (memory s)"
    and "text_of m (lit_E03 L) es" and "length es = 3" and "apart (lit_E03 L) 3 (remcomOutBuffer L) 3"
  shows "\<exists>s'. cmd_read L ptr s = Inr s' \<and> mem_err s' \<and> memory s' = write_list (remcomOutBuffer L) es m"
proof -
  let ?b = "remcomOutBuffer L"
  have "text_of (memory s) ptr (da @ ch CHR '','' # dl @ [])" using assms(1) by simp
  note parse = parse_pair [OF this assms(2-6) disjI1 [OF refl]]
  let ?s1 = "s\<lparr>mem_err := False, mem_fault_routine := True\<rparr>"
  let ?s2 = "s\<lparr>memory := m, mem_err := True, mem_fault_routine := False\<rparr>"
  have "mem2hex_loop True (nat (sint (hex_value dl 0))) a ?b ?s1 = Inr (False, ?b + of_nat (2 * k), ?s2)"
    using mem2hex_loop_fault [OF assms(7), of ?s1 a ?b] assms(8-11) by simp
  then have 5: "mem2hex a ?b (hex_value dl 0) True (s\<lparr>mem_err := False\<rparr>) = Inr (?b + of_nat (2 * k), ?s2)"
    by (simp add: mem2hex_def)
  have 6: "reply L (lit_E03 L) ?s2 = Inr (?s2\<lparr>memory := write_list ?b es m\<rparr>)"
    using reply_text [of ?s2 "lit_E03 L" es L] assms(12-14) by simp
  show ?thesis
    unfolding cmd_read_def using parse(1-3,5,6) 5 6 by (simp add: debug_error_def)
qed

theorem cmd_read_fault_witness:
  "\<exists>s'. cmd_read demo_layout 0x2001
      (demo_gdb (write_list 0x4030 (map of_char ''E03'') (write_list 0x2001 (map of_char ''7FFE,4'') (\<lambda>_. 0))) []) = Inr s'
    \<and> string_at (memory s') 0x3000 4 = map of_char ''E030''"
proof -
  let ?m = "write_list 0x4030 (map of_char ''E03'') (write_list 0x2001 (map of_char ''7FFE,4'') (\<lambda>_. 0)) :: mem"
  let ?s = "demo_gdb ?m []"
  have v: "hex_value (map of_char ''7FFE'') 0 = 0x7FFE" "hex_value (map of_char ''4'') 0 = 4"
    by (simp_all add: hex_value_def hex_def push_bit_eq_mult)
  have h: "list_all is_hex (map of_char ''7FFE'' @ map of_char ''4'')" by (simp add: is_hex_def hex_def)
  have r: "all_mapped ?s 0x7FFE 2" "\<not> mapped ?s (0x7FFE + of_nat 2)" "apart 0x7FFE 2 (remcomOutBuffer demo_layout) (2 * 2)"
    "apart (lit_E03 demo_layout) 3 (remcomOutBuffer demo_layout) 3"
    by (simp_all add: region_check demo_gdb_simps upt_conv_Cons)
  have t: "text_of (memory ?s) 0x2001 (map of_char ''7FFE'' @ ch CHR '','' # map of_char ''4'')"
    by (simp add: demo_gdb_def)
  have e: "text_of (write_list (remcomOutBuffer demo_layout) (hex_text (string_at (memory ?s) 0x7FFE 2)) (memory ?s))
      (lit_E03 demo_layout) (map of_char ''E03'')"
    by (simp add: demo_gdb_simps string_at_def upt_conv_Cons)
  have k: "2 < nat (sint (hex_value (map of_char ''4'') 0))" by (simp add: hex_value_def hex_def push_bit_eq_mult)
  from cmd_read_fault [OF t h _ _ _ v(1) [symmetric] k r(1-3) refl e _ r(4)] show ?thesis
    by (fastforce simp: demo_gdb_simps string_at_def upt_conv_Cons hexchar_def hexchars_def)
qed

text \<open>The command \<open>M\<close> with address, length and the hexadecimal text of as many bytes stores the bytes
  and answers \<open>OK\<close>, again without a terminator.\<close>

theorem cmd_write_correct:
  assumes "text_of (memory s) ptr (da @ ch CHR '','' # dl @ ch CHR '':'' # hex_text bs)" and "list_all is_hex (da @ dl)"
    and "da \<noteq> []" and "dl \<noteq> []" and "length (da @ dl) < 2 ^ 31" and "a = hex_value da 0"
    and "nat (sint (hex_value dl 0)) = length bs" and "all_mapped s a (length bs)"
    and "buf = ptr + of_nat (length da) + 1 + of_nat (length dl) + 1" and "apart a (length bs) buf (2 * length bs)"
    and "m = write_list a bs (memory s)" and "text_of m (lit_OK L) ok" and "length ok = 2"
    and "apart (lit_OK L) 2 (remcomOutBuffer L) 2"
  shows "\<exists>s'. cmd_write L ptr s = Inr s' \<and> \<not> mem_err s' \<and> memory s' = write_list (remcomOutBuffer L) ok m"
proof -
  have "\<not> is_hex (ch CHR '':'')" by (simp add: is_hex_def hex_def)
  then have "ch CHR '':'' # hex_text bs = [] \<or> \<not> is_hex (List.hd (ch CHR '':'' # hex_text bs))" by simp
  note parse = parse_pair [OF assms(1-6) this]
  let ?q = "ptr + of_nat (length da) + 1 + of_nat (length dl)"
  have q: "memory s ?q = ch CHR '':''" "text_of (memory s) buf (hex_text bs)"
    using parse(4) by (simp_all add: assms(9))
  have str: "string_at (memory (s\<lparr>mem_err := False\<rparr>)) buf (2 * length bs) = hex_text bs"
    using q(2) by (simp add: text_of_def)
  have "all_mapped (s\<lparr>mem_err := False\<rparr>) a (length bs)" "True \<longrightarrow> \<not> mem_err (s\<lparr>mem_err := False\<rparr>)"
    using assms(8) by simp_all
  note 5 = hex2mem_text [OF str this(1) assms(10) this(2) assms(7)]
  let ?s2 = "s\<lparr>mem_err := False, memory := m, mem_fault_routine := False\<rparr>"
  have 6: "reply L (lit_OK L) ?s2 = Inr (?s2\<lparr>memory := write_list (remcomOutBuffer L) ok m\<rparr>)"
    using reply_text [of ?s2 "lit_OK L" ok L] assms(12-14) by simp
  show ?thesis
    unfolding cmd_write_def parse(1) loop_simps bind_res.simps prod.case parse(2) parse(3) q(1) assms(9) [symmetric] 5
    using parse(5,6) 6 by (simp add: assms(11))
qed

theorem cmd_write_correct_witness:
  "\<exists>s'. cmd_write demo_layout 0x2001
      (demo_gdb (write_list 0x4000 (map of_char ''OK'') (write_list 0x2001 (map of_char ''5000,1:7f'') (\<lambda>_. 0))) []) = Inr s'
    \<and> memory s' 0x5000 = 0x7F"
proof -
  let ?m = "write_list 0x4000 (map of_char ''OK'') (write_list 0x2001 (map of_char ''5000,1:7f'') (\<lambda>_. 0)) :: mem"
  let ?s = "demo_gdb ?m []"
  have v: "hex_value (map of_char ''5000'') 0 = 0x5000" "nat (sint (hex_value (map of_char ''1'') 0)) = length [0x7F :: u8]"
    by (simp_all add: hex_value_def hex_def push_bit_eq_mult)
  have h: "list_all is_hex (map of_char ''5000'' @ map of_char ''1'')" by (simp add: is_hex_def hex_def)
  have r: "all_mapped ?s 0x5000 (length [0x7F :: u8])" "apart 0x5000 (length [0x7F :: u8]) 0x2008 (2 * length [0x7F :: u8])"
    "apart (lit_OK demo_layout) 2 (remcomOutBuffer demo_layout) 2"
    by (simp_all add: region_check demo_gdb_simps upt_conv_Cons)
  have t: "text_of (memory ?s) 0x2001 (map of_char ''5000'' @ ch CHR '','' # map of_char ''1'' @ ch CHR '':'' # hex_text [0x7F])"
    by (simp add: demo_gdb_def hexchar_def hexchars_def drop_bit_eq_div)
  have e: "text_of (write_list 0x5000 [0x7F] (memory ?s)) (lit_OK demo_layout) (map of_char ''OK'')"
    by (simp add: demo_gdb_simps)
  from cmd_write_correct [OF t h _ _ _ v(1) [symmetric] v(2) r(1) _ r(2) refl e _ r(3)] show ?thesis
    by (fastforce simp: demo_gdb_simps)
qed

text \<open>Every literal reply is followed by what is left in the output buffer: over an old packet text
  \<open>old\<close>, whose first character the command loop has cleared, a reply of \<open>n\<close> characters sends the reply and
  \<open>old\<close> from its character \<open>n\<close> on.\<close>

theorem reply_stale:
  assumes "text_of (memory s) (remcomOutBuffer L + 1) old" and "text_of (memory s) (lit_OK L) [o1, o2]"
    and "apart (lit_OK L) 2 (remcomOutBuffer L) 2" and "old \<noteq> []" and "length old < 2 ^ 31"
  shows "\<exists>s'. reply L (lit_OK L) s = Inr s' \<and> send_packet (remcomOutBuffer L) s' =
    Inr (s'\<lparr>serial_out := serial_out s @ frame (o1 # o2 # List.tl old)\<rparr>)"
proof -
  let ?b = "remcomOutBuffer L"
  obtain o' olds where old: "old = o' # olds" using assms(4) by (cases old) auto
  have ok: "o1 \<noteq> 0" "o2 \<noteq> 0" using assms(2) by simp_all
  have "apart (lit_OK L) (length [o1, o2]) ?b (length [o1, o2])" using assms(3) by (simp add: numeral_2_eq_2)
  then have rep: "reply L (lit_OK L) s = Inr (s\<lparr>memory := write_list ?b [o1, o2] (memory s)\<rparr>)"
    by (rule reply_text [OF assms(2), rotated]) simp
  have b: "?b + 1 + of_nat i \<noteq> ?b" if "i \<le> length old" for i
    using of_nat_neq_0 [of "Suc i"] that assms(5) by (auto simp: add.assoc)
  then have eq: "((memory s)(?b := o1)) (?b + 1 + of_nat i) = memory s (?b + 1 + of_nat i)" if "i \<le> length old" for i
    using that by simp
  have "string_at ((memory s)(?b := o1)) (?b + 1) (length old) = string_at (memory s) (?b + 1) (length old)"
    by (intro string_at_cong eq) simp
  then have "text_of ((memory s)(?b := o1)) (?b + 1) ([o'] @ olds)"
    using assms(1) eq [of "length old"] eq unfolding text_of_def cstring_def by (simp add: old)
  then have "text_of (write_list (?b + 1) [o2] ((memory s)(?b := o1))) (?b + 1) ([o2] @ olds)"
    by (rule text_of_write_list) (use ok assms(5) old in simp_all)
  then have "text_of (memory (s\<lparr>memory := write_list ?b [o1, o2] (memory s)\<rparr>)) ?b (o1 # o2 # olds)"
    using ok by simp
  from send_packet_text [OF this] rep show ?thesis by (simp add: old)
qed

theorem reply_stale_witness:
  "\<exists>s'. reply demo_layout 0x4000 (demo_gdb (write_list 0x3001 (map of_char ''12'') (write_list 0x4000 (map of_char ''OK'') (\<lambda>_. 0))) []) = Inr s'
    \<and> send_packet 0x3000 s' = Inr (s'\<lparr>serial_out := frame (map of_char ''OK2'')\<rparr>)"
  using reply_stale [of "demo_gdb (write_list 0x3001 (map of_char ''12'') (write_list 0x4000 (map of_char ''OK'') (\<lambda>_. 0))) []"
      demo_layout "map of_char ''12''" "ch CHR ''O''" "ch CHR ''K''"]
  by (simp add: demo_gdb_simps region_check upt_conv_Cons)

text \<open>Continuing with an address sets the saved program counter to it, without one keeps it; the trace
  bit of the saved flags is set when stepping and cleared when not, the other flags are kept.\<close>

theorem cmd_resume_correct:
  assumes "text_of (memory s) ptr ds" and "list_all is_hex ds" and "length ds < 2 ^ 31"
    and "apart (registers L) NUMREGBYTES (remcomOutBuffer L) BUFMAX"
  shows "\<exists>s'. cmd_resume L stepping ptr s = Inr s'
    \<and> ld32 (memory s') (reg_addr L PC) = (if ds = [] then ld32 (memory s) (reg_addr L PC) else hex_value ds 0)
    \<and> ld32 (memory s') (reg_addr L PS) =
        (ld32 (memory s) (reg_addr L PS) AND 0xFFFFFEFF) OR (if stepping then 0x100 else 0)"
proof -
  let ?pc = "reg_addr L PC" and ?ps = "reg_addr L PS" and ?b = "remcomOutBuffer L"
  have parse: "hexToInt (memory s) ptr = Some (of_nat (length ds), hex_value ds 0, ptr + of_nat (length ds))"
    using hexToInt_text [of "memory s" ptr ds "[]"] assms(1,2) by simp
  have n: "(of_nat (length ds) :: u32) = 0 \<longleftrightarrow> ds = []"
    using of_nat_length_neq_0 [of ds] assms(3) by auto
  define m1 where "m1 = (if ds = [] then memory s else st32 ?pc (hex_value ds 0) (memory s))"
  define m2 where "m2 = st32 ?ps (ld32 m1 ?ps AND 0xFFFFFEFF) m1"
  define m3 where "m3 = (if stepping then st32 ?ps (ld32 m2 ?ps OR 0x100) m2 else m2)"
  let ?m = "write_list ?b (replicate BUFMAX 0) m3"
  have buf: "snd (memset ?b 0 (of_nat BUFMAX) m) = write_list ?b (replicate BUFMAX 0) m" for m
    by (simp add: memset_def fill_up_write_list BUFMAX_def)
  have out: "ld32 ?m (reg_addr L r) = ld32 m3 (reg_addr L r)" for r
    by (rule ld32_write_list) (use reg_addr_apart [OF assms(4)] in simp)
  have "cmd_resume L stepping ptr s = Inr (s\<lparr>memory := ?m\<rparr>)"
    by (simp add: cmd_resume_def parse n buf m1_def m2_def m3_def Let_def)
  moreover have "ld32 m3 ?pc = ld32 m1 ?pc" "ld32 m1 ?ps = ld32 (memory s) ?ps"
    by (simp_all add: m3_def m2_def m1_def ld32_st32_apart registers_apart)
  moreover have "ld32 m3 ?ps = (ld32 m1 ?ps AND 0xFFFFFEFF) OR (if stepping then 0x100 else 0)"
    by (simp add: m3_def m2_def)
  ultimately show ?thesis by (simp add: out m1_def)
qed

theorem cmd_resume_correct_witness:
  "\<exists>s'. cmd_resume demo_layout True 0x2001 (demo_gdb (write_list 0x2001 (map of_char ''7c00'') (\<lambda>_. 0)) []) = Inr s'
    \<and> ld32 (memory s') 0x1020 = 0x7C00 \<and> ld32 (memory s') 0x1024 = 0x100"
proof -
  let ?s = "demo_gdb (write_list 0x2001 (map of_char ''7c00'') (\<lambda>_. 0)) []"
  have h: "list_all is_hex (map of_char ''7c00'')" by (simp add: is_hex_def hex_def)
  have "apart 0x1000 64 0x3000 400"
  proof -
    have "(0x1000 :: addr) + of_nat i \<noteq> 0x3000 + of_nat j" if "i < 64" "j < 400" for i j
    proof -
      have "unat ((0x1000 :: addr) + of_nat i) = 0x1000 + i" "unat ((0x3000 :: addr) + of_nat j) = 0x3000 + j"
        using that by (simp_all add: unat_add_of_nat)
      then show ?thesis using that by force
    qed
    then show ?thesis by (simp add: apart_def)
  qed
  then have a: "apart (registers demo_layout) NUMREGBYTES (remcomOutBuffer demo_layout) BUFMAX"
    by (simp add: demo_layout_def NUMREGBYTES_def NUMREGS_def BUFMAX_def)
  have t: "text_of (memory ?s) 0x2001 (map of_char ''7c00'')" by (simp add: demo_gdb_def)
  from cmd_resume_correct [OF t h _ a, of True] show ?thesis
    by (simp add: demo_gdb_simps reg_addr_def ld32_def hex_value_def hex_def push_bit_eq_mult)
qed

end
