(* ===== verification/Blocks.thy ===== *)
theory Blocks
  imports CString
begin

text \<open>
  Blocks of memory: a structure at an address occupies a number of bytes; every write of the C code is
  the write of a list of bytes, and leaves the blocks it does not touch alone.
\<close>

section \<open>Writes as lists of bytes\<close>

lemma st8_list: "st8 a v m = write_list a [v] m"
  by (simp add: st8_def)

lemma st16_list: "st16 a v m = write_list a [ucast v, ucast (drop_bit 8 v)] m"
  by (simp add: st16_def)

lemma st32_list:
  "st32 a v m = write_list a [ucast v, ucast (drop_bit 8 v), ucast (drop_bit 16 v), ucast (drop_bit 24 v)] m"
  by (simp add: st32_def add.assoc)

lemmas st_list = st8_list st16_list st32_list fill_up_write_list

lemma write_list_nth:
  assumes "i < length bs" "length bs \<le> 2 ^ 32"
  shows "write_list a bs m (a + of_nat i) = bs ! i"
proof -
  have "unat (of_nat i :: u32) = i" using assms by (intro unat_of_nat_small) simp
  with assms show ?thesis by (simp add: write_list_apply)
qed

lemma ld16_bytes: "m a = ucast v \<Longrightarrow> m (a + 1) = ucast (drop_bit 8 v) \<Longrightarrow> ld16 m a = v"
  using ld16_st16 [of a v m] by (simp add: ld16_def st16_def)

lemma low_masks: "(0xFFFF :: u32) = mask 16" "(0xFF :: u32) = mask 8" "(0x0F :: u32) = mask 4" "(0x0F :: u8) = mask 4"
  by (simp_all add: mask_eq_exp_minus_1)

text \<open>The bytes of a word and of its halves.\<close>

lemma word_parts:
  fixes w :: u32
  shows "(ucast (ucast w :: u16) :: u8) = ucast w"
    "(ucast (drop_bit 8 (ucast w :: u16)) :: u8) = ucast (drop_bit 8 w)"
    "(ucast (w AND 0xFFFF) :: u16) = ucast w" "(ucast (w AND 0xFF) :: u8) = ucast w"
    "(ucast (w AND 0x0F) :: u8) = ucast w AND 0x0F"
  unfolding low_masks by (rule bit_word_eqI; auto simp: bit_simps)+

section \<open>Disjoint blocks\<close>

lemma apart_if:
  assumes "n \<le> unat (b - a)" "k \<le> unat (a - b)" shows "apart a n b k"
  unfolding apart_def
proof (intro allI impI notI)
  fix i j :: nat assume i: "i < n" "j < k" and eq: "a + of_nat i = b + of_nat j"
  have lim: "unat (b - a) < 2 ^ 32" "unat (a - b) < 2 ^ 32" using unsigned_less [of "b - a"] unsigned_less [of "a - b"] by simp_all
  show False
  proof (cases "j \<le> i")
    case True
    then have "b - a = of_nat (i - j)" using eq by (simp add: algebra_simps)
    moreover have "unat (of_nat (i - j) :: u32) = i - j" using i assms lim by (intro unat_of_nat_small) simp
    ultimately have "unat (b - a) = i - j" by (simp only:)
    with i assms show False by simp
  next
    case False
    then have "a - b = of_nat (j - i)" using eq by (simp add: algebra_simps)
    moreover have "unat (of_nat (j - i) :: u32) = j - i" using i assms lim by (intro unat_of_nat_small) simp
    ultimately have "unat (a - b) = j - i" by (simp only:)
    with i assms show False by simp
  qed
qed

lemma apart_part:
  assumes "apart a n b k" "i + n' \<le> n" "j + k' \<le> k" shows "apart (a + of_nat i) n' (b + of_nat j) k'"
  unfolding apart_def
proof (intro allI impI)
  fix x y assume "x < n'" "y < k'"
  then have "a + of_nat (i + x) \<noteq> b + of_nat (j + y)" using assms unfolding apart_def by (metis add_less_cancel_left less_le_trans)
  then show "a + of_nat i + of_nat x \<noteq> b + of_nat j + of_nat y" by (simp add: add.assoc)
qed

lemma apart_sym: "apart a n b k \<Longrightarrow> apart b k a n"
  unfolding apart_def by metis

text \<open>What lies in block \<open>a\<close> is not changed by a write in block \<open>b\<close>.\<close>

lemma write_list_apart:
  "apart a n b k \<Longrightarrow> i < n \<Longrightarrow> length bs \<le> k \<Longrightarrow> write_list b bs m (a + of_nat i) = m (a + of_nat i)"
  by (rule write_list_outside) (auto simp: apart_def)

lemma write_list_part:
  "apart a n t k \<Longrightarrow> j + length bs \<le> k \<Longrightarrow> i < n \<Longrightarrow>
    write_list (t + of_nat j) bs m (a + of_nat i) = m (a + of_nat i)"
  using write_list_apart [OF apart_part [of a n t k 0 n j "length bs"], of i bs m] by simp

lemma ld_write_list_apart:
  assumes "apart a n b k" "length bs \<le> k"
  shows "i < n \<Longrightarrow> write_list b bs m (a + of_nat i) = m (a + of_nat i)"
    "i + 2 \<le> n \<Longrightarrow> ld16 (write_list b bs m) (a + of_nat i) = ld16 m (a + of_nat i)"
    "i + 4 \<le> n \<Longrightarrow> ld32 (write_list b bs m) (a + of_nat i) = ld32 m (a + of_nat i)"
proof -
  note w = write_list_apart [OF assms(1) _ assms(2), of _ m]
  show "i < n \<Longrightarrow> write_list b bs m (a + of_nat i) = m (a + of_nat i)" by (rule w)
  show "i + 2 \<le> n \<Longrightarrow> ld16 (write_list b bs m) (a + of_nat i) = ld16 m (a + of_nat i)"
    using w [of i] w [of "i + 1"] by (simp add: ld16_def ac_simps)
  show "i + 4 \<le> n \<Longrightarrow> ld32 (write_list b bs m) (a + of_nat i) = ld32 m (a + of_nat i)"
    using w [of i] w [of "i + 1"] w [of "i + 2"] w [of "i + 3"] by (simp add: ld32_def ac_simps)
qed

section \<open>Words at a distance\<close>

lemma ld_st_far:
  "4 \<le> b - a \<Longrightarrow> 4 \<le> a - b \<Longrightarrow> ld32 (st32 b v m) a = ld32 m a"
  "4 \<le> b - a \<Longrightarrow> 2 \<le> a - b \<Longrightarrow> ld32 (st16 b w m) a = ld32 m a"
  "2 \<le> b - a \<Longrightarrow> 4 \<le> a - b \<Longrightarrow> ld16 (st32 b v m) a = ld16 m a"
  "2 \<le> b - a \<Longrightarrow> 2 \<le> a - b \<Longrightarrow> ld16 (st16 b w m) a = ld16 m a"
proof -
  have ap: "x \<le> b - a \<Longrightarrow> y \<le> a - b \<Longrightarrow> apart a (unat x) b (unat y)" for x y :: u32
    by (rule apart_if) (simp_all add: word_le_nat_alt)
  show "4 \<le> b - a \<Longrightarrow> 4 \<le> a - b \<Longrightarrow> ld32 (st32 b v m) a = ld32 m a"
    using ld_write_list_apart(3) [OF ap [of 4 4], where bs = "[ucast v, ucast (drop_bit 8 v), ucast (drop_bit 16 v), ucast (drop_bit 24 v)]" and i = 0 and m = m]
    by (simp add: st32_list)
  show "4 \<le> b - a \<Longrightarrow> 2 \<le> a - b \<Longrightarrow> ld32 (st16 b w m) a = ld32 m a"
    using ld_write_list_apart(3) [OF ap [of 4 2], where bs = "[ucast w, ucast (drop_bit 8 w)]" and i = 0 and m = m] by (simp add: st16_list)
  show "2 \<le> b - a \<Longrightarrow> 4 \<le> a - b \<Longrightarrow> ld16 (st32 b v m) a = ld16 m a"
    using ld_write_list_apart(2) [OF ap [of 2 4], where bs = "[ucast v, ucast (drop_bit 8 v), ucast (drop_bit 16 v), ucast (drop_bit 24 v)]" and i = 0 and m = m]
    by (simp add: st32_list)
  show "2 \<le> b - a \<Longrightarrow> 2 \<le> a - b \<Longrightarrow> ld16 (st16 b w m) a = ld16 m a"
    using ld_write_list_apart(2) [OF ap [of 2 2], where bs = "[ucast w, ucast (drop_bit 8 w)]" and i = 0 and m = m] by (simp add: st16_list)
qed

lemma ld_fill_zero:
  assumes "n \<le> 2 ^ 32"
  shows "i < n \<Longrightarrow> fill_up t 0 n m (t + of_nat i) = 0" "i + 2 \<le> n \<Longrightarrow> ld16 (fill_up t 0 n m) (t + of_nat i) = 0"
    "i + 4 \<le> n \<Longrightarrow> ld32 (fill_up t 0 n m) (t + of_nat i) = 0"
proof -
  have z: "j < n \<Longrightarrow> fill_up t 0 n m (t + of_nat j) = 0" for j
    using write_list_nth [of j "replicate n 0" t m] assms by (simp add: fill_up_write_list)
  show "i < n \<Longrightarrow> fill_up t 0 n m (t + of_nat i) = 0" by (rule z)
  show "i + 2 \<le> n \<Longrightarrow> ld16 (fill_up t 0 n m) (t + of_nat i) = 0"
    using z [of i] z [of "i + 1"] by (simp add: ld16_def ac_simps)
  show "i + 4 \<le> n \<Longrightarrow> ld32 (fill_up t 0 n m) (t + of_nat i) = 0"
    using z [of i] z [of "i + 1"] z [of "i + 2"] z [of "i + 3"] by (simp add: ld32_def ac_simps)
qed

section \<open>Tables\<close>

text \<open>
  A table of \<open>n\<close> entries behind a read and a write: the read of an entry gives what was last written
  there, in the form \<open>enc\<close> a reader sees.
\<close>

locale table =
  fixes rd :: "'m \<Rightarrow> nat \<Rightarrow> 'v" and wr :: "nat \<Rightarrow> 'w \<Rightarrow> 'm \<Rightarrow> 'm" and enc :: "'w \<Rightarrow> 'v" and n :: nat
  assumes rd_wr: "i < n \<Longrightarrow> j < n \<Longrightarrow> rd (wr i w m) j = (if i = j then enc w else rd m j)"
begin

lemma rd_fold:
  "k \<le> n \<Longrightarrow> j < n \<Longrightarrow> rd (fold (\<lambda>i. wr i (f i)) [0 ..< k] m) j = (if j < k then enc (f j) else rd m j)"
  by (induction k) (auto simp: rd_wr)

lemma rd_fold_list:
  "set is \<subseteq> {..< n} \<Longrightarrow> j < n \<Longrightarrow> rd (fold (\<lambda>i. wr i (f i)) is m) j = (if j \<in> set is then enc (f j) else rd m j)"
proof (induction "is" arbitrary: m)
  case (Cons i xs)
  then show ?case by (cases "j \<in> set xs") (auto simp: rd_wr)
qed simp

lemma rd_two: "i < n \<Longrightarrow> j < n \<Longrightarrow> rd (wr i w (wr i w' m)) j = rd (wr i w m) j"
  by (simp add: rd_wr)

end

lemma words_apart:
  assumes "i < 2 ^ 30" "j < 2 ^ 30" "i \<noteq> j" shows "apart (t + of_nat (4 * i)) 4 (t + of_nat (4 * j)) 4"
  unfolding apart_def
proof (intro allI impI notI)
  fix x y :: nat assume x: "x < 4" "y < 4" and eq: "t + of_nat (4 * i) + of_nat x = t + of_nat (4 * j) + of_nat y"
  then have "(of_nat (4 * i + x) :: u32) = of_nat (4 * j + y)" by (simp add: add.assoc)
  then have "4 * i + x = 4 * j + y" using assms x by (subst (asm) of_nat_inj_small) simp_all
  then have "(4 * i + x) div 4 = (4 * j + y) div 4" by (rule arg_cong)
  with x assms show False by simp
qed

text \<open>An array of words in memory.\<close>

definition word_at :: "addr \<Rightarrow> mem \<Rightarrow> nat \<Rightarrow> u32" where
  "word_at t m i = ld32 m (t + of_nat (4 * i))"

interpretation mem_words: table "word_at t" "\<lambda>i. st32 (t + of_nat (4 * i))" "\<lambda>w. w" "2 ^ 30" for t
proof
  fix i j :: nat and w :: u32 and m assume "i < 2 ^ 30" "j < 2 ^ 30"
  then show "word_at t (st32 (t + of_nat (4 * i)) w m) j = (if i = j then w else word_at t m j)"
    using ld32_st32_apart [OF words_apart [of j i t]] by (simp add: word_at_def)
qed

end
