(* ===== verification/DescTables.thy ===== *)
theory DescTables
  imports Blocks
begin

text \<open>
  The descriptor tables: \<open>arch/x86/32/gdt.cc\<close>, \<open>arch/x86/32/idt.cc\<close> with their headers, the loader's
  \<open>loader/x86/gdt.cc\<close>, and the part of the processor that reads the tables. The tables lie in the byte
  memory at the addresses the linker gives them, so an index out of range reads and writes the bytes
  next to the table, as in C.
\<close>

section \<open>Entries\<close>

record gdt_entry =
  ge_limit_low :: u16
  ge_base_low :: u16
  ge_base_middle :: u8
  ge_access :: u8
  ge_granularity :: u8
  ge_base_high :: u8

record dt_ptr =
  dp_limit :: u16
  dp_base :: u32

record idt_entry =
  ie_base_lo :: u16
  ie_sel :: u16
  ie_always0 :: u8
  ie_flags :: u8
  ie_base_hi :: u16

text \<open>The structures are packed.\<close>

definition ld_gdt_entry :: "mem \<Rightarrow> addr \<Rightarrow> gdt_entry" where
  "ld_gdt_entry m a = \<lparr>ge_limit_low = ld16 m a, ge_base_low = ld16 m (a + 2), ge_base_middle = m (a + 4),
     ge_access = m (a + 5), ge_granularity = m (a + 6), ge_base_high = m (a + 7)\<rparr>"

definition ld_dt_ptr :: "mem \<Rightarrow> addr \<Rightarrow> dt_ptr" where
  "ld_dt_ptr m a = \<lparr>dp_limit = ld16 m a, dp_base = ld32 m (a + 2)\<rparr>"

definition ld_idt_entry :: "mem \<Rightarrow> addr \<Rightarrow> idt_entry" where
  "ld_idt_entry m a = \<lparr>ie_base_lo = ld16 m a, ie_sel = ld16 m (a + 2), ie_always0 = m (a + 4),
     ie_flags = m (a + 5), ie_base_hi = ld16 m (a + 6)\<rparr>"

text \<open>The task state segment, as the words and half words of its 104 bytes.\<close>

record tss =
  TSS_PREV :: u32
  ESP0 :: u32
  SS0 :: u32
  ESP1 :: u32
  SS1 :: u32
  ESP2 :: u32
  SS2 :: u32
  tss_CR3 :: u32
  tss_EIP :: u32
  tss_EFLAGS :: u32
  tss_EAX :: u32
  tss_ECX :: u32
  tss_EDX :: u32
  tss_EBX :: u32
  tss_ESP :: u32
  tss_EBP :: u32
  tss_ESI :: u32
  tss_EDI :: u32
  tss_ES :: u32
  tss_CS :: u32
  tss_SS :: u32
  tss_DS :: u32
  tss_FS :: u32
  tss_GS :: u32
  tss_LDT :: u32
  tss_TRAP :: u16
  IO_MAP_BASE :: u16

definition ld_tss :: "mem \<Rightarrow> addr \<Rightarrow> tss" where
  "ld_tss m a = \<lparr>TSS_PREV = ld32 m a, ESP0 = ld32 m (a + 4), SS0 = ld32 m (a + 8), ESP1 = ld32 m (a + 12),
     SS1 = ld32 m (a + 16), ESP2 = ld32 m (a + 20), SS2 = ld32 m (a + 24), tss_CR3 = ld32 m (a + 28),
     tss_EIP = ld32 m (a + 32), tss_EFLAGS = ld32 m (a + 36), tss_EAX = ld32 m (a + 40), tss_ECX = ld32 m (a + 44),
     tss_EDX = ld32 m (a + 48), tss_EBX = ld32 m (a + 52), tss_ESP = ld32 m (a + 56), tss_EBP = ld32 m (a + 60),
     tss_ESI = ld32 m (a + 64), tss_EDI = ld32 m (a + 68), tss_ES = ld32 m (a + 72), tss_CS = ld32 m (a + 76),
     tss_SS = ld32 m (a + 80), tss_DS = ld32 m (a + 84), tss_FS = ld32 m (a + 88), tss_GS = ld32 m (a + 92),
     tss_LDT = ld32 m (a + 96), tss_TRAP = ld16 m (a + 100), IO_MAP_BASE = ld16 m (a + 102)\<rparr>"

section \<open>Setting a gate\<close>

definition gdt_set_gate :: "addr \<Rightarrow> u32 \<Rightarrow> u32 \<Rightarrow> u32 \<Rightarrow> u8 \<Rightarrow> u8 \<Rightarrow> mem \<Rightarrow> mem" where
  "gdt_set_gate gdt_entries idx base limit access gran m =
     (let e = gdt_entries + 8 * idx;
          m = st16 (e + 2) (ucast (base AND 0xFFFF)) m;
          m = st8 (e + 4) (ucast (drop_bit 16 base AND 0xFF)) m;
          m = st8 (e + 7) (ucast (drop_bit 24 base AND 0xFF)) m;
          m = st16 e (ucast (limit AND 0xFFFF)) m;
          m = st8 (e + 6) (ucast (drop_bit 16 limit AND 0x0F)) m;
          m = st8 (e + 6) (m (e + 6) OR (gran AND 0xF0)) m
      in st8 (e + 5) access m)"

definition idt_set_gate :: "addr \<Rightarrow> u32 \<Rightarrow> u32 \<Rightarrow> u16 \<Rightarrow> u8 \<Rightarrow> mem \<Rightarrow> mem" where
  "idt_set_gate idt_entries idx base sel flags m =
     (let e = idt_entries + 8 * idx;
          m = st16 e (ucast base) m;
          m = st16 (e + 6) (ucast (drop_bit 16 base)) m;
          m = st16 (e + 2) sel m;
          m = st8 (e + 4) 0 m
      in st8 (e + 5) flags m)"

definition idt_get_gate :: "addr \<Rightarrow> u32 \<Rightarrow> mem \<Rightarrow> u32" where
  "idt_get_gate idt_entries idx m =
     (let e = ld_idt_entry m (idt_entries + 8 * idx)
      in push_bit 16 (ucast (ie_base_hi e)) OR ucast (ie_base_lo e))"

section \<open>Loading the tables\<close>

text \<open>
  The registers that \<open>load_gdt\<close>, \<open>load_idt\<close> and \<open>load_tss\<close> (\<open>arch/x86/32/asm/tables.asm\<close>) set: the
  table registers, the selectors of code and data, and the task register.
\<close>

record table_regs =
  gdtr :: dt_ptr
  idtr :: dt_ptr
  code_sel :: u16
  data_sel :: u16
  task_sel :: u16

definition load_gdt :: "addr \<Rightarrow> mem \<Rightarrow> table_regs \<Rightarrow> table_regs" where
  "load_gdt p m r = r\<lparr>gdtr := ld_dt_ptr m p, data_sel := 0x10, code_sel := 0x08\<rparr>"

definition load_idt :: "addr \<Rightarrow> mem \<Rightarrow> table_regs \<Rightarrow> table_regs" where
  "load_idt p m r = r\<lparr>idtr := ld_dt_ptr m p\<rparr>"

text \<open>\<open>ltr\<close> marks the segment busy: bit 1 of the access byte of its descriptor, whose entry is at \<open>0x28\<close>.\<close>

definition load_tss :: "mem \<times> table_regs \<Rightarrow> mem \<times> table_regs" where
  "load_tss = (\<lambda>(m, r).
     let e = dp_base (gdtr r) + 0x28
     in (st8 (e + 5) (m (e + 5) OR 0x02) m, r\<lparr>task_sel := 0x2B\<rparr>))"

text \<open>The addresses of the static objects.\<close>

record gdt_symbols =
  gdt_entries :: addr
  gdt_ptr :: addr
  tss_entry :: addr

record idt_symbols =
  idt_entries :: addr
  idt_ptr :: addr

definition st_dt_ptr :: "addr \<Rightarrow> u16 \<Rightarrow> u32 \<Rightarrow> mem \<Rightarrow> mem" where
  "st_dt_ptr p limit base m = st32 (p + 2) base (st16 p limit m)"

definition clear_tss :: "addr \<Rightarrow> mem \<Rightarrow> mem" where
  "clear_tss t m =
     (let m = fill_up t 0 104 m;
          m = st32 (t + 8) 0x10 m;
          m = st32 (t + 4) 0x0 m;
          m = st32 (t + 76) 0x0B m;
          m = st32 (t + 80) 0x13 m;
          m = st32 (t + 72) 0x13 m;
          m = st32 (t + 88) 0x13 m;
          m = st32 (t + 92) 0x13 m
      in st16 (t + 102) 104 m)"

definition gdt_init :: "gdt_symbols \<Rightarrow> mem \<times> table_regs \<Rightarrow> mem \<times> table_regs" where
  "gdt_init y = (\<lambda>(m, r).
     let e = gdt_entries y;
         m = st_dt_ptr (gdt_ptr y) (8 * 6 - 1) e m;
         tss_base = tss_entry y;
         tss_limit = tss_base + 104;
         m = gdt_set_gate e 0 0 0 0 0 m;
         m = gdt_set_gate e 1 0 0xFFFFFFFF 0x9A 0xCF m;
         m = gdt_set_gate e 2 0 0xFFFFFFFF 0x92 0xCF m;
         m = gdt_set_gate e 3 0 0xFFFFFFFF 0xFA 0xCF m;
         m = gdt_set_gate e 4 0 0xFFFFFFFF 0xF2 0xCF m;
         m = gdt_set_gate e 5 tss_base tss_limit 0xE9 0x00 m;
         m = clear_tss (tss_entry y) m
     in load_tss (m, load_gdt (gdt_ptr y) m r))"

definition set_tss_stack :: "gdt_symbols \<Rightarrow> u32 \<Rightarrow> mem \<Rightarrow> mem" where
  "set_tss_stack y stack m = st32 (tss_entry y + 4) stack m"

definition idt_init :: "idt_symbols \<Rightarrow> mem \<times> table_regs \<Rightarrow> mem \<times> table_regs" where
  "idt_init y = (\<lambda>(m, r).
     let m = st_dt_ptr (idt_ptr y) (8 * 256 - 1) (idt_entries y) m;
         m = fill_up (idt_entries y) 0 (8 * 256) m
     in (m, load_idt (idt_ptr y) m r))"

text \<open>The loop of \<open>early_init\<close> (\<open>arch/x86/32/init.cc\<close>) over the table of entry stubs.\<close>

definition set_stubs :: "addr \<Rightarrow> addr \<Rightarrow> nat \<Rightarrow> mem \<Rightarrow> mem" where
  "set_stubs tab isr_stub_table n m =
     fold (\<lambda>i m. idt_set_gate tab (of_nat i) (ld32 m (isr_stub_table + 4 * of_nat i)) 0x08 0x8E m) [0 ..< n] m"

text \<open>The loader has the same \<open>set_gate\<close> on a table of its own, and sets three entries.\<close>

definition initgdt32 :: "gdt_symbols \<Rightarrow> mem \<times> table_regs \<Rightarrow> mem \<times> table_regs" where
  "initgdt32 y = (\<lambda>(m, r).
     let e = gdt_entries y;
         m = st_dt_ptr (gdt_ptr y) (8 * 6 - 1) e m;
         m = gdt_set_gate e 0 0 0 0 0 m;
         m = gdt_set_gate e 1 0 0xFFFFFFFF 0x9A 0xCF m;
         m = gdt_set_gate e 2 0 0xFFFFFFFF 0x92 0xCF m
     in (m, load_gdt (gdt_ptr y) m r))"


section \<open>What the processor reads\<close>

record segment =
  sg_base :: u32
  sg_limit :: u32
  sg_access :: u8
  sg_flags :: u8

text \<open>The base and the limit of a descriptor; bit 7 of the flags makes the limit count pages.\<close>

definition descriptor :: "gdt_entry \<Rightarrow> segment" where
  "descriptor e =
     (let limit = ucast (ge_limit_low e) OR push_bit 16 (ucast (ge_granularity e AND 0x0F)) :: u32 in
      \<lparr>sg_base = ucast (ge_base_low e) OR push_bit 16 (ucast (ge_base_middle e)) OR push_bit 24 (ucast (ge_base_high e)),
       sg_limit = (if bit (ge_granularity e) 7 then push_bit 12 limit OR 0xFFF else limit),
       sg_access = ge_access e, sg_flags = ge_granularity e AND 0xF0\<rparr>)"

text \<open>The descriptor of a selector, when the table holds it.\<close>

definition segment_of :: "mem \<Rightarrow> table_regs \<Rightarrow> u16 \<Rightarrow> segment option" where
  "segment_of m r sel =
     (let k = 8 * (unat sel div 8) in
      if k + 7 \<le> unat (dp_limit (gdtr r)) then Some (descriptor (ld_gdt_entry m (dp_base (gdtr r) + of_nat k))) else None)"

text \<open>The target and the selector of an interrupt gate: present, for the kernel only, 32 bits wide.\<close>

definition interrupt_gate :: "mem \<Rightarrow> table_regs \<Rightarrow> nat \<Rightarrow> (u16 \<times> u32) option" where
  "interrupt_gate m r n =
     (if 8 * n + 7 \<le> unat (dp_limit (idtr r))
      then let e = ld_idt_entry m (dp_base (idtr r) + of_nat (8 * n)) in
        if ie_flags e = 0x8E \<and> ie_always0 e = 0
        then Some (ie_sel e, ucast (ie_base_lo e) OR push_bit 16 (ucast (ie_base_hi e))) else None
      else None)"

section \<open>Gates\<close>

definition gdt_bytes :: "u32 \<Rightarrow> u32 \<Rightarrow> u8 \<Rightarrow> u8 \<Rightarrow> u8 list" where
  "gdt_bytes base limit access gran = [ucast limit, ucast (drop_bit 8 limit), ucast base, ucast (drop_bit 8 base),
     ucast (drop_bit 16 base), access, (ucast (drop_bit 16 limit) AND 0x0F) OR (gran AND 0xF0), ucast (drop_bit 24 base)]"

definition idt_bytes :: "u32 \<Rightarrow> u16 \<Rightarrow> u8 \<Rightarrow> u8 list" where
  "idt_bytes base sel flags = [ucast base, ucast (drop_bit 8 base), ucast sel, ucast (drop_bit 8 sel),
     0, flags, ucast (drop_bit 16 base), ucast (drop_bit 24 base)]"

lemma gdt_set_gate_list:
  "gdt_set_gate t i base limit access gran m = write_list (t + 8 * i) (gdt_bytes base limit access gran) m"
  by (auto simp: fun_eq_iff gdt_set_gate_def gdt_bytes_def st8_def st16_def Let_def add.assoc word_parts)

lemma idt_set_gate_list:
  "idt_set_gate t i base sel flags m = write_list (t + 8 * i) (idt_bytes base sel flags) m"
  by (auto simp: fun_eq_iff idt_set_gate_def idt_bytes_def st8_def st16_def Let_def add.assoc word_parts)

lemma ld_gdt_entry_set:
  "ld_gdt_entry (write_list a (gdt_bytes base limit access gran) m) a = \<lparr>ge_limit_low = ucast limit,
     ge_base_low = ucast base, ge_base_middle = ucast (drop_bit 16 base), ge_access = access,
     ge_granularity = (ucast (drop_bit 16 limit) AND 0x0F) OR (gran AND 0xF0), ge_base_high = ucast (drop_bit 24 base)\<rparr>"
proof -
  let ?m = "write_list a (gdt_bytes base limit access gran) m"
  have "ld16 ?m a = ucast limit" "ld16 ?m (a + 2) = ucast base"
    by (rule ld16_bytes; simp add: gdt_bytes_def word_parts add.assoc)+
  then show ?thesis by (simp add: ld_gdt_entry_def) (simp add: gdt_bytes_def add.assoc)
qed

lemma ld_idt_entry_set:
  "ld_idt_entry (write_list a (idt_bytes base sel flags) m) a = \<lparr>ie_base_lo = ucast base, ie_sel = sel,
     ie_always0 = 0, ie_flags = flags, ie_base_hi = ucast (drop_bit 16 base)\<rparr>"
proof -
  let ?m = "write_list a (idt_bytes base sel flags) m"
  have "ld16 ?m a = ucast base" "ld16 ?m (a + 2) = sel" "ld16 ?m (a + 6) = ucast (drop_bit 16 base)"
    by (rule ld16_bytes; simp add: idt_bytes_def word_parts add.assoc)+
  then show ?thesis by (simp add: ld_idt_entry_def) (simp add: idt_bytes_def add.assoc)
qed

text \<open>What the processor makes of an entry that \<open>set_gate\<close> wrote: the base in full, 20 bits of the limit.\<close>

definition limit_of :: "u32 \<Rightarrow> u8 \<Rightarrow> u32" where
  "limit_of limit gran = (if bit gran 7 then push_bit 12 (limit AND 0xFFFFF) OR 0xFFF else limit AND 0xFFFFF)"

lemma masks_20: "(0xFFFFF :: u32) = mask 20" "(0xF0 :: u8) = push_bit 4 (mask 4)"
  by (simp_all add: mask_eq_exp_minus_1)

lemma descriptor_set:
  "descriptor (ld_gdt_entry (write_list a (gdt_bytes base limit access gran) m) a) =
    \<lparr>sg_base = base, sg_limit = limit_of limit gran, sg_access = access, sg_flags = gran AND 0xF0\<rparr>"
proof -
  have b: "(ucast (ucast base :: u16) OR push_bit 16 (ucast (ucast (drop_bit 16 base) :: u8)) OR
      push_bit 24 (ucast (ucast (drop_bit 24 base) :: u8)) :: u32) = base"
  proof (rule bit_word_eqI)
    fix n assume n: "n < LENGTH(32)"
    then consider "n < 16" | "16 \<le> n" "n < 24" | "24 \<le> n" "n < 32" by fastforce
    then show "bit (ucast (ucast base :: u16) OR push_bit 16 (ucast (ucast (drop_bit 16 base) :: u8)) OR
        push_bit 24 (ucast (ucast (drop_bit 24 base) :: u8)) :: u32) n = bit base n"
      by cases (auto simp: bit_simps)
  qed
  have g: "((ucast (drop_bit 16 limit) AND 0x0F) OR (gran AND 0xF0)) AND (0x0F :: u8) = ucast (drop_bit 16 limit) AND 0x0F"
    "((ucast (drop_bit 16 limit) AND 0x0F) OR (gran AND 0xF0)) AND (0xF0 :: u8) = gran AND 0xF0"
    "bit ((ucast (drop_bit 16 limit) AND 0x0F) OR (gran AND 0xF0) :: u8) 7 = bit gran 7"
    unfolding low_masks masks_20 by (rule bit_word_eqI; auto simp: bit_simps)+ (auto simp: bit_simps)
  have l: "(ucast (ucast limit :: u16) OR push_bit 16 (ucast (ucast (drop_bit 16 limit) AND (0x0F :: u8))) :: u32) = limit AND 0xFFFFF"
  proof (rule bit_word_eqI)
    fix n assume n: "n < LENGTH(32)"
    show "bit (ucast (ucast limit :: u16) OR push_bit 16 (ucast (ucast (drop_bit 16 limit) AND (0x0F :: u8))) :: u32) n
        = bit (limit AND 0xFFFFF) n"
      unfolding low_masks masks_20 using n by (cases "n < 16") (auto simp: bit_simps)
  qed
  show ?thesis unfolding ld_gdt_entry_set by (simp add: descriptor_def Let_def b g l limit_of_def)
qed

section \<open>Tables\<close>

lemma slots_apart:
  assumes "i < 2 ^ 29" "j < 2 ^ 29" "i \<noteq> j" shows "apart (t + of_nat (8 * i)) 8 (t + of_nat (8 * j)) 8"
  unfolding apart_def
proof (intro allI impI notI)
  fix x y :: nat assume x: "x < 8" "y < 8" and eq: "t + of_nat (8 * i) + of_nat x = t + of_nat (8 * j) + of_nat y"
  then have "(of_nat (8 * i + x) :: u32) = of_nat (8 * j + y)" by (simp add: add.assoc)
  then have "8 * i + x = 8 * j + y" using assms x by (subst (asm) of_nat_inj_small) simp_all
  then have "(8 * i + x) div 8 = (8 * j + y) div 8" by (rule arg_cong)
  with x assms show False by simp
qed

lemma ld_gdt_entry_apart:
  assumes "apart a n b k" "length bs \<le> k" "i + 8 \<le> n"
  shows "ld_gdt_entry (write_list b bs m) (a + of_nat i) = ld_gdt_entry m (a + of_nat i)"
proof -
  note ld = ld_write_list_apart [OF assms(1,2), of _ m]
  show ?thesis
    using ld(2) [of i] ld(2) [of "i + 2"] ld(1) [of "i + 4"] ld(1) [of "i + 5"] ld(1) [of "i + 6"] ld(1) [of "i + 7"] assms(3)
    by (simp add: ld_gdt_entry_def ac_simps)
qed

lemma ld_idt_entry_apart:
  assumes "apart a n b k" "length bs \<le> k" "i + 8 \<le> n"
  shows "ld_idt_entry (write_list b bs m) (a + of_nat i) = ld_idt_entry m (a + of_nat i)"
proof -
  note ld = ld_write_list_apart [OF assms(1,2), of _ m]
  show ?thesis
    using ld(2) [of i] ld(2) [of "i + 2"] ld(1) [of "i + 4"] ld(1) [of "i + 5"] ld(2) [of "i + 6"] assms(3)
    by (simp add: ld_idt_entry_def ac_simps)
qed

lemma length_bytes [simp]: "length (gdt_bytes b l ac g) = 8" "length (idt_bytes b s f) = 8"
  by (simp_all add: gdt_bytes_def idt_bytes_def)

text \<open>The table as a function of the index.\<close>

definition table_desc :: "addr \<Rightarrow> mem \<Rightarrow> nat \<Rightarrow> segment" where
  "table_desc t m i = descriptor (ld_gdt_entry m (t + of_nat (8 * i)))"

lemma table_desc_set_gate:
  assumes "i < 2 ^ 29" "j < 2 ^ 29"
  shows "table_desc t (gdt_set_gate t (of_nat j) base limit access gran m) i =
    (if i = j then \<lparr>sg_base = base, sg_limit = limit_of limit gran, sg_access = access, sg_flags = gran AND 0xF0\<rparr>
     else table_desc t m i)"
proof (cases "i = j")
  case True
  then show ?thesis by (simp add: table_desc_def gdt_set_gate_list descriptor_set)
next
  case False
  from ld_gdt_entry_apart [OF slots_apart [OF assms False, of t], where i = 0 and m = m
      and bs = "gdt_bytes base limit access gran"]
  show ?thesis using False by (simp add: table_desc_def gdt_set_gate_list)
qed

interpretation gdt: table "table_desc t" "\<lambda>i (base, limit, access, gran). gdt_set_gate t (of_nat i) base limit access gran"
  "\<lambda>(base, limit, access, gran). \<lparr>sg_base = base, sg_limit = limit_of limit gran, sg_access = access, sg_flags = gran AND 0xF0\<rparr>"
  "2 ^ 29" for t
  by unfold_locales (auto simp: table_desc_set_gate)

lemma idt_gate_set:
  assumes "i < 2 ^ 29" "j < 2 ^ 29"
  shows "ld_idt_entry (idt_set_gate t (of_nat j) base sel flags m) (t + of_nat (8 * i)) =
    (if i = j then \<lparr>ie_base_lo = ucast base, ie_sel = sel, ie_always0 = 0, ie_flags = flags, ie_base_hi = ucast (drop_bit 16 base)\<rparr>
     else ld_idt_entry m (t + of_nat (8 * i)))"
proof (cases "i = j")
  case True
  then show ?thesis by (simp add: idt_set_gate_list ld_idt_entry_set)
next
  case False
  from ld_idt_entry_apart [OF slots_apart [OF assms False, of t], where i = 0 and m = m and bs = "idt_bytes base sel flags"]
  show ?thesis using False by (simp add: idt_set_gate_list)
qed

interpretation idt: table "\<lambda>m i. ld_idt_entry m (t + of_nat (8 * i))" "\<lambda>i (base, sel, flags). idt_set_gate t (of_nat i) base sel flags"
  "\<lambda>(base, sel, flags). \<lparr>ie_base_lo = ucast base, ie_sel = sel, ie_always0 = 0, ie_flags = flags, ie_base_hi = ucast (drop_bit 16 base)\<rparr>"
  "2 ^ 29" for t
  by unfold_locales (auto simp: idt_gate_set simp del: of_nat_mult)

lemma table_desc_apart:
  assumes "apart t n b k" "length bs \<le> k" "8 * i + 8 \<le> n"
  shows "table_desc t (write_list b bs m) i = table_desc t m i"
  using ld_gdt_entry_apart [OF assms] by (simp add: table_desc_def)

section \<open>The segments of the kernel\<close>

text \<open>The three objects lie apart.\<close>

definition gdt_layout :: "gdt_symbols \<Rightarrow> bool" where
  "gdt_layout y \<longleftrightarrow> apart (gdt_entries y) 48 (gdt_ptr y) 6 \<and> apart (gdt_entries y) 48 (tss_entry y) 104
    \<and> apart (gdt_ptr y) 6 (tss_entry y) 104"

lemma ld_dt_ptr_st: "ld_dt_ptr (st_dt_ptr p l b m) p = \<lparr>dp_limit = l, dp_base = b\<rparr>"
  by (simp add: ld_dt_ptr_def st_dt_ptr_def) (rule ld16_bytes; simp add: st16_def st32_def add.assoc)

lemma ld_dt_ptr_apart:
  "apart p 6 b k \<Longrightarrow> length bs \<le> k \<Longrightarrow> ld_dt_ptr (write_list b bs m) p = ld_dt_ptr m p"
  using ld_write_list_apart(2) [of p 6 b k bs 0 m] ld_write_list_apart(3) [of p 6 b k bs 2 m]
  by (simp add: ld_dt_ptr_def)

lemma ld_dt_ptr_set_gate:
  assumes "apart t 48 p 6" "i < 6"
  shows "ld_dt_ptr (gdt_set_gate t (of_nat i) base limit access gran m) p = ld_dt_ptr m p"
proof -
  have "apart p 6 (t + of_nat (8 * i)) 8"
    using apart_part [OF apart_sym [OF assms(1)], of 0 6 "8 * i" 8] assms(2) by simp
  from ld_dt_ptr_apart [OF this] show ?thesis by (simp add: gdt_set_gate_list)
qed

text \<open>\<open>clear_tss\<close> writes in the 104 bytes of the segment only.\<close>

lemma clear_tss_apart:
  assumes "apart a n t 104" "i < n" shows "clear_tss t m (a + of_nat i) = m (a + of_nat i)"
proof -
  note w = write_list_part [OF assms(1) _ assms(2)]
  show ?thesis
    using w [of 0] w [of 4] w [of 8] w [of 72] w [of 76] w [of 80] w [of 88] w [of 92] w [of 102]
    by (simp add: clear_tss_def Let_def st_list del: write_list.simps)
qed



lemma reads_cong:
  shows "(\<And>k. k < 8 \<Longrightarrow> m (a + of_nat k) = m' (a + of_nat k)) \<Longrightarrow> ld_gdt_entry m a = ld_gdt_entry m' a"
    "(\<And>k. k < 6 \<Longrightarrow> m (a + of_nat k) = m' (a + of_nat k)) \<Longrightarrow> ld_dt_ptr m a = ld_dt_ptr m' a"
proof -
  show "ld_dt_ptr m a = ld_dt_ptr m' a" if "\<And>k. k < 6 \<Longrightarrow> m (a + of_nat k) = m' (a + of_nat k)"
    using that [of 0] that [of 1] that [of 2] that [of 3] that [of 4] that [of 5]
    by (simp add: ld_dt_ptr_def ld16_def ld32_def add.assoc)
  show "ld_gdt_entry m a = ld_gdt_entry m' a" if "\<And>k. k < 8 \<Longrightarrow> m (a + of_nat k) = m' (a + of_nat k)"
    using that [of 0] that [of 1] that [of 2] that [of 3] that [of 4] that [of 5] that [of 6] that [of 7]
    by (simp add: ld_gdt_entry_def ld16_def add.assoc)
qed

lemma clear_tss_reads:
  "apart t 48 s 104 \<Longrightarrow> i < 6 \<Longrightarrow> table_desc t (clear_tss s m) i = table_desc t m i"
  "apart p 6 s 104 \<Longrightarrow> ld_dt_ptr (clear_tss s m) p = ld_dt_ptr m p"
proof -
  assume a: "apart t 48 s 104" "i < 6"
  have "clear_tss s m (t + of_nat (8 * i + k)) = m (t + of_nat (8 * i + k))" if "k < 8" for k
    by (rule clear_tss_apart [OF a(1)]) (use a(2) that in simp)
  then show "table_desc t (clear_tss s m) i = table_desc t m i"
    unfolding table_desc_def by (intro arg_cong [where f = descriptor] reads_cong(1)) (simp add: add.assoc)
qed (intro reads_cong(2) clear_tss_apart, assumption+)

lemma segment_of_entry:
  assumes "gdtr r = \<lparr>dp_limit = 47, dp_base = t\<rparr>"
  shows "segment_of m r sel = (if unat sel div 8 < 6 then Some (table_desc t m (unat sel div 8)) else None)"
  using assms by (auto simp: segment_of_def table_desc_def Let_def)

lemma gdt_layoutD:
  assumes "gdt_layout y"
  shows "apart (gdt_entries y) 48 (gdt_ptr y) 6" "apart (gdt_entries y) 48 (tss_entry y) 104"
    "apart (gdt_ptr y) 6 (tss_entry y) 104"
  using assms by (simp_all add: gdt_layout_def)

abbreviation flat :: "u8 \<Rightarrow> segment" where
  "flat access \<equiv> \<lparr>sg_base = 0, sg_limit = 0xFFFFFFFF, sg_access = access, sg_flags = 0xC0\<rparr>"

lemma flat_limit: "limit_of 0xFFFFFFFF 0xCF = 0xFFFFFFFF" "limit_of l 0 = l AND 0xFFFFF"
  by (simp_all add: limit_of_def)

text \<open>The set_gate calls at literal indices.\<close>

lemmas set_gate_literal =
  table_desc_set_gate [where j = 0, simplified] table_desc_set_gate [where j = 1, simplified]
  table_desc_set_gate [where j = 2, simplified] table_desc_set_gate [where j = 3, simplified]
  table_desc_set_gate [where j = 4, simplified] table_desc_set_gate [where j = 5, simplified]

lemmas ptr_set_gate_literal =
  ld_dt_ptr_set_gate [where i = 0, simplified] ld_dt_ptr_set_gate [where i = 1, simplified]
  ld_dt_ptr_set_gate [where i = 2, simplified] ld_dt_ptr_set_gate [where i = 3, simplified]
  ld_dt_ptr_set_gate [where i = 4, simplified] ld_dt_ptr_set_gate [where i = 5, simplified]



text \<open>The loader's table has the same two kernel segments and nothing it can load beyond them.\<close>

theorem initgdt32_segments:
  assumes lay: "apart (gdt_entries y) 48 (gdt_ptr y) 6" and run: "initgdt32 y (m, r) = (m', r')"
    and z: "\<And>i. 2 < i \<Longrightarrow> i < 6 \<Longrightarrow> table_desc (gdt_entries y) m i = descriptor \<lparr>ge_limit_low = 0, ge_base_low = 0,
      ge_base_middle = 0, ge_access = 0, ge_granularity = 0, ge_base_high = 0\<rparr>"
  shows "segment_of m' r' (code_sel r') = Some (flat 0x9A) \<and> segment_of m' r' (data_sel r') = Some (flat 0x92)
    \<and> (\<forall>sel sg. unat sel div 8 \<notin> {1, 2} \<longrightarrow> segment_of m' r' sel = Some sg \<longrightarrow> sg_access sg = 0)"
proof -
  have g: "gdtr r' = \<lparr>dp_limit = 47, dp_base = gdt_entries y\<rparr>" and s: "code_sel r' = 0x08" "data_sel r' = 0x10"
    using run by (auto simp: initgdt32_def Let_def load_gdt_def ptr_set_gate_literal [OF lay] ld_dt_ptr_st)
  have keep: "table_desc (gdt_entries y) (st_dt_ptr (gdt_ptr y) l b m) i = table_desc (gdt_entries y) m i" if "i < 6" for l b i
  proof -
    note ap = apart_part [OF lay, of 0 48, simplified]
    show ?thesis
      unfolding st_dt_ptr_def st_list
      using table_desc_apart [OF ap [of 0 2, simplified], of _ i] table_desc_apart [OF ap [of 2 4, simplified], of _ i] that
      by (simp del: write_list.simps)
  qed
  have d: "table_desc (gdt_entries y) m' 1 = flat 0x9A" "table_desc (gdt_entries y) m' 2 = flat 0x92"
      "\<And>i. i < 6 \<Longrightarrow> i \<noteq> 1 \<Longrightarrow> i \<noteq> 2 \<Longrightarrow> sg_access (table_desc (gdt_entries y) m' i) = 0"
    using run by (auto simp: initgdt32_def Let_def set_gate_literal flat_limit keep z descriptor_def)
  show ?thesis
    unfolding segment_of_entry [OF g] by (auto simp: s d [simplified] split: if_splits)
qed

theorem set_tss_stack_correct:
  shows "ld_tss (set_tss_stack y stack m) (tss_entry y) = (ld_tss m (tss_entry y))\<lparr>ESP0 := stack\<rparr>"
  by (simp add: set_tss_stack_def ld_tss_def ld_st_far)

section \<open>The interrupt table\<close>

definition idt_layout :: "idt_symbols \<Rightarrow> addr \<Rightarrow> bool" where
  "idt_layout y stubs \<longleftrightarrow> apart (idt_entries y) 2048 (idt_ptr y) 6 \<and> apart (idt_entries y) 2048 stubs 1024
    \<and> apart (idt_ptr y) 6 stubs 1024"

lemma set_stubs_Suc:
  "set_stubs t st (Suc n) m = idt_set_gate t (of_nat n) (ld32 (set_stubs t st n m) (st + 4 * of_nat n)) 0x08 0x8E (set_stubs t st n m)"
  by (simp add: set_stubs_def)

lemma slot_apart:
  "apart t 2048 b k \<Longrightarrow> n < 256 \<Longrightarrow> apart b k (t + 8 * of_nat n) 8"
  using apart_part [OF apart_sym, of t 2048 b k 0 k "8 * n" 8] by simp

lemma set_stubs_apart:
  assumes "apart t 2048 b k" "i < k"
  shows "n \<le> 256 \<Longrightarrow> set_stubs t st n m (b + of_nat i) = m (b + of_nat i)"
proof (induction n)
  case (Suc n)
  have "idt_set_gate t (of_nat n) x 0x08 0x8E m' (b + of_nat i) = m' (b + of_nat i)" for x m'
    unfolding idt_set_gate_list by (rule write_list_apart [OF slot_apart assms(2)]) (use assms(1) Suc.prems in simp_all)
  then show ?case using Suc by (simp add: set_stubs_Suc)
qed (simp add: set_stubs_def)

lemma set_stubs_gates:
  assumes "apart t 2048 st 1024"
  shows "n \<le> 256 \<Longrightarrow> i < n \<Longrightarrow> ld_idt_entry (set_stubs t st n m) (t + of_nat (8 * i)) =
      \<lparr>ie_base_lo = ucast (ld32 m (st + of_nat (4 * i))), ie_sel = 0x08, ie_always0 = 0, ie_flags = 0x8E,
       ie_base_hi = ucast (drop_bit 16 (ld32 m (st + of_nat (4 * i))))\<rparr>"
proof (induction n)
  case (Suc n)
  let ?s = "set_stubs t st n m"
  have st: "ld32 ?s (st + 4 * of_nat n) = ld32 m (st + 4 * of_nat n)"
  proof (rule ld32_cong)
    fix k :: nat assume "k < 4"
    then show "?s (st + 4 * of_nat n + of_nat k) = m (st + 4 * of_nat n + of_nat k)"
      using set_stubs_apart [OF assms, of "4 * n + k" n] Suc.prems by (simp add: add.assoc)
  qed
  show ?case
  proof (cases "i = n")
    case True
    then show ?thesis unfolding set_stubs_Suc st idt_set_gate_list using ld_idt_entry_set by simp
  next
    case False
    have "apart (t + of_nat (8 * i)) 8 (t + of_nat (8 * n)) 8" by (rule slots_apart) (use Suc.prems False in simp_all)
    from ld_idt_entry_apart [OF this, where i = 0 and m = ?s] Suc.prems False Suc.IH
    show ?thesis unfolding set_stubs_Suc st idt_set_gate_list by simp
  qed
qed simp

lemma join_halves: "(ucast (ucast w :: u16) OR push_bit 16 (ucast (ucast (drop_bit 16 w) :: u16)) :: u32) = w"
proof (rule bit_word_eqI)
  fix n assume "n < LENGTH(32)"
  then show "bit (ucast (ucast w :: u16) OR push_bit 16 (ucast (ucast (drop_bit 16 w) :: u16)) :: u32) n = bit w n"
    by (cases "n < 16") (auto simp: bit_simps)
qed

text \<open>C27. 
  After \<open>idt::init\<close> and the loop of \<open>early_init\<close> every vector has a present interrupt gate to its stub in the
  kernel's code segment, and \<open>get_gate\<close> reads the stub back.
\<close>

theorem idt_gates_correct:
  assumes lay: "idt_layout y stubs" and run: "idt_init y (m, r) = (m1, r')" and n: "n < 256"
    and m': "m' = set_stubs (idt_entries y) stubs 256 m1"
  shows "interrupt_gate m' r' n = Some (0x08, ld32 m (stubs + of_nat (4 * n)))
    \<and> idt_get_gate (idt_entries y) (of_nat n) m' = ld32 m (stubs + of_nat (4 * n))"
proof -
  have ap: "apart (idt_entries y) 2048 (idt_ptr y) 6" "apart (idt_entries y) 2048 stubs 1024" "apart (idt_ptr y) 6 stubs 1024"
    using lay by (simp_all add: idt_layout_def)
  let ?m0 = "st_dt_ptr (idt_ptr y) 2047 (idt_entries y) m"
  have m1: "m1 = fill_up (idt_entries y) 0 2048 ?m0" and r': "idtr r' = ld_dt_ptr m1 (idt_ptr y)"
    using run by (auto simp: idt_init_def Let_def load_idt_def)
  have "ld_dt_ptr m1 (idt_ptr y) = ld_dt_ptr ?m0 (idt_ptr y)"
    unfolding m1 fill_up_write_list by (rule ld_dt_ptr_apart [OF apart_sym [OF ap(1)]]) simp
  then have g: "idtr r' = \<lparr>dp_limit = 2047, dp_base = idt_entries y\<rparr>" by (simp add: r' ld_dt_ptr_st)
  have p: "apart stubs 1024 (idt_ptr y + of_nat j) c" if "j + c \<le> 6" for j c
    using apart_part [OF apart_sym [OF ap(3)], of 0 1024 j c] that by simp
  have "ld32 ?m0 (stubs + of_nat (4 * n)) = ld32 m (stubs + of_nat (4 * n))"
    unfolding st_dt_ptr_def st_list
    using ld_write_list_apart(3) [OF p [of 2 4], of "[ucast (idt_entries y), ucast (drop_bit 8 (idt_entries y)),
        ucast (drop_bit 16 (idt_entries y)), ucast (drop_bit 24 (idt_entries y))]" "4 * n"]
      ld_write_list_apart(3) [OF p [of 0 2], of "[ucast (2047 :: u16), ucast (drop_bit 8 (2047 :: u16))]" "4 * n"] n
    by (simp del: write_list.simps)
  moreover have "ld32 m1 (stubs + of_nat (4 * n)) = ld32 ?m0 (stubs + of_nat (4 * n))"
    unfolding m1 fill_up_write_list
    by (rule ld_write_list_apart(3) [OF apart_sym [OF ap(2)]]) (use n in simp_all)
  ultimately have v: "ld32 m1 (stubs + of_nat (4 * n)) = ld32 m (stubs + of_nat (4 * n))" by simp
  have e: "ld_idt_entry m' (idt_entries y + of_nat (8 * n)) =
      \<lparr>ie_base_lo = ucast (ld32 m (stubs + of_nat (4 * n))), ie_sel = 0x08, ie_always0 = 0, ie_flags = 0x8E,
       ie_base_hi = ucast (drop_bit 16 (ld32 m (stubs + of_nat (4 * n))))\<rparr>"
    unfolding m' v [symmetric] by (rule set_stubs_gates [OF ap(2) _ n]) simp
  have "interrupt_gate m' r' n = Some (0x08, ld32 m (stubs + of_nat (4 * n)))"
    using n by (simp add: interrupt_gate_def g Let_def e [simplified] join_halves)
  moreover have "idt_get_gate (idt_entries y) (of_nat n) m' = ld32 m (stubs + of_nat (4 * n))"
    using e by (simp add: idt_get_gate_def Let_def or.commute join_halves)
  ultimately show ?thesis ..
qed

section \<open>Nothing else is written\<close>

lemma write_part_outside:
  assumes "\<And>i. i < n \<Longrightarrow> v \<noteq> t + of_nat i" "j + length bs \<le> n" shows "write_list (t + of_nat j) bs m v = m v"
proof (rule write_list_outside)
  fix i assume "i < length bs"
  then show "v \<noteq> t + of_nat j + of_nat i" using assms(1) [of "j + i"] assms(2) by (simp add: add.assoc)
qed

lemma gdt_init_outside:
  assumes lay: "gdt_layout y" and run: "gdt_init y (m, r) = (m', r')"
    and v: "\<And>i. i < 48 \<Longrightarrow> v \<noteq> gdt_entries y + of_nat i" "\<And>i. i < 6 \<Longrightarrow> v \<noteq> gdt_ptr y + of_nat i"
      "\<And>i. i < 104 \<Longrightarrow> v \<noteq> tss_entry y + of_nat i"
  shows "m' v = m v"
proof -
  note l = gdt_layoutD [OF lay]
  let ?t = "gdt_entries y" and ?s = "tss_entry y"
  have gate: "gdt_set_gate ?t (of_nat i) base limit access gran m v = m v" if "i < 6" for i base limit access gran m
    unfolding gdt_set_gate_list using write_part_outside [OF v(1), where j = "8 * i" and m = m] that by simp
  have gates: "gdt_set_gate ?t 0 base limit access gran m v = m v" "gdt_set_gate ?t 1 base limit access gran m v = m v"
    "gdt_set_gate ?t 2 base limit access gran m v = m v" "gdt_set_gate ?t 3 base limit access gran m v = m v"
    "gdt_set_gate ?t 4 base limit access gran m v = m v" "gdt_set_gate ?t 5 base limit access gran m v = m v"
    for base limit access gran m
    using gate [of 0] gate [of 1] gate [of 2] gate [of 3] gate [of 4] gate [of 5] by simp_all
  note tw = write_part_outside [OF v(3)]
  have tss: "clear_tss ?s m v = m v" for m
    using tw [of 104 0] tw [of 104 4] tw [of 104 8] tw [of 104 72] tw [of 104 76] tw [of 104 80] tw [of 104 88] tw [of 104 92] tw [of 104 102]
    by (simp add: clear_tss_def Let_def st_list del: write_list.simps)
  note pw = write_part_outside [OF v(2)]
  have ptr: "st_dt_ptr (gdt_ptr y) a b m v = m v" for a b m
    using pw [of 6 0] pw [of 6 2] by (simp add: st_dt_ptr_def st_list del: write_list.simps)
  define m1 where "m1 = clear_tss ?s (gdt_set_gate ?t 5 ?s (?s + 104) 0xE9 0x00 (gdt_set_gate ?t 4 0 0xFFFFFFFF 0xF2 0xCF
    (gdt_set_gate ?t 3 0 0xFFFFFFFF 0xFA 0xCF (gdt_set_gate ?t 2 0 0xFFFFFFFF 0x92 0xCF
    (gdt_set_gate ?t 1 0 0xFFFFFFFF 0x9A 0xCF (gdt_set_gate ?t 0 0 0 0 0 (st_dt_ptr (gdt_ptr y) 47 ?t m)))))))"
  have p: "ld_dt_ptr m1 (gdt_ptr y) = \<lparr>dp_limit = 47, dp_base = ?t\<rparr>"
    by (simp add: m1_def clear_tss_reads(2) [OF l(3)] ptr_set_gate_literal [OF l(1)] ld_dt_ptr_st)
  have "m' = m1(?t + 45 := m1 (?t + 45) OR 2)"
    using run by (simp add: gdt_init_def Let_def m1_def [symmetric] load_tss_def load_gdt_def p st8_def add.assoc)
  moreover have "v \<noteq> ?t + 45" using v(1) [of 45] by simp
  moreover have "m1 v = m v" by (simp add: m1_def tss gates ptr)
  ultimately show ?thesis by simp
qed

lemma idt_init_outside:
  assumes run: "idt_init y (m, r) = (m', r')"
    and v: "\<And>i. i < 2048 \<Longrightarrow> v \<noteq> idt_entries y + of_nat i" "\<And>i. i < 6 \<Longrightarrow> v \<noteq> idt_ptr y + of_nat i"
  shows "m' v = m v" "n \<le> 256 \<Longrightarrow> set_stubs (idt_entries y) stubs n x v = x v"
proof -
  note pw = write_part_outside [OF v(2)]
  have "st_dt_ptr (idt_ptr y) a b m v = m v" for a b m
    using pw [of 6 0] pw [of 6 2] by (simp add: st_dt_ptr_def st_list del: write_list.simps)
  moreover have "fill_up (idt_entries y) 0 2048 m v = m v" for m
    using write_part_outside [OF v(1), of 2048 0 "replicate 2048 0" m] by (simp add: fill_up_write_list)
  ultimately show "m' v = m v" using run by (auto simp: idt_init_def Let_def)
  show "n \<le> 256 \<Longrightarrow> set_stubs (idt_entries y) stubs n x v = x v"
  proof (induction n)
    case (Suc n)
    have "idt_set_gate (idt_entries y) (of_nat n) z 0x08 0x8E m v = m v" for z m
      unfolding idt_set_gate_list using write_part_outside [OF v(1), where j = "8 * n" and m = m] Suc.prems by simp
    then show ?case using Suc by (simp add: set_stubs_Suc)
  qed (simp add: set_stubs_def)
qed

section \<open>Witnesses\<close>

definition demo_gdt :: gdt_symbols where
  "demo_gdt = \<lparr>gdt_entries = 0x1000, gdt_ptr = 0x1040, tss_entry = 0x2000\<rparr>"

definition demo_idt :: idt_symbols where
  "demo_idt = \<lparr>idt_entries = 0x1000, idt_ptr = 0x2000\<rparr>"

definition demo_regs :: table_regs where
  "demo_regs = \<lparr>gdtr = \<lparr>dp_limit = 0, dp_base = 0\<rparr>, idtr = \<lparr>dp_limit = 0, dp_base = 0\<rparr>, code_sel = 0, data_sel = 0, task_sel = 0\<rparr>"

lemma demo_layouts: "gdt_layout demo_gdt" "idt_layout demo_idt 0x3000"
  unfolding gdt_layout_def idt_layout_def demo_gdt_def demo_idt_def by (intro conjI; rule apart_if; simp)+


theorem initgdt32_segments_witness:
  "\<exists>m r. initgdt32 demo_gdt (\<lambda>_. 0, demo_regs) = (m, r) \<and> segment_of m r (code_sel r) = Some (flat 0x9A)"
proof -
  obtain m r where run: "initgdt32 demo_gdt (\<lambda>_. 0, demo_regs) = (m, r)" by (rule prod.exhaust)
  have "apart (gdt_entries demo_gdt) 48 (gdt_ptr demo_gdt) 6" by (rule gdt_layoutD(1) [OF demo_layouts(1)])
  from initgdt32_segments [OF this run] run show ?thesis
    by (simp add: table_desc_def ld_gdt_entry_def ld16_def)
qed

theorem idt_gates_correct_witness:
  "\<exists>m r. idt_init demo_idt (\<lambda>a. ucast a, demo_regs) = (m, r) \<and>
    interrupt_gate (set_stubs (idt_entries demo_idt) 0x3000 256 m) r 14 = Some (0x08, 0x3B3A3938)"
proof -
  obtain m r where run: "idt_init demo_idt (\<lambda>a. ucast a, demo_regs) = (m, r)" by (rule prod.exhaust)
  from idt_gates_correct [OF demo_layouts(2) run _ refl, of 14] run show ?thesis by (simp add: ld32_def)
qed

end
