(* ===== verification/Ports.thy ===== *)
theory Ports
  imports Prelude
begin

text \<open>
  The port instructions of \<open>include/arch/x86/llio.h\<close> and the serial port of \<open>platform/pc/serial.cc\<close>. The devices
  behind the ports are not part of the sources: a bus gives the effect of a read and of a write on
  their state \<open>'d\<close>.
\<close>

section \<open>Ports\<close>

record 'd bus =
  bus_in :: "u16 \<Rightarrow> 'd \<Rightarrow> u8 \<times> 'd"
  bus_out :: "u16 \<Rightarrow> u8 \<Rightarrow> 'd \<Rightarrow> 'd"

definition inb :: "'d bus \<Rightarrow> u16 \<Rightarrow> 'd \<Rightarrow> u8 \<times> 'd" where
  "inb bus port d = bus_in bus port d"

definition outb :: "'d bus \<Rightarrow> u16 \<Rightarrow> u8 \<Rightarrow> 'd \<Rightarrow> 'd" where
  "outb bus port v d = bus_out bus port v d"

text \<open>A sequence of writes in the order they are made.\<close>

definition outbs :: "'d bus \<Rightarrow> (u16 \<times> u8) list \<Rightarrow> 'd \<Rightarrow> 'd" where
  "outbs bus ws d = fold (\<lambda>(p, v). outb bus p v) ws d"

lemma outbs_append: "outbs bus (ws @ vs) d = outbs bus vs (outbs bus ws d)"
  by (simp add: outbs_def)

text \<open>A bus on which nothing answers, with the log of what was written.\<close>

definition log_bus :: "(u16 \<times> u8) list bus" where
  "log_bus = \<lparr>bus_in = (\<lambda>p d. (0, d)), bus_out = (\<lambda>p v d. d @ [(p, v)])\<rparr>"

lemma outbs_log: "outbs log_bus ws d = d @ ws"
  by (induction ws arbitrary: d) (auto simp: outbs_def outb_def log_bus_def)

section \<open>The serial port\<close>

definition COM1 :: u16 where "COM1 = 0x3F8"
definition COM2 :: u16 where "COM2 = 0x2F8"

definition serial_received :: "'d bus \<Rightarrow> u16 \<Rightarrow> 'd \<Rightarrow> u8 \<times> 'd" where
  "serial_received bus port d = (case inb bus (port + 5) d of (v, d) \<Rightarrow> (v AND 1, d))"

definition serial_is_transmit_empty :: "'d bus \<Rightarrow> u16 \<Rightarrow> 'd \<Rightarrow> u8 \<times> 'd" where
  "serial_is_transmit_empty bus port d = (case inb bus (port + 5) d of (v, d) \<Rightarrow> (v AND 0x20, d))"

definition serial_init :: "'d bus \<Rightarrow> u16 \<Rightarrow> 'd \<Rightarrow> 'd" where
  "serial_init bus port d = outbs bus [(port + 1, 0x00), (port + 3, 0x80), (port + 0, 0x03), (port + 1, 0x00),
     (port + 3, 0x03), (port + 2, 0xC7), (port + 4, 0x0B)] d"

text \<open>The loops read the line status until its bit is set; they do not end when it never is.\<close>

partial_function (option) serial_read :: "'d bus \<Rightarrow> u16 \<Rightarrow> 'd \<Rightarrow> (u8 \<times> 'd) option" where
  "serial_read bus port d =
     (case serial_received bus port d of (r, d) \<Rightarrow>
        if r = 0 then serial_read bus port d else Some (inb bus port d))"

partial_function (option) serial_write :: "'d bus \<Rightarrow> u16 \<Rightarrow> u8 \<Rightarrow> 'd \<Rightarrow> 'd option" where
  "serial_write bus port a d =
     (case serial_is_transmit_empty bus port d of (r, d) \<Rightarrow>
        if r = 0 then serial_write bus port a d else Some (outb bus port a d))"

text \<open>
  \<open>polls bus p b d d'\<close>: reads of port \<open>p\<close> without any of the bits \<open>b\<close> take the devices from \<open>d\<close> to \<open>d'\<close>.
\<close>

inductive polls :: "'d bus \<Rightarrow> u16 \<Rightarrow> u8 \<Rightarrow> 'd \<Rightarrow> 'd \<Rightarrow> bool" for bus p b where
  poll_none: "polls bus p b d d"
| poll_again: "inb bus p d = (v, d1) \<Longrightarrow> v AND b = 0 \<Longrightarrow> polls bus p b d1 d2 \<Longrightarrow> polls bus p b d d2"

lemma serial_read_polls:
  assumes "polls bus (port + 5) 1 d d1" "inb bus (port + 5) d1 = (v, d2)" "v AND 1 \<noteq> 0"
  shows "serial_read bus port d = Some (inb bus port d2)"
  using assms
  by (induction rule: polls.induct) (subst serial_read.simps, simp add: serial_received_def)+

lemma serial_write_polls:
  assumes "polls bus (port + 5) 0x20 d d1" "inb bus (port + 5) d1 = (v, d2)" "v AND 0x20 \<noteq> 0"
  shows "serial_write bus port a d = Some (outb bus port a d2)"
  using assms
  by (induction rule: polls.induct) (subst serial_write.simps, simp add: serial_is_transmit_empty_def)+

end
