(* ===== verification/GdbTraps.thy ===== *)
theory GdbTraps
  imports GdbStub DescTables Ports
begin

text \<open>
  The assembly code of \<open>arch/x86/32/i386-stub.c\<close>: the entry points of the exceptions, the way around a memory
  fault, and the return to the program. Each \<open>asm\<close> statement is one instruction; a macro is a list of
  them. The instructions work on the registers of the processor and the byte memory, without
  a change of privilege.
\<close>

section \<open>The processor\<close>

text \<open>The 16 registers in the debugger's numbering; a segment register holds a value below \<open>2^16\<close>.\<close>

record cpu =
  reg :: "regnames \<Rightarrow> u32"
  ram :: mem

abbreviation segments :: "regnames set" where
  "segments \<equiv> {CS, SS, DS, ES, FS, GS}"

text \<open>The addresses of the variables the code names.\<close>

record symbols = gdb_layout +
  s_errcode :: addr
  s_mem_fault_routine :: addr
  s_stackPtr :: addr

datatype label = Mem_fault | RemcomHandler | Handle_exception

datatype instr =
    Movl_load addr regnames | Movl_store regnames addr | Movl_imm u32 regnames
  | Movw_load_seg addr regnames | Movw_store_seg regnames addr
  | Movw_imm_ax u16 | Movw_store_ax addr
  | Pushl regnames | Pushl_imm u32 | Popl regnames | Leave
  | Jne_var addr label  \<comment> \<open>\<open>cmpl $0, var\<close> and \<open>jne\<close>\<close>
  | Call label | Iret

definition set_reg :: "regnames \<Rightarrow> u32 \<Rightarrow> cpu \<Rightarrow> cpu" where
  "set_reg r v s = s\<lparr>reg := (reg s)(r := v)\<rparr>"

definition push32 :: "u32 \<Rightarrow> cpu \<Rightarrow> cpu" where
  "push32 v s = s\<lparr>reg := (reg s)(ESP := reg s ESP - 4), ram := st32 (reg s ESP - 4) v (ram s)\<rparr>"

definition pop32 :: "cpu \<Rightarrow> u32 \<times> cpu" where
  "pop32 s = (ld32 (ram s) (reg s ESP), s\<lparr>reg := (reg s)(ESP := reg s ESP + 4)\<rparr>)"

definition iret :: "cpu \<Rightarrow> cpu" where
  "iret s =
     (let (ip, s) = pop32 s; (c, s) = pop32 s; (f, s) = pop32 s
      in s\<lparr>reg := (reg s)(CS := c AND 0xFFFF, PC := ip, PS := f)\<rparr>)"

fun step :: "instr \<Rightarrow> cpu \<Rightarrow> cpu" where
  "step (Movl_load a r) s = set_reg r (ld32 (ram s) a) s"
| "step (Movl_store r a) s = s\<lparr>ram := st32 a (reg s r) (ram s)\<rparr>"
| "step (Movl_imm v r) s = set_reg r v s"
| "step (Movw_load_seg a g) s = set_reg g (ucast (ld16 (ram s) a)) s"
| "step (Movw_store_seg g a) s = s\<lparr>ram := st16 a (ucast (reg s g)) (ram s)\<rparr>"
| "step (Movw_imm_ax v) s = set_reg EAX ((reg s EAX AND NOT 0xFFFF) OR ucast v) s"
| "step (Movw_store_ax a) s = s\<lparr>ram := st16 a (ucast (reg s EAX)) (ram s)\<rparr>"
| "step (Pushl r) s = push32 (reg s r) s"
| "step (Pushl_imm v) s = push32 v s"
| "step (Popl r) s = (let (v, s) = pop32 s in set_reg r v s)"
| "step Leave s = (let (v, s) = pop32 (set_reg ESP (reg s EBP) s) in set_reg EBP v s)"
| "step (Jne_var a l) s = s"
| "step (Call l) s = push32 (reg s PC) s"
| "step Iret s = iret s"

text \<open>How a piece of code is left. The return address a call pushes is not used by the callees.\<close>

datatype exit = Falls | Goes label | Returns

fun exec :: "instr list \<Rightarrow> cpu \<Rightarrow> exit \<times> cpu" where
  "exec [] s = (Falls, s)"
| "exec (i # is) s = (case i of
      Jne_var a l \<Rightarrow> if ld32 (ram s) a \<noteq> 0 then (Goes l, s) else exec is s
    | Call l \<Rightarrow> (Goes l, step i s)
    | Iret \<Rightarrow> (Returns, step i s)
    | _ \<Rightarrow> exec is (step i s))"

section \<open>The code\<close>

definition return_to_prog :: "symbols \<Rightarrow> instr list" where
  "return_to_prog y = (let r = registers y in
     [Movw_load_seg (r + 44) SS, Movl_load (r + 16) ESP, Movl_load (r + 4) ECX, Movl_load (r + 8) EDX,
      Movl_load (r + 12) EBX, Movl_load (r + 20) EBP, Movl_load (r + 24) ESI, Movl_load (r + 28) EDI,
      Movw_load_seg (r + 48) DS, Movw_load_seg (r + 52) ES, Movw_load_seg (r + 56) FS, Movw_load_seg (r + 60) GS,
      Movl_load (r + 36) EAX, Pushl EAX, Movl_load (r + 40) EAX, Pushl EAX, Movl_load (r + 32) EAX, Pushl EAX,
      Movl_load r EAX, Iret])"

definition SAVEregisters1 :: "symbols \<Rightarrow> instr list" where
  "SAVEregisters1 y = (let r = registers y in
     [Movl_store EAX r, Movl_store ECX (r + 4), Movl_store EDX (r + 8), Movl_store EBX (r + 12),
      Movl_store EBP (r + 20), Movl_store ESI (r + 24), Movl_store EDI (r + 28), Movw_imm_ax 0,
      Movw_store_seg DS (r + 48), Movw_store_ax (r + 50), Movw_store_seg ES (r + 52), Movw_store_ax (r + 54),
      Movw_store_seg FS (r + 56), Movw_store_ax (r + 58), Movw_store_seg GS (r + 60), Movw_store_ax (r + 62)])"

definition SAVE_ERRCODE :: "symbols \<Rightarrow> instr list" where
  "SAVE_ERRCODE y = [Popl EBX, Movl_store EBX (s_errcode y)]"

definition SAVEregisters2 :: "symbols \<Rightarrow> instr list" where
  "SAVEregisters2 y = (let r = registers y in
     [Popl EBX, Movl_store EBX (r + 32), Popl EBX, Movl_store EBX (r + 40), Movw_store_ax (r + 42),
      Popl EBX, Movl_store EBX (r + 36), Movw_store_seg SS (r + 44), Movw_store_ax (r + 46), Movl_store ESP (r + 16)])"

definition CHECK_FAULT :: "symbols \<Rightarrow> instr list" where
  "CHECK_FAULT y = [Jne_var (s_mem_fault_routine y) Mem_fault]"

definition mem_fault :: "symbols \<Rightarrow> instr list" where
  "mem_fault y =
     [Popl EAX, Movl_store EAX (s_errcode y), Popl EAX, Movl_load (s_mem_fault_routine y) EAX, Popl ECX, Popl EDX,
      Leave, Pushl EDX, Pushl ECX, Pushl EAX, Movl_imm 0 EAX, Movl_store EAX (s_mem_fault_routine y), Iret]"

definition CALL_HOOK :: "instr list" where
  "CALL_HOOK = [Call RemcomHandler]"

definition catchException3 :: "symbols \<Rightarrow> instr list" where
  "catchException3 y = SAVEregisters1 y @ SAVEregisters2 y @ [Pushl_imm 3] @ CALL_HOOK"

definition catchException1 :: "symbols \<Rightarrow> instr list" where
  "catchException1 y = SAVEregisters1 y @ SAVEregisters2 y @ [Pushl_imm 1] @ CALL_HOOK"

definition catchException0 :: "symbols \<Rightarrow> instr list" where
  "catchException0 y = SAVEregisters1 y @ SAVEregisters2 y @ [Pushl_imm 0] @ CALL_HOOK"

definition catchException4 :: "symbols \<Rightarrow> instr list" where
  "catchException4 y = SAVEregisters1 y @ SAVEregisters2 y @ [Pushl_imm 4] @ CALL_HOOK"

definition catchException5 :: "symbols \<Rightarrow> instr list" where
  "catchException5 y = SAVEregisters1 y @ SAVEregisters2 y @ [Pushl_imm 5] @ CALL_HOOK"

definition catchException6 :: "symbols \<Rightarrow> instr list" where
  "catchException6 y = SAVEregisters1 y @ SAVEregisters2 y @ [Pushl_imm 6] @ CALL_HOOK"

definition catchException7 :: "symbols \<Rightarrow> instr list" where
  "catchException7 y = SAVEregisters1 y @ SAVEregisters2 y @ [Pushl_imm 7] @ CALL_HOOK"

definition catchException8 :: "symbols \<Rightarrow> instr list" where
  "catchException8 y = SAVEregisters1 y @ SAVE_ERRCODE y @ SAVEregisters2 y @ [Pushl_imm 8] @ CALL_HOOK"

definition catchException9 :: "symbols \<Rightarrow> instr list" where
  "catchException9 y = SAVEregisters1 y @ SAVEregisters2 y @ [Pushl_imm 9] @ CALL_HOOK"

definition catchException10 :: "symbols \<Rightarrow> instr list" where
  "catchException10 y = SAVEregisters1 y @ SAVE_ERRCODE y @ SAVEregisters2 y @ [Pushl_imm 10] @ CALL_HOOK"

definition catchException12 :: "symbols \<Rightarrow> instr list" where
  "catchException12 y = SAVEregisters1 y @ SAVE_ERRCODE y @ SAVEregisters2 y @ [Pushl_imm 12] @ CALL_HOOK"

definition catchException16 :: "symbols \<Rightarrow> instr list" where
  "catchException16 y = SAVEregisters1 y @ SAVEregisters2 y @ [Pushl_imm 16] @ CALL_HOOK"

definition catchException13 :: "symbols \<Rightarrow> instr list" where
  "catchException13 y = CHECK_FAULT y @ SAVEregisters1 y @ SAVE_ERRCODE y @ SAVEregisters2 y @ [Pushl_imm 13] @ CALL_HOOK"

definition catchException11 :: "symbols \<Rightarrow> instr list" where
  "catchException11 y = CHECK_FAULT y @ SAVEregisters1 y @ SAVE_ERRCODE y @ SAVEregisters2 y @ [Pushl_imm 11] @ CALL_HOOK"

definition catchException14 :: "symbols \<Rightarrow> instr list" where
  "catchException14 y = CHECK_FAULT y @ SAVEregisters1 y @ SAVE_ERRCODE y @ SAVEregisters2 y @ [Pushl_imm 14] @ CALL_HOOK"

definition remcomHandler :: "symbols \<Rightarrow> instr list" where
  "remcomHandler y = [Popl EAX, Popl EAX, Movl_load (s_stackPtr y) ESP, Pushl EAX, Call Handle_exception]"

text \<open>The entry point of each vector \<open>set_debug_traps\<close> installs.\<close>

definition catch_code :: "symbols \<Rightarrow> nat \<Rightarrow> instr list option" where
  "catch_code y n = map_of
     [(0, catchException0 y), (1, catchException1 y), (3, catchException3 y), (4, catchException4 y),
      (5, catchException5 y), (6, catchException6 y), (7, catchException7 y), (8, catchException8 y),
      (9, catchException9 y), (10, catchException10 y), (11, catchException11 y), (12, catchException12 y),
      (13, catchException13 y), (14, catchException14 y), (16, catchException16 y)] n"

text \<open>Control goes on from one label to the next; \<open>handle_exception\<close> and the return are left to the caller.\<close>

definition run_trap :: "symbols \<Rightarrow> instr list \<Rightarrow> cpu \<Rightarrow> exit \<times> cpu" where
  "run_trap y code s = (case exec code s of
      (Goes RemcomHandler, s) \<Rightarrow> exec (remcomHandler y) s
    | (Goes Mem_fault, s) \<Rightarrow> exec (mem_fault y) s
    | r \<Rightarrow> r)"

text \<open>What the processor does with an exception: \<open>err\<close> is the error code of the vectors that have one.\<close>

definition raise_exception :: "u32 option \<Rightarrow> cpu \<Rightarrow> cpu" where
  "raise_exception err s =
     (let s = push32 (reg s PC) (push32 (reg s CS) (push32 (reg s PS) s))
      in case err of None \<Rightarrow> s | Some e \<Rightarrow> push32 e s)"

section \<open>Straight-line code\<close>

fun straight :: "instr \<Rightarrow> bool" where
  "straight (Jne_var a l) \<longleftrightarrow> False"
| "straight (Call l) \<longleftrightarrow> False"
| "straight Iret \<longleftrightarrow> False"
| "straight _ \<longleftrightarrow> True"

lemma exec_append: "list_all straight xs \<Longrightarrow> exec (xs @ ys) s = exec ys (fold step xs s)"
proof (induction xs arbitrary: s)
  case (Cons i xs)
  then show ?case by (cases i) auto
qed simp

lemma straight_macros:
  "list_all straight (SAVEregisters1 y)" "list_all straight (SAVEregisters2 y)" "list_all straight (SAVE_ERRCODE y)"
  by (simp_all add: SAVEregisters1_def SAVEregisters2_def SAVE_ERRCODE_def Let_def)

section \<open>The memory of the registers\<close>

text \<open>The two halves of a segment register's word.\<close>

lemma drop_small:
  assumes "(v :: u32) < 0x10000"
  shows "drop_bit 16 v = 0" "drop_bit 24 v = 0" "v AND 0xFFFF = v" "ucast (ucast v :: u16) = v"
    and "bit v n \<Longrightarrow> n < 16"
proof -
  have "unat v < 2 ^ 16" using assms by (simp add: word_less_nat_alt)
  then have v: "take_bit 16 v = v" by (simp add: word_unat_eq_iff unsigned_take_bit_eq take_bit_nat_eq_self)
  then have b: "\<not> bit v n" if "16 \<le> n" for n using that by (metis bit_take_bit_iff not_le)
  show "drop_bit 16 v = 0" "drop_bit 24 v = 0" by (rule bit_word_eqI; simp add: bit_drop_bit_eq b)+
  have "(0xFFFF :: u32) = mask 16" by (simp add: mask_eq_exp_minus_1)
  then show "v AND 0xFFFF = v" using v by (simp add: take_bit_eq_mask)
  show low: "bit v n \<Longrightarrow> n < 16" for n using b [of n] by (rule_tac ccontr) (simp add: not_less)
  show "ucast (ucast v :: u16) = v"
    by (rule bit_word_eqI) (auto simp: bit_simps dest: low)
qed

lemma st16_pair:
  assumes "c' = c + 2" "v < 0x10000"
  shows "st16 (R + c') 0 (st16 (R + c) (ucast v) m) = st32 (R + c) v m"
    and "st16 (R + c') 0 (st32 (R + c) v m) = st32 (R + c) v m"
proof -
  have u: "drop_bit 8 (ucast v :: u16) = ucast (drop_bit 8 v)"
    by (rule bit_word_eqI) (auto simp: bit_simps dest: drop_small(5) [OF assms(2)])
  have n: "(ucast (ucast w :: u16) :: u8) = ucast w" for w :: u32
    by (rule bit_word_eqI) (simp add: bit_simps)
  show "st16 (R + c') 0 (st16 (R + c) (ucast v) m) = st32 (R + c) v m"
    "st16 (R + c') 0 (st32 (R + c) v m) = st32 (R + c) v m"
    using drop_small [OF assms(2)] by (simp_all add: st16_def st32_def assms(1) add.assoc u n fun_upd_twist)
qed

lemma ax_zero: "(ucast ((x AND NOT 0xFFFF) OR ucast (0 :: u16) :: u32) :: u16) = 0"
proof -
  have e: "(0xFFFF :: u32) = mask 16" by (simp add: mask_eq_exp_minus_1)
  show ?thesis unfolding e by (rule bit_word_eqI) (simp add: bit_simps)
qed

lemma ld16_low: "ld16 m a = ucast (ld32 m a)"
  by (rule bit_word_eqI) (auto simp: ld16_def ld32_def bit_simps dest: bit_imp_le_length)

section \<open>Saving\<close>

lemma fold_Save1:
  assumes "\<forall>g \<in> segments. reg s g < 0x10000"
  shows "fold step (SAVEregisters1 y) s =
    s\<lparr>reg := (reg s)(EAX := reg s EAX AND NOT 0xFFFF),
      ram := (let r = registers y; v = reg s in
        st32 (r + 60) (v GS) (st32 (r + 56) (v FS) (st32 (r + 52) (v ES) (st32 (r + 48) (v DS)
        (st32 (r + 28) (v EDI) (st32 (r + 24) (v ESI) (st32 (r + 20) (v EBP) (st32 (r + 12) (v EBX)
        (st32 (r + 8) (v EDX) (st32 (r + 4) (v ECX) (st32 r (v EAX) (ram s))))))))))))\<rparr>"
  using assms by (simp add: SAVEregisters1_def Let_def set_reg_def ax_zero [simplified] st16_pair)

text \<open>A word of one block is read over a write to a word of another.\<close>

lemma ld32_blocks:
  assumes "apart a n b k"
  shows "unat c + 4 \<le> n \<Longrightarrow> unat d + 4 \<le> k \<Longrightarrow> ld32 (st32 (b + d) v m) (a + c) = ld32 m (a + c)"
    "4 \<le> n \<Longrightarrow> unat d + 4 \<le> k \<Longrightarrow> ld32 (st32 (b + d) v m) a = ld32 m a"
    "unat c + 4 \<le> n \<Longrightarrow> 4 \<le> k \<Longrightarrow> ld32 (st32 b v m) (a + c) = ld32 m (a + c)"
    "4 \<le> n \<Longrightarrow> 4 \<le> k \<Longrightarrow> ld32 (st32 b v m) a = ld32 m a"
proof -
  have *: "ld32 (st32 (b + d) v m) (a + c) = ld32 m (a + c)" if "unat c + 4 \<le> n" "unat d + 4 \<le> k" for c d
    using ld32_st32_apart [OF apart_part [OF assms, of "unat c" 4 "unat d" 4]] that by simp
  show "unat c + 4 \<le> n \<Longrightarrow> unat d + 4 \<le> k \<Longrightarrow> ld32 (st32 (b + d) v m) (a + c) = ld32 m (a + c)" by (rule *)
  show "4 \<le> n \<Longrightarrow> unat d + 4 \<le> k \<Longrightarrow> ld32 (st32 (b + d) v m) a = ld32 m a" using * [of 0 d] by simp
  show "unat c + 4 \<le> n \<Longrightarrow> 4 \<le> k \<Longrightarrow> ld32 (st32 b v m) (a + c) = ld32 m (a + c)" using * [of c 0] by simp
  show "4 \<le> n \<Longrightarrow> 4 \<le> k \<Longrightarrow> ld32 (st32 b v m) a = ld32 m a" using * [of 0 0] by simp
qed

text \<open>The second half: the frame is popped, \<open>EBX\<close> is used for it, and the stack pointer is saved last.\<close>

lemma fold_Save2:
  assumes ap: "apart t 12 (registers y) 64" and t: "reg s ESP = t" and ax: "(ucast (reg s EAX) :: u16) = 0"
    and cs: "ld32 (ram s) (t + 4) < 0x10000" and ss: "reg s SS < 0x10000"
  shows "fold step (SAVEregisters2 y) s =
    s\<lparr>reg := (reg s)(EBX := ld32 (ram s) (t + 8), ESP := t + 12),
      ram := (let r = registers y in st32 (r + 16) (t + 12) (st32 (r + 44) (reg s SS) (st32 (r + 36) (ld32 (ram s) (t + 8))
        (st32 (r + 40) (ld32 (ram s) (t + 4)) (st32 (r + 32) (ld32 (ram s) t) (ram s))))))\<rparr>"
  using ax cs ss
  by (simp add: SAVEregisters2_def Let_def set_reg_def pop32_def t ld32_blocks [OF ap] st16_pair fun_upd_twist
      add.commute [of "numeral _" t])

section \<open>A trap\<close>

text \<open>
  The blocks the entry code works on lie apart: the frame the processor pushes, the saved registers, the
  variables, and the top of the stub's own stack.
\<close>

definition trap_layout :: "symbols \<Rightarrow> cpu \<Rightarrow> bool" where
  "trap_layout y s \<longleftrightarrow> apart (reg s ESP - 16) 16 (registers y) 64 \<and> apart (s_errcode y) 4 (registers y) 64
    \<and> apart (s_stackPtr y) 4 (registers y) 64 \<and> apart (reg s ESP - 16) 16 (s_errcode y) 4
    \<and> apart (s_stackPtr y) 4 (s_errcode y) 4 \<and> apart (s_stackPtr y) 4 (reg s ESP - 16) 16
    \<and> apart (registers y) 64 (ld32 (ram s) (s_stackPtr y) - 8) 8
    \<and> apart (s_mem_fault_routine y) 4 (reg s ESP - 16) 16"

definition segs_small :: "cpu \<Rightarrow> bool" where
  "segs_small s \<longleftrightarrow> (\<forall>g \<in> segments. reg s g < 0x10000)"

text \<open>What the stub is handed: the registers of the interrupted program and the vector.\<close>

definition saved :: "symbols \<Rightarrow> cpu \<Rightarrow> u32 \<Rightarrow> cpu \<Rightarrow> bool" where
  "saved y s n s' \<longleftrightarrow> (\<forall>r. ld32 (ram s') (reg_addr (gdb_layout.truncate y) r) = reg s r) \<and> ld32 (ram s') (reg s' ESP + 4) = n"

definition entry_code :: "symbols \<Rightarrow> u32 \<Rightarrow> instr list" where
  "entry_code y n = SAVEregisters1 y @ SAVEregisters2 y @ [Pushl_imm n] @ CALL_HOOK"

definition entry_code_err :: "symbols \<Rightarrow> u32 \<Rightarrow> instr list" where
  "entry_code_err y n = SAVEregisters1 y @ SAVE_ERRCODE y @ SAVEregisters2 y @ [Pushl_imm n] @ CALL_HOOK"

lemma reg_addrs:
  "reg_addr L EAX = registers L" "reg_addr L ECX = registers L + 4" "reg_addr L EDX = registers L + 8"
  "reg_addr L EBX = registers L + 12" "reg_addr L ESP = registers L + 16" "reg_addr L EBP = registers L + 20"
  "reg_addr L ESI = registers L + 24" "reg_addr L EDI = registers L + 28" "reg_addr L PC = registers L + 32"
  "reg_addr L PS = registers L + 36" "reg_addr L CS = registers L + 40" "reg_addr L SS = registers L + 44"
  "reg_addr L DS = registers L + 48" "reg_addr L ES = registers L + 52" "reg_addr L FS = registers L + 56"
  "reg_addr L GS = registers L + 60"
  by (simp_all add: reg_addr_def)

lemma all_regs: "(\<forall>r. P r) \<longleftrightarrow> P EAX \<and> P ECX \<and> P EDX \<and> P EBX \<and> P ESP \<and> P EBP \<and> P ESI \<and> P EDI \<and> P PC \<and> P PS
    \<and> P CS \<and> P SS \<and> P DS \<and> P ES \<and> P FS \<and> P GS"
proof (intro iffI allI)
  fix r
  show "P r" if "P EAX \<and> P ECX \<and> P EDX \<and> P EBX \<and> P ESP \<and> P EBP \<and> P ESI \<and> P EDI \<and> P PC \<and> P PS
    \<and> P CS \<and> P SS \<and> P DS \<and> P ES \<and> P FS \<and> P GS"
    using that by (cases r) simp_all
qed simp

text \<open>Offsets are written behind their base.\<close>

lemma offset_right: "numeral k + T = T + (numeral k :: u32)"
  by (rule add.commute)

lemma raised:
  assumes "reg s ESP = T + 16"
  shows "raise_exception None s = s\<lparr>reg := (reg s)(ESP := T + 4),
      ram := st32 (T + 4) (reg s PC) (st32 (T + 8) (reg s CS) (st32 (T + 12) (reg s PS) (ram s)))\<rparr>"
    "raise_exception (Some e) s = s\<lparr>reg := (reg s)(ESP := T),
      ram := st32 T e (st32 (T + 4) (reg s PC) (st32 (T + 8) (reg s CS) (st32 (T + 12) (reg s PS) (ram s))))\<rparr>"
  using assms by (simp_all add: raise_exception_def push32_def Let_def offset_right [of _ T])

lemma frame_layoutD:
  assumes "trap_layout y s" "reg s ESP = T + 16" "ld32 (ram s) (s_stackPtr y) = V + 8"
  shows "apart T 16 (registers y) 64" "apart (registers y) 64 T 16" "apart (registers y) 64 (s_errcode y) 4"
    "apart (s_stackPtr y) 4 (registers y) 64" "apart T 16 (s_errcode y) 4" "apart (s_stackPtr y) 4 (s_errcode y) 4"
    "apart (s_stackPtr y) 4 T 16" "apart (registers y) 64 V 8" "apart (s_mem_fault_routine y) 4 T 16"
  using assms by (simp_all add: trap_layout_def apart_sym)

text \<open>The words of the registers after both halves.\<close>

definition save_words :: "addr \<Rightarrow> (regnames \<Rightarrow> u32) \<Rightarrow> mem \<Rightarrow> mem" where
  "save_words R v m = st32 (R + 16) (v ESP) (st32 (R + 44) (v SS) (st32 (R + 36) (v PS) (st32 (R + 40) (v CS)
     (st32 (R + 32) (v PC) (st32 (R + 60) (v GS) (st32 (R + 56) (v FS) (st32 (R + 52) (v ES) (st32 (R + 48) (v DS)
     (st32 (R + 28) (v EDI) (st32 (R + 24) (v ESI) (st32 (R + 20) (v EBP) (st32 (R + 12) (v EBX)
     (st32 (R + 8) (v EDX) (st32 (R + 4) (v ECX) (st32 R (v EAX) m)))))))))))))))"

lemma ld_save_words: "ld32 (save_words (registers L) v m) (reg_addr L r) = v r"
  by (cases r) (simp_all add: save_words_def reg_addrs ld_st_far)

lemma save_words_apart:
  assumes "apart a n R 64" "unat c + 4 \<le> n"
  shows "ld32 (save_words R v m) (a + c) = ld32 m (a + c)"
  using assms by (simp add: save_words_def ld32_blocks [OF assms(1)])

lemmas save_words_apart_0 = save_words_apart [where c = 0, simplified]

lemma both_saved:
  assumes lay: "trap_layout y s" and seg: "segs_small s" and T: "reg s ESP = T + 16"
  shows "\<exists>v. fold step (SAVEregisters2 y) (fold step (SAVEregisters1 y) (raise_exception None s)) =
    s\<lparr>reg := v(ESP := T + 16), ram := save_words (registers y) (reg s)
      (st32 (T + 4) (reg s PC) (st32 (T + 8) (reg s CS) (st32 (T + 12) (reg s PS) (ram s))))\<rparr>"
proof -
  note L = frame_layoutD [OF lay T diff_add_cancel [symmetric]] and R = raised [OF T]
  have sm: "\<forall>g \<in> segments. reg (raise_exception None s) g < 0x10000" "reg s CS < 0x10000" "reg s SS < 0x10000"
    using seg by (simp_all add: R segs_small_def)
  note S1 = fold_Save1 [OF sm(1)]
  have ap: "apart (T + 4) 12 (registers y) 64" using apart_part [OF L(1), of 4 12 0 64] by simp
  show ?thesis
    unfolding S1
    by (subst fold_Save2 [OF ap])
      (simp_all add: R Let_def ax_zero [simplified] ld32_blocks [OF L(1)] ld_st_far offset_right [of _ T] sm T save_words_def,
        rule exI, rule refl)
qed

lemma both_saved_err:
  assumes lay: "trap_layout y s" and seg: "segs_small s" and T: "reg s ESP = T + 16"
  shows "\<exists>v m. fold step (SAVEregisters2 y) (fold step (SAVE_ERRCODE y) (fold step (SAVEregisters1 y) (raise_exception (Some e) s))) =
    s\<lparr>reg := v(ESP := T + 16), ram := m\<rparr> \<and> (\<forall>r. ld32 m (reg_addr (gdb_layout.truncate y) r) = reg s r)
    \<and> ld32 m (s_stackPtr y) = ld32 (ram s) (s_stackPtr y)"
proof -
  note L = frame_layoutD [OF lay T diff_add_cancel [symmetric]] and R = raised [OF T]
  have sm: "\<forall>g \<in> segments. reg (raise_exception (Some e) s) g < 0x10000" "reg s CS < 0x10000" "reg s SS < 0x10000"
    using seg by (simp_all add: R segs_small_def)
  note S1 = fold_Save1 [OF sm(1)]
  have ap: "apart (T + 4) 12 (registers y) 64" using apart_part [OF L(1), of 4 12 0 64] by simp
  define s2 where "s2 = fold step (SAVE_ERRCODE y) (fold step (SAVEregisters1 y) (raise_exception (Some e) s))"
  have regs2: "\<forall>r. r \<notin> {EAX, EBX, ESP} \<longrightarrow> reg s2 r = reg s r" "reg s2 ESP = T + 4" "(ucast (reg s2 EAX) :: u16) = 0"
    unfolding s2_def S1 by (simp_all add: SAVE_ERRCODE_def R set_reg_def pop32_def ax_zero [simplified])
  let ?R = "registers y" and ?v = "reg s"
  let ?m0 = "st32 T e (st32 (T + 4) (?v PC) (st32 (T + 8) (?v CS) (st32 (T + 12) (?v PS) (ram s))))"
  let ?m1 = "st32 (?R + 60) (?v GS) (st32 (?R + 56) (?v FS) (st32 (?R + 52) (?v ES) (st32 (?R + 48) (?v DS)
    (st32 (?R + 28) (?v EDI) (st32 (?R + 24) (?v ESI) (st32 (?R + 20) (?v EBP) (st32 (?R + 12) (?v EBX)
      (st32 (?R + 8) (?v EDX) (st32 (?R + 4) (?v ECX) (st32 ?R (?v EAX) ?m0))))))))))"
  have ram2: "ram s2 = st32 (s_errcode y) e ?m1"
    unfolding s2_def S1
    by (simp add: SAVE_ERRCODE_def R Let_def set_reg_def pop32_def ld32_blocks [OF L(1)] ld_st_far)
  have rd: "ld32 (ram s2) (T + 4) = ?v PC" "ld32 (ram s2) (T + 8) = ?v CS" "ld32 (ram s2) (T + 12) = ?v PS"
    unfolding ram2 by (simp_all add: ld32_blocks [OF L(1)] ld32_blocks [OF L(5)] ld_st_far)
  let ?m = "st32 (?R + 16) (T + 16) (st32 (?R + 44) (?v SS) (st32 (?R + 36) (?v PS) (st32 (?R + 40) (?v CS)
    (st32 (?R + 32) (?v PC) (ram s2)))))"
  have t8: "T + 4 + 4 = T + 8" "T + 4 + 8 = T + 12" "T + 4 + 12 = T + 16" by simp_all
  have cs: "ld32 (ram s2) (T + 4 + 4) < 0x10000" "reg s2 SS < 0x10000" by (simp_all only: t8 rd sm) (use regs2(1) sm in simp)
  have "fold step (SAVEregisters2 y) s2 = s2\<lparr>reg := (reg s2)(EBX := ?v PS, ESP := T + 16), ram := ?m\<rparr>"
    using fold_Save2 [OF ap regs2(2,3) cs] regs2(1) unfolding t8 rd by (simp add: Let_def)
  moreover have "ld32 ?m (reg_addr (gdb_layout.truncate y) r) = reg s r" for r
    unfolding ram2
    by (cases r) (simp_all add: reg_addrs gdb_layout.truncate_def ld32_blocks [OF L(3)] ld_st_far T)
  moreover have "ld32 ?m (s_stackPtr y) = ld32 (ram s) (s_stackPtr y)"
    unfolding ram2 by (simp add: ld32_blocks [OF L(4)] ld32_blocks [OF L(6)] ld32_blocks [OF L(7)])
  moreover have "s2\<lparr>reg := f, ram := ?m\<rparr> = s\<lparr>reg := f, ram := ?m\<rparr>" for f by (cases s2, cases s) simp
  ultimately show ?thesis unfolding s2_def [symmetric] by metis
qed

text \<open>The hook takes the vector to the stub's own stack.\<close>

lemma trap_tail:
  assumes ap: "apart (registers y) 64 T 16" "apart (s_stackPtr y) 4 T 16" "apart (registers y) 64 V 8"
    and s1: "s1 = s\<lparr>reg := v(ESP := T + 16), ram := m\<rparr>" and V: "ld32 m (s_stackPtr y) = V + 8"
    and sv: "\<forall>r. ld32 m (reg_addr (gdb_layout.truncate y) r) = reg s r"
  shows "\<exists>s'. run_trap y ([Pushl_imm n] @ CALL_HOOK) s1 = (Goes Handle_exception, s') \<and> saved y s n s'"
proof -
  let ?m1 = "st32 (T + 8) (v PC) (st32 (T + 12) n m)"
  have "exec ([Pushl_imm n] @ CALL_HOOK) s1 = (Goes RemcomHandler, s\<lparr>reg := v(ESP := T + 8), ram := ?m1\<rparr>)"
    by (simp add: CALL_HOOK_def s1 push32_def offset_right [of _ T])
  moreover have "ld32 ?m1 (s_stackPtr y) = V + 8" by (simp add: ld32_blocks [OF ap(2)] V)
  then have "exec (remcomHandler y) (s\<lparr>reg := v(ESP := T + 8), ram := ?m1\<rparr>) =
      (Goes Handle_exception, s\<lparr>reg := v(EAX := n, ESP := V), ram := st32 V (v PC) (st32 (V + 4) n ?m1)\<rparr>)"
    by (simp add: remcomHandler_def push32_def pop32_def set_reg_def ld_st_far Let_def offset_right [of _ T] offset_right [of _ V])
  moreover have "ld32 (st32 V (v PC) (st32 (V + 4) n ?m1)) (reg_addr (gdb_layout.truncate y) r) = reg s r" for r
  proof -
    have "ld32 (st32 V (v PC) (st32 (V + 4) n ?m1)) (reg_addr (gdb_layout.truncate y) r) = ld32 m (reg_addr (gdb_layout.truncate y) r)"
      by (cases r) (simp_all add: reg_addrs gdb_layout.truncate_def ld32_blocks [OF ap(1)] ld32_blocks [OF ap(3)])
    then show ?thesis using sv by simp
  qed
  ultimately show ?thesis by (simp add: run_trap_def saved_def ld_st_far)
qed

lemma trap_entry:
  assumes lay: "trap_layout y s" and seg: "segs_small s"
  shows "\<exists>s'. run_trap y (entry_code y n) (raise_exception None s) = (Goes Handle_exception, s') \<and> saved y s n s'"
    and "\<exists>s'. run_trap y (entry_code_err y n) (raise_exception (Some e) s) = (Goes Handle_exception, s') \<and> saved y s n s'"
proof -
  obtain T V where T: "reg s ESP = T + 16" and V: "ld32 (ram s) (s_stackPtr y) = V + 8" by (metis diff_add_cancel)
  note L = frame_layoutD [OF lay T V]
  obtain v where v: "fold step (SAVEregisters2 y) (fold step (SAVEregisters1 y) (raise_exception None s)) =
      s\<lparr>reg := v(ESP := T + 16), ram := save_words (registers y) (reg s)
        (st32 (T + 4) (reg s PC) (st32 (T + 8) (reg s CS) (st32 (T + 12) (reg s PS) (ram s))))\<rparr>" (is "_ = s\<lparr>reg := _, ram := ?m\<rparr>")
    using both_saved [OF lay seg T] by blast
  have run: "run_trap y (xs @ zs) t = run_trap y zs (fold step xs t)" if "list_all straight xs" for xs zs t
    using that by (simp add: run_trap_def exec_append)
  have "ld32 ?m (s_stackPtr y) = V + 8"
    using V by (simp add: save_words_apart_0 [OF L(4)] ld32_blocks [OF L(7)])
  moreover have "\<forall>r. ld32 ?m (reg_addr (gdb_layout.truncate y) r) = reg s r"
    using ld_save_words [of "gdb_layout.truncate y"] by (simp add: gdb_layout.truncate_def)
  ultimately show "\<exists>s'. run_trap y (entry_code y n) (raise_exception None s) = (Goes Handle_exception, s') \<and> saved y s n s'"
    using trap_tail [OF L(2,7,8) v] by (simp add: entry_code_def run straight_macros)
  obtain v m where m: "fold step (SAVEregisters2 y) (fold step (SAVE_ERRCODE y) (fold step (SAVEregisters1 y) (raise_exception (Some e) s))) =
      s\<lparr>reg := v(ESP := T + 16), ram := m\<rparr>" "\<forall>r. ld32 m (reg_addr (gdb_layout.truncate y) r) = reg s r"
      "ld32 m (s_stackPtr y) = V + 8"
    using both_saved_err [OF lay seg T, of e] V by metis
  show "\<exists>s'. run_trap y (entry_code_err y n) (raise_exception (Some e) s) = (Goes Handle_exception, s') \<and> saved y s n s'"
    using trap_tail [OF L(2,7,8) m(1,3,2)] by (simp add: entry_code_err_def run straight_macros)
qed

section \<open>Return\<close>

lemma seg_load: "v < 0x10000 \<Longrightarrow> ld32 m a = v \<Longrightarrow> ucast (ld16 m a) = v" "v < 0x10000 \<Longrightarrow> v AND 0xFFFF = v"
  by (simp_all add: ld16_low drop_small)

lemma return_restores:
  assumes ap: "apart (registers y) 64 (v ESP - 12) 12" and sm: "\<forall>g \<in> segments. v g < 0x10000"
    and m: "\<forall>r. ld32 (ram s) (reg_addr (gdb_layout.truncate y) r) = v r"
  shows "\<exists>s'. exec (return_to_prog y) s = (Returns, s') \<and> reg s' = v"
proof -
  obtain T where T: "v ESP = T + 12" by (metis diff_add_cancel)
  have A: "apart (registers y) 64 T 12" using ap by (simp add: T)
  have w: "ld32 (ram s) (registers y) = v EAX" "ld32 (ram s) (registers y + 4) = v ECX" "ld32 (ram s) (registers y + 8) = v EDX"
    "ld32 (ram s) (registers y + 12) = v EBX" "ld32 (ram s) (registers y + 16) = T + 12" "ld32 (ram s) (registers y + 20) = v EBP"
    "ld32 (ram s) (registers y + 24) = v ESI" "ld32 (ram s) (registers y + 28) = v EDI" "ld32 (ram s) (registers y + 32) = v PC"
    "ld32 (ram s) (registers y + 36) = v PS" "ld32 (ram s) (registers y + 40) = v CS"
    using m [unfolded all_regs reg_addrs] by (simp_all add: gdb_layout.truncate_def T)
  have g: "ucast (ld16 (ram s) (registers y + 44)) = v SS" "ucast (ld16 (ram s) (registers y + 48)) = v DS"
    "ucast (ld16 (ram s) (registers y + 52)) = v ES" "ucast (ld16 (ram s) (registers y + 56)) = v FS"
    "ucast (ld16 (ram s) (registers y + 60)) = v GS" "v CS AND 0xFFFF = v CS"
    using m [unfolded all_regs reg_addrs] sm by (auto simp: gdb_layout.truncate_def intro!: seg_load)
  have "fst (exec (return_to_prog y) s) = Returns" "reg (snd (exec (return_to_prog y) s)) r = v r" for r
    by (cases r; simp add: return_to_prog_def Let_def set_reg_def push32_def pop32_def iret_def w g ld32_blocks [OF A] ld_st_far
        offset_right [of _ T] T)+
  then show ?thesis by (metis prod.collapse ext)
qed

section \<open>A fault of the stub itself\<close>

text \<open>
  \<open>get_char\<close> and \<open>set_char\<close> set \<open>mem_fault_routine\<close> before they touch memory. Their frame, the frame of the
  exception and the two variables lie apart.
\<close>

definition fault_layout :: "symbols \<Rightarrow> cpu \<Rightarrow> bool" where
  "fault_layout y s \<longleftrightarrow> apart (reg s ESP - 16) 16 (reg s EBP - 8) 16 \<and> apart (s_mem_fault_routine y) 4 (reg s ESP - 16) 16
    \<and> apart (s_mem_fault_routine y) 4 (reg s EBP - 8) 16 \<and> apart (s_errcode y) 4 (reg s ESP - 16) 16
    \<and> apart (s_errcode y) 4 (reg s EBP - 8) 16 \<and> apart (s_mem_fault_routine y) 4 (s_errcode y) 4"

lemma fault_run:
  assumes lay: "fault_layout y s" and f: "ld32 (ram s) (s_mem_fault_routine y) = f" "f \<noteq> 0" and cs: "reg s CS < 0x10000"
  shows "\<exists>s'. run_trap y (CHECK_FAULT y @ rest) (raise_exception (Some e) s) = (Returns, s')
    \<and> reg s' = (reg s)(EAX := 0, ECX := reg s CS, EDX := reg s PS, EBP := ld32 (ram s) (reg s EBP), ESP := reg s EBP + 4, PC := f)
    \<and> ld32 (ram s') (reg s' ESP) = ld32 (ram s) (reg s EBP + 4) \<and> ld32 (ram s') (s_errcode y) = e
    \<and> ld32 (ram s') (s_mem_fault_routine y) = 0"
proof -
  obtain T U where T: "reg s ESP = T + 16" and U: "reg s EBP = U + 8" by (metis diff_add_cancel)
  have L: "apart T 16 U 16" "apart U 16 T 16" "apart (s_mem_fault_routine y) 4 T 16" "apart T 16 (s_mem_fault_routine y) 4"
    "apart (s_mem_fault_routine y) 4 U 16" "apart U 16 (s_mem_fault_routine y) 4" "apart (s_errcode y) 4 T 16" "apart T 16 (s_errcode y) 4"
    "apart (s_errcode y) 4 U 16" "apart U 16 (s_errcode y) 4" "apart (s_mem_fault_routine y) 4 (s_errcode y) 4"
    "apart (s_errcode y) 4 (s_mem_fault_routine y) 4"
    using lay by (simp_all add: fault_layout_def T U apart_sym)
  note B = L [THEN ld32_blocks(1)] L [THEN ld32_blocks(2)] L [THEN ld32_blocks(3)] L [THEN ld32_blocks(4)]
  have c: "reg s CS AND 0xFFFF = reg s CS" using cs by (rule seg_load)
  have "exec (CHECK_FAULT y @ rest) (raise_exception (Some e) s) = (Goes Mem_fault, raise_exception (Some e) s)"
    by (simp add: CHECK_FAULT_def raised [OF T] B f)
  moreover have "\<exists>s'. exec (mem_fault y) (raise_exception (Some e) s) = (Returns, s')
    \<and> reg s' = (reg s)(EAX := 0, ECX := reg s CS, EDX := reg s PS, EBP := ld32 (ram s) (U + 8), ESP := U + 12, PC := f)
    \<and> ld32 (ram s') (reg s' ESP) = ld32 (ram s) (U + 12) \<and> ld32 (ram s') (s_errcode y) = e
    \<and> ld32 (ram s') (s_mem_fault_routine y) = 0"
    by (intro exI [of _ "snd (exec (mem_fault y) (raise_exception (Some e) s))"])
      (simp add: mem_fault_def raised [OF T] Let_def set_reg_def push32_def pop32_def iret_def B f c U ld_st_far
        offset_right [of _ T] offset_right [of _ U] fun_upd_twist prod_eq_iff fun_eq_iff)
  ultimately show ?thesis by (simp add: run_trap_def U add.assoc)
qed

section \<open>Installing the handlers\<close>

text \<open>
  \<open>initialized\<close> and the stub's stack are variables too; the entry points are addresses the linker gives. The
  serial line is behind the bus.
\<close>

record debug_symbols = symbols +
  s_initialized :: addr
  s_remcomStack :: addr
  s_catchException :: "nat \<Rightarrow> addr"

definition STACKSIZE :: nat where "STACKSIZE = 10000"

definition exceptionHandler :: "addr \<Rightarrow> u32 \<Rightarrow> addr \<Rightarrow> mem \<Rightarrow> mem" where
  "exceptionHandler idt a b = idt_set_gate idt a b 0x08 0x8E"

definition initGdbSerial :: "'d bus \<Rightarrow> 'd \<Rightarrow> 'd" where
  "initGdbSerial bus = serial_init bus COM2"

text \<open>Whether \<open>int $3\<close> is executed.\<close>

definition breakpoint :: "debug_symbols \<Rightarrow> mem \<Rightarrow> mem \<times> bool" where
  "breakpoint y m = (let m = st32 (s_errcode y) 0 m in (m, m (s_initialized y) \<noteq> 0))"

definition debug_vectors :: "nat list" where
  "debug_vectors = [0, 1, 3, 4, 5, 6, 7, 8, 9, 10, 11, 12, 13, 14, 16]"

definition set_debug_traps :: "'d bus \<Rightarrow> addr \<Rightarrow> debug_symbols \<Rightarrow> mem \<times> 'd \<Rightarrow> (mem \<times> bool) \<times> 'd" where
  "set_debug_traps bus idt y = (\<lambda>(m, d).
     let m = st32 (s_errcode y) (- 1) m;
         d = initGdbSerial bus d;
         m = st32 (s_stackPtr y) (s_remcomStack y + 4 * of_nat (STACKSIZE div 4 - 1)) m;
         m = fold (\<lambda>n. exceptionHandler idt (of_nat n) (s_catchException y n)) debug_vectors m;
         m = st8 (s_initialized y) 1 m
     in (breakpoint y m, d))"

lemma idt_writes_apart:
  assumes "apart b k idt 2048" "i < k" "set ns \<subseteq> {..< 256}"
  shows "fold (\<lambda>n. exceptionHandler idt (of_nat n) (f n)) ns m (b + of_nat i) = m (b + of_nat i)"
  using assms(3)
proof (induction ns arbitrary: m)
  case (Cons n ns)
  have "exceptionHandler idt (of_nat n) (f n) m (b + of_nat i) = m (b + of_nat i)"
    unfolding exceptionHandler_def idt_set_gate_list
    by (rule write_list_apart [OF slot_apart assms(2)]) (use apart_sym [OF assms(1)] Cons.prems in simp_all)
  then show ?case using Cons by simp
qed simp

section \<open>Properties\<close>

text \<open>The vectors with an error code, of those the stub takes.\<close>

definition has_error :: "nat \<Rightarrow> bool" where
  "has_error n \<longleftrightarrow> n \<in> {8, 10, 11, 12, 13, 14}"

lemma catch_codes:
  assumes "catch_code y n = Some code"
  shows "code = (if n \<in> {11, 13, 14} then CHECK_FAULT y @ entry_code_err y (of_nat n)
    else if has_error n then entry_code_err y (of_nat n) else entry_code y (of_nat n))"
  using assms by (auto simp: catch_code_def has_error_def entry_code_def entry_code_err_def catchException0_def
      catchException1_def catchException3_def catchException4_def catchException5_def catchException6_def catchException7_def
      catchException8_def catchException9_def catchException10_def catchException11_def catchException12_def
      catchException13_def catchException14_def catchException16_def split: if_splits)

lemma trap_vector:
  assumes code: "catch_code y n = Some code" and lay: "trap_layout y s" and seg: "segs_small s"
    and nf: "ld32 (ram s) (s_mem_fault_routine y) = 0"
  shows "\<exists>s'. run_trap y code (raise_exception (if has_error n then Some e else None) s) = (Goes Handle_exception, s')
    \<and> saved y s (of_nat n) s'"
proof -
  obtain T V where T: "reg s ESP = T + 16" and V: "ld32 (ram s) (s_stackPtr y) = V + 8" by (metis diff_add_cancel)
  note L = frame_layoutD [OF lay T V]
  have "ld32 (ram (raise_exception (Some e) s)) (s_mem_fault_routine y) = 0"
    by (simp add: raised [OF T] ld32_blocks [OF L(9)] nf)
  then have "run_trap y (CHECK_FAULT y @ xs) (raise_exception (Some e) s) = run_trap y xs (raise_exception (Some e) s)" for xs
    by (simp add: run_trap_def CHECK_FAULT_def)
  then show ?thesis
    using trap_entry [OF lay seg, of "of_nat n"] by (auto simp: catch_codes [OF code] has_error_def)
qed

text \<open>C22. Whatever vector the stub takes, with or without an error code, its entry code ends in \<open>handle_exception\<close> on the
  stub's own stack, with the number of the vector as the argument and all 16 registers of the
  interrupted program in \<open>registers\<close>, the stack pointer as it was before the exception.\<close>

theorem trap_saves:
  assumes code: "catch_code y n = Some code" and lay: "trap_layout y s" and seg: "segs_small s"
    and nf: "ld32 (ram s) (s_mem_fault_routine y) = 0"
  shows "\<exists>s'. run_trap y code (raise_exception (if has_error n then Some e else None) s) = (Goes Handle_exception, s')
    \<and> saved y s (of_nat n) s'"
  by (rule trap_vector [OF code lay seg nf])

text \<open>C23. A program stopped by an exception and resumed with \<open>return_to_prog\<close> goes on with every register as it
  was, when the debugger changed none.\<close>

theorem trap_return_roundtrip:
  assumes code: "catch_code y n = Some code" and lay: "trap_layout y s" and seg: "segs_small s"
    and nf: "ld32 (ram s) (s_mem_fault_routine y) = 0"
    and trap: "run_trap y code (raise_exception (if has_error n then Some e else None) s) = (x, s1)"
    and stop: "\<forall>r. ld32 (ram s2) (reg_addr (gdb_layout.truncate y) r) = ld32 (ram s1) (reg_addr (gdb_layout.truncate y) r)"
  shows "\<exists>s3. exec (return_to_prog y) s2 = (Returns, s3) \<and> reg s3 = reg s"
proof -
  obtain T V where T: "reg s ESP = T + 16" and V: "ld32 (ram s) (s_stackPtr y) = V + 8" by (metis diff_add_cancel)
  have "apart (registers y) 64 (T + 4) 12" using apart_part [OF frame_layoutD(2) [OF lay T V], of 0 64 4 12] by simp
  then have ap: "apart (registers y) 64 (reg s ESP - 12) 12" by (simp add: T offset_right [of _ T])
  obtain s1' where "run_trap y code (raise_exception (if has_error n then Some e else None) s) = (Goes Handle_exception, s1')"
      "saved y s (of_nat n) s1'"
    using trap_vector [OF code lay seg nf] by blast
  with trap have "\<forall>r. ld32 (ram s1) (reg_addr (gdb_layout.truncate y) r) = reg s r" by (simp add: saved_def)
  with stop show ?thesis using seg by (intro return_restores [where v = "reg s", OF ap]) (simp_all add: segs_small_def)
qed

text \<open>When a read or write of the stub faults, the handler returns to the routine in \<open>mem_fault_routine\<close> as if the
  caller of the faulting function had called it: its frame is gone, its return address is on top of
  the stack, the error code is kept and the routine is taken back.\<close>

theorem memory_fault_resumes:
  assumes n: "n = 11 \<or> n = 13 \<or> n = 14" and code: "catch_code y n = Some code" and lay: "fault_layout y s"
    and f: "ld32 (ram s) (s_mem_fault_routine y) = f" "f \<noteq> 0" and cs: "reg s CS < 0x10000"
  shows "\<exists>s'. run_trap y code (raise_exception (Some e) s) = (Returns, s')
    \<and> reg s' = (reg s)(EAX := 0, ECX := reg s CS, EDX := reg s PS, EBP := ld32 (ram s) (reg s EBP), ESP := reg s EBP + 4, PC := f)
    \<and> ld32 (ram s') (reg s' ESP) = ld32 (ram s) (reg s EBP + 4) \<and> ld32 (ram s') (s_errcode y) = e
    \<and> ld32 (ram s') (s_mem_fault_routine y) = 0"
proof -
  have "code = CHECK_FAULT y @ entry_code_err y (of_nat n)" using catch_codes [OF code] n by auto
  then show ?thesis using fault_run [OF lay f cs] by simp
qed

text \<open>\<open>set_debug_traps\<close> gives each of its vectors an interrupt gate to its entry point, leaves the other
  gates, makes the stub's stack end at the top of its area and executes a breakpoint.\<close>

theorem traps_installed:
  assumes ap: "apart (s_stackPtr y) 4 idt 2048" "apart (s_initialized y) 1 idt 2048" "apart (s_errcode y) 4 idt 2048"
      "apart (s_stackPtr y) 4 (s_initialized y) 1" "apart (s_stackPtr y) 4 (s_errcode y) 4" "apart (s_initialized y) 1 (s_errcode y) 4"
    and run: "set_debug_traps bus idt y (m, d) = ((m', int3), d')" and n: "n < 256"
  shows "int3 \<and> ld32 m' (s_stackPtr y) = s_remcomStack y + 9996 \<and> ld32 m' (s_errcode y) = 0
    \<and> ld_idt_entry m' (idt + of_nat (8 * n)) =
      (if n \<in> set debug_vectors then \<lparr>ie_base_lo = ucast (s_catchException y n), ie_sel = 0x08, ie_always0 = 0, ie_flags = 0x8E,
         ie_base_hi = ucast (drop_bit 16 (s_catchException y n))\<rparr>
       else ld_idt_entry m (idt + of_nat (8 * n)))"
proof -
  let ?st = "s_remcomStack y + 9996" and ?I = "s_initialized y" and ?E = "s_errcode y" and ?S = "s_stackPtr y"
  let ?m1 = "st32 ?S ?st (st32 ?E (- 1) m)"
  define m2 where "m2 = fold (\<lambda>n. exceptionHandler idt (of_nat n) (s_catchException y n)) debug_vectors ?m1"
  have m': "m' = st32 ?E 0 (st8 ?I 1 m2)" and i: "int3 \<longleftrightarrow> m' ?I \<noteq> 0"
    using run by (auto simp: set_debug_traps_def breakpoint_def STACKSIZE_def Let_def m2_def)
  have dv: "set debug_vectors \<subseteq> {..< 2 ^ 29}" "set debug_vectors \<subseteq> {..< 256}" by (simp_all add: debug_vectors_def)
  have "m' ?I = 1"
    using ld_write_list_apart(1) [OF ap(6), of "[0, 0, 0, 0]" 0 "st8 ?I 1 m2"] by (simp add: m' st32_list st8_def)
  then have int3 using i by simp
  have "ld32 m' ?S = ld32 m2 ?S"
    using ld_write_list_apart(3) [OF ap(5), of "[0, 0, 0, 0]" 0 "st8 ?I 1 m2"] ld_write_list_apart(3) [OF ap(4), of "[1]" 0 m2]
    by (simp add: m' st32_list st8_list)
  moreover have "ld32 m2 ?S = ld32 ?m1 ?S"
    unfolding m2_def by (rule ld32_cong) (rule idt_writes_apart [OF ap(1) _ dv(2)], simp)
  moreover have "ld_idt_entry m' (idt + of_nat (8 * n)) = ld_idt_entry m2 (idt + of_nat (8 * n))"
    using ld_idt_entry_apart [OF apart_sym [OF ap(3)], of "[0, 0, 0, 0]" "8 * n" "st8 ?I 1 m2"]
      ld_idt_entry_apart [OF apart_sym [OF ap(2)], of "[1]" "8 * n" m2] n
    by (simp add: m' st32_list st8_list)
  moreover have "ld_idt_entry ?m1 (idt + of_nat (8 * n)) = ld_idt_entry m (idt + of_nat (8 * n))"
    using ld_idt_entry_apart [OF apart_sym [OF ap(1)], where bs = "[ucast ?st, ucast (drop_bit 8 ?st), ucast (drop_bit 16 ?st), ucast (drop_bit 24 ?st)]"
        and i = "8 * n" and m = "st32 ?E (- 1) m"]
      ld_idt_entry_apart [OF apart_sym [OF ap(3)], where bs = "[ucast (- 1 :: u32), ucast (drop_bit 8 (- 1 :: u32)), ucast (drop_bit 16 (- 1 :: u32)), ucast (drop_bit 24 (- 1 :: u32))]"
        and i = "8 * n" and m = m] n
    by (simp add: st32_list)
  moreover have "ld_idt_entry m2 (idt + of_nat (8 * n)) = (if n \<in> set debug_vectors
      then \<lparr>ie_base_lo = ucast (s_catchException y n), ie_sel = 0x08, ie_always0 = 0, ie_flags = 0x8E,
         ie_base_hi = ucast (drop_bit 16 (s_catchException y n))\<rparr>
      else ld_idt_entry ?m1 (idt + of_nat (8 * n)))"
    using idt.rd_fold_list [OF dv(1), where j = n and f = "\<lambda>n. (s_catchException y n, 0x08, 0x8E)" and t = idt and m = ?m1] n
    by (simp add: m2_def exceptionHandler_def)
  ultimately show ?thesis using \<open>int3\<close> by (simp add: m')
qed

definition demo_symbols :: symbols where
  "demo_symbols = \<lparr>registers = 0x1000, remcomInBuffer = 0, remcomOutBuffer = 0, lit_OK = 0, lit_E01 = 0, lit_E02 = 0, lit_E03 = 0,
     s_errcode = 0x2000, s_mem_fault_routine = 0x2010, s_stackPtr = 0x2020\<rparr>"

definition demo_cpu :: "u32 \<Rightarrow> cpu" where
  "demo_cpu f = \<lparr>reg = (\<lambda>r. if r \<in> segments then 0x10 else of_nat (regno r))(ESP := 0x9010, EBP := 0xA008, PC := 0x400),
     ram = st32 0x2010 f (\<lambda>a. if a = 0x2021 then 0x80 else 0)\<rparr>"

lemma demo_cpu_words: "ld32 (ram (demo_cpu f)) 0x2010 = f" "ld32 (ram (demo_cpu f)) 0x2020 = 0x8000"
  by (simp_all add: demo_cpu_def ld_st_far) (simp add: ld32_def st32_def)

lemma demo_cpu_layout: "trap_layout demo_symbols (demo_cpu f)" "fault_layout demo_symbols (demo_cpu f)" "segs_small (demo_cpu f)"
proof -
  show "trap_layout demo_symbols (demo_cpu f)"
    unfolding trap_layout_def by (simp add: demo_symbols_def demo_cpu_words) (simp add: demo_cpu_def apart_if)
  show "fault_layout demo_symbols (demo_cpu f)"
    unfolding fault_layout_def by (simp add: demo_symbols_def) (simp add: demo_cpu_def apart_if)
  show "segs_small (demo_cpu f)" by (simp add: segs_small_def demo_cpu_def)
qed

lemma demo_code: "\<exists>code. catch_code demo_symbols 14 = Some code"
  by (simp add: catch_code_def)

theorem trap_saves_witness:
  "\<exists>code s. catch_code demo_symbols 14 = Some code \<and> run_trap demo_symbols code (raise_exception (Some 2) (demo_cpu 0)) = (Goes Handle_exception, s)
    \<and> ld32 (ram s) (reg_addr (gdb_layout.truncate demo_symbols) ESP) = 0x9010 \<and> ld32 (ram s) (reg s ESP + 4) = 14"
proof -
  obtain code where code: "catch_code demo_symbols 14 = Some code" using demo_code by blast
  have "ld32 (ram (demo_cpu 0)) (s_mem_fault_routine demo_symbols) = 0" by (simp add: demo_symbols_def demo_cpu_words)
  from trap_saves [OF code demo_cpu_layout(1,3) this, of 2] code show ?thesis
    by (fastforce simp: has_error_def saved_def demo_cpu_def)
qed

theorem trap_return_roundtrip_witness:
  "\<exists>code s1 s3. run_trap demo_symbols code (raise_exception (Some 2) (demo_cpu 0)) = (Goes Handle_exception, s1)
    \<and> exec (return_to_prog demo_symbols) s1 = (Returns, s3) \<and> reg s3 = reg (demo_cpu 0)"
proof -
  obtain code where code: "catch_code demo_symbols 14 = Some code" using demo_code by blast
  have nf: "ld32 (ram (demo_cpu 0)) (s_mem_fault_routine demo_symbols) = 0" by (simp add: demo_symbols_def demo_cpu_words)
  from trap_vector [OF code demo_cpu_layout(1,3) nf, of 2] obtain s1 where
    s1: "run_trap demo_symbols code (raise_exception (if has_error 14 then Some 2 else None) (demo_cpu 0)) = (Goes Handle_exception, s1)"
    by blast
  from trap_return_roundtrip [OF code demo_cpu_layout(1,3) nf s1, of s1] s1 show ?thesis by (auto simp: has_error_def)
qed

theorem memory_fault_resumes_witness:
  "\<exists>code s. catch_code demo_symbols 14 = Some code
    \<and> run_trap demo_symbols code (raise_exception (Some 2) (demo_cpu 0x700)) = (Returns, s) \<and> reg s PC = 0x700 \<and> reg s ESP = 0xA00C"
proof -
  obtain code where code: "catch_code demo_symbols 14 = Some code" using demo_code by blast
  have f: "ld32 (ram (demo_cpu 0x700)) (s_mem_fault_routine demo_symbols) = 0x700" by (simp add: demo_symbols_def demo_cpu_words)
  have cs: "reg (demo_cpu 0x700) CS < 0x10000" by (simp add: demo_cpu_def)
  have "(14 :: nat) = 11 \<or> (14 :: nat) = 13 \<or> (14 :: nat) = 14" by simp
  from memory_fault_resumes [OF this code demo_cpu_layout(2) f _ cs, of 2] code show ?thesis
    by (auto simp: demo_cpu_def)
qed

definition demo_debug :: debug_symbols where
  "demo_debug = symbols.extend demo_symbols (debug_symbols.fields 0x2030 0x3000 (\<lambda>n. 0x100000 + 16 * of_nat n))"

theorem traps_installed_witness:
  "\<exists>m d. set_debug_traps log_bus 0x6000 demo_debug (\<lambda>_. 0, []) = ((m, True), d)
    \<and> ie_base_hi (ld_idt_entry m 0x6070) = 0x10 \<and> ie_base_lo (ld_idt_entry m 0x6070) = 0xE0 \<and> ie_flags (ld_idt_entry m 0x6078) = 0"
proof -
  obtain m b d where run: "set_debug_traps log_bus 0x6000 demo_debug (\<lambda>_. 0, []) = ((m, b), d)" by (metis prod.collapse)
  have ap: "apart (s_stackPtr demo_debug) 4 0x6000 2048" "apart (s_initialized demo_debug) 1 0x6000 2048"
      "apart (s_errcode demo_debug) 4 0x6000 2048" "apart (s_stackPtr demo_debug) 4 (s_initialized demo_debug) 1"
      "apart (s_stackPtr demo_debug) 4 (s_errcode demo_debug) 4" "apart (s_initialized demo_debug) 1 (s_errcode demo_debug) 4"
    by (simp_all add: demo_debug_def demo_symbols_def symbols.defs debug_symbols.defs apart_if)
  show ?thesis
    using traps_installed [OF ap run, of 14] traps_installed [OF ap run, of 15] run
    by (simp add: debug_vectors_def demo_debug_def demo_symbols_def symbols.defs debug_symbols.defs ld_idt_entry_def)
qed

end
