(* ===== verification/Multiboot.thy ===== *)
theory Multiboot
  imports Memory
begin

text \<open>
  \<open>include/arch/x86/multiboot.h\<close>: the structures the boot loader leaves in memory, as records with
  readers at the offsets the i386 ABI gives the fields, and the walk over the memory map of
  \<open>include/arch/x86/arch_utils.h\<close>.
\<close>

section \<open>Constants\<close>

definition MULTIBOOT_BOOTLOADER_MAGIC :: u32 where "MULTIBOOT_BOOTLOADER_MAGIC = 0x2BADB002"
definition MULTIBOOT_MEMORY_AVAILABLE :: u32 where "MULTIBOOT_MEMORY_AVAILABLE = 1"
definition MULTIBOOT_MEMORY_RESERVED :: u32 where "MULTIBOOT_MEMORY_RESERVED = 2"
definition MULTIBOOT_MEMORY_ACPI_RECLAIMABLE :: u32 where "MULTIBOOT_MEMORY_ACPI_RECLAIMABLE = 3"
definition MULTIBOOT_MEMORY_NVS :: u32 where "MULTIBOOT_MEMORY_NVS = 4"
definition MULTIBOOT_MEMORY_BADRAM :: u32 where "MULTIBOOT_MEMORY_BADRAM = 5"

section \<open>The information structure\<close>

text \<open>The unions hold their raw words and bytes.\<close>

record multiboot_info =
  mb_flags :: u32
  mb_mem_lower :: u32
  mb_mem_upper :: u32
  mb_boot_device :: u32
  mb_cmdline :: u32
  mb_mods_count :: u32
  mb_mods_addr :: u32
  mb_u :: "u32 list"
  mb_mmap_length :: u32
  mb_mmap_addr :: u32
  mb_drives_length :: u32
  mb_drives_addr :: u32
  mb_config_table :: u32
  mb_boot_loader_name :: u32
  mb_apm_table :: u32
  mb_vbe_control_info :: u32
  mb_vbe_mode_info :: u32
  mb_vbe_mode :: u16
  mb_vbe_interface_seg :: u16
  mb_vbe_interface_off :: u16
  mb_vbe_interface_len :: u16
  mb_framebuffer_addr :: u64
  mb_framebuffer_pitch :: u32
  mb_framebuffer_width :: u32
  mb_framebuffer_height :: u32
  mb_framebuffer_bpp :: u8
  mb_framebuffer_type :: u8
  mb_framebuffer_colors :: "u8 list"

definition ld_multiboot_info :: "mem \<Rightarrow> addr \<Rightarrow> multiboot_info" where
  "ld_multiboot_info m a = \<lparr>
     mb_flags = ld32 m a, mb_mem_lower = ld32 m (a + 4), mb_mem_upper = ld32 m (a + 8),
     mb_boot_device = ld32 m (a + 12), mb_cmdline = ld32 m (a + 16), mb_mods_count = ld32 m (a + 20),
     mb_mods_addr = ld32 m (a + 24),
     mb_u = [ld32 m (a + 28), ld32 m (a + 32), ld32 m (a + 36), ld32 m (a + 40)],
     mb_mmap_length = ld32 m (a + 44), mb_mmap_addr = ld32 m (a + 48), mb_drives_length = ld32 m (a + 52),
     mb_drives_addr = ld32 m (a + 56), mb_config_table = ld32 m (a + 60), mb_boot_loader_name = ld32 m (a + 64),
     mb_apm_table = ld32 m (a + 68), mb_vbe_control_info = ld32 m (a + 72), mb_vbe_mode_info = ld32 m (a + 76),
     mb_vbe_mode = ld16 m (a + 80), mb_vbe_interface_seg = ld16 m (a + 82),
     mb_vbe_interface_off = ld16 m (a + 84), mb_vbe_interface_len = ld16 m (a + 86),
     mb_framebuffer_addr = ld64 m (a + 88), mb_framebuffer_pitch = ld32 m (a + 96),
     mb_framebuffer_width = ld32 m (a + 100), mb_framebuffer_height = ld32 m (a + 104),
     mb_framebuffer_bpp = m (a + 108), mb_framebuffer_type = m (a + 109),
     mb_framebuffer_colors = map (\<lambda>i. m (a + 112 + of_nat i)) [0 ..< 6]\<rparr>"

section \<open>Memory map and modules\<close>

record mmap_entry =
  mm_size :: u32
  mm_addr :: u64
  mm_len :: u64
  mm_type :: u32

text \<open>The structure is packed.\<close>

definition ld_mmap :: "mem \<Rightarrow> addr \<Rightarrow> mmap_entry" where
  "ld_mmap m a = \<lparr>mm_size = ld32 m a, mm_addr = ld64 m (a + 4), mm_len = ld64 m (a + 12), mm_type = ld32 m (a + 20)\<rparr>"

record module_entry =
  mod_start :: u32
  mod_end :: u32
  mod_cmdline :: u32
  mod_pad :: u32

definition ld_module :: "mem \<Rightarrow> addr \<Rightarrow> module_entry" where
  "ld_module m a = \<lparr>mod_start = ld32 m a, mod_end = ld32 m (a + 4), mod_cmdline = ld32 m (a + 8), mod_pad = ld32 m (a + 12)\<rparr>"

text \<open>
  \<open>ARCH_FOREACH_MMAP(var, mbt, off)\<close>: the entries it visits, when the walk ends. An entry of size
  \<open>-4\<close> makes it stand still.
\<close>

partial_function (option) mmap_walk :: "mem \<Rightarrow> addr \<Rightarrow> addr \<Rightarrow> mmap_entry list option" where
  "mmap_walk m var e =
     (if var < e then Option.bind (mmap_walk m (var + ld32 m var + 4) e) (\<lambda>es. Some (ld_mmap m var # es))
      else Some [])"

definition foreach_mmap :: "mem \<Rightarrow> multiboot_info \<Rightarrow> u32 \<Rightarrow> mmap_entry list option" where
  "foreach_mmap m mbt off = mmap_walk m (mb_mmap_addr mbt + off) (mb_mmap_addr mbt + mb_mmap_length mbt + off)"

section \<open>The walk over a well-formed map\<close>

text \<open>\<open>mmap_chain m a es\<close>: entries \<open>es\<close> lie one after the other from \<open>a\<close> on.\<close>

fun mmap_chain :: "mem \<Rightarrow> addr \<Rightarrow> mmap_entry list \<Rightarrow> addr \<Rightarrow> bool" where
  "mmap_chain m a [] e \<longleftrightarrow> a = e"
| "mmap_chain m a (x # xs) e \<longleftrightarrow> a < e \<and> x = ld_mmap m a \<and> mmap_chain m (a + ld32 m a + 4) xs e"

lemma mmap_walk_chain: "mmap_chain m a es e \<Longrightarrow> mmap_walk m a e = Some es"
  by (induction es arbitrary: a) (subst mmap_walk.simps, simp)+

lemma foreach_mmap_chain:
  "mmap_chain m (mb_mmap_addr mbt + off) es (mb_mmap_addr mbt + mb_mmap_length mbt + off) \<Longrightarrow>
    foreach_mmap m mbt off = Some es"
  by (simp add: foreach_mmap_def mmap_walk_chain)

end
