(* ===== verification/BootMem.thy ===== *)
theory BootMem
  imports BootAlloc Multiboot CString
begin

text \<open>
  \<open>loader/x86/bootmem.cc\<close>: the loader's physical page allocator, in the compiled branch without
  \<open>ALLOCATE_FIRST\<close>: it looks for the last free page and goes down. The bitmaps are kept apart from
  the memory they lie in, so that a bitmap of more than one page is not seen to be overwritten through its later
  pages, which \<open>init_bootmm32\<close> leaves free. \<open>pae\<close> is the result of \<open>x86_feature_test(x86_FEATURE_PAE)\<close>. The log lines
  are not part of the model.
\<close>

section \<open>State and operations\<close>

definition MAX_of :: "'a::linorder \<Rightarrow> 'a \<Rightarrow> 'a" where
  "MAX_of a b = (if a > b then a else b)"

record loader_mm =
  lm_alloc :: bitmap
  lm_resrv :: "nat \<Rightarrow> u32"
  lm_avail_mem :: u64
  lm_num_pages :: u32
  lm_ptr :: phys_t
  lm_MODS_END :: u32
  lm_MAX_MEM :: phys_t
  lm_memory :: mem

definition pmm_update_all :: "loader_mm \<Rightarrow> kerror + loader_mm" where
  "pmm_update_all s =
     (let s' = s\<lparr>lm_ptr := ucast (bitmap_lastz (lm_alloc s))\<rparr>
      in if bitmap_lastz (lm_alloc s') \<noteq> - 1 then Inr s' else Inl Panicked)"

definition pmm_mark_page :: "bool \<Rightarrow> loader_mm \<Rightarrow> phys_t \<times> loader_mm" where
  "pmm_mark_page clear s =
     (let s = s\<lparr>lm_alloc := (lm_alloc s)\<lparr>bm_words := bitmap_setbit (bm_words (lm_alloc s)) (unat (lm_ptr s))\<rparr>\<rparr>;
          s = (if clear
               then s\<lparr>lm_memory := snd (memset (ucast (lm_ptr s * ARCH_PAGE_SIZE)) 0 ARCH_PAGE_SIZE (lm_memory s))\<rparr>
               else s)
      in (lm_ptr s * ARCH_PAGE_SIZE, s\<lparr>lm_ptr := lm_ptr s - 1\<rparr>))"

definition pmm_alloc_page :: "bool \<Rightarrow> loader_mm \<Rightarrow> kerror + (phys_t \<times> loader_mm)" where
  "pmm_alloc_page clear s =
     (if bitmap_tstbit (bm_words (lm_alloc s)) (unat (lm_ptr s)) \<noteq> 0 \<or> lm_ptr s \<le> 1
      then bind_res (pmm_update_all s) (\<lambda>s. Inr (pmm_mark_page clear s))
      else Inr (pmm_mark_page clear s))"

definition pmm_free_page :: "phys_t \<Rightarrow> loader_mm \<Rightarrow> loader_mm" where
  "pmm_free_page address s =
     s\<lparr>lm_alloc := (lm_alloc s)\<lparr>bm_words :=
        bitmap_clrbit (bm_words (lm_alloc s)) (unat (ARCH_PAGE_ALIGN_DOWN address div ARCH_PAGE_SIZE))\<rparr>\<rparr>"

text \<open>The loop is the one of the kernel's \<open>BootAllocator::free\<close>.\<close>

definition pmm_free_page_multi :: "phys_t \<Rightarrow> u32 \<Rightarrow> loader_mm \<Rightarrow> kerror + loader_mm" where
  "pmm_free_page_multi address pages s =
     (let pages = pages - 1; lim = address + scast (pages * ARCH_PAGE_SIZE)
      in bind_res (loop_res (BootAllocator_free_loop (bm_words (lm_alloc s)) address lim))
           (\<lambda>A. Inr (s\<lparr>lm_alloc := (lm_alloc s)\<lparr>bm_words := A\<rparr>\<rparr>)))"

section \<open>Initialisation\<close>

text \<open>The page numbers of an area, from its start rounded up to its end rounded down.\<close>

definition area_start :: "mmap_entry \<Rightarrow> u64" where
  "area_start e = ARCH_PAGE_ALIGN (mm_addr e) div ARCH_PAGE_SIZE"

definition area_end :: "mmap_entry \<Rightarrow> u64" where
  "area_end e = ARCH_PAGE_ALIGN_DOWN (mm_addr e + mm_len e) div ARCH_PAGE_SIZE"

definition free_area :: "mmap_entry \<Rightarrow> (nat \<Rightarrow> u32) \<times> u64 \<Rightarrow> (nat \<Rightarrow> u32) \<times> u64" where
  "free_area e = (\<lambda>(A, avail).
     if mm_type e = MULTIBOOT_MEMORY_AVAILABLE
     then (foldl bitmap_clrbit A [unat (area_start e) ..< unat (area_end e)],
           avail + (area_end e - area_start e) * ARCH_PAGE_SIZE)
     else (A, avail))"

primrec free_areas :: "bool \<Rightarrow> mmap_entry list \<Rightarrow> (nat \<Rightarrow> u32) \<times> u64 \<Rightarrow> (nat \<Rightarrow> u32) \<times> u64" where
  "free_areas pae [] Aa = Aa"
| "free_areas pae (e # es) Aa =
     (if \<not> pae \<and> mm_addr e \<ge> 0xFFFFFFFF then Aa else free_areas pae es (free_area e Aa))"

definition count_free :: "(nat \<Rightarrow> u32) \<Rightarrow> nat \<Rightarrow> u32" where
  "count_free A n = fold (\<lambda>i a. if bitmap_tstbit A i = 0 then a + ARCH_PAGE_SIZE else a) [0 ..< n] 0"

definition enough_memory :: "mmap_entry \<Rightarrow> bool" where
  "enough_memory e \<longleftrightarrow>
     \<not> (mm_addr e = 0x100000 \<and> \<not> (mm_type e = MULTIBOOT_MEMORY_AVAILABLE \<and> mm_len e > 0x4000000))"

definition mods_page :: "loader_mm \<Rightarrow> nat" where
  "mods_page s = unat (ARCH_PAGE_ALIGN (lm_MODS_END s) div ARCH_PAGE_SIZE)"

text \<open>The stages of \<open>init_bootmm32\<close>: the size of the bitmap, all ones, and the marks at the end.\<close>

definition measure_memory :: "mmap_entry list \<Rightarrow> loader_mm \<Rightarrow> loader_mm" where
  "measure_memory es s =
     (let mx = fold (\<lambda>e mx. MAX_of mx (mm_addr e + mm_len e)) es (lm_MAX_MEM s)
      in s\<lparr>lm_MAX_MEM := mx, lm_num_pages := ucast (ARCH_PAGE_ALIGN mx div ARCH_PAGE_SIZE)\<rparr>)"

definition one_out :: "loader_mm \<Rightarrow> nat \<Rightarrow> u32" where
  "one_out s = (\<lambda>i. if i < unat (bitmap_getlength (lm_num_pages s)) then - 1 else bm_words (lm_alloc s) i)"

definition reserve_loaded :: "(nat \<Rightarrow> u32) \<Rightarrow> loader_mm \<Rightarrow> loader_mm" where
  "reserve_loaded A s =
     (let marks = [0x100 ..< Suc (mods_page s)] in
      s\<lparr>lm_alloc := \<lparr>bm_length = bitmap_getlength (lm_num_pages s), bm_bit_count = lm_num_pages s,
                     bm_words = foldl bitmap_setbit A marks\<rparr>,
        lm_resrv := foldl bitmap_setbit (lm_resrv s) marks\<rparr>)"

definition init_bootmm32 :: "bool \<Rightarrow> mem \<Rightarrow> multiboot_info \<Rightarrow> loader_mm \<Rightarrow> kerror + loader_mm" where
  "init_bootmm32 pae m mbt s =
     bind_res (loop_res (foreach_mmap m mbt 0)) (\<lambda>es.
       if \<not> list_all enough_memory es then Inl Panicked
       else
         let s = measure_memory es s;
             (A, avail) = free_areas pae es (one_out s, lm_avail_mem s)
         in if avail \<noteq> ucast (count_free A (unat (lm_num_pages s))) then Inl Panicked
            else pmm_update_all (reserve_loaded A (s\<lparr>lm_avail_mem := avail\<rparr>)))"

section \<open>Lemmas\<close>

definition area_pages :: "mmap_entry \<Rightarrow> nat set" where
  "area_pages e = (if mm_type e = MULTIBOOT_MEMORY_AVAILABLE then {unat (area_start e) ..< unat (area_end e)} else {})"

text \<open>The entries before the \<open>break\<close>.\<close>

definition seen_areas :: "bool \<Rightarrow> mmap_entry list \<Rightarrow> mmap_entry list" where
  "seen_areas pae es = takeWhile (\<lambda>e. pae \<or> mm_addr e < 0xFFFFFFFF) es"

lemma free_area_bits: "bm_bit (fst (free_area e (A, v))) j \<longleftrightarrow> j \<notin> area_pages e \<and> bm_bit A j"
  by (auto simp: free_area_def area_pages_def words.test_foldl_clr)

lemma free_areas_bits:
  "bm_bit (fst (free_areas pae es Av)) j \<longleftrightarrow> (\<forall>e \<in> set (seen_areas pae es). j \<notin> area_pages e) \<and> bm_bit (fst Av) j"
proof (induction es arbitrary: Av)
  case (Cons e es)
  show ?case
    by (cases Av) (auto simp: Cons.IH seen_areas_def free_area_bits not_le)
qed (simp add: seen_areas_def)

text \<open>The state in which a run of allocations goes down from the cursor.\<close>

lemma pmm_mark_page_simps [simp]:
  "fst (pmm_mark_page c s) = lm_ptr s * ARCH_PAGE_SIZE"
  "lm_ptr (snd (pmm_mark_page c s)) = lm_ptr s - 1"
  "bm_words (lm_alloc (snd (pmm_mark_page c s))) = bitmap_setbit (bm_words (lm_alloc s)) (unat (lm_ptr s))"
  "bm_length (lm_alloc (snd (pmm_mark_page c s))) = bm_length (lm_alloc s)"
  by (simp_all add: pmm_mark_page_def Let_def)

lemma pmm_alloc_down:
  assumes "\<not> bm_bit (bm_words (lm_alloc s)) (unat (lm_ptr s))" "1 < lm_ptr s"
  shows "pmm_alloc_page c s = Inr (pmm_mark_page c s)"
  using assms by (auto simp: pmm_alloc_page_def bits)

lemma alloc_run_down:
  assumes "n < unat (lm_ptr s)" and "\<forall>k < n. \<not> bm_bit (bm_words (lm_alloc s)) (unat (lm_ptr s) - k)"
  shows "\<exists>s'. alloc_run (pmm_alloc_page c) n s =
      Inr (map (\<lambda>k. of_nat (unat (lm_ptr s) - k) * ARCH_PAGE_SIZE) [0 ..< n], s')
    \<and> (\<forall>j. bm_bit (bm_words (lm_alloc s')) j \<longleftrightarrow> bm_bit (bm_words (lm_alloc s)) j \<or> (\<exists>k < n. j = unat (lm_ptr s) - k))"
  using assms
proof (induction n arbitrary: s)
  case (Suc n)
  let ?s = "snd (pmm_mark_page c s)" and ?p = "unat (lm_ptr s)"
  have p: "unat (lm_ptr ?s) = ?p - 1"
    using Suc.prems(1) by (simp add: unat_minus_one unat_gt_0 flip: unat_eq_0)
  have "alloc_run (pmm_alloc_page c) (Suc n) s = bind_res (alloc_run (pmm_alloc_page c) n ?s)
      (\<lambda>(ps, t). Inr (lm_ptr s * ARCH_PAGE_SIZE # ps, t))"
  proof -
    have "1 < lm_ptr s" using Suc.prems(1) by (simp add: word_less_nat_alt)
    moreover have "\<not> bm_bit (bm_words (lm_alloc s)) ?p" using Suc.prems(2) by (metis minus_nat.diff_0 zero_less_Suc)
    ultimately show ?thesis using pmm_alloc_down [of s c] by (cases "pmm_mark_page c s") (use pmm_mark_page_simps(1) [of c s] in simp)
  qed
  moreover obtain s' where s': "alloc_run (pmm_alloc_page c) n ?s =
      Inr (map (\<lambda>k. of_nat (unat (lm_ptr ?s) - k) * ARCH_PAGE_SIZE) [0 ..< n], s')"
    "\<forall>j. bm_bit (bm_words (lm_alloc s')) j \<longleftrightarrow> bm_bit (bm_words (lm_alloc ?s)) j \<or> (\<exists>k < n. j = unat (lm_ptr ?s) - k)"
  proof -
    have "n < unat (lm_ptr ?s)" using Suc.prems(1) p by simp
    moreover have "\<not> bm_bit (bm_words (lm_alloc ?s)) (unat (lm_ptr ?s) - k)" if "k < n" for k
      using Suc.prems that p spec [OF Suc.prems(2), of "Suc k"] by (simp add: bits)
    ultimately show ?thesis using Suc.IH [of ?s] that by blast
  qed
  moreover have "map (\<lambda>k. of_nat (?p - k) * ARCH_PAGE_SIZE) [0 ..< Suc n] =
      lm_ptr s * ARCH_PAGE_SIZE # map (\<lambda>k. of_nat (unat (lm_ptr ?s) - k) * ARCH_PAGE_SIZE :: phys_t) [0 ..< n]"
    unfolding p by (simp add: upt_conv_Cons map_Suc_upt [symmetric] o_def del: upt_Suc)
  moreover have "(\<exists>k < Suc n. j = ?p - k) \<longleftrightarrow> j = ?p \<or> (\<exists>k < n. j = unat (lm_ptr ?s) - k)" for j
    unfolding p by (auto simp: Ex_less_Suc2)
  ultimately show ?case by (intro exI [of _ s']) (auto simp: bits)
qed simp



lemma pmm_update_cursor:
  assumes "pmm_update_all s = Inr s'" and "\<And>i. i < unat (bm_length (lm_alloc s)) \<Longrightarrow> 32 * i < 2 ^ 32"
  shows "\<exists>i < unat (bm_length (lm_alloc s)). bm_words (lm_alloc s) i \<noteq> - 1
    \<and> (\<forall>j. i < j \<and> j < unat (bm_length (lm_alloc s)) \<longrightarrow> bm_words (lm_alloc s) j = - 1)
    \<and> s' = s\<lparr>lm_ptr := of_nat (32 * i)\<rparr>"
proof -
  have r: "bitmap_lastz (lm_alloc s) \<noteq> - 1" "s' = s\<lparr>lm_ptr := ucast (bitmap_lastz (lm_alloc s))\<rparr>"
    using assms(1) by (auto simp: pmm_update_all_def Let_def split: if_splits)
  obtain i where i: "i < unat (bm_length (lm_alloc s))" "bm_words (lm_alloc s) i \<noteq> - 1"
    "\<forall>j. i < j \<and> j < unat (bm_length (lm_alloc s)) \<longrightarrow> bm_words (lm_alloc s) j = - 1"
    "bitmap_lastz (lm_alloc s) = bitmap_getbits (of_nat i)"
    using lastz_word_result [of "unat (bm_length (lm_alloc s))" "bm_words (lm_alloc s)"] r(1)
    by (auto simp: bitmap_lastz_def)
  have last: "bitmap_lastz (lm_alloc s) = of_nat (32 * i)" using i(4) by (simp add: bitmap_getbits_def)
  have b: "32 * i < 2 ^ 32" by (rule assms(2) [OF i(1)])
  have "unat (ucast (of_nat (32 * i) :: u32) :: u64) = unat (of_nat (32 * i) :: u32)" by (rule unat_ucast_up) simp
  also have "\<dots> = 32 * i" using b by (intro unat_of_nat_small) simp
  also have "\<dots> = unat (of_nat (32 * i) :: u64)" using b by (intro unat_of_nat_small [symmetric]) simp
  finally have "(ucast (of_nat (32 * i) :: u32) :: u64) = of_nat (32 * i)" by (simp only: word_unat_eq_iff)
  with r(2) have "s' = s\<lparr>lm_ptr := of_nat (32 * i)\<rparr>" by (simp only: last)
  with i(1-3) show ?thesis by (intro exI [of _ i] conjI)
qed


lemma free_areas_avail:
  "snd (free_areas pae es (A, v)) =
    v + sum_list (map (\<lambda>e. (area_end e - area_start e) * ARCH_PAGE_SIZE)
          (filter (\<lambda>e. mm_type e = MULTIBOOT_MEMORY_AVAILABLE) (seen_areas pae es)))"
proof (induction es arbitrary: A v)
  case (Cons e es)
  then show ?case by (auto simp: seen_areas_def free_area_def not_le add.assoc)
qed (simp add: seen_areas_def)

section \<open>Properties\<close>

text \<open>C38. After \<open>init_bootmm32\<close> a page is marked in use exactly when it lies in no available area of the
  memory map, shrunk to whole pages, or between the first megabyte and the end of the modules; and the cursor
  is the first page of the last word of the bitmap that is not full.\<close>

theorem init_bootmm32_map:
  assumes "foreach_mmap m mbt 0 = Some es" and "init_bootmm32 pae m mbt s = Inr s'"
  shows "(\<forall>k < unat (lm_num_pages s'). bm_bit (bm_words (lm_alloc s')) k \<longleftrightarrow>
      (\<forall>e \<in> set (seen_areas pae es). k \<notin> area_pages e) \<or> (0x100 \<le> k \<and> k \<le> mods_page s))
    \<and> (\<exists>i < unat (bm_length (lm_alloc s')). bm_words (lm_alloc s') i \<noteq> - 1
        \<and> (\<forall>j. i < j \<and> j < unat (bm_length (lm_alloc s')) \<longrightarrow> bm_words (lm_alloc s') j = - 1)
        \<and> lm_ptr s' = of_nat (32 * i))"
proof -
  define s0 where "s0 = measure_memory es s"
  define n where "n = lm_num_pages s0"
  obtain A v where Av: "free_areas pae es (one_out s0, lm_avail_mem s0) = (A, v)" by fastforce
  let ?r = "reserve_loaded A (s0\<lparr>lm_avail_mem := v\<rparr>)"
  have upd: "pmm_update_all ?r = Inr s'"
    using assms(2) by (simp add: init_bootmm32_def assms(1) s0_def [symmetric] Av split: if_splits)
  have "lm_MODS_END s0 = lm_MODS_END s" by (simp add: s0_def measure_memory_def Let_def)
  then have r: "bm_words (lm_alloc ?r) = foldl bitmap_setbit A [0x100 ..< Suc (mods_page s)]" "lm_num_pages ?r = n"
      "bm_length (lm_alloc ?r) = bitmap_getlength n"
    by (simp_all add: reserve_loaded_def mods_page_def n_def Let_def del: upt_Suc)
  have len: "unat (bitmap_getlength n) = Suc (unat n div 32)"
  proof -
    have "unat (n div 32) = unat n div 32" by (simp add: unat_div_distrib)
    moreover have "unat n < 2 ^ 32" using unsigned_less [of n] by simp
    ultimately show ?thesis
      using unat_add_of_nat [of "n div 32" 1] by (simp add: bitmap_getlength_def)
  qed
  have "32 * i < 2 ^ 32" if "i < unat (bm_length (lm_alloc ?r))" for i
  proof -
    have "unat n < 2 ^ 32" using unsigned_less [of n] by simp
    with that show ?thesis unfolding r len by linarith
  qed
  from pmm_update_cursor [OF upd this] obtain i where i: "i < unat (bm_length (lm_alloc ?r))"
    "bm_words (lm_alloc ?r) i \<noteq> - 1"
    "\<forall>j. i < j \<and> j < unat (bm_length (lm_alloc ?r)) \<longrightarrow> bm_words (lm_alloc ?r) j = - 1"
    "s' = ?r\<lparr>lm_ptr := of_nat (32 * i)\<rparr>" by blast
  have s': "lm_alloc s' = lm_alloc ?r" "lm_num_pages s' = n" "lm_ptr s' = of_nat (32 * i)"
    using r(2) by (simp_all add: i(4))
  have "bm_bit (bm_words (lm_alloc s')) k \<longleftrightarrow>
      (\<forall>e \<in> set (seen_areas pae es). k \<notin> area_pages e) \<or> (0x100 \<le> k \<and> k \<le> mods_page s)"
    if "k < unat (lm_num_pages s')" for k
  proof -
    have "bm_bit (one_out s0) k"
      using that s'(2) by (simp add: bm_bit_def one_out_def n_def [symmetric] len less_Suc_eq_le div_le_mono)
    then have "bm_bit A k \<longleftrightarrow> (\<forall>e \<in> set (seen_areas pae es). k \<notin> area_pages e)"
      using free_areas_bits [of pae es "(one_out s0, lm_avail_mem s0)" k] by (simp add: Av)
    then show ?thesis unfolding s' r by (auto simp: words.test_foldl_set)
  qed
  with i(1-3) show ?thesis unfolding s'(1,3) by blast
qed

text \<open>A machine with four pages of memory, whose map of one entry lies at address 0.\<close>

definition demo_map :: mem where
  "demo_map = (\<lambda>a. if a = 0 then 20 else if a = 13 then 0x40 else if a = 20 then 1 else 0)"

definition demo_mbt :: multiboot_info where
  "demo_mbt = (ld_multiboot_info (\<lambda>_. 0) 0)\<lparr>mb_mmap_addr := 0, mb_mmap_length := 24\<rparr>"

definition demo_mm :: "(nat \<Rightarrow> u32) \<Rightarrow> u64 \<Rightarrow> loader_mm" where
  "demo_mm A p = \<lparr>lm_alloc = \<lparr>bm_length = 2, bm_bit_count = 64, bm_words = A\<rparr>, lm_resrv = (\<lambda>_. 0), lm_avail_mem = 0,
     lm_num_pages = 0, lm_ptr = p, lm_MODS_END = 0, lm_MAX_MEM = 0, lm_memory = (\<lambda>_. 0)\<rparr>"

lemma demo_foreach: "foreach_mmap demo_map demo_mbt 0 = Some [\<lparr>mm_size = 20, mm_addr = 0, mm_len = 0x4000, mm_type = 1\<rparr>]"
  by (rule foreach_mmap_chain) (simp add: demo_map_def demo_mbt_def ld_mmap_def ld64_def ld32_def)

lemma demo_area:
  "area_start \<lparr>mm_size = 20, mm_addr = 0, mm_len = 0x4000, mm_type = 1\<rparr> = 0"
  "area_end \<lparr>mm_size = 20, mm_addr = 0, mm_len = 0x4000, mm_type = 1\<rparr> = 4"
  by (simp_all add: area_start_def area_end_def ARCH_PAGE_ALIGN_def ARCH_PAGE_ALIGN_DOWN_def ARCH_PAGE_MASK_def
      page_size_val)

theorem init_bootmm32_map_witness:
  "\<exists>s'. init_bootmm32 False demo_map demo_mbt (demo_mm (\<lambda>_. 0) 0) = Inr s' \<and> \<not> bm_bit (bm_words (lm_alloc s')) 2"
proof -
  let ?s = "measure_memory [\<lparr>mm_size = 20, mm_addr = 0, mm_len = 0x4000, mm_type = 1\<rparr>] (demo_mm (\<lambda>_. 0) 0)"
  have n: "lm_num_pages ?s = 4"
    by (simp add: measure_memory_def MAX_of_def demo_mm_def ARCH_PAGE_ALIGN_def ARCH_PAGE_MASK_def page_size_val)
  have areas: "free_areas False [\<lparr>mm_size = 20, mm_addr = 0, mm_len = 0x4000, mm_type = 1\<rparr>] (one_out ?s, lm_avail_mem ?s) =
      (foldl bitmap_clrbit (one_out ?s) [0 ..< 4], 0x4000)"
    by (simp add: free_area_def demo_area MULTIBOOT_MEMORY_AVAILABLE_def page_size_val)
      (simp add: measure_memory_def demo_mm_def Let_def)
  have w0: "foldl bitmap_clrbit (one_out ?s) [0 ..< 4] = (one_out ?s)(0 := - 16)"
    by (simp add: upt_conv_Cons bitmap_clrbit_def one_out_def n bitmap_getlength_def)
  have c: "count_free ((one_out ?s)(0 := - 16)) 4 = 0x4000"
    by (simp add: count_free_def upt_conv_Cons bitmap_tstbit_def page_size_val)
  have mods: "mods_page (?s\<lparr>lm_avail_mem := v\<rparr>) = 0" for v
    by (simp add: mods_page_def measure_memory_def demo_mm_def Let_def ARCH_PAGE_ALIGN_def page_mask_eq page_size_val)
      (simp add: mask_eq_exp_minus_1)
  have "\<exists>s'. init_bootmm32 False demo_map demo_mbt (demo_mm (\<lambda>_. 0) 0) = Inr s' \<and> lm_num_pages s' = 4"
    unfolding init_bootmm32_def demo_foreach loop_simps bind_res.simps Let_def areas w0 prod.case n
    by (simp add: c enough_memory_def)
      (simp add: pmm_update_all_def reserve_loaded_def bitmap_lastz_def mods n bitmap_getlength_def bitmap_getbits_def)
  then obtain s' where s': "init_bootmm32 False demo_map demo_mbt (demo_mm (\<lambda>_. 0) 0) = Inr s'" "lm_num_pages s' = 4" by blast
  from conjunct1 [OF init_bootmm32_map [OF demo_foreach s'(1)]] s' show ?thesis
    by (auto simp: seen_areas_def area_pages_def demo_area MULTIBOOT_MEMORY_AVAILABLE_def)
qed

text \<open>C40. The loader cannot boot a machine with 4 GiB or more of available memory: the bytes of the free
  pages are added up in 32 bits and compared with the 64-bit sum of the areas.\<close>

theorem init_bootmm32_4gib:
  assumes "foreach_mmap m mbt 0 = Some es" and "lm_avail_mem s = 0"
    and "sum_list (map (\<lambda>e. (area_end e - area_start e) * ARCH_PAGE_SIZE)
          (filter (\<lambda>e. mm_type e = MULTIBOOT_MEMORY_AVAILABLE) (seen_areas pae es))) \<ge> (2 ^ 32 :: u64)"
  shows "init_bootmm32 pae m mbt s = Inl Panicked"
proof -
  let ?s = "measure_memory es s"
  obtain A v where Av: "free_areas pae es (one_out ?s, lm_avail_mem ?s) = (A, v)" by fastforce
  have "lm_avail_mem ?s = 0" using assms(2) by (simp add: measure_memory_def Let_def)
  then have "v \<ge> 2 ^ 32" using free_areas_avail [of pae es "one_out ?s" "lm_avail_mem ?s"] assms(3) unfolding Av by simp
  moreover have "(ucast c :: u64) < 2 ^ 32" for c :: u32
    using unsigned_less [of c] by (simp add: word_less_nat_alt unat_ucast_up)
  ultimately have "v \<noteq> ucast c" for c :: u32 by (metis leD)
  then show ?thesis by (simp add: init_bootmm32_def assms(1) Av Let_def)
qed

definition big_map :: mem where
  "big_map = (\<lambda>a. if a = 0 then 20 else if a = 16 then 1 else if a = 20 then 1 else 0)"

lemma big_foreach: "foreach_mmap big_map demo_mbt 0 = Some [\<lparr>mm_size = 20, mm_addr = 0, mm_len = 0x100000000, mm_type = 1\<rparr>]"
  by (rule foreach_mmap_chain) (simp add: big_map_def demo_mbt_def ld_mmap_def ld64_def ld32_def)

theorem init_bootmm32_4gib_witness:
  "init_bootmm32 False big_map demo_mbt (demo_mm (\<lambda>_. 0) 0) = Inl Panicked"
proof (rule init_bootmm32_4gib [OF big_foreach])
  show "lm_avail_mem (demo_mm (\<lambda>_. 0) 0) = 0" by (simp add: demo_mm_def)
  let ?e = "\<lparr>mm_size = 20, mm_addr = 0, mm_len = 0x100000000, mm_type = 1\<rparr>"
  have "area_start ?e = 0" "area_end ?e = 0x100000"
    by (simp_all add: area_start_def area_end_def ARCH_PAGE_ALIGN_def ARCH_PAGE_ALIGN_DOWN_def ARCH_PAGE_MASK_def
        page_size_val)
  then show "sum_list (map (\<lambda>e. (area_end e - area_start e) * ARCH_PAGE_SIZE)
      (filter (\<lambda>e. mm_type e = MULTIBOOT_MEMORY_AVAILABLE) (seen_areas False [?e]))) \<ge> (2 ^ 32 :: u64)"
    by (simp add: seen_areas_def MULTIBOOT_MEMORY_AVAILABLE_def page_size_val)
qed

text \<open>From a cursor with \<open>n\<close> free pages below it, \<open>n\<close> allocations return those pages, each once, from
  the top down, and mark exactly them.\<close>

theorem pmm_alloc_run_down:
  assumes "n < unat (lm_ptr s)" and "\<forall>k < n. \<not> bm_bit (bm_words (lm_alloc s)) (unat (lm_ptr s) - k)"
  shows "\<exists>s'. alloc_run (pmm_alloc_page c) n s =
      Inr (map (\<lambda>k. of_nat (unat (lm_ptr s) - k) * ARCH_PAGE_SIZE) [0 ..< n], s')
    \<and> (\<forall>j. bm_bit (bm_words (lm_alloc s')) j \<longleftrightarrow> bm_bit (bm_words (lm_alloc s)) j \<or> (\<exists>k < n. j = unat (lm_ptr s) - k))"
  by (rule alloc_run_down [OF assms])

theorem pmm_alloc_run_down_witness:
  "\<exists>s'. alloc_run (pmm_alloc_page False) 2 (demo_mm (\<lambda>_. 0) 5) = Inr ([0x5000, 0x4000], s')"
proof -
  have "\<forall>k < 2. \<not> bm_bit (bm_words (lm_alloc (demo_mm (\<lambda>_. 0) 5))) (unat (lm_ptr (demo_mm (\<lambda>_. 0) 5)) - k)"
    by (simp add: demo_mm_def bm_bit_def)
  moreover have "2 < unat (lm_ptr (demo_mm (\<lambda>_. 0) 5))" by (simp add: demo_mm_def)
  ultimately obtain s' where "alloc_run (pmm_alloc_page False) 2 (demo_mm (\<lambda>_. 0) 5) =
      Inr (map (\<lambda>k. of_nat (unat (lm_ptr (demo_mm (\<lambda>_. 0) 5)) - k) * ARCH_PAGE_SIZE) [0 ..< 2], s')"
    using pmm_alloc_run_down by blast
  moreover have "map (\<lambda>k. of_nat (unat (lm_ptr (demo_mm (\<lambda>_. 0) 5)) - k) * ARCH_PAGE_SIZE) [0 ..< 2] = [0x5000, 0x4000 :: phys_t]"
    by (simp add: demo_mm_def page_size_val upt_conv_Cons)
  ultimately show ?thesis by auto
qed



end
