(* ===== verification/PageArith.thy ===== *)
theory PageArith
  imports Arch CString
begin

text \<open>
  Page tables as arrays of words: the address of an entry, the frame an entry points to, and the
  arithmetic of virtual addresses, used by \<open>Paging\<close>.
\<close>

section \<open>Entries\<close>

text \<open>The address of entry \<open>i\<close> of a table, and the frame an entry points to.\<close>

definition entry_at :: "u32 \<Rightarrow> u32 \<Rightarrow> addr" where
  "entry_at table i = table + 4 * i"

definition frame_of :: "u32 \<Rightarrow> u32" where
  "frame_of e = e AND ARCH_PAGE_MASK"

section \<open>Addresses as numbers\<close>

lemma unat_and_mask: "unat (x AND mask n :: u32) = unat x mod 2 ^ n"
proof -
  have "unat (take_bit n x) = take_bit n (unat x)" by (rule unsigned_take_bit_eq)
  then show ?thesis by (simp add: take_bit_eq_mask flip: take_bit_eq_mod)
qed

lemma masks: "(0x3FF :: u32) = mask 10" "(0xFFF :: u32) = mask 12"
  by (simp_all add: mask_eq_exp_minus_1)

lemma unat_u32: "unat (v :: u32) < 4294967296"
  using unsigned_less [of v] by simp

lemma unat_indices:
  "unat (ARCH_GET_PD_IDX v) = unat v div 4194304"
  "unat (ARCH_GET_PT_IDX v) = unat v div 4096 mod 1024"
  "unat (v AND 0xFFF) = unat v mod 4096"
proof -
  have "unat v div 4194304 < 1024" using unat_u32 [of v] by linarith
  then show "unat (ARCH_GET_PD_IDX v) = unat v div 4194304"
    unfolding ARCH_GET_PD_IDX_def masks unat_and_mask by (simp add: unat_drop_bit_eq drop_bit_eq_div unat_div_distrib)
  show "unat (ARCH_GET_PT_IDX v) = unat v div 4096 mod 1024"
    unfolding ARCH_GET_PT_IDX_def masks unat_and_mask by (simp add: unat_drop_bit_eq drop_bit_eq_div unat_div_distrib)
  show "unat (v AND 0xFFF) = unat v mod 4096"
    unfolding masks unat_and_mask by simp
qed

lemma low_word:
  assumes "unat (x :: u64) < 2 ^ 32" shows "ucast (ucast x :: u32) = x"
  using assms
  by (simp only: word_unat_eq_iff unsigned_ucast_eq) (simp add: unsigned_take_bit_eq take_bit_nat_eq_self)

definition aligned :: "u32 \<Rightarrow> bool" where
  "aligned b \<longleftrightarrow> b AND 0xFFF = 0"

lemma aligned_iff: "aligned b \<longleftrightarrow> unat b mod 4096 = 0"
  unfolding aligned_def using unat_indices(3) [of b] by (metis unat_0 unat_eq_0)

lemma page_mask_parts: "(e :: u32) = (e AND ARCH_PAGE_MASK) + (e AND 0xFFF)"
proof -
  have "ARCH_PAGE_MASK = (NOT (mask 12) :: u32)"
    by (simp add: ARCH_PAGE_MASK_def ARCH_PAGE_SIZE_def ARCH_PAGE_SHIFT_def mask_eq_exp_minus_1 push_bit_eq_mult)
  moreover have "e = (e AND NOT (mask 12)) + (e AND mask 12)"
  proof -
    have "(e AND NOT (mask 12)) + (e AND mask 12) = (e AND NOT (mask 12)) OR (e AND mask 12)"
      by (rule disjunctive_add) (auto simp: bit_simps)
    also have "\<dots> = e" by (rule bit_word_eqI) (auto simp: bit_simps)
    finally show ?thesis by simp
  qed
  ultimately show ?thesis unfolding masks by simp
qed

lemma frame_of_unat: "unat (frame_of e) = unat e - unat e mod 4096"
proof -
  have "frame_of e = e - (e AND 0xFFF)"
    unfolding frame_of_def using page_mask_parts [of e] by (metis add_diff_cancel_right')
  moreover have "e AND 0xFFF \<le> e" by (simp add: word_le_nat_alt unat_indices)
  ultimately show ?thesis by (simp add: unat_sub unat_indices)
qed

lemma aligned_frame_of [simp]: "aligned (frame_of e)"
  unfolding aligned_iff frame_of_unat by (simp add: minus_mod_eq_mult_div)

lemma frame_of_aligned: "aligned b \<Longrightarrow> frame_of b = b"
  using frame_of_unat [of b] by (simp add: aligned_iff word_unat_eq_iff)

lemma offset_unat: "aligned b \<Longrightarrow> k < 4096 \<Longrightarrow> unat (b + of_nat k) = unat b + k"
proof -
  assume b: "aligned b" "k < 4096"
  have "unat b = 4096 * (unat b div 4096)" using b(1) by (auto simp: aligned_iff)
  moreover have "unat b div 4096 < 1048576" using unat_u32 [of b] by linarith
  ultimately have "unat b + k < 4294967296" using b(2) by linarith
  then show ?thesis by (intro unat_add_of_nat) simp
qed

lemma offset_inj:
  assumes "aligned b" "aligned b'" "k < 4096" "k' < 4096" "b + of_nat k = b' + of_nat k'"
  shows "b = b' \<and> k = k'"
proof -
  have eq: "unat b + k = unat b' + k'" using assms offset_unat by metis
  have inj: "x = y \<and> k = k'" if "x mod 4096 = 0" "y mod 4096 = 0" "x + k = y + k'" for x y :: nat
  proof -
    have "(x + k) mod 4096 = k" "(y + k') mod 4096 = k'"
      using that(1,2) assms(3,4) by (metis add_0 mod_add_left_eq mod_less)+
    with that(3) show ?thesis by simp
  qed
  have "unat b = unat b' \<and> k = k'"
    using inj [OF assms(1,2) [unfolded aligned_iff] eq] .
  then show ?thesis by (simp add: word_unat_eq_iff)
qed

lemma entry_at_offset: "entry_at b i = b + of_nat (4 * unat i)"
  by (simp add: entry_at_def)

lemma entry_apart:
  assumes "aligned b" "aligned b'" "unat i < 1024" "unat i' < 1024" "b \<noteq> b' \<or> i \<noteq> i'"
  shows "apart (entry_at b i) 4 (entry_at b' i') 4"
  unfolding apart_def entry_at_offset
proof (intro allI impI notI)
  fix k k' :: nat assume k: "k < 4" "k' < 4"
    and eq: "b + of_nat (4 * unat i) + of_nat k = b' + of_nat (4 * unat i') + of_nat k'"
  have "b + of_nat (4 * unat i + k) = b' + of_nat (4 * unat i' + k')"
    using eq by (simp add: add.assoc)
  then have e: "b = b' \<and> 4 * unat i + k = 4 * unat i' + k'"
    using assms(1-4) k by (intro offset_inj) auto
  have "x = y" if "4 * x + k = 4 * y + k'" for x y :: nat using that k by presburger
  with e have "b = b' \<and> unat i = unat i'" by blast
  with assms(5) show False by (simp add: word_unat_eq_iff)
qed

lemma ld32_entry_other:
  assumes "aligned b" "aligned b'" "unat i < 1024" "unat i' < 1024" "b \<noteq> b' \<or> i \<noteq> i'"
  shows "ld32 (st32 (entry_at b' i') x m) (entry_at b i) = ld32 m (entry_at b i)"
  by (rule ld32_st32_apart [OF entry_apart [OF assms]])

text \<open>The virtual addresses of the recursive mapping.\<close>

lemma rec_unat:
  assumes "unat i < 1024" "k < 4096"
  shows "unat (ARCH_GET_VIRT 1023 i + of_nat k) = 1023 * 4194304 + 4096 * unat i + k"
proof -
  have v: "ARCH_GET_VIRT 1023 i = 0xFFC00000 + of_nat (4096 * unat i)"
  proof -
    have hi: "bit (0xFFC00000 :: u32) j \<longleftrightarrow> 22 \<le> j \<and> j < 32" for j
    proof -
      have eq: "(0xFFC00000 :: u32) = push_bit 22 (mask 10)" by (simp add: mask_eq_exp_minus_1 push_bit_eq_mult)
      show ?thesis unfolding eq bit_push_bit_iff bit_mask_iff by auto
    qed
    have lo: "\<not> bit i j" if "10 \<le> j" for j
    proof -
      have "i = take_bit 10 i"
        using assms(1) by (simp add: word_unat_eq_iff unsigned_take_bit_eq take_bit_nat_eq_self)
      then show ?thesis using that by (metis bit_take_bit_iff not_le)
    qed
    have "0xFFC00000 AND push_bit 12 i = 0"
      by (rule bit_word_eqI) (use hi lo in \<open>simp only: bit_and_iff bit_push_bit_iff bit_0_eq bot_apply, fastforce\<close>)
    moreover have "push_bit 22 1023 = (0xFFC00000 :: u32)" by (simp add: push_bit_eq_mult)
    moreover have "push_bit 12 i = of_nat (4096 * unat i)" by (simp add: push_bit_eq_mult)
    ultimately show ?thesis unfolding ARCH_GET_VIRT_def
      by (simp add: disjunctive_add_eq_or)
  qed
  have "ARCH_GET_VIRT 1023 i + of_nat k = 0xFFC00000 + of_nat (4096 * unat i + k)"
    unfolding v by (simp add: add.assoc)
  also have "unat \<dots> = unat (0xFFC00000 :: u32) + (4096 * unat i + k)"
    using assms by (intro unat_add_of_nat) simp
  finally show ?thesis by simp
qed

lemma rec_address:
  assumes "unat i < 1024" "k < 4096"
  shows "ARCH_GET_PD_IDX (ARCH_GET_VIRT 1023 i + of_nat k) = 1023"
    "ARCH_GET_PT_IDX (ARCH_GET_VIRT 1023 i + of_nat k) = i"
    "ARCH_GET_VIRT 1023 i + of_nat k AND 0xFFF = of_nat k"
proof -
  have "(4290772992 + 4096 * n + k) div 4096 = 1047552 + n" "(4290772992 + 4096 * n + k) mod 4096 = k" for n
  proof -
    have eq: "4290772992 + 4096 * n + k = (1047552 + n) * 4096 + k" by simp
    show "(4290772992 + 4096 * n + k) div 4096 = 1047552 + n" "(4290772992 + 4096 * n + k) mod 4096 = k"
      using assms(2) unfolding eq by (simp_all only: div_mult_self3 mod_mult_self3 div_less mod_less)
  qed
  moreover have "(1047552 + n) mod 1024 = n" if "n < 1024" for n :: nat
    using that mod_mult_self3 [of 1023 1024 n] by simp
  ultimately show "ARCH_GET_PD_IDX (ARCH_GET_VIRT 1023 i + of_nat k) = 1023"
    "ARCH_GET_PT_IDX (ARCH_GET_VIRT 1023 i + of_nat k) = i"
    "ARCH_GET_VIRT 1023 i + of_nat k AND 0xFFF = of_nat k"
    using assms by (simp_all add: word_unat_eq_iff unat_indices rec_unat unat_of_nat)
qed

lemma entry_rec: "entry_at (ARCH_GET_VIRT 1023 i) j = ARCH_GET_VIRT 1023 i + of_nat (4 * unat j)"
  by (rule entry_at_offset)

lemma page_dir_virt: "ARCH_GET_VIRT 1023 1023 = 0xFFFFF000"
  by (simp add: ARCH_GET_VIRT_def)

lemma index_bounds: "unat (ARCH_GET_PD_IDX v) < 1024" "unat (ARCH_GET_PT_IDX v) < 1024"
proof -
  show "unat (ARCH_GET_PD_IDX v) < 1024" unfolding unat_indices using unat_u32 [of v] by linarith
qed (simp add: unat_indices)

text \<open>Two addresses lie in one page when both indices agree.\<close>

lemma same_page_iff:
  "frame_of v = frame_of u \<longleftrightarrow> ARCH_GET_PD_IDX v = ARCH_GET_PD_IDX u \<and> ARCH_GET_PT_IDX v = ARCH_GET_PT_IDX u"
proof -
  have "x - x mod 4096 = 4096 * (x div 4096)" for x :: nat by (simp add: minus_mod_eq_mult_div)
  then have "frame_of v = frame_of u \<longleftrightarrow> unat v div 4096 = unat u div 4096"
    by (simp add: word_unat_eq_iff frame_of_unat)
  also have "\<dots> \<longleftrightarrow> unat v div 4096 div 1024 = unat u div 4096 div 1024 \<and>
      unat v div 4096 mod 1024 = unat u div 4096 mod 1024"
    by (metis div_mult_mod_eq)
  finally show ?thesis by (simp add: word_unat_eq_iff unat_indices div_mult2_eq [symmetric])
qed

section \<open>Filling a page\<close>

lemma fill_up_apply:
  assumes "n \<le> 2 ^ 32"
  shows "fill_up a c n m x = (if unat (x - a) < n then c else m x)"
  using assms by (simp add: fill_up_write_list write_list_apply)

lemma fill_up_snoc: "fill_up a c (Suc n) m = (fill_up a c n m)(a + of_nat n := c)"
proof -
  have "fill_up a c (Suc n) m = write_list a (replicate n c @ [c]) m"
    by (simp only: fill_up_write_list replicate_append_same replicate_Suc)
  then show ?thesis by (simp only: write_list_append length_replicate write_list.simps fill_up_write_list)
qed

lemma apart_frame:
  assumes "aligned b" "aligned b'" "b \<noteq> b'" "unat i < 1024" "n \<le> 4096"
  shows "apart (entry_at b i) 4 b' n"
  unfolding apart_def entry_at_offset
proof (intro allI impI notI)
  fix k k' :: nat assume k: "k < 4" "k' < n" and eq: "b + of_nat (4 * unat i) + of_nat k = b' + of_nat k'"
  have "b + of_nat (4 * unat i + k) = b' + of_nat k'" using eq by (simp add: add.assoc)
  then have "b = b'" using offset_inj [of b b' "4 * unat i + k" k'] assms k by linarith
  with assms(3) show False by contradiction
qed

lemma ld32_entry_fill_other:
  assumes "aligned b" "aligned b'" "b \<noteq> b'" "unat i < 1024" "n \<le> 4096"
  shows "ld32 (fill_up b' c n m) (entry_at b i) = ld32 m (entry_at b i)"
  unfolding fill_up_write_list by (rule ld32_write_list) (use apart_frame [OF assms] in simp)

lemma ld32_entry_zeroed:
  assumes "unat i < 1024"
  shows "ld32 (fill_up b 0 4096 m) (entry_at b i) = 0"
proof -
  have "fill_up b 0 4096 m (entry_at b i + of_nat k) = 0" if "k < 4" for k
  proof -
    have "entry_at b i + of_nat k - b = of_nat (4 * unat i + k)" by (simp add: entry_at_offset)
    moreover have "unat (of_nat (4 * unat i + k) :: u32) = 4 * unat i + k"
      using assms that by (intro unat_of_nat_small) simp
    ultimately have "unat (entry_at b i + of_nat k - b) = 4 * unat i + k" by (simp only:)
    then have "unat (entry_at b i + of_nat k - b) < 4096" using assms that by linarith
    then show ?thesis by (simp add: fill_up_apply)
  qed
  from this [of 0] this [of 1] this [of 2] this [of 3] show ?thesis by (simp add: ld32_def)
qed

end
