(* ===== verification/Paging.thy ===== *)
theory Paging
  imports BootMem Pmm PageArith
begin

text \<open>
  Paging without PAE, the build's default: \<open>loader/x86/mmu.cc\<close> and \<open>arch/x86/32/mmu.cc\<close>. The machine
  is the physical memory and the control registers; a virtual access goes through the two-level
  page walk of the processor, with write protection (\<open>CR0.WP\<close>) and no TLB: the code
  invalidates every entry it changes, so the walk always sees the tables as they are. The
  allocator of page frames is the field \<open>frames\<close>, with the operation \<open>new_frame\<close> as an argument, since the
  loader and the kernel run the same \<open>map\<close> with different allocators.
\<close>

section \<open>The processor\<close>

definition CR0_PG :: u32 where "CR0_PG = push_bit 31 1"
definition CR0_WP :: u32 where "CR0_WP = push_bit 16 1"
definition CR4_PGE :: u32 where "CR4_PGE = push_bit 7 1"

definition PDE_PR :: u32 where "PDE_PR = push_bit 0 1"
definition PDE_RW :: u32 where "PDE_RW = push_bit 1 1"
definition PTE_PR :: u32 where "PTE_PR = push_bit 0 1"
definition PTE_RW :: u32 where "PTE_RW = push_bit 1 1"
definition PTE_NX :: u64 where "PTE_NX = push_bit 63 1"
definition PG_FLAG_MASK :: u16 where "PG_FLAG_MASK = 0x11F"

record 'f machine =
  memory :: mem
  cr0 :: u32
  cr3 :: u32
  cr4 :: u32
  page_dir_addr :: u32
  frames :: 'f

definition usable :: "bool \<Rightarrow> u32 \<Rightarrow> bool" where
  "usable write e \<longleftrightarrow> bit e 0 \<and> (write \<longrightarrow> bit e 1)"

definition walk :: "mem \<Rightarrow> u32 \<Rightarrow> bool \<Rightarrow> addr \<Rightarrow> addr option" where
  "walk m pd write v =
     (let pde = ld32 m (entry_at (frame_of pd) (ARCH_GET_PD_IDX v)) in
      if \<not> usable write pde then None
      else let pte = ld32 m (entry_at (frame_of pde) (ARCH_GET_PT_IDX v)) in
        if \<not> usable write pte then None else Some (frame_of pte + (v AND 0xFFF)))"

definition translate :: "'f machine \<Rightarrow> bool \<Rightarrow> addr \<Rightarrow> addr option" where
  "translate s write v =
     (if cr0 s AND CR0_PG = 0 then Some v else walk (memory s) (cr3 s) write v)"

definition vld32 :: "addr \<Rightarrow> 'f machine \<Rightarrow> kerror + u32" where
  "vld32 v s = (case translate s False v of None \<Rightarrow> Inl Page_fault | Some p \<Rightarrow> Inr (ld32 (memory s) p))"

definition vst32 :: "addr \<Rightarrow> u32 \<Rightarrow> 'f machine \<Rightarrow> kerror + 'f machine" where
  "vst32 v x s = (case translate s True v of None \<Rightarrow> Inl Page_fault
     | Some p \<Rightarrow> Inr (s\<lparr>memory := st32 p x (memory s)\<rparr>))"

definition vst8 :: "addr \<Rightarrow> u8 \<Rightarrow> 'f machine \<Rightarrow> kerror + 'f machine" where
  "vst8 v x s = (case translate s True v of None \<Rightarrow> Inl Page_fault
     | Some p \<Rightarrow> Inr (s\<lparr>memory := st8 p x (memory s)\<rparr>))"

text \<open>\<open>memset\<close> through the page tables.\<close>

primrec vmemset :: "addr \<Rightarrow> u8 \<Rightarrow> nat \<Rightarrow> 'f machine \<Rightarrow> kerror + 'f machine" where
  "vmemset v c 0 s = Inr s"
| "vmemset v c (Suc n) s = bind_res (vst8 v c s) (vmemset (v + 1) c n)"

section \<open>Mapping a page\<close>

definition new_table ::
    "(mem \<times> 'f \<Rightarrow> kerror + (phys_t \<times> mem \<times> 'f)) \<Rightarrow> u32 \<Rightarrow> u32 \<Rightarrow> 'f machine \<Rightarrow> kerror + 'f machine" where
  "new_table new_frame pdid ptvd s =
     bind_res (new_frame (memory s, frames s)) (\<lambda>(a, m, f).
       let s = s\<lparr>memory := m, frames := f\<rparr>; addr = (ucast a :: u32) in
       bind_res (vst32 (entry_at (page_dir_addr s) pdid) (addr OR (PDE_RW OR PDE_PR)) s)
         (vmemset ptvd 0 4096))"

definition Mmu32Nopae_map ::
    "(mem \<times> 'f \<Rightarrow> kerror + (phys_t \<times> mem \<times> 'f)) \<Rightarrow> u64 \<Rightarrow> u64 \<Rightarrow> u64 \<Rightarrow> 'f machine \<Rightarrow> kerror + 'f machine" where
  "Mmu32Nopae_map new_frame a b c s =
     (let virt = (ucast a :: u32); phys = (ucast b :: u32); flags = (ucast c :: u16) AND PG_FLAG_MASK;
          pdid = ARCH_GET_PD_IDX virt; ptid = ARCH_GET_PT_IDX virt; ptvd = ARCH_GET_VIRT 1023 pdid
      in bind_res (vld32 (entry_at (page_dir_addr s) pdid) s) (\<lambda>e.
         bind_res (if e = 0 then new_table new_frame pdid ptvd s else Inr s) (\<lambda>s.
         vst32 (entry_at ptvd ptid) (phys OR ucast flags) s)))"

text \<open>The loader takes frames from \<open>bootmem.cc\<close>; the kernel from the allocator in charge.\<close>

definition loader_frame :: "bool \<Rightarrow> mem \<times> loader_mm \<Rightarrow> kerror + (phys_t \<times> mem \<times> loader_mm)" where
  "loader_frame clear = (\<lambda>(m, f).
     bind_res (pmm_alloc_page clear (f\<lparr>lm_memory := m\<rparr>)) (\<lambda>(a, f). Inr (a, lm_memory f, f)))"

definition loader_map :: "u64 \<Rightarrow> u64 \<Rightarrow> u64 \<Rightarrow> loader_mm machine \<Rightarrow> kerror + loader_mm machine" where
  "loader_map = Mmu32Nopae_map (loader_frame False)"

section \<open>Enabling paging\<close>

definition ident_entries :: "u32 \<Rightarrow> nat \<Rightarrow> mem \<Rightarrow> mem" where
  "ident_entries pt n m = fold (\<lambda>i. st32 (entry_at pt (of_nat i))
     (push_bit ARCH_PAGE_SHIFT (of_nat i) OR (PTE_PR OR PTE_RW))) [0 ..< n] m"

definition Mmu32Nopae_init :: "loader_mm machine \<Rightarrow> kerror + loader_mm machine" where
  "Mmu32Nopae_init s =
     bind_res (loader_frame True (memory s, frames s)) (\<lambda>(pd, m, f).
       let pd = (ucast pd :: u32); m = st32 (entry_at pd 1023) (pd OR (PDE_PR OR PDE_RW)) m in
     bind_res (loader_frame True (m, f)) (\<lambda>(pt, m, f).
       let pt = (ucast pt :: u32);
           m = ident_entries pt 1024 m;
           m = st32 (entry_at pd 0) (pt OR (PDE_PR OR PDE_RW)) m
       in Inr (s\<lparr>memory := m, frames := f, cr3 := pd, cr4 := cr4 s OR CR4_PGE,
                 cr0 := cr0 s OR (CR0_PG OR CR0_WP), page_dir_addr := 0xFFFFF000\<rparr>)))"

section \<open>The recursive page directory\<close>

text \<open>
  \<open>pd\<close> holds a directory whose last entry points to itself, whose other entries are zero or
  point to tables of their own.
\<close>

definition tables_ok :: "mem \<Rightarrow> u32 \<Rightarrow> bool" where
  "tables_ok m pd \<longleftrightarrow> aligned pd \<and> ld32 m (entry_at pd 1023) = pd OR 3
    \<and> (\<forall>i < 1023. ld32 m (entry_at pd i) \<noteq> 0 \<longrightarrow>
         usable True (ld32 m (entry_at pd i)) \<and> frame_of (ld32 m (entry_at pd i)) \<noteq> pd)
    \<and> (\<forall>i < 1023. \<forall>j < 1023. i \<noteq> j \<and> ld32 m (entry_at pd i) \<noteq> 0 \<and> ld32 m (entry_at pd j) \<noteq> 0 \<longrightarrow>
         frame_of (ld32 m (entry_at pd i)) \<noteq> frame_of (ld32 m (entry_at pd j)))"

definition machine_ok :: "'f machine \<Rightarrow> bool" where
  "machine_ok s \<longleftrightarrow> cr0 s AND CR0_PG \<noteq> 0 \<and> page_dir_addr s = 0xFFFFF000 \<and> tables_ok (memory s) (cr3 s)"

lemma or_flags:
  assumes "aligned b" shows "frame_of (b OR 3) = b" "usable w (b OR 3)"
proof -
  have low: "12 \<le> k" if "bit b k" for k
  proof (rule ccontr)
    assume k: "\<not> 12 \<le> k"
    have "b AND mask 12 = 0" using assms by (simp add: aligned_def masks)
    then have "bit (b AND mask 12) k = bit (0 :: u32) k" by (rule arg_cong)
    with that k show False by (simp only: bit_and_iff bit_mask_iff bit_0_eq bot_apply) simp
  qed
  have three: "bit (3 :: u32) k \<longleftrightarrow> k = 0 \<or> k = 1" for k
  proof -
    have eq: "(3 :: u32) = mask 2" by (simp add: mask_eq_exp_minus_1)
    show ?thesis unfolding eq by (auto simp: bit_mask_iff)
  qed
  show "usable w (b OR 3)" by (simp add: usable_def bit_or_iff three)
  show "frame_of (b OR 3) = b"
  proof (rule bit_word_eqI)
    fix n assume "n < LENGTH(32)"
    then show "bit (frame_of (b OR 3)) n = bit b n"
      unfolding frame_of_def bit_and_iff bit_or_iff three page_mask_bit using low by fastforce
  qed
qed

lemma small_index: "(i :: u32) < 1023 \<Longrightarrow> unat i < 1024" "i < 1024 \<Longrightarrow> unat i < 1024"
  by (simp_all add: word_less_nat_alt)

lemma unat_1023: "unat (1023 :: u32) < 1024"
  by simp

text \<open>Through the last directory entry a table is seen as a page.\<close>

lemma walk_rec:
  assumes "tables_ok m pd" "i < 1023" "ld32 m (entry_at pd i) \<noteq> 0" "k < 4096"
  shows "walk m pd w (ARCH_GET_VIRT 1023 i + of_nat k) = Some (frame_of (ld32 m (entry_at pd i)) + of_nat k)"
proof -
  have "usable w (ld32 m (entry_at pd i))" using assms(1-3) by (auto simp: tables_ok_def usable_def)
  with assms show ?thesis
    by (simp add: walk_def rec_address small_index frame_of_aligned or_flags tables_ok_def)
qed

lemma walk_dir:
  assumes "tables_ok m pd" "k < 4096"
  shows "walk m pd w (0xFFFFF000 + of_nat k) = Some (pd + of_nat k)"
  unfolding page_dir_virt [symmetric]
  using assms unfolding walk_def rec_address [OF unat_1023 assms(2)]
  by (simp add: rec_address frame_of_aligned or_flags tables_ok_def)

lemma translate_ok: "machine_ok s \<Longrightarrow> translate s w v = walk (memory s) (cr3 s) w v"
  by (simp add: translate_def machine_ok_def)

text \<open>Reading and writing the directory, and an entry of a table, through the recursive mapping.\<close>

lemma dir_virtual:
  assumes "machine_ok s" "unat i < 1024"
  shows "vld32 (entry_at (page_dir_addr s) i) s = Inr (ld32 (memory s) (entry_at (cr3 s) i))"
    "vst32 (entry_at (page_dir_addr s) i) x s = Inr (s\<lparr>memory := st32 (entry_at (cr3 s) i) x (memory s)\<rparr>)"
proof -
  have "translate s w (entry_at (page_dir_addr s) i) = Some (entry_at (cr3 s) i)" for w
    unfolding translate_ok [OF assms(1)]
    using walk_dir [of "memory s" "cr3 s" "4 * unat i" w] assms by (simp add: machine_ok_def entry_at_offset)
  then show "vld32 (entry_at (page_dir_addr s) i) s = Inr (ld32 (memory s) (entry_at (cr3 s) i))"
    "vst32 (entry_at (page_dir_addr s) i) x s = Inr (s\<lparr>memory := st32 (entry_at (cr3 s) i) x (memory s)\<rparr>)"
    by (simp_all add: vld32_def vst32_def)
qed

lemma table_virtual:
  assumes "machine_ok s" "i < 1023" "ld32 (memory s) (entry_at (cr3 s) i) \<noteq> 0" "unat j < 1024"
  shows "vst32 (entry_at (ARCH_GET_VIRT 1023 i) j) x s =
    Inr (s\<lparr>memory := st32 (entry_at (frame_of (ld32 (memory s) (entry_at (cr3 s) i))) j) x (memory s)\<rparr>)"
proof -
  have "translate s True (entry_at (ARCH_GET_VIRT 1023 i) j) =
      Some (entry_at (frame_of (ld32 (memory s) (entry_at (cr3 s) i))) j)"
    unfolding translate_ok [OF assms(1)]
    using walk_rec [of "memory s" "cr3 s" i "4 * unat j" True] assms by (simp add: machine_ok_def entry_at_offset)
  then show ?thesis by (simp add: vst32_def)
qed

section \<open>A new page table\<close>

lemma vmemset_page:
  assumes "cr0 s AND CR0_PG \<noteq> 0" "k + n \<le> 4096"
    and "\<And>c m l j. l \<le> 4096 \<Longrightarrow> j < 4096 \<Longrightarrow>
      walk (fill_up b c l m0) (cr3 s) True (v + of_nat j) = Some (b + of_nat j)"
    and "memory s = fill_up b c k m0"
  shows "vmemset (v + of_nat k) c n s = Inr (s\<lparr>memory := fill_up b c (k + n) m0\<rparr>)"
  using assms
proof (induction n arbitrary: k s)
  case (Suc n)
  let ?s = "s\<lparr>memory := fill_up b c (Suc k) m0\<rparr>"
  have "vst8 (v + of_nat k) c s = Inr ?s"
    using Suc.prems(1,2) Suc.prems(3) [of k k c] unfolding vst8_def translate_def Suc.prems(4) st8_def fill_up_snoc
    by simp
  moreover have "vmemset (v + of_nat (Suc k)) c n ?s = Inr (?s\<lparr>memory := fill_up b c (Suc k + n) m0\<rparr>)"
    using Suc.prems by (intro Suc.IH) simp_all
  ultimately show ?case by (simp add: add.assoc add.commute [of 1])
qed simp

text \<open>The frame for a new table: a page of its own, not one of the tables.\<close>

definition fresh_frame :: "mem \<Rightarrow> u32 \<Rightarrow> u32 \<Rightarrow> bool" where
  "fresh_frame m pd b \<longleftrightarrow> aligned b \<and> b \<noteq> pd
    \<and> (\<forall>i < 1023. ld32 m (entry_at pd i) \<noteq> 0 \<longrightarrow> frame_of (ld32 m (entry_at pd i)) \<noteq> b)"

text \<open>The memory after a table in frame \<open>b\<close> was put in directory entry \<open>i\<close>.\<close>

definition with_table :: "u32 \<Rightarrow> u32 \<Rightarrow> u32 \<Rightarrow> mem \<Rightarrow> mem" where
  "with_table pd i b m = fill_up b 0 4096 (st32 (entry_at pd i) (b OR 3) m)"

lemma or_3_nonzero: "b OR 3 \<noteq> (0 :: u32)"
proof
  assume "b OR 3 = 0"
  then have "bit (b OR 3) 0 = bit (0 :: u32) 0" by (rule arg_cong)
  then show False by (simp only: bit_or_iff bit_0_eq bot_apply) simp
qed

lemma ld32_dir_fill:
  assumes "aligned pd" "aligned b" "b \<noteq> pd" "unat i < 1024" "unat j < 1024" "l \<le> 4096"
  shows "ld32 (fill_up b c l (st32 (entry_at pd i) x m)) (entry_at pd j) =
    (if j = i then x else ld32 m (entry_at pd j))"
  using assms by (auto simp: ld32_entry_fill_other ld32_entry_other)

lemma tables_ok_new:
  assumes ok: "tables_ok m pd" and i: "i < 1023" and b: "fresh_frame m pd b" and l: "l \<le> 4096"
    and z: "ld32 m (entry_at pd i) = 0"
  shows "tables_ok (fill_up b c l (st32 (entry_at pd i) (b OR 3) m)) pd"
proof -
  have al: "aligned pd" "aligned b" "b \<noteq> pd" using ok b by (auto simp: tables_ok_def fresh_frame_def)
  have d: "ld32 (fill_up b c l (st32 (entry_at pd i) (b OR 3) m)) (entry_at pd j) =
      (if j = i then b OR 3 else ld32 m (entry_at pd j))" if "unat j < 1024" for j
    using ld32_dir_fill [OF al _ that l] i by (simp add: small_index)
  have "ld32 (fill_up b c l (st32 (entry_at pd i) (b OR 3) m)) (entry_at pd 1023) = pd OR 3"
    using d [OF unat_1023] ok i by (auto simp: tables_ok_def)
  moreover note D = d [OF small_index(1)]
  ultimately show ?thesis
    using ok b unfolding tables_ok_def fresh_frame_def
    by (simp add: D or_flags al) metis
qed

lemma new_table_ok:
  assumes ok: "machine_ok s" and i: "i < 1023" and z: "ld32 (memory s) (entry_at (cr3 s) i) = 0"
    and fr: "new_frame (memory s, frames s) = Inr (a, memory s, f)"
    and b: "fresh_frame (memory s) (cr3 s) (ucast a)"
  shows "new_table new_frame i (ARCH_GET_VIRT 1023 i) s =
    Inr (s\<lparr>memory := with_table (cr3 s) i (ucast a) (memory s), frames := f\<rparr>)"
proof -
  let ?b = "ucast a :: u32" and ?m = "memory s"
  let ?m1 = "st32 (entry_at (cr3 s) i) (?b OR 3) ?m" and ?s0 = "s\<lparr>memory := ?m, frames := f\<rparr>"
  let ?s1 = "?s0\<lparr>memory := ?m1\<rparr>"
  have fl: "PDE_RW OR PDE_PR = 3" by (simp add: PDE_RW_def PDE_PR_def)
  have tab: "tables_ok ?m (cr3 s)" using ok by (simp add: machine_ok_def)
  have al: "aligned (cr3 s)" "aligned ?b" "?b \<noteq> cr3 s" using tab b by (auto simp: tables_ok_def fresh_frame_def)
  have ok0: "machine_ok ?s0" using ok by (simp add: machine_ok_def)
  have st: "vst32 (entry_at (page_dir_addr ?s0) i) (?b OR 3) ?s0 = Inr ?s1"
    using dir_virtual(2) [OF ok0, of i "?b OR 3"] i by (simp add: small_index)
  have w: "walk (fill_up ?b c l ?m1) (cr3 s) True (ARCH_GET_VIRT 1023 i + of_nat j) = Some (?b + of_nat j)"
    if "l \<le> 4096" "j < 4096" for c l j
  proof -
    have "ld32 (fill_up ?b c l ?m1) (entry_at (cr3 s) i) = ?b OR 3"
      using ld32_dir_fill [OF al _ _ that(1)] i by (simp add: small_index)
    with walk_rec [OF tables_ok_new [OF tab i b that(1) z] i _ that(2), of c True] show ?thesis
      by (simp add: or_3_nonzero or_flags al)
  qed
  have "vmemset (ARCH_GET_VIRT 1023 i + of_nat 0) 0 4096 ?s1 = Inr (?s1\<lparr>memory := fill_up ?b 0 (0 + 4096) ?m1\<rparr>)"
    using ok w by (intro vmemset_page) (auto simp: machine_ok_def)
  then show ?thesis
    by (simp add: new_table_def fr fl st [simplified] Let_def with_table_def)
qed

section \<open>Translation after a change of the tables\<close>

lemma walk_entries:
  assumes "aligned pd" "ld32 m (entry_at pd (ARCH_GET_PD_IDX v)) = e"
    and "ld32 m (entry_at (frame_of e) (ARCH_GET_PT_IDX v)) = x"
  shows "walk m pd w v = (if usable w e \<and> usable w x then Some (frame_of x + (v AND 0xFFF)) else None)"
  using assms by (simp add: walk_def frame_of_aligned)

lemma walk_cong:
  assumes "aligned pd"
    and "ld32 m (entry_at pd (ARCH_GET_PD_IDX v)) = e" "ld32 m' (entry_at pd (ARCH_GET_PD_IDX v)) = e"
    and "e \<noteq> 0 \<Longrightarrow> ld32 m (entry_at (frame_of e) (ARCH_GET_PT_IDX v)) = ld32 m' (entry_at (frame_of e) (ARCH_GET_PT_IDX v))"
  shows "walk m pd w v = walk m' pd w v"
proof (cases "e = 0")
  case True
  then have "\<not> usable w e" by (simp add: usable_def)
  then show ?thesis by (simp add: walk_entries [OF assms(1,2) refl] walk_entries [OF assms(1,3) refl])
next
  case False
  then show ?thesis
    by (simp add: walk_entries [OF assms(1,2) refl] walk_entries [OF assms(1,3) refl] assms(4))
qed

lemma unusable_0: "\<not> usable w 0"
  by (simp add: usable_def)

lemma walk_with_table:
  assumes ok: "tables_ok m pd" and i: "i < 1023" and b: "fresh_frame m pd b"
    and z: "ld32 m (entry_at pd i) = 0" and v: "ARCH_GET_PD_IDX v < 1023"
  shows "walk (with_table pd i b m) pd w v = walk m pd w v"
proof -
  let ?j = "ARCH_GET_PD_IDX v" and ?k = "ARCH_GET_PT_IDX v"
  have al: "aligned pd" "aligned b" "b \<noteq> pd" using ok b by (auto simp: tables_ok_def fresh_frame_def)
  have d: "ld32 (with_table pd i b m) (entry_at pd ?j) = (if ?j = i then b OR 3 else ld32 m (entry_at pd ?j))"
    unfolding with_table_def using ld32_dir_fill [OF al _ index_bounds(1) order_refl] i by (simp add: small_index)
  show ?thesis
  proof (cases "?j = i")
    case True
    have "ld32 (with_table pd i b m) (entry_at (frame_of (b OR 3)) (ARCH_GET_PT_IDX v)) = 0"
      by (simp add: or_flags al with_table_def ld32_entry_zeroed index_bounds)
    with True z d al show ?thesis
      by (simp add: walk_entries [OF _ _ refl] unusable_0)
  next
    case False
    show ?thesis
    proof (rule walk_cong [OF al(1) _ refl])
      show "ld32 (with_table pd i b m) (entry_at pd ?j) = ld32 m (entry_at pd ?j)" using False d by simp
      assume "ld32 m (entry_at pd ?j) \<noteq> 0"
      then have "frame_of (ld32 m (entry_at pd ?j)) \<noteq> b" "frame_of (ld32 m (entry_at pd ?j)) \<noteq> pd"
        using ok b v by (auto simp: tables_ok_def fresh_frame_def)
      with i show "ld32 (with_table pd i b m) (entry_at (frame_of (ld32 m (entry_at pd ?j))) ?k)
          = ld32 m (entry_at (frame_of (ld32 m (entry_at pd ?j))) ?k)"
        by (simp add: al with_table_def ld32_entry_fill_other ld32_entry_other index_bounds small_index)
    qed
  qed
qed

lemma set_entry:
  fixes x :: u32
  assumes ok: "tables_ok m pd" and i: "i < 1023" and e: "ld32 m (entry_at pd i) \<noteq> 0" and j: "unat j < 1024"
  defines "m' \<equiv> st32 (entry_at (frame_of (ld32 m (entry_at pd i))) j) x m"
  shows "unat k < 1024 \<Longrightarrow> ld32 m' (entry_at pd k) = ld32 m (entry_at pd k)"
    and "tables_ok m' pd"
    and "ARCH_GET_PD_IDX v < 1023 \<Longrightarrow> walk m' pd w v =
      (if ARCH_GET_PD_IDX v = i \<and> ARCH_GET_PT_IDX v = j
       then if usable w x then Some (frame_of x + (v AND 0xFFF)) else None
       else walk m pd w v)"
proof -
  let ?t = "frame_of (ld32 m (entry_at pd i))"
  have al: "aligned pd" "?t \<noteq> pd" using ok i e by (auto simp: tables_ok_def)
  have d: "ld32 m' (entry_at pd k) = ld32 m (entry_at pd k)" if "unat k < 1024" for k
    unfolding m'_def using al j that by (intro ld32_entry_other) auto
  then show "unat k < 1024 \<Longrightarrow> ld32 m' (entry_at pd k) = ld32 m (entry_at pd k)" .
  show "tables_ok m' pd"
    using ok d [OF unat_1023] by (simp add: tables_ok_def d small_index)
  assume v: "ARCH_GET_PD_IDX v < 1023"
  let ?e = "ld32 m (entry_at pd (ARCH_GET_PD_IDX v))"
  show "walk m' pd w v =
      (if ARCH_GET_PD_IDX v = i \<and> ARCH_GET_PT_IDX v = j
       then if usable w x then Some (frame_of x + (v AND 0xFFF)) else None
       else walk m pd w v)"
  proof (cases "ARCH_GET_PD_IDX v = i \<and> ARCH_GET_PT_IDX v = j")
    case True
    moreover have "usable w (ld32 m (entry_at pd i))" using ok i e by (auto simp: tables_ok_def usable_def)
    moreover have "ld32 m' (entry_at pd (ARCH_GET_PD_IDX v)) = ?e" by (rule d [OF index_bounds(1)])
    moreover have "ld32 m' (entry_at ?t j) = x" by (simp add: m'_def)
    ultimately show ?thesis
      using walk_entries [OF al(1), of m' v _ x w] by simp
  next
    case False
    have "ld32 m' (entry_at (frame_of ?e) (ARCH_GET_PT_IDX v)) = ld32 m (entry_at (frame_of ?e) (ARCH_GET_PT_IDX v))"
      if "?e \<noteq> 0"
    proof -
      have "frame_of ?e \<noteq> ?t" if "ARCH_GET_PD_IDX v \<noteq> i"
        using ok i v e that \<open>?e \<noteq> 0\<close> by (auto simp: tables_ok_def)
      with False show ?thesis unfolding m'_def using j by (intro ld32_entry_other) (auto simp: index_bounds)
    qed
    then have "walk m' pd w v = walk m pd w v"
      by (rule walk_cong [OF al(1) d [OF index_bounds(1)] refl])
    with False show ?thesis by auto
  qed
qed

text \<open>What one call of \<open>map\<close> does to the machine.\<close>

lemma map_step:
  fixes b c :: u64
  assumes ok: "machine_ok s" and v: "ARCH_GET_PD_IDX (ucast a) \<noteq> 1023"
    and fr: "ld32 (memory s) (entry_at (cr3 s) (ARCH_GET_PD_IDX (ucast a))) = 0 \<Longrightarrow>
      new_frame (memory s, frames s) = Inr (p, memory s, f) \<and> fresh_frame (memory s) (cr3 s) (ucast p)"
  defines "x \<equiv> (ucast b :: u32) OR ucast ((ucast c :: u16) AND PG_FLAG_MASK)"
  shows "\<exists>m1 f1. Mmu32Nopae_map new_frame a b c s = Inr (s\<lparr>memory := m1, frames := f1\<rparr>)
    \<and> tables_ok m1 (cr3 s)
    \<and> f1 = (if ld32 (memory s) (entry_at (cr3 s) (ARCH_GET_PD_IDX (ucast a))) = 0 then f else frames s)
    \<and> (\<forall>i < 1023. ld32 m1 (entry_at (cr3 s) i) =
        (if i = ARCH_GET_PD_IDX (ucast a) \<and> ld32 (memory s) (entry_at (cr3 s) i) = 0 then ucast p OR 3
         else ld32 (memory s) (entry_at (cr3 s) i)))
    \<and> (\<forall>w u. ARCH_GET_PD_IDX u \<noteq> 1023 \<longrightarrow> walk m1 (cr3 s) w u =
        (if frame_of u = frame_of (ucast a) then if usable w x then Some (frame_of x + (u AND 0xFFF)) else None
         else walk (memory s) (cr3 s) w u))"
proof -
  let ?i = "ARCH_GET_PD_IDX (ucast a)" and ?j = "ARCH_GET_PT_IDX (ucast a)" and ?pd = "cr3 s"
  have lt: "k < 1023" if "unat k < 1024" "k \<noteq> 1023" for k :: u32
    using that by (simp add: word_less_nat_alt word_unat_eq_iff)
  have i: "?i < 1023" by (rule lt [OF index_bounds(1) v])
  obtain m1 :: mem and f1 where s1: "(if ld32 (memory s) (entry_at ?pd ?i) = 0 then new_table new_frame ?i (ARCH_GET_VIRT 1023 ?i) s
        else Inr s) = Inr (s\<lparr>memory := m1, frames := f1\<rparr>)"
      and t1: "tables_ok m1 ?pd" "ld32 m1 (entry_at ?pd ?i) \<noteq> 0"
      and f1: "f1 = (if ld32 (memory s) (entry_at ?pd ?i) = 0 then f else frames s)"
      and d1: "\<And>j. j < 1023 \<Longrightarrow> ld32 m1 (entry_at ?pd j) =
        (if j = ?i \<and> ld32 (memory s) (entry_at ?pd j) = 0 then ucast p OR 3 else ld32 (memory s) (entry_at ?pd j))"
      and w1: "\<And>w u. ARCH_GET_PD_IDX u < 1023 \<Longrightarrow> walk m1 ?pd w u = walk (memory s) ?pd w u"
  proof (cases "ld32 (memory s) (entry_at ?pd ?i) = 0")
    case z: True
    note F = fr [OF z]
    have t: "tables_ok (memory s) ?pd" using ok by (simp add: machine_ok_def)
    have "ld32 (with_table ?pd ?i (ucast p) (memory s)) (entry_at ?pd j) =
        (if j = ?i then ucast p OR 3 else ld32 (memory s) (entry_at ?pd j))" if "j < 1023" for j
      using F t i that unfolding with_table_def
      by (subst ld32_dir_fill) (auto simp: tables_ok_def fresh_frame_def small_index)
    then show thesis
      using z new_table_ok [OF ok i z] walk_with_table [OF t i _ z] tables_ok_new [OF t i _ order_refl z] F i
      by (intro that [where ?m1.0 = "with_table ?pd ?i (ucast p) (memory s)" and ?f1.0 = f]) (auto simp: with_table_def or_3_nonzero)
  next
    case False
    then show thesis using ok by (intro that [where ?m1.0 = "memory s" and ?f1.0 = "frames s"]) (auto simp: machine_ok_def)
  qed
  let ?s1 = "s\<lparr>memory := m1, frames := f1\<rparr>"
  have ok1: "machine_ok ?s1" using ok t1 by (simp add: machine_ok_def)
  have st: "vst32 (entry_at (ARCH_GET_VIRT 1023 ?i) ?j) x ?s1 =
      Inr (s\<lparr>memory := st32 (entry_at (frame_of (ld32 m1 (entry_at ?pd ?i))) ?j) x m1, frames := f1\<rparr>)"
    using table_virtual [OF ok1 i _ index_bounds(2), of "ucast a" x] t1(2) by simp
  show ?thesis
    using s1 st dir_virtual(1) [OF ok index_bounds(1), of "ucast a"] f1 d1
      set_entry [OF t1(1) i t1(2) index_bounds(2)] w1
    by (auto simp: Mmu32Nopae_map_def x_def Let_def same_page_iff lt index_bounds small_index)
qed

section \<open>Sources of frames\<close>

text \<open>The invariant of paging: the directory and its tables lie in frames the allocator has in use.\<close>

definition paging_inv :: "('f \<Rightarrow> u32 \<Rightarrow> bool) \<Rightarrow> 'f machine \<Rightarrow> bool" where
  "paging_inv used s \<longleftrightarrow> machine_ok s \<and> used (frames s) (cr3 s)
    \<and> (\<forall>i < 1023. ld32 (memory s) (entry_at (cr3 s) i) \<noteq> 0 \<longrightarrow>
         used (frames s) (frame_of (ld32 (memory s) (entry_at (cr3 s) i))))"

text \<open>
  What \<open>map\<close> needs of an allocator: when it is ready for one more frame it returns an aligned frame that was
  not in use, and has it in use afterwards.
\<close>

locale frame_source =
  fixes new_frame :: "mem \<times> 'f \<Rightarrow> kerror + (phys_t \<times> mem \<times> 'f)"
    and used :: "'f \<Rightarrow> u32 \<Rightarrow> bool"
    and ready :: "nat \<Rightarrow> 'f \<Rightarrow> bool"
  assumes take: "ready (Suc n) f \<Longrightarrow> \<exists>p f'. new_frame (m, f) = Inr (p, m, f') \<and> ready n f'
      \<and> aligned (ucast p) \<and> \<not> used f (ucast p) \<and> used f' (ucast p) \<and> (\<forall>b. used f b \<longrightarrow> used f' b)"
    and ready_Suc: "ready (Suc n) f \<Longrightarrow> ready n f"
begin

lemma map_correct:
  fixes a b c :: u64
  assumes inv: "paging_inv used s" and r: "ready (Suc n) (frames s)" and v: "ARCH_GET_PD_IDX (ucast a) \<noteq> 1023"
  defines "x \<equiv> (ucast b :: u32) OR ucast ((ucast c :: u16) AND PG_FLAG_MASK)"
  shows "\<exists>s'. Mmu32Nopae_map new_frame a b c s = Inr s' \<and> paging_inv used s' \<and> ready n (frames s')
    \<and> (\<forall>w u. ARCH_GET_PD_IDX u \<noteq> 1023 \<longrightarrow> translate s' w u =
        (if frame_of u = frame_of (ucast a) then if usable w x then Some (frame_of x + (u AND 0xFFF)) else None
         else translate s w u))"
proof -
  have ok: "machine_ok s" using inv by (simp add: paging_inv_def)
  obtain p f where f: "new_frame (memory s, frames s) = Inr (p, memory s, f)" "ready n f" "aligned (ucast p)"
      "\<not> used (frames s) (ucast p)" "used f (ucast p)" "\<forall>b. used (frames s) b \<longrightarrow> used f b"
    using take [OF r] by blast
  have fr: "new_frame (memory s, frames s) = Inr (p, memory s, f) \<and> fresh_frame (memory s) (cr3 s) (ucast p)"
    using f(1,3,4) inv unfolding paging_inv_def fresh_frame_def by metis
  obtain m1 f1 where s1: "Mmu32Nopae_map new_frame a b c s = Inr (s\<lparr>memory := m1, frames := f1\<rparr>)" (is "_ = Inr ?s")
    and t1: "tables_ok m1 (cr3 s)"
    and F1: "f1 = (if ld32 (memory s) (entry_at (cr3 s) (ARCH_GET_PD_IDX (ucast a))) = 0 then f else frames s)"
    and D1: "\<forall>i < 1023. ld32 m1 (entry_at (cr3 s) i) =
      (if i = ARCH_GET_PD_IDX (ucast a) \<and> ld32 (memory s) (entry_at (cr3 s) i) = 0
       then ucast p OR 3 else ld32 (memory s) (entry_at (cr3 s) i))"
    and w1: "\<forall>w u. ARCH_GET_PD_IDX u \<noteq> 1023 \<longrightarrow> walk m1 (cr3 s) w u =
        (if frame_of u = frame_of (ucast a) then if usable w x then Some (frame_of x + (u AND 0xFFF)) else None
         else walk (memory s) (cr3 s) w u)"
    using map_step [OF ok v, of new_frame p f b c, OF fr, folded x_def] by (elim exE conjE) (rule that)
  have f1: "f1 = f \<or> f1 = frames s" using F1 by simp
  have d1: "\<forall>i < 1023. ld32 m1 (entry_at (cr3 s) i) = ld32 (memory s) (entry_at (cr3 s) i)
      \<or> ld32 m1 (entry_at (cr3 s) i) = ucast p OR 3 \<and> f1 = f"
    using D1 F1 by simp
  have ok1: "machine_ok ?s" using ok t1 by (simp add: machine_ok_def)
  have use: "used (frames s) e \<Longrightarrow> used f1 e" for e using f1 f(6) by auto
  have "used f (frame_of (ucast p OR 3))" using f(3,5) by (simp add: or_flags)
  then have "paging_inv used ?s"
    using inv ok1 d1 use unfolding paging_inv_def by auto
  moreover have "ready n f1" using f1 f(2) ready_Suc [OF r] by auto
  moreover have "translate ?s w u = walk m1 (cr3 s) w u" "translate s w u = walk (memory s) (cr3 s) w u" for w u
    using translate_ok [OF ok1] translate_ok [OF ok] by simp_all
  ultimately show ?thesis using s1 w1 by auto
qed

end

section \<open>The loader\<close>

definition page_no :: "u32 \<Rightarrow> nat" where
  "page_no b = unat b div 4096"

definition in_use :: "loader_mm \<Rightarrow> u32 \<Rightarrow> bool" where
  "in_use f b \<longleftrightarrow> bm_bit (bm_words (lm_alloc f)) (page_no b)"

text \<open>The next \<open>n\<close> allocations go down from the cursor, below 4 GiB.\<close>

definition ready :: "nat \<Rightarrow> loader_mm \<Rightarrow> bool" where
  "ready n f \<longleftrightarrow> n < unat (lm_ptr f) \<and> unat (lm_ptr f) < 2 ^ 20
    \<and> (\<forall>k < n. \<not> bm_bit (bm_words (lm_alloc f)) (unat (lm_ptr f) - k))"

abbreviation loader_inv :: "loader_mm machine \<Rightarrow> bool" where
  "loader_inv \<equiv> paging_inv in_use"

definition cursor_page :: "loader_mm \<Rightarrow> u32" where
  "cursor_page f = ucast (lm_ptr f * ARCH_PAGE_SIZE)"

lemma unat_cursor:
  assumes "unat (lm_ptr f) < 2 ^ 20"
  shows "unat (cursor_page f) = 4096 * unat (lm_ptr f)"
proof -
  have "lm_ptr f * ARCH_PAGE_SIZE = of_nat (4096 * unat (lm_ptr f))"
    by (simp add: ARCH_PAGE_SIZE_def ARCH_PAGE_SHIFT_def push_bit_eq_mult mult.commute)
  then have "unat (lm_ptr f * ARCH_PAGE_SIZE) = 4096 * unat (lm_ptr f)"
    by (rule ssubst) (rule unat_of_nat_small, use assms in simp)
  then show ?thesis
    using assms unfolding cursor_page_def by (simp add: unsigned_ucast_eq take_bit_nat_eq_self)
qed

lemma cursor_page:
  assumes "unat (lm_ptr f) < 2 ^ 20"
  shows "aligned (cursor_page f)" "page_no (cursor_page f) = unat (lm_ptr f)"
  using unat_cursor [OF assms] by (simp_all add: aligned_iff page_no_def)

lemma loader_frame_ready:
  assumes "ready (Suc n) f"
  shows "\<exists>f'. loader_frame clear (m, f) =
      Inr (lm_ptr f * ARCH_PAGE_SIZE, if clear then fill_up (cursor_page f) 0 4096 m else m, f')
    \<and> ready n f' \<and> lm_ptr f' = lm_ptr f - 1
    \<and> (\<forall>b. in_use f' b \<longleftrightarrow> in_use f b \<or> page_no b = unat (lm_ptr f))"
proof -
  let ?f = "f\<lparr>lm_memory := m\<rparr>" and ?f' = "snd (pmm_mark_page clear (f\<lparr>lm_memory := m\<rparr>))"
  have r: "Suc n < unat (lm_ptr f)" "unat (lm_ptr f) < 2 ^ 20"
      "\<And>k. k < Suc n \<Longrightarrow> \<not> bm_bit (bm_words (lm_alloc f)) (unat (lm_ptr f) - k)"
    using assms by (auto simp: ready_def)
  have "pmm_alloc_page clear ?f = Inr (pmm_mark_page clear ?f)"
    using r(1) r(3) [of 0] by (intro pmm_alloc_down) (simp_all add: word_less_nat_alt)
  moreover have "lm_memory ?f' = (if clear then fill_up (cursor_page f) 0 4096 m else m)"
    by (simp add: pmm_mark_page_def Let_def memset_def cursor_page_def ARCH_PAGE_SIZE_def ARCH_PAGE_SHIFT_def push_bit_eq_mult)
  moreover have p: "unat (lm_ptr ?f') = unat (lm_ptr f) - 1"
    using r(1) by (simp add: unat_minus_one unat_gt_0 flip: unat_eq_0)
  have "ready n ?f'"
    unfolding ready_def p
  proof (intro conjI allI impI)
    fix k assume "k < n"
    then show "\<not> bm_bit (bm_words (lm_alloc ?f')) (unat (lm_ptr f) - 1 - k)"
      using r(1) r(3) [of "Suc k"] by (simp add: bits)
  qed (use r in simp_all)
  moreover have "in_use ?f' b \<longleftrightarrow> in_use f b \<or> page_no b = unat (lm_ptr f)" for b
    by (auto simp: in_use_def bits)
  ultimately show ?thesis
    by (intro exI [of _ ?f']) (cases "pmm_mark_page clear ?f", use pmm_mark_page_simps [of clear ?f] in \<open>auto simp: loader_frame_def\<close>)
qed

lemma loader_frame_pages: "loader_frame c (m, f) = Inr (p, m', f') \<Longrightarrow> lm_num_pages f' = lm_num_pages f"
  by (auto simp: loader_frame_def pmm_alloc_page_def bind_res_Inr_conv pmm_update_all_def pmm_mark_page_def Let_def
      split: if_splits)

lemma ready_not_used: "ready (Suc n) f \<Longrightarrow> \<not> in_use f (cursor_page f)"
  by (auto simp: ready_def in_use_def cursor_page(2))

lemma ready_Suc: "ready (Suc n) f \<Longrightarrow> ready n f"
  by (auto simp: ready_def)

interpretation loader: frame_source "loader_frame False" in_use ready
proof
  fix n f m assume r: "ready (Suc n) f"
  then have "unat (lm_ptr f) < 2 ^ 20" by (simp add: ready_def)
  note c = cursor_page [OF this] ready_not_used [OF r]
  show "\<exists>p f'. loader_frame False (m, f) = Inr (p, m, f') \<and> ready n f'
      \<and> aligned (ucast p) \<and> \<not> in_use f (ucast p) \<and> in_use f' (ucast p) \<and> (\<forall>b. in_use f b \<longrightarrow> in_use f' b)"
    using loader_frame_ready [OF r, of False m] c unfolding cursor_page_def by fastforce
  show "ready n f" by (rule ready_Suc [OF r])
qed

subsection \<open>The first tables\<close>

lemma ident_entries_Suc:
  "ident_entries pt (Suc n) m =
    st32 (entry_at pt (of_nat n)) (push_bit 12 (of_nat n) OR 3) (ident_entries pt n m)"
  by (simp add: ident_entries_def PTE_PR_def PTE_RW_def ARCH_PAGE_SHIFT_def)

lemma ld32_ident:
  assumes "aligned pt" "aligned b" "n \<le> 1024" "unat i < 1024"
  shows "ld32 (ident_entries pt n m) (entry_at b i) =
    (if b = pt \<and> unat i < n then push_bit 12 i OR 3 else ld32 m (entry_at b i))"
  using assms(3)
proof (induction n)
  case (Suc n)
  have n: "unat (of_nat n :: u32) = n" using Suc.prems by (intro unat_of_nat_small) simp
  show ?case
  proof (cases "b = pt \<and> i = of_nat n")
    case True
    then show ?thesis using n unfolding ident_entries_Suc by simp
  next
    case False
    moreover have "b = pt \<and> unat i < Suc n \<longleftrightarrow> b = pt \<and> unat i < n"
      using False n by (auto simp: less_Suc_eq word_unat_eq_iff)
    moreover have "ld32 (ident_entries pt (Suc n) m) (entry_at b i) = ld32 (ident_entries pt n m) (entry_at b i)"
      unfolding ident_entries_Suc using assms False n Suc.prems by (intro ld32_entry_other) auto
    ultimately show ?thesis using Suc by auto
  qed
qed (simp add: ident_entries_def)

text \<open>The memory in which \<open>init\<close> turns paging on.\<close>

definition first_tables :: "u32 \<Rightarrow> u32 \<Rightarrow> mem \<Rightarrow> mem" where
  "first_tables pd pt m =
     st32 (entry_at pd 0) (pt OR 3) (ident_entries pt 1024 (fill_up pt 0 4096
       (st32 (entry_at pd 1023) (pd OR 3) (fill_up pd 0 4096 m))))"

lemma first_tables_entries:
  assumes "aligned pd" "aligned pt" "pd \<noteq> pt" "unat i < 1024"
  shows "ld32 (first_tables pd pt m) (entry_at pd i) = (if i = 0 then pt OR 3 else if i = 1023 then pd OR 3 else 0)"
    and "ld32 (first_tables pd pt m) (entry_at pt i) = push_bit 12 i OR 3"
  using assms
  by (simp_all add: first_tables_def ld32_entry_other ld32_ident ld32_entry_fill_other ld32_entry_zeroed)

lemma first_tables_ok:
  assumes "aligned pd" "aligned pt" "pd \<noteq> pt"
  shows "tables_ok (first_tables pd pt m) pd"
  using assms first_tables_entries(1) [OF assms unat_1023, of m]
  by (auto simp: tables_ok_def first_tables_entries small_index or_flags)

lemma first_tables_walk:
  assumes "aligned pd" "aligned pt" "pd \<noteq> pt" "ARCH_GET_PD_IDX v \<noteq> 1023"
  shows "walk (first_tables pd pt m) pd w v = (if ARCH_GET_PD_IDX v = 0 then Some v else None)"
proof -
  let ?i = "ARCH_GET_PT_IDX v"
  have e: "ld32 (first_tables pd pt m) (entry_at pd (ARCH_GET_PD_IDX v)) =
      (if ARCH_GET_PD_IDX v = 0 then pt OR 3 else 0)"
    using assms by (simp add: first_tables_entries index_bounds)
  show ?thesis
  proof (cases "ARCH_GET_PD_IDX v = 0")
    case True
    have u: "unat (push_bit 12 ?i) = 4096 * unat ?i"
    proof -
      have "push_bit 12 ?i = of_nat (4096 * unat ?i)" by (simp add: push_bit_eq_mult)
      moreover have "unat (of_nat (4096 * unat ?i) :: u32) = 4096 * unat ?i"
        using index_bounds(2) [of v] by (intro unat_of_nat_small) simp
      ultimately show ?thesis by (simp only:)
    qed
    then have al: "aligned (push_bit 12 ?i)" by (simp add: aligned_iff)
    have "unat v < 4194304" using True unat_indices(1) [of v] by (simp add: div_eq_0_iff)
    then have p: "unat ?i = unat v div 4096" by (simp add: unat_indices)
    have "push_bit 12 ?i + (v AND 0xFFF) = v"
    proof -
      have "push_bit 12 ?i + (v AND 0xFFF) = push_bit 12 ?i + of_nat (unat v mod 4096)"
        by (simp only: unat_indices(3) [symmetric]) simp
      also have "unat \<dots> = unat v"
        unfolding offset_unat [OF al mod_less_divisor [OF zero_less_numeral]] u p by simp
      finally show ?thesis by (simp only: word_unat_eq_iff)
    qed
    moreover have "ld32 (first_tables pd pt m) (entry_at (frame_of (pt OR 3)) ?i) = push_bit 12 ?i OR 3"
      using assms by (simp add: or_flags first_tables_entries index_bounds)
    ultimately show ?thesis
      using True e walk_entries [OF assms(1), of "first_tables pd pt m" v "pt OR 3" "push_bit 12 ?i OR 3" w]
      by (simp add: or_flags al assms)
  next
    case False
    then show ?thesis using e walk_entries [OF assms(1) e refl, of w] by (simp add: unusable_0)
  qed
qed

text \<open>\<open>init\<close> takes two free pages, the first for the directory, and builds the tables there.\<close>

lemma init_result:
  assumes r: "ready (Suc (Suc n)) (frames s)"
  shows "\<exists>pd pt f. Mmu32Nopae_init s = Inr (s\<lparr>memory := first_tables pd pt (memory s), frames := f, cr3 := pd,
        cr4 := cr4 s OR CR4_PGE, cr0 := cr0 s OR (CR0_PG OR CR0_WP), page_dir_addr := 0xFFFFF000\<rparr>)
    \<and> aligned pd \<and> aligned pt \<and> pd \<noteq> pt \<and> ready n f \<and> lm_num_pages f = lm_num_pages (frames s)
    \<and> \<not> in_use (frames s) pd \<and> \<not> in_use (frames s) pt \<and> in_use f pd \<and> in_use f pt
    \<and> (\<forall>b. in_use (frames s) b \<longrightarrow> in_use f b)"
proof -
  let ?f = "frames s"
  have lim: "Suc (Suc n) < unat (lm_ptr ?f)" "unat (lm_ptr ?f) < 2 ^ 20" using r by (simp_all add: ready_def)
  define pd where "pd = cursor_page ?f"
  obtain f1 where f1: "loader_frame True (memory s, ?f) =
        Inr (lm_ptr ?f * ARCH_PAGE_SIZE, fill_up pd 0 4096 (memory s), f1)"
      "ready (Suc n) f1" "lm_ptr f1 = lm_ptr ?f - 1" "\<forall>b. in_use f1 b \<longleftrightarrow> in_use ?f b \<or> page_no b = unat (lm_ptr ?f)"
    using loader_frame_ready [OF r, of True "memory s"] unfolding pd_def by (simp only: if_True) blast
  let ?m = "st32 (entry_at pd 1023) (pd OR 3) (fill_up pd 0 4096 (memory s))"
  define pt where "pt = cursor_page f1"
  obtain f2 where f2: "loader_frame True (?m, f1) = Inr (lm_ptr f1 * ARCH_PAGE_SIZE, fill_up pt 0 4096 ?m, f2)"
      "ready n f2" "\<forall>b. in_use f2 b \<longleftrightarrow> in_use f1 b \<or> page_no b = unat (lm_ptr f1)"
    using loader_frame_ready [OF f1(2), of True ?m] unfolding pt_def by (simp only: if_True) blast
  have lim1: "unat (lm_ptr f1) < 2 ^ 20" using f1(2) by (simp add: ready_def)
  have al: "aligned pd" "aligned pt" unfolding pd_def pt_def using cursor_page lim lim1 by blast+
  have p: "unat (lm_ptr f1) = unat (lm_ptr ?f) - 1"
    unfolding f1(3) using lim(1) by (simp add: unat_minus_one unat_gt_0 flip: unat_eq_0)
  then have "page_no pd \<noteq> page_no pt"
    unfolding pd_def pt_def using lim lim1 by (simp add: cursor_page)
  then have ne: "pd \<noteq> pt" by auto
  have fl: "PDE_PR OR PDE_RW = 3" "push_bit 12 (0 :: u32) = 0" by (simp_all add: PDE_PR_def PDE_RW_def)
  have "Mmu32Nopae_init s = Inr (s\<lparr>memory := first_tables pd pt (memory s), frames := f2, cr3 := pd,
      cr4 := cr4 s OR CR4_PGE, cr0 := cr0 s OR (CR0_PG OR CR0_WP), page_dir_addr := 0xFFFFF000\<rparr>)"
    using f1(1) f2(1) unfolding Mmu32Nopae_init_def fl first_tables_def pd_def pt_def cursor_page_def
    by (simp add: Let_def)
  moreover have "\<not> in_use ?f pd" "\<not> in_use f1 pt"
    unfolding pd_def pt_def by (rule ready_not_used [OF r], rule ready_not_used [OF f1(2)])
  moreover have "in_use f2 pd" "in_use f2 pt"
    using f1(4) f2(3) lim lim1 by (auto simp: pd_def pt_def cursor_page)
  moreover have "lm_num_pages f2 = lm_num_pages ?f"
    using loader_frame_pages [OF f1(1)] loader_frame_pages [OF f2(1)] by simp
  ultimately show ?thesis using al ne f1(4) f2(2,3) by (intro exI [of _ pd] exI [of _ pt] exI [of _ f2]) auto
qed

text \<open>The machine with those tables.\<close>

lemma first_tables_machine:
  fixes s :: "loader_mm machine"
  assumes al: "aligned pd" "aligned pt" "pd \<noteq> pt" and use: "in_use f pd" "in_use f pt"
  defines "s' \<equiv> s\<lparr>memory := first_tables pd pt (memory s), frames := f, cr3 := pd,
    cr4 := cr4 s OR CR4_PGE, cr0 := cr0 s OR (CR0_PG OR CR0_WP), page_dir_addr := 0xFFFFF000\<rparr>"
  shows "loader_inv s'" "bit (cr0 s') 16"
    "ARCH_GET_PD_IDX v \<noteq> 1023 \<Longrightarrow> translate s' w v = (if v < 0x400000 then Some v else None)"
proof -
  have pg: "(cr0 s OR (CR0_PG OR CR0_WP)) AND CR0_PG \<noteq> 0" "bit (cr0 s OR (CR0_PG OR CR0_WP)) 16"
    unfolding CR0_PG_def and_push_bit_1_eq_0_iff not_not by (simp_all add: CR0_WP_def bit_or_iff bit_push_bit_iff)
  then show "bit (cr0 s') 16" by (simp add: s'_def)
  have ok: "machine_ok s'" using pg first_tables_ok [OF al] by (simp add: machine_ok_def s'_def)
  then show "loader_inv s'"
    using use first_tables_entries(1) [OF al] by (auto simp: paging_inv_def or_flags al small_index s'_def)
  assume "ARCH_GET_PD_IDX v \<noteq> 1023"
  moreover have "ARCH_GET_PD_IDX v = 0 \<longleftrightarrow> v < 0x400000"
    by (simp add: word_unat_eq_iff unat_indices word_less_nat_alt div_eq_0_iff)
  ultimately show "translate s' w v = (if v < 0x400000 then Some v else None)"
    using translate_ok [OF ok] first_tables_walk [OF al] by (simp add: s'_def)
qed

lemma init_machine:
  assumes r: "ready (Suc (Suc n)) (frames s)"
  shows "\<exists>s'. Mmu32Nopae_init s = Inr s' \<and> loader_inv s' \<and> ready n (frames s') \<and> bit (cr0 s') 16
    \<and> (\<forall>w v. ARCH_GET_PD_IDX v \<noteq> 1023 \<longrightarrow> translate s' w v = (if v < 0x400000 then Some v else None))"
proof -
  obtain pd pt f where "Mmu32Nopae_init s = Inr (s\<lparr>memory := first_tables pd pt (memory s), frames := f, cr3 := pd,
        cr4 := cr4 s OR CR4_PGE, cr0 := cr0 s OR (CR0_PG OR CR0_WP), page_dir_addr := 0xFFFFF000\<rparr>)"
      and p: "aligned pd" "aligned pt" "pd \<noteq> pt" "in_use f pd" "in_use f pt" and n: "ready n f"
    using init_result [OF r] by blast
  with first_tables_machine [OF p, where s = s] show ?thesis by auto
qed

section \<open>Properties\<close>

text \<open>C16. The loader's \<open>map\<close>, with \<open>n + 1\<close> pages free below the cursor, keeps the paging invariant and
  leaves at least \<open>n\<close>; afterwards the page of \<open>virt\<close> translates to the given frame with the given
  rights and every other page outside the recursive window as before, whether or not a page table
  had to be made.\<close>

theorem loader_map_correct:
  fixes a b c :: u64
  assumes inv: "loader_inv s" and r: "ready (Suc n) (frames s)" and v: "ARCH_GET_PD_IDX (ucast a) \<noteq> 1023"
  defines "x \<equiv> (ucast b :: u32) OR ucast ((ucast c :: u16) AND PG_FLAG_MASK)"
  shows "\<exists>s'. loader_map a b c s = Inr s' \<and> loader_inv s' \<and> ready n (frames s')
    \<and> (\<forall>w u. ARCH_GET_PD_IDX u \<noteq> 1023 \<longrightarrow> translate s' w u =
        (if frame_of u = frame_of (ucast a) then if usable w x then Some (frame_of x + (u AND 0xFFF)) else None
         else translate s w u))"
  unfolding loader_map_def x_def by (rule loader.map_correct [OF inv r v])

text \<open>C17. \<open>init\<close> takes two pages, and when it returns paging and write protection are on, the invariant of
  the loader holds, the first 4 MiB translate to themselves and no other page outside the recursive
  window has a translation.\<close>

theorem mmu_init_correct:
  assumes r: "ready (Suc (Suc n)) (frames s)"
  shows "\<exists>s'. Mmu32Nopae_init s = Inr s' \<and> loader_inv s' \<and> ready n (frames s') \<and> bit (cr0 s') 16
    \<and> (\<forall>w v. ARCH_GET_PD_IDX v \<noteq> 1023 \<longrightarrow> translate s' w v = (if v < 0x400000 then Some v else None))"
  by (rule init_machine [OF r])

definition demo_frames :: loader_mm where
  "demo_frames = \<lparr>lm_alloc = \<lparr>bm_length = 8, bm_bit_count = 256, bm_words = (\<lambda>_. 0)\<rparr>, lm_resrv = (\<lambda>_. 0),
     lm_avail_mem = 0, lm_num_pages = 256, lm_ptr = 100, lm_MODS_END = 0, lm_MAX_MEM = 0, lm_memory = (\<lambda>_. 0)\<rparr>"

definition demo_machine :: "loader_mm machine" where
  "demo_machine = \<lparr>memory = (\<lambda>_. 0), cr0 = 1, cr3 = 0, cr4 = 0, page_dir_addr = 0, frames = demo_frames\<rparr>"

lemma demo_ready: "ready (Suc (Suc (Suc 0))) (frames demo_machine)"
  by (simp add: ready_def demo_machine_def demo_frames_def bm_bit_def)

theorem mmu_init_correct_witness:
  "\<exists>s'. Mmu32Nopae_init demo_machine = Inr s' \<and> loader_inv s' \<and> translate s' True 0xB8000 = Some 0xB8000
    \<and> translate s' False 0xE0000000 = None"
proof -
  have "ARCH_GET_PD_IDX 0xB8000 \<noteq> 1023" "ARCH_GET_PD_IDX 0xE0000000 \<noteq> 1023"
    by (simp_all add: ARCH_GET_PD_IDX_def)
  with mmu_init_correct [OF demo_ready] show ?thesis by fastforce
qed

theorem loader_map_correct_witness:
  "\<exists>s s'. Mmu32Nopae_init demo_machine = Inr s \<and> loader_map 0xE0000000 0x5000 3 s = Inr s'
    \<and> translate s' True 0xE0000123 = Some 0x5123 \<and> translate s' True 0xB8000 = Some 0xB8000"
proof -
  have i: "ARCH_GET_PD_IDX 0xB8000 \<noteq> 1023" "ARCH_GET_PD_IDX 0xE0000123 \<noteq> 1023"
      "ARCH_GET_PD_IDX (ucast (0xE0000000 :: u64)) \<noteq> 1023"
    by (simp_all add: ARCH_GET_PD_IDX_def)
  have fr: "frame_of 0xE0000123 = frame_of (ucast (0xE0000000 :: u64))"
      "frame_of 0xB8000 \<noteq> frame_of (ucast (0xE0000000 :: u64))"
      "frame_of ((ucast (0x5000 :: u64) :: u32) OR ucast ((ucast (3 :: u64) :: u16) AND PG_FLAG_MASK)) = 0x5000"
      "usable True ((ucast (0x5000 :: u64) :: u32) OR ucast ((ucast (3 :: u64) :: u16) AND PG_FLAG_MASK))"
    by (simp_all add: frame_of_def usable_def PG_FLAG_MASK_def ARCH_PAGE_MASK_def ARCH_PAGE_SIZE_def ARCH_PAGE_SHIFT_def)
  obtain s where s: "Mmu32Nopae_init demo_machine = Inr s" "loader_inv s" "ready (Suc 0) (frames s)"
      "translate s True 0xB8000 = Some 0xB8000"
    using init_machine [OF demo_ready] i(1) by fastforce
  from loader_map_correct [OF s(2,3) i(3), of "0x5000" 3] i fr s show ?thesis by fastforce
qed

end
