(* ===== verification/VirtMem.thy ===== *)
theory VirtMem
  imports Paging Blocks
begin

text \<open>
  Code that runs with paging on: \<open>memset\<close> and \<open>memcpy\<close> through the page tables, what they do to memory when
  they stay off the tables, and what a mapping leaves alone.
\<close>

section \<open>Reading and copying\<close>

definition vld8 :: "addr \<Rightarrow> 'f machine \<Rightarrow> kerror + u8" where
  "vld8 v s = (case translate s False v of None \<Rightarrow> Inl Page_fault | Some p \<Rightarrow> Inr (memory s p))"

primrec vmemcpy :: "addr \<Rightarrow> addr \<Rightarrow> nat \<Rightarrow> 'f machine \<Rightarrow> kerror + 'f machine" where
  "vmemcpy d v 0 s = Inr s"
| "vmemcpy d v (Suc n) s = bind_res (vld8 v s) (\<lambda>c. bind_res (vst8 d c s) (vmemcpy (d + 1) (v + 1) n))"

text \<open>A structure can be read when all its bytes have a translation.\<close>

definition view :: "'f machine \<Rightarrow> mem" where
  "view s = (\<lambda>v. case translate s False v of None \<Rightarrow> 0 | Some p \<Rightarrow> memory s p)"

definition readable :: "'f machine \<Rightarrow> addr \<Rightarrow> nat \<Rightarrow> bool" where
  "readable s a n \<longleftrightarrow> (\<forall>k < n. translate s False (a + of_nat k) \<noteq> None)"

section \<open>Writes off the tables\<close>

text \<open>The frames of the directory and of the tables.\<close>

definition table_frame :: "'f machine \<Rightarrow> u32 \<Rightarrow> bool" where
  "table_frame s b \<longleftrightarrow> b = cr3 s
    \<or> (\<exists>i < 1023. ld32 (memory s) (entry_at (cr3 s) i) \<noteq> 0 \<and> frame_of (ld32 (memory s) (entry_at (cr3 s) i)) = b)"

lemma frame_of_offset:
  assumes "aligned b" "k < 4096" shows "frame_of (b + of_nat k) = b"
proof -
  have "unat b mod 4096 = 0" using assms(1) by (simp add: aligned_iff)
  then have "(unat b + k) mod 4096 = k" using assms(2) by (metis add_0 mod_add_left_eq mod_less)
  then have "unat (frame_of (b + of_nat k)) = unat b" by (simp add: frame_of_unat offset_unat [OF assms])
  then show ?thesis by (simp add: word_unat_eq_iff)
qed

lemma page_parts: "frame_of v + (v AND 0xFFF) = v"
  using page_mask_parts [of v] by (simp add: frame_of_def)

lemma frame_of_entry:
  assumes "aligned b" "unat i < 1024" "k < 4" shows "frame_of (entry_at b i + of_nat k) = b"
proof -
  have "entry_at b i + of_nat k = b + of_nat (4 * unat i + k)" by (simp add: entry_at_offset add.assoc)
  moreover have "4 * unat i + k < 4096" using assms by simp
  ultimately show ?thesis using frame_of_offset [OF assms(1)] by (simp only:)
qed

lemma ld32_entry_same:
  assumes "aligned b" "unat i < 1024" "\<And>x. frame_of x = b \<Longrightarrow> m' x = m x"
  shows "ld32 m' (entry_at b i) = ld32 m (entry_at b i)"
  by (rule ld32_cong) (use assms frame_of_entry in simp)

text \<open>Memory may change in every frame that is no table, and paging stays as it is.\<close>

lemma off_tables:
  assumes ok: "machine_ok s" and m': "\<And>x. table_frame s (frame_of x) \<Longrightarrow> m' x = memory s x"
  shows "unat i < 1024 \<Longrightarrow> ld32 m' (entry_at (cr3 s) i) = ld32 (memory s) (entry_at (cr3 s) i)"
    and "machine_ok (s\<lparr>memory := m'\<rparr>)"
    and "translate (s\<lparr>memory := m'\<rparr>) w v = translate s w v"
    and "table_frame (s\<lparr>memory := m'\<rparr>) = table_frame s"
proof -
  have t: "tables_ok (memory s) (cr3 s)" using ok by (simp add: machine_ok_def)
  then have al: "aligned (cr3 s)" by (simp add: tables_ok_def)
  have d: "ld32 m' (entry_at (cr3 s) i) = ld32 (memory s) (entry_at (cr3 s) i)" if "unat i < 1024" for i
    using al that by (rule ld32_entry_same) (use m' in \<open>auto simp: table_frame_def\<close>)
  then show "unat i < 1024 \<Longrightarrow> ld32 m' (entry_at (cr3 s) i) = ld32 (memory s) (entry_at (cr3 s) i)" .
  have t': "tables_ok m' (cr3 s)"
    using t d [OF unat_1023] by (simp add: tables_ok_def d small_index)
  then show ok': "machine_ok (s\<lparr>memory := m'\<rparr>)" using ok by (simp add: machine_ok_def)
  show "table_frame (s\<lparr>memory := m'\<rparr>) = table_frame s"
    by (auto simp: table_frame_def fun_eq_iff d small_index)
  have "walk m' (cr3 s) w v = walk (memory s) (cr3 s) w v"
  proof (rule walk_cong [OF al d [OF index_bounds(1)] refl])
    let ?e = "ld32 (memory s) (entry_at (cr3 s) (ARCH_GET_PD_IDX v))"
    assume nz: "?e \<noteq> 0"
    have "table_frame s (frame_of ?e)"
    proof (cases "ARCH_GET_PD_IDX v = 1023")
      case True
      then show ?thesis using t by (simp add: table_frame_def tables_ok_def or_flags)
    next
      case False
      then have "ARCH_GET_PD_IDX v < 1023"
        using index_bounds(1) [of v] by (simp add: word_less_nat_alt word_unat_eq_iff)
      with nz show ?thesis by (auto simp: table_frame_def)
    qed
    then show "ld32 m' (entry_at (frame_of ?e) (ARCH_GET_PT_IDX v)) = ld32 (memory s) (entry_at (frame_of ?e) (ARCH_GET_PT_IDX v))"
      by (intro ld32_entry_same aligned_frame_of index_bounds m') simp
  qed
  then show "translate (s\<lparr>memory := m'\<rparr>) w v = translate s w v"
    using translate_ok [OF ok] translate_ok [OF ok'] by simp
qed

section \<open>Filling and copying\<close>

lemma vst8_off:
  assumes "translate s True v = Some p" shows "vst8 v c s = Inr (s\<lparr>memory := (memory s)(p := c)\<rparr>)"
  using assms by (simp add: vst8_def st8_def)

lemma vmemset_off:
  assumes "machine_ok s"
    and "\<And>k. k < n \<Longrightarrow> translate s True (v + of_nat k) = Some (\<phi> k) \<and> \<not> table_frame s (frame_of (\<phi> k))"
  shows "vmemset v c n s = Inr (s\<lparr>memory := (\<lambda>x. if \<exists>k < n. \<phi> k = x then c else memory s x)\<rparr>)"
  using assms
proof (induction n arbitrary: v s \<phi>)
  case (Suc n)
  let ?m = "(memory s)(\<phi> 0 := c)" and ?s = "s\<lparr>memory := (memory s)(\<phi> 0 := c)\<rparr>"
  have p: "translate s True v = Some (\<phi> 0)" "\<not> table_frame s (frame_of (\<phi> 0))" using Suc.prems(2) [of 0] by simp_all
  have "\<And>x. table_frame s (frame_of x) \<Longrightarrow> ?m x = memory s x" using p(2) by auto
  note off = off_tables [OF Suc.prems(1) this]
  have "vmemset (v + 1) c n ?s = Inr (?s\<lparr>memory := (\<lambda>x. if \<exists>k < n. \<phi> (Suc k) = x then c else memory ?s x)\<rparr>)" (is "_ = Inr (?s\<lparr>memory := ?f\<rparr>)")
  proof (rule Suc.IH [OF off(2)])
    fix k assume "k < n"
    then show "translate ?s True (v + 1 + of_nat k) = Some (\<phi> (Suc k)) \<and> \<not> table_frame ?s (frame_of (\<phi> (Suc k)))"
      using Suc.prems(2) [of "Suc k"] by (simp add: off(3,4) add.assoc)
  qed
  moreover have "?f = (\<lambda>x. if \<exists>k < Suc n. \<phi> k = x then c else memory s x)"
    by (auto simp: fun_eq_iff Ex_less_Suc2)
  ultimately show ?case by (simp only: vmemset.simps vst8_off [OF p(1)] bind_res.simps) simp
qed simp

lemma vmemcpy_off:
  assumes "machine_ok s"
    and "\<And>k. k < n \<Longrightarrow> translate s True (d + of_nat k) = Some (\<phi> k) \<and> \<not> table_frame s (frame_of (\<phi> k))"
    and "\<And>k. k < n \<Longrightarrow> translate s False (v + of_nat k) = Some (\<psi> k)"
    and "\<And>i j. i < n \<Longrightarrow> j < n \<Longrightarrow> \<psi> i \<noteq> \<phi> j" and "inj_on \<phi> {..< n}"
  shows "\<exists>m. vmemcpy d v n s = Inr (s\<lparr>memory := m\<rparr>) \<and> (\<forall>k < n. m (\<phi> k) = memory s (\<psi> k))
    \<and> (\<forall>x. (\<forall>k < n. \<phi> k \<noteq> x) \<longrightarrow> m x = memory s x)"
  using assms
proof (induction n arbitrary: d v s \<phi> \<psi>)
  case (Suc n)
  define m1 where "m1 = (memory s)(\<phi> 0 := memory s (\<psi> 0))"
  let ?s = "s\<lparr>memory := m1\<rparr>"
  have p: "translate s True d = Some (\<phi> 0)" "\<not> table_frame s (frame_of (\<phi> 0))" "translate s False v = Some (\<psi> 0)"
    using Suc.prems(2) [of 0] Suc.prems(3) [of 0] by simp_all
  have "\<And>x. table_frame s (frame_of x) \<Longrightarrow> m1 x = memory s x" using p(2) by (auto simp: m1_def)
  note off = off_tables [OF Suc.prems(1) this]
  have ne: "\<phi> (Suc k) \<noteq> \<phi> 0" if "k < n" for k
    using Suc.prems(5) that by (auto simp: inj_on_def)
  have "\<exists>m. vmemcpy (d + 1) (v + 1) n ?s = Inr (?s\<lparr>memory := m\<rparr>) \<and> (\<forall>k < n. m (\<phi> (Suc k)) = memory ?s (\<psi> (Suc k)))
    \<and> (\<forall>x. (\<forall>k < n. \<phi> (Suc k) \<noteq> x) \<longrightarrow> m x = memory ?s x)"
  proof (rule Suc.IH [OF off(2)])
    show "inj_on (\<lambda>k. \<phi> (Suc k)) {..< n}" using Suc.prems(5) by (auto simp: inj_on_def)
    fix k assume "k < n"
    then show "translate ?s True (d + 1 + of_nat k) = Some (\<phi> (Suc k)) \<and> \<not> table_frame ?s (frame_of (\<phi> (Suc k)))"
      "translate ?s False (v + 1 + of_nat k) = Some (\<psi> (Suc k))"
      using Suc.prems(2) [of "Suc k"] Suc.prems(3) [of "Suc k"] by (simp_all add: off(3,4) add.assoc)
  next
    fix i j assume "i < n" "j < n"
    then show "\<psi> (Suc i) \<noteq> \<phi> (Suc j)" using Suc.prems(4) [of "Suc i" "Suc j"] by simp
  qed
  then obtain m where m: "vmemcpy (d + 1) (v + 1) n ?s = Inr (?s\<lparr>memory := m\<rparr>)"
      "\<forall>k < n. m (\<phi> (Suc k)) = m1 (\<psi> (Suc k))" "\<forall>x. (\<forall>k < n. \<phi> (Suc k) \<noteq> x) \<longrightarrow> m x = m1 x"
    by auto
  have "vmemcpy d v (Suc n) s = Inr (s\<lparr>memory := m\<rparr>)"
    using m(1) by (simp add: vld8_def p(3) vst8_off [OF p(1)] m1_def)
  moreover have "m (\<phi> k) = memory s (\<psi> k)" if k: "k < Suc n" for k
  proof (cases k)
    case 0
    then show ?thesis using m(3) ne by (simp add: m1_def)
  next
    case (Suc j)
    then show ?thesis using m(2) k Suc.prems(4) [of k 0] by (simp add: m1_def)
  qed
  moreover have "m x = memory s x" if "\<forall>k < Suc n. \<phi> k \<noteq> x" for x
    using m(3) that by (auto simp: m1_def)
  ultimately show ?case by (intro exI [of _ m]) simp
next
  case 0
  show ?case by (intro exI [of _ "memory s"]) simp
qed

section \<open>What a mapping leaves alone\<close>

lemma st32_entry_frame:
  assumes "aligned b" "unat j < 1024" "frame_of x \<noteq> b" shows "st32 (entry_at b j) v m x = m x"
  using frame_of_entry [OF assms(1,2), of 0] frame_of_entry [OF assms(1,2), of 1]
    frame_of_entry [OF assms(1,2), of 2] frame_of_entry [OF assms(1,2), of 3] assms(3)
  by (auto simp: st32_def)

lemma fill_page_frame:
  assumes "aligned b" "frame_of x \<noteq> b" shows "fill_up b c 4096 m x = m x"
proof -
  have "\<not> unat (x - b) < 4096"
  proof
    assume "unat (x - b) < 4096"
    from frame_of_offset [OF assms(1) this] assms(2) show False by simp
  qed
  then show ?thesis by (simp add: fill_up_apply)
qed

lemma map_memory:
  fixes b c :: u64
  assumes ok: "machine_ok s" and v: "ARCH_GET_PD_IDX (ucast a) \<noteq> 1023"
    and fr: "ld32 (memory s) (entry_at (cr3 s) (ARCH_GET_PD_IDX (ucast a))) = 0 \<Longrightarrow>
      new_frame (memory s, frames s) = Inr (p, memory s, f) \<and> fresh_frame (memory s) (cr3 s) (ucast p)"
    and run: "Mmu32Nopae_map new_frame a b c s = Inr s'" and x: "\<not> table_frame s' (frame_of x)"
  shows "memory s' x = memory s x"
proof -
  let ?i = "ARCH_GET_PD_IDX (ucast a)" and ?j = "ARCH_GET_PT_IDX (ucast a)" and ?pd = "cr3 s"
  define y where "y = (ucast b :: u32) OR ucast ((ucast c :: u16) AND PG_FLAG_MASK)"
  have i: "?i < 1023" using index_bounds(1) [of "ucast a"] v by (simp add: word_less_nat_alt word_unat_eq_iff)
  have t: "tables_ok (memory s) ?pd" and al: "aligned ?pd" using ok by (auto simp: machine_ok_def tables_ok_def)
  show ?thesis
  proof (cases "ld32 (memory s) (entry_at ?pd ?i) = 0")
    case z: True
    note F = fr [OF z]
    let ?b = "ucast p :: u32"
    have b: "aligned ?b" "?b \<noteq> ?pd" using F by (auto simp: fresh_frame_def)
    let ?s1 = "s\<lparr>memory := with_table ?pd ?i ?b (memory s), frames := f\<rparr>"
    have s1: "new_table new_frame ?i (ARCH_GET_VIRT 1023 ?i) s = Inr ?s1"
      by (rule new_table_ok [OF ok i z]) (use F in simp_all)
    have d1: "ld32 (memory ?s1) (entry_at ?pd ?i) = ?b OR 3"
      using ld32_dir_fill [OF al b] i by (simp add: with_table_def small_index)
    have ok1: "machine_ok ?s1"
      using ok tables_ok_new [OF t i _ order_refl z] F by (simp add: machine_ok_def with_table_def)
    have s': "s' = ?s1\<lparr>memory := st32 (entry_at ?b ?j) y (memory ?s1)\<rparr>"
      using run s1 z dir_virtual(1) [OF ok index_bounds(1), of "ucast a"]
        table_virtual [OF ok1 i _ index_bounds(2), of "ucast a" y] d1
      by (simp add: Mmu32Nopae_map_def Let_def y_def or_3_nonzero or_flags b)
    have "ld32 (memory s') (entry_at ?pd ?i) = ?b OR 3"
      using d1 al b i by (simp add: s' ld32_entry_other index_bounds small_index)
    then have "table_frame s' ?pd" "table_frame s' ?b"
      using i by (auto simp: table_frame_def s' or_3_nonzero or_flags b intro!: exI [of _ ?i])
    then have "frame_of x \<noteq> ?pd" "frame_of x \<noteq> ?b" using x by auto
    then show ?thesis
      using al b i by (simp add: s' with_table_def st32_entry_frame fill_page_frame index_bounds small_index)
  next
    case False
    let ?t = "frame_of (ld32 (memory s) (entry_at ?pd ?i))"
    have ne: "?t \<noteq> ?pd" using t i False by (auto simp: tables_ok_def)
    have s': "s' = s\<lparr>memory := st32 (entry_at ?t ?j) y (memory s)\<rparr>"
      using run False dir_virtual(1) [OF ok index_bounds(1), of "ucast a"]
        table_virtual [OF ok i False index_bounds(2), of "ucast a" y]
      by (simp add: Mmu32Nopae_map_def Let_def y_def)
    have "ld32 (memory s') (entry_at ?pd ?i) = ld32 (memory s) (entry_at ?pd ?i)"
      using al ne i by (simp add: s' ld32_entry_other index_bounds small_index)
    then have "table_frame s' ?t" using i False by (auto simp: table_frame_def s' intro!: exI [of _ ?i])
    then have "frame_of x \<noteq> ?t" using x by auto
    then show ?thesis by (simp add: s' st32_entry_frame index_bounds)
  qed
qed

text \<open>A page in use that is no table holds data.\<close>

definition data_page :: "('f \<Rightarrow> u32 \<Rightarrow> bool) \<Rightarrow> 'f machine \<Rightarrow> u32 \<Rightarrow> bool" where
  "data_page used s b \<longleftrightarrow> used (frames s) b \<and> \<not> table_frame s b"

definition has_table :: "'f machine \<Rightarrow> u32 \<Rightarrow> bool" where
  "has_table s i \<longleftrightarrow> ld32 (memory s) (entry_at (cr3 s) i) \<noteq> 0"

context frame_source
begin

text \<open>A frame is taken only when the table is missing.\<close>

lemma map_counts:
  fixes a b c :: u64
  assumes inv: "paging_inv used s" and v: "ARCH_GET_PD_IDX (ucast a) \<noteq> 1023"
    and r: "ready (if has_table s (ARCH_GET_PD_IDX (ucast a)) then n else Suc n) (frames s)"
  defines "x \<equiv> (ucast b :: u32) OR ucast ((ucast c :: u16) AND PG_FLAG_MASK)"
  shows "\<exists>s'. Mmu32Nopae_map new_frame a b c s = Inr s' \<and> paging_inv used s' \<and> ready n (frames s')
    \<and> (\<forall>w u. ARCH_GET_PD_IDX u \<noteq> 1023 \<longrightarrow> translate s' w u =
        (if frame_of u = frame_of (ucast a) then if usable w x then Some (frame_of x + (u AND 0xFFF)) else None
         else translate s w u))
    \<and> (\<forall>e. used (frames s) e \<longrightarrow> used (frames s') e) \<and> (\<forall>e. data_page used s e \<longrightarrow> data_page used s' e)
    \<and> (\<forall>y. data_page used s (frame_of y) \<longrightarrow> memory s' y = memory s y) \<and> cr0 s' = cr0 s
    \<and> (\<forall>i < 1023. has_table s' i \<longleftrightarrow> has_table s i \<or> i = ARCH_GET_PD_IDX (ucast a))"
proof -
  let ?i = "ARCH_GET_PD_IDX (ucast a)"
  have ok: "machine_ok s" using inv by (simp add: paging_inv_def)
  obtain p f where f: "\<not> has_table s ?i \<Longrightarrow> new_frame (memory s, frames s) = Inr (p, memory s, f) \<and> ready n f
      \<and> aligned (ucast p) \<and> \<not> used (frames s) (ucast p) \<and> used f (ucast p) \<and> (\<forall>b. used (frames s) b \<longrightarrow> used f b)"
    using take [of n "frames s" "memory s"] r by (cases "has_table s ?i") auto
  have fr: "new_frame (memory s, frames s) = Inr (p, memory s, f) \<and> fresh_frame (memory s) (cr3 s) (ucast p)"
    if "ld32 (memory s) (entry_at (cr3 s) ?i) = 0"
  proof -
    have "\<not> has_table s ?i" using that by (simp add: has_table_def)
    with f inv show ?thesis unfolding paging_inv_def fresh_frame_def by metis
  qed
  obtain m1 f1 where s1: "Mmu32Nopae_map new_frame a b c s = Inr (s\<lparr>memory := m1, frames := f1\<rparr>)" (is "_ = Inr ?s")
    and t1: "tables_ok m1 (cr3 s)"
    and F1: "f1 = (if ld32 (memory s) (entry_at (cr3 s) ?i) = 0 then f else frames s)"
    and D1: "\<forall>i < 1023. ld32 m1 (entry_at (cr3 s) i) =
      (if i = ?i \<and> ld32 (memory s) (entry_at (cr3 s) i) = 0 then ucast p OR 3 else ld32 (memory s) (entry_at (cr3 s) i))"
    and w1: "\<forall>w u. ARCH_GET_PD_IDX u \<noteq> 1023 \<longrightarrow> walk m1 (cr3 s) w u =
        (if frame_of u = frame_of (ucast a) then if usable w x then Some (frame_of x + (u AND 0xFFF)) else None
         else walk (memory s) (cr3 s) w u)"
    by (rule exE [OF map_step [OF ok v, of new_frame p f b c, folded x_def]], erule fr, elim exE conjE) (rule that)
  have ok1: "machine_ok ?s" using ok t1 by (simp add: machine_ok_def)
  have use: "used f1 e" if "used (frames s) e" for e
    using F1 f that by (cases "has_table s ?i") (auto simp: has_table_def)
  have entry: "ld32 m1 (entry_at (cr3 s) i) = ld32 (memory s) (entry_at (cr3 s) i)
      \<or> ld32 m1 (entry_at (cr3 s) i) = ucast p OR 3 \<and> f1 = f \<and> \<not> has_table s ?i \<and> frame_of (ucast p OR 3) = ucast p"
    if "i < 1023" for i
    using D1 that F1 f by (cases "has_table s ?i") (auto simp: has_table_def or_flags)
  have "paging_inv used ?s"
    unfolding paging_inv_def
  proof (intro conjI ok1 allI impI)
    fix i :: u32 assume "i < 1023" "ld32 (memory ?s) (entry_at (cr3 ?s) i) \<noteq> 0"
    then show "used (frames ?s) (frame_of (ld32 (memory ?s) (entry_at (cr3 ?s) i)))"
      using entry [of i] inv use f by (auto simp: paging_inv_def)
  qed (use inv use in \<open>simp add: paging_inv_def\<close>)
  moreover have tab: "table_frame s e \<or> e = ucast p \<and> \<not> has_table s ?i" if "table_frame ?s e" for e
    using that entry by (fastforce simp: table_frame_def)
  have keep: "data_page used ?s e" if "data_page used s e" for e
    using that use tab [of e] f by (auto simp: data_page_def)
  moreover have "memory ?s y = memory s y" if "data_page used s (frame_of y)" for y
    by (rule map_memory [OF ok v _ s1], erule fr) (use keep [OF that] in \<open>simp add: data_page_def\<close>)
  moreover have "ready n f1"
    using F1 f r by (auto simp: has_table_def split: if_splits)
  moreover have "has_table ?s i \<longleftrightarrow> has_table s i \<or> i = ?i" if "i < 1023" for i
    using D1 that by (auto simp: has_table_def or_3_nonzero)
  moreover have "translate ?s w u = walk m1 (cr3 s) w u" "translate s w u = walk (memory s) (cr3 s) w u" for w u
    using translate_ok [OF ok1] translate_ok [OF ok] by simp_all
  ultimately show ?thesis using s1 w1 use by auto
qed

lemma map_keeps:
  fixes a b c :: u64
  assumes inv: "paging_inv used s" and r: "ready (Suc n) (frames s)" and v: "ARCH_GET_PD_IDX (ucast a) \<noteq> 1023"
  defines "x \<equiv> (ucast b :: u32) OR ucast ((ucast c :: u16) AND PG_FLAG_MASK)"
  shows "\<exists>s'. Mmu32Nopae_map new_frame a b c s = Inr s' \<and> paging_inv used s' \<and> ready n (frames s')
    \<and> (\<forall>w u. ARCH_GET_PD_IDX u \<noteq> 1023 \<longrightarrow> translate s' w u =
        (if frame_of u = frame_of (ucast a) then if usable w x then Some (frame_of x + (u AND 0xFFF)) else None
         else translate s w u))
    \<and> (\<forall>e. used (frames s) e \<longrightarrow> used (frames s') e) \<and> (\<forall>e. data_page used s e \<longrightarrow> data_page used s' e)
    \<and> (\<forall>y. data_page used s (frame_of y) \<longrightarrow> memory s' y = memory s y) \<and> cr0 s' = cr0 s"
proof -
  have "ready (if has_table s (ARCH_GET_PD_IDX (ucast a)) then n else Suc n) (frames s)"
    using r ready_Suc by simp
  from map_counts [OF inv v this, of b c] show ?thesis unfolding x_def by blast
qed

end

text \<open>The same for the invariant of paging.\<close>

lemma off_tables_inv:
  assumes inv: "paging_inv used s" and m': "\<And>x. table_frame s (frame_of x) \<Longrightarrow> m' x = memory s x"
  shows "paging_inv used (s\<lparr>memory := m'\<rparr>)" "data_page used (s\<lparr>memory := m'\<rparr>) = data_page used s"
proof -
  have ok: "machine_ok s" using inv by (simp add: paging_inv_def)
  note off = off_tables [OF ok m']
  show "paging_inv used (s\<lparr>memory := m'\<rparr>)"
    using inv off(2) unfolding paging_inv_def by (simp add: off(1) small_index)
  show "data_page used (s\<lparr>memory := m'\<rparr>) = data_page used s"
    by (simp add: data_page_def fun_eq_iff off(4))
qed

lemma ident_entries_frame:
  assumes "aligned pt" "frame_of x \<noteq> pt" "n \<le> 1024" shows "ident_entries pt n m x = m x"
  using assms(3)
proof (induction n)
  case (Suc n)
  moreover from this have "unat (of_nat n :: u32) < 1024" by (simp add: unat_of_nat)
  ultimately show ?case using assms(1,2) by (simp add: ident_entries_Suc st32_entry_frame)
qed (simp add: ident_entries_def)

lemma first_tables_frame:
  assumes "aligned pd" "aligned pt" "frame_of x \<noteq> pd" "frame_of x \<noteq> pt" shows "first_tables pd pt m x = m x"
  using assms by (simp add: first_tables_def st32_entry_frame fill_page_frame ident_entries_frame)

end
