(* ===== verification/Regions.thy ===== *)
theory Regions
  imports VirtMem
begin

text \<open>
  Regions of pages: how far an address lies in a region, and what a run of \<open>map\<close>s on consecutive pages does to the
  machine. The loader's and the kernel's loops share these facts.
\<close>

section \<open>Pages of a region\<close>

lemma or_page_flags:
  fixes b :: u32 and c :: u16
  assumes "aligned b"
  shows "frame_of (b OR ucast (c AND PG_FLAG_MASK)) = b"
    and "usable w (b OR ucast (c AND PG_FLAG_MASK)) \<longleftrightarrow> bit c 0 \<and> (w \<longrightarrow> bit c 1)"
proof -
  have low: "\<not> bit b k" if "k < 12" for k
  proof
    assume "bit b k"
    have "b AND mask 12 = 0" using assms by (simp add: aligned_def masks)
    then have "bit (b AND mask 12) k = bit (0 :: u32) k" by (rule arg_cong)
    with that \<open>bit b k\<close> show False by (simp only: bit_and_iff bit_mask_iff bit_0_eq bot_apply) simp
  qed
  have PG: "(0x11F :: u16) = mask 5 OR push_bit 8 1" by (simp add: mask_eq_exp_minus_1)
  have pg: "bit PG_FLAG_MASK k \<longleftrightarrow> k < 5 \<or> k = 8" for k
    unfolding PG_FLAG_MASK_def PG bit_or_iff bit_mask_iff bit_push_bit_iff bit_1_iff by auto
  show "frame_of (b OR ucast (c AND PG_FLAG_MASK)) = b"
  proof (rule bit_word_eqI)
    fix n assume "n < LENGTH(32)"
    then show "bit (frame_of (b OR ucast (c AND PG_FLAG_MASK))) n = bit b n"
      using low [of n] unfolding frame_of_def bit_and_iff bit_or_iff bit_ucast_iff page_mask_bit pg
      by (auto simp: not_less [symmetric])
  qed
  show "usable w (b OR ucast (c AND PG_FLAG_MASK)) \<longleftrightarrow> bit c 0 \<and> (w \<longrightarrow> bit c 1)"
    using low [of 0] low [of 1] by (simp add: usable_def bit_or_iff bit_and_iff bit_ucast_iff pg)
qed

text \<open>The number of the page of \<open>u\<close> in a region that starts at the aligned address \<open>v\<close>.\<close>

definition page_in :: "u32 \<Rightarrow> u32 \<Rightarrow> nat" where
  "page_in v u = unat (u - v) div 4096"

lemma region_start:
  assumes "aligned v" "unat v + 4096 * n < 2 ^ 32"
  shows "unat (v + of_nat (4096 * n)) = unat v + 4096 * n" "aligned (v + of_nat (4096 * n))"
proof -
  have "v + of_nat (4096 * n) = of_nat (unat v + 4096 * n)" by simp
  then show u: "unat (v + of_nat (4096 * n)) = unat v + 4096 * n"
    using assms(2) by (simp only:) (rule unat_of_nat_small, simp)
  show "aligned (v + of_nat (4096 * n))" using assms(1) by (simp only: aligned_iff u) simp
qed

lemma region_page:
  assumes "aligned v" "unat v + 4096 * n < 2 ^ 32"
  shows "frame_of u = v + of_nat (4096 * n) \<longleftrightarrow> page_in v u = n"
proof
  note a = region_start [OF assms]
  assume eq: "frame_of u = v + of_nat (4096 * n)"
  define k where "k = unat u mod 4096"
  have "unat u = unat v + 4096 * n + k"
    using arg_cong [OF eq, of unat] unfolding a(1) frame_of_unat k_def
    using mod_less_eq_dividend [of "unat u" 4096] by linarith
  moreover have "k < 4096" by (simp add: k_def)
  ultimately have "unat (u - v) = 4096 * n + k" by (subst unat_sub) (simp_all add: word_le_nat_alt)
  with \<open>k < 4096\<close> show "page_in v u = n" by (simp add: page_in_def)
next
  note a = region_start [OF assms]
  define k where "k = unat (u - v) mod 4096"
  assume "page_in v u = n"
  then have "unat (u - v) = 4096 * n + k" by (auto simp: page_in_def k_def)
  moreover have "u - v = of_nat (unat (u - v))" by simp
  ultimately have "u - v = of_nat (4096 * n + k)" by (simp only:)
  then have "u = v + of_nat (4096 * n) + of_nat k" by (simp add: algebra_simps)
  moreover have "k < 4096" by (simp add: k_def)
  ultimately show "frame_of u = v + of_nat (4096 * n)" using frame_of_offset [OF a(2)] by simp
qed

lemma in_page:
  assumes "aligned v" "unat v + 4096 * n \<le> 2 ^ 32" "i < 4096 * n"
  shows "page_in v (v + of_nat i) = i div 4096" "v + of_nat i AND 0xFFF = of_nat (i mod 4096)"
    "unat (v + of_nat i) = unat v + i"
proof -
  have i: "unat (of_nat i :: u32) = i" using assms by (intro unat_of_nat_small) simp
  then show "page_in v (v + of_nat i) = i div 4096" by (simp add: page_in_def)
  show u: "unat (v + of_nat i) = unat v + i" using assms by (subst unat_word_ariths) (simp add: i)
  have "unat (of_nat (i mod 4096) :: u32) = i mod 4096" by (intro unat_of_nat_small less_trans [OF mod_less_divisor]) simp_all
  then show "v + of_nat i AND 0xFFF = of_nat (i mod 4096)"
    using assms(1) by (simp only: word_unat_eq_iff unat_indices u aligned_iff) (simp add: mod_add_left_eq [symmetric])
qed

text \<open>From \<open>s\<close> to \<open>s'\<close> the \<open>n\<close> pages from \<open>v\<close> on were mapped to the frames \<open>q\<close>, and nothing else changed.\<close>

definition maps_pages ::
    "('f \<Rightarrow> u32 \<Rightarrow> bool) \<Rightarrow> 'f machine \<Rightarrow> 'f machine \<Rightarrow> u32 \<Rightarrow> nat \<Rightarrow> (nat \<Rightarrow> u32) \<Rightarrow> (bool \<Rightarrow> bool) \<Rightarrow> bool" where
  "maps_pages used s s' v n q ok \<longleftrightarrow> paging_inv used s' \<and> cr0 s' = cr0 s
    \<and> (\<forall>w u. ARCH_GET_PD_IDX u \<noteq> 1023 \<longrightarrow> translate s' w u =
         (if page_in v u < n then if ok w then Some (q (page_in v u) + (u AND 0xFFF)) else None else translate s w u))
    \<and> (\<forall>e. used (frames s) e \<longrightarrow> used (frames s') e)
    \<and> (\<forall>e. data_page used s e \<longrightarrow> data_page used s' e)
    \<and> (\<forall>y. data_page used s (frame_of y) \<longrightarrow> memory s' y = memory s y)"

lemma maps_none: "paging_inv used s \<Longrightarrow> maps_pages used s s v 0 q ok"
  by (simp add: maps_pages_def)

lemma maps_cong:
  assumes "maps_pages used s s' v n q ok" "\<And>i. i < n \<Longrightarrow> q' i = q i" shows "maps_pages used s s' v n q' ok"
proof -
  have "(if page_in v u < n then if ok w then Some (q' (page_in v u) + x) else None else y) =
      (if page_in v u < n then if ok w then Some (q (page_in v u) + x) else None else y)" for u w x y
    using assms(2) by simp
  then show ?thesis using assms(1) unfolding maps_pages_def by simp
qed

text \<open>One more page at the end of a region.\<close>

lemma maps_more:
  assumes s1: "maps_pages used s s1 v n q ok" and s2: "maps_pages used s1 s2 (v + of_nat (4096 * n)) 1 (\<lambda>_. q n) ok"
    and v: "aligned v" "unat v + 4096 * n < 2 ^ 32"
  shows "maps_pages used s s2 v (Suc n) q ok"
proof -
  note a = region_start [OF v]
  have "page_in (v + of_nat (4096 * n)) u < 1 \<longleftrightarrow> page_in v u = n" for u
    using region_page [OF a(2), of 0 u] region_page [OF v, of u] unat_u32 [of "v + of_nat (4096 * n)"] by simp
  then have "translate s2 w u = (if page_in v u < Suc n then if ok w then Some (q (page_in v u) + (u AND 0xFFF)) else None else translate s w u)"
    if "ARCH_GET_PD_IDX u \<noteq> 1023" for w u
    using s1 s2 that unfolding maps_pages_def by (simp add: less_Suc_eq)
  then show ?thesis using s1 s2 unfolding maps_pages_def by (simp del: of_nat_mult)
qed

lemma ucast_wide: "(ucast (ucast v :: u64) :: u32) = v"
  by (rule bit_word_eqI) (simp add: bit_ucast_iff)

lemma pd_index_below: "unat v < 0xFFC00000 \<Longrightarrow> ARCH_GET_PD_IDX v \<noteq> 1023"
  using unat_indices(1) [of v] by (auto simp: word_unat_eq_iff)

lemma ucast_add: "(ucast (p + q :: u64) :: u32) = ucast p + ucast q" "(ucast (of_nat k :: u64) :: u32) = of_nat k"
proof -
  have u: "unat (ucast (x :: u64) :: u32) = unat x mod 2 ^ 32" for x
    by (simp add: unsigned_ucast_eq take_bit_eq_mod)
  have l: "LENGTH(64) = 64" by simp
  have d: "x mod 2 ^ 64 mod 2 ^ 32 = x mod 2 ^ 32" for x :: nat by (rule mod_mod_cancel) (simp add: le_imp_power_dvd)
  have "unat (p + q) mod 2 ^ 32 = (unat p + unat q) mod 2 ^ 32" unfolding unat_word_ariths by (simp only: l d)
  then show "(ucast (p + q :: u64) :: u32) = ucast p + ucast q"
    by (simp add: word_unat_eq_iff u unat_word_ariths mod_add_eq)
  have "unat (of_nat k :: u64) mod 2 ^ 32 = k mod 2 ^ 32" unfolding unat_of_nat by (simp only: l d)
  then show "(ucast (of_nat k :: u64) :: u32) = of_nat k" by (simp add: word_unat_eq_iff u unat_of_nat)
qed

lemma aligned_add:
  assumes "aligned b" shows "aligned (b + of_nat (4096 * n))"
proof -
  have d: "x mod 2 ^ 32 mod 4096 = x mod 4096" for x :: nat by (rule mod_mod_cancel) simp
  have "unat (b + of_nat (4096 * n)) = (unat b + 4096 * n) mod 2 ^ 32"
    unfolding unat_word_ariths unat_of_nat by (simp add: mod_add_right_eq)
  then have "unat (b + of_nat (4096 * n)) mod 4096 = (unat b + 4096 * n) mod 4096" by (simp only: d)
  then show ?thesis using assms by (simp add: aligned_iff)
qed

section \<open>One page\<close>

context frame_source
begin

lemma map_page:
  fixes p flags :: u64
  assumes inv: "paging_inv used s" and v: "aligned v" "ARCH_GET_PD_IDX v \<noteq> 1023" and p: "aligned (ucast p)"
    and r: "ready (if has_table s (ARCH_GET_PD_IDX v) then n else Suc n) (frames s)"
  shows "\<exists>s'. Mmu32Nopae_map new_frame (ucast v) p flags s = Inr s' \<and> ready n (frames s')
    \<and> maps_pages used s s' v 1 (\<lambda>_. ucast p) (\<lambda>w. bit flags 0 \<and> (w \<longrightarrow> bit flags 1))
    \<and> (\<forall>i < 1023. has_table s' i \<longleftrightarrow> has_table s i \<or> i = ARCH_GET_PD_IDX v)"
proof -
  have pg: "frame_of y = v \<longleftrightarrow> page_in v y < 1" for y
    using region_page [OF v(1), of 0 y] unat_u32 [of v] by simp
  have fl: "bit (ucast flags :: u16) 0 = bit flags 0" "bit (ucast flags :: u16) 1 = bit flags 1"
    by (simp_all add: bit_ucast_iff)
  show ?thesis
    using map_counts [OF inv, of "ucast v" n p flags, unfolded ucast_wide, OF v(2) r]
    unfolding maps_pages_def or_page_flags [OF p] frame_of_aligned [OF v(1)] pg fl by blast
qed

end

end
