(* ===== verification/KernelPaging.thy ===== *)
theory KernelPaging
  imports Regions
begin

text \<open>
  \<open>arch/x86/32/mmu.cc\<close>: the kernel's \<open>map\<close> has the body of the loader's, but takes the frame of
  a new page table from the allocator in charge: \<open>allocate_single\<close> into a buffer on the stack, then
  \<open>page_to_physical\<close> of the buffer.
\<close>

section \<open>Operations\<close>

text \<open>
  \<open>buf\<close> is the address of the buffer. The boot allocator keeps a \<open>bafree_t\<close> in it, the list
  allocator uses it as a list node; its bytes on the stack are not part of the memory of the model.
\<close>

definition kernel_frame :: "addr \<Rightarrow> mem \<times> pmm \<Rightarrow> kerror + (phys_t \<times> mem \<times> pmm)" where
  "kernel_frame buf = (\<lambda>(m, f). bind_res (get_allocator f) (\<lambda>c. case c of
      BootAllocator \<Rightarrow> bind_res (BootAllocator_allocate_single \<lparr>ba_addr = 0, ba_pages = 0\<rparr> (pm_boot f))
        (\<lambda>(n, p, b). Inr (BootAllocator_page_to_physical p, m, f\<lparr>pm_boot := b\<rparr>))
    | PmmNode \<Rightarrow> bind_res (PmmNode_allocate_single buf (pm_node f)) (\<lambda>(n, p, t).
        bind_res (PmmNode_page_to_physical buf t) (\<lambda>a. Inr (a, m, f\<lparr>pm_node := t\<rparr>)))
    | PhysicalAllocator \<Rightarrow> Inr (PhysicalAllocator_page_to_physical buf, m, f)))"

definition kernel_map :: "addr \<Rightarrow> u64 \<Rightarrow> u64 \<Rightarrow> u64 \<Rightarrow> pmm machine \<Rightarrow> kerror + pmm machine" where
  "kernel_map buf = Mmu32Nopae_map (kernel_frame buf)"

section \<open>With the boot allocator\<close>

definition boot_in_use :: "pmm \<Rightarrow> u32 \<Rightarrow> bool" where
  "boot_in_use f b \<longleftrightarrow> page_no b \<in> boot_used (pm_boot f)"

definition boot_ready :: "nat \<Rightarrow> pmm \<Rightarrow> bool" where
  "boot_ready n f \<longleftrightarrow> pm_allocator f = Some BootAllocator \<and> boot_inv (pm_boot f)
    \<and> unat (bm_bit_count (alloc_map (pm_boot f))) \<le> 2 ^ 20
    \<and> n \<le> card (boot_managed (pm_boot f) - boot_used (pm_boot f))"

lemma page_frame:
  assumes "k < 2 ^ 20"
  shows "aligned (ucast (of_nat (k * 4096) :: u64))" "page_no (ucast (of_nat (k * 4096) :: u64)) = k"
proof -
  have "unat (of_nat (k * 4096) :: u64) = k * 4096" using assms by (intro unat_of_nat_small) simp
  then have "unat (ucast (of_nat (k * 4096) :: u64) :: u32) = k * 4096"
    unfolding unsigned_ucast_eq using assms by (simp add: take_bit_nat_eq_self)
  then show "aligned (ucast (of_nat (k * 4096) :: u64))" "page_no (ucast (of_nat (k * 4096) :: u64)) = k"
    unfolding aligned_iff page_no_def by simp_all
qed

lemma boot_frame_low:
  assumes "boot_ready (Suc n) f"
  shows "\<exists>p f'. kernel_frame buf (m, f) = Inr (p, m, f') \<and> boot_ready n f' \<and> ucast (ucast p :: u32) = p
      \<and> aligned (ucast p) \<and> \<not> boot_in_use f (ucast p) \<and> boot_in_use f' (ucast p)
      \<and> (\<forall>b. boot_in_use f b \<longrightarrow> boot_in_use f' b)"
proof -
  let ?b = "pm_boot f" and ?p = "\<lparr>ba_addr = 0, ba_pages = 0\<rparr>"
  have r: "pm_allocator f = Some BootAllocator" "boot_inv ?b" "unat (bm_bit_count (alloc_map ?b)) \<le> 2 ^ 20"
      "Suc n \<le> card (boot_managed ?b - boot_used ?b)"
    using assms by (simp_all add: boot_ready_def)
  from r(2) obtain k b where t: "BootAllocator_allocate_single ?p ?b =
        Inr (1, ?p\<lparr>ba_addr := of_nat (k * 4096)\<rparr>, b)"
      "k < unat (bm_bit_count (alloc_map ?b))" "k \<notin> boot_used ?b" "boot_used b = insert k (boot_used ?b)"
      "bm_bit_count (alloc_map b) = bm_bit_count (alloc_map ?b)" "boot_inv b"
  proof (cases rule: allocate_single_cases [where p = ?p])
    case (taken k x)
    then obtain b where "x = (1, ?p\<lparr>ba_addr := of_nat (k * 4096)\<rparr>, b)" by (auto simp: takes_page_def)
    with taken takes_page_inv(1) [OF r(2), of k ?p] show thesis
      by (intro that [of k b]) (auto simp: takes_page_def)
  next
    case panic
    then have "boot_managed ?b - boot_used ?b = {}" using r(2) by (auto simp: boot_managed_def boot_inv_def)
    with r(4) show thesis by simp
  qed
  let ?f = "f\<lparr>pm_boot := b\<rparr>"
  have "boot_managed b - boot_used b = (boot_managed ?b - boot_used ?b) - {k}"
    using t by (auto simp: boot_managed_def)
  moreover have "k \<in> boot_managed ?b - boot_used ?b" using t by (simp add: boot_managed_def)
  moreover have "finite (boot_managed ?b - boot_used ?b)" by (simp add: boot_managed_def)
  ultimately have "n \<le> card (boot_managed b - boot_used b)" using r(4) by simp
  then have "boot_ready n ?f" using r t by (simp add: boot_ready_def)
  moreover have k: "k < 2 ^ 20" using t(2) r(3) by linarith
  moreover have "kernel_frame buf (m, f) = Inr (of_nat (k * 4096), m, ?f)"
    using r(1) t(1) by (simp add: kernel_frame_def get_allocator_def BootAllocator_page_to_physical_def)
  moreover have "ucast (ucast (of_nat (k * 4096) :: u64) :: u32) = (of_nat (k * 4096) :: u64)"
    using k by (intro low_word) (simp add: unat_of_nat_small del: of_nat_mult)
  ultimately show ?thesis
    using page_frame [OF k] t(3,4) by (intro exI conjI) (auto simp: boot_in_use_def simp del: of_nat_mult)
qed

lemma boot_frame:
  assumes "boot_ready (Suc n) f"
  shows "\<exists>p f'. kernel_frame buf (m, f) = Inr (p, m, f') \<and> boot_ready n f'
      \<and> aligned (ucast p) \<and> \<not> boot_in_use f (ucast p) \<and> boot_in_use f' (ucast p)
      \<and> (\<forall>b. boot_in_use f b \<longrightarrow> boot_in_use f' b)"
  using boot_frame_low [OF assms] by blast

interpretation kernel_boot: frame_source "kernel_frame buf" boot_in_use boot_ready for buf
proof
  fix n f m assume r: "boot_ready (Suc n) f"
  show "\<exists>p f'. kernel_frame buf (m, f) = Inr (p, m, f') \<and> boot_ready n f'
      \<and> aligned (ucast p) \<and> \<not> boot_in_use f (ucast p) \<and> boot_in_use f' (ucast p)
      \<and> (\<forall>b. boot_in_use f b \<longrightarrow> boot_in_use f' b)"
    by (rule boot_frame [OF r])
  show "boot_ready n f" using r by (simp add: boot_ready_def)
qed

text \<open>With the boot allocator in charge the kernel's \<open>map\<close> translates the page of \<open>virt\<close> to the given
  frame, every other page as before, and keeps its tables in pages the allocator has in use.\<close>

theorem kernel_map_correct:
  fixes a b c :: u64
  assumes inv: "paging_inv boot_in_use s" and r: "boot_ready (Suc n) (frames s)"
    and v: "ARCH_GET_PD_IDX (ucast a) \<noteq> 1023"
  defines "x \<equiv> (ucast b :: u32) OR ucast ((ucast c :: u16) AND PG_FLAG_MASK)"
  shows "\<exists>s'. kernel_map buf a b c s = Inr s' \<and> paging_inv boot_in_use s' \<and> boot_ready n (frames s')
    \<and> (\<forall>w u. ARCH_GET_PD_IDX u \<noteq> 1023 \<longrightarrow> translate s' w u =
        (if frame_of u = frame_of (ucast a) then if usable w x then Some (frame_of x + (u AND 0xFFF)) else None
         else translate s w u))"
  unfolding kernel_map_def x_def by (rule kernel_boot.map_correct [OF inv r v])

section \<open>With the list allocator\<close>

lemma node_frame_0:
  assumes "pm_allocator f = Some PmmNode" "pool (pm_node f) (a # A) F" "F a \<noteq> []"
    and "buf \<notin> set (footprint (pm_node f) (a # A))" "buf \<noteq> NULL"
    and "\<forall>b \<in> set (a # A). \<not> PAGE_IS_IN_ARENA buf (narenas (pm_node f) b)"
  shows "\<exists>f'. kernel_frame buf (m, f) = Inr (0, m, f')"
proof -
  obtain n p t where t: "PmmNode_allocate buf 1 (pm_node f) = Inr (n, p, t)" "pool t (a # A) (F(a := drop 1 (F a)))"
      "geometry t = geometry (pm_node f)"
    using PmmNode_allocate_result [OF assms(2,4,5) _ assms(3), of 1 1] assms(3) by (auto simp: Suc_le_eq min_def)
  have "\<forall>b \<in> set (a # A). \<not> PAGE_IS_IN_ARENA buf (narenas t b)"
    using assms(6) by (simp add: PAGE_IS_IN_ARENA_def geometry_cong(5,7) [OF t(3)])
  then have "find_arena t buf (lnext (nheap t (arena_list t))) = Some NULL"
    by (rule find_arena_none [OF poolD(2) [OF t(2)]])
  then show ?thesis
    using assms(1) t(1)
    by (simp add: kernel_frame_def get_allocator_def PmmNode_allocate_single_def PmmNode_page_to_physical_def)
qed

text \<open>C18. With the list allocator in charge \<open>page_to_physical\<close> is given the buffer, which is no page of an
  arena, and answers 0: whatever page was taken, the new page table is physical page 0.\<close>

theorem kernel_map_table_0:
  assumes ok: "machine_ok s" and v: "ARCH_GET_PD_IDX (ucast a) \<noteq> 1023"
    and z: "ld32 (memory s) (entry_at (cr3 s) (ARCH_GET_PD_IDX (ucast a))) = 0"
    and first: "fresh_frame (memory s) (cr3 s) 0"
    and c: "pm_allocator (frames s) = Some PmmNode" and p: "pool (pm_node (frames s)) (h # A) F" "F h \<noteq> []"
    and buf: "buf \<notin> set (footprint (pm_node (frames s)) (h # A))" "buf \<noteq> NULL"
      "\<forall>x \<in> set (h # A). \<not> PAGE_IS_IN_ARENA buf (narenas (pm_node (frames s)) x)"
  shows "\<exists>s'. kernel_map buf a b d s = Inr s' \<and> cr3 s' = cr3 s
    \<and> ld32 (memory s') (entry_at (cr3 s) (ARCH_GET_PD_IDX (ucast a))) = 0 OR (PDE_RW OR PDE_PR)"
proof -
  obtain f where "kernel_frame buf (memory s, frames s) = Inr (0, memory s, f)"
    using node_frame_0 [OF c p buf] by blast
  then have fr: "kernel_frame buf (memory s, frames s) = Inr (0, memory s, f)
      \<and> fresh_frame (memory s) (cr3 s) (ucast (0 :: u64))"
    using first by simp
  have "ARCH_GET_PD_IDX (ucast a) < 1023"
    using index_bounds(1) [of "ucast a"] v by (simp add: word_less_nat_alt word_unat_eq_iff)
  then show ?thesis
    using map_step [OF ok v, of "kernel_frame buf" 0 f b d, OF fr] z
    by (fastforce simp: kernel_map_def PDE_RW_def PDE_PR_def)
qed

section \<open>Witnesses\<close>

definition kernel_demo :: "allocator_class \<Rightarrow> pmm machine" where
  "kernel_demo c = \<lparr>memory = st32 (entry_at 0x1000 1023) (0x1000 OR 3) (\<lambda>_. 0), cr0 = CR0_PG, cr3 = 0x1000, cr4 = 0,
     page_dir_addr = 0xFFFFF000, frames = \<lparr>pm_allocator = Some c, pm_boot = boot_example, pm_node = pmm_example\<rparr>\<rparr>"

lemma kernel_demo_entry:
  assumes "i < 1023" shows "ld32 (memory (kernel_demo c)) (entry_at 0x1000 i) = 0"
proof -
  have "aligned 0x1000" by (simp add: aligned_def)
  then have "ld32 (memory (kernel_demo c)) (entry_at 0x1000 i) = ld32 (\<lambda>_. 0) (entry_at 0x1000 i)"
    unfolding kernel_demo_def using assms by (simp add: ld32_entry_other small_index)
  then show ?thesis by (simp add: ld32_def)
qed

lemma kernel_demo_ok: "machine_ok (kernel_demo c)"
proof -
  have "CR0_PG AND CR0_PG \<noteq> 0" by (simp add: CR0_PG_def)
  then show ?thesis
    using kernel_demo_entry [of _ c]
    by (simp add: machine_ok_def tables_ok_def kernel_demo_def aligned_def)
qed

lemma kernel_demo_fields [simp]:
  "cr3 (kernel_demo c) = 0x1000" "pm_allocator (frames (kernel_demo c)) = Some c"
  "pm_boot (frames (kernel_demo c)) = boot_example" "pm_node (frames (kernel_demo c)) = pmm_example"
  by (simp_all add: kernel_demo_def)

theorem kernel_map_correct_witness:
  "\<exists>s'. kernel_map 0x9000 0xE0000000 0x5000 3 (kernel_demo BootAllocator) = Inr s'
    \<and> translate s' True 0xE0000123 = Some 0x5123"
proof -
  have inv: "paging_inv boot_in_use (kernel_demo BootAllocator)"
    using kernel_demo_ok [of BootAllocator] kernel_demo_entry [of _ BootAllocator] boot_example_used [of 1]
    by (simp add: paging_inv_def boot_in_use_def page_no_def)
  have r: "boot_ready (Suc 0) (frames (kernel_demo BootAllocator))"
    using boot_example_inv boot_example_free by (simp add: boot_ready_def boot_managed_def boot_example_def)
  have i: "ARCH_GET_PD_IDX 0xE0000123 \<noteq> 1023" "ARCH_GET_PD_IDX (ucast (0xE0000000 :: u64)) \<noteq> 1023"
    by (simp_all add: ARCH_GET_PD_IDX_def)
  have fr: "frame_of 0xE0000123 = frame_of (ucast (0xE0000000 :: u64))"
      "frame_of ((ucast (0x5000 :: u64) :: u32) OR ucast ((ucast (3 :: u64) :: u16) AND PG_FLAG_MASK)) = 0x5000"
      "usable True ((ucast (0x5000 :: u64) :: u32) OR ucast ((ucast (3 :: u64) :: u16) AND PG_FLAG_MASK))"
    by (simp_all add: frame_of_def usable_def PG_FLAG_MASK_def ARCH_PAGE_MASK_def ARCH_PAGE_SIZE_def ARCH_PAGE_SHIFT_def)
  from kernel_map_correct [OF inv r i(2), of "0x9000" "0x5000" 3] i fr show ?thesis by fastforce
qed

theorem kernel_map_table_0_witness:
  "\<exists>s'. kernel_map 0x9000 0xE0000000 0x5000 3 (kernel_demo PmmNode) = Inr s' \<and> ld32 (memory s') (entry_at 0x1000 896) = 3"
proof -
  have d: "ARCH_GET_PD_IDX (ucast (0xE0000000 :: u64)) = 896" "ARCH_GET_PD_IDX 0xE0000000 = 896"
    by (simp_all add: ARCH_GET_PD_IDX_def)
  have "fresh_frame (memory (kernel_demo PmmNode)) 0x1000 0"
    using kernel_demo_entry [of _ PmmNode] by (simp add: fresh_frame_def aligned_def)
  moreover have "\<not> PAGE_IS_IN_ARENA 0x9000 (narenas pmm_example 0x1000)"
    by (simp add: PAGE_IS_IN_ARENA_def pmm_example_def sizeof_page_def)
  ultimately have "\<exists>s'. kernel_map 0x9000 0xE0000000 0x5000 3 (kernel_demo PmmNode) = Inr s'
      \<and> cr3 s' = cr3 (kernel_demo PmmNode)
      \<and> ld32 (memory s') (entry_at (cr3 (kernel_demo PmmNode)) (ARCH_GET_PD_IDX (ucast (0xE0000000 :: u64)))) = 0 OR (PDE_RW OR PDE_PR)"
    using kernel_demo_entry [of 896 PmmNode] example_pool example_stack
    by (intro kernel_map_table_0 [OF kernel_demo_ok, where h = "0x1000" and A = "[]" and F = "\<lambda>_. [0x2000, 0x2010, 0x2020]"])
      (simp_all add: d)
  then show ?thesis by (auto simp: d PDE_RW_def PDE_PR_def)
qed

end
