(* ===== verification/Kmalloc.thy ===== *)
theory Kmalloc
  imports KernelPaging
begin

text \<open>
  \<open>platform::init\<close> (\<open>platform/pc/platform.cc\<close>): the memory map the boot loader left gives the size of memory,
  and the available areas are mapped one after the other, without their holes, from \<open>ARCH_KMALLOC_BASE\<close> on.
\<close>

section \<open>The loops over the memory map\<close>

text \<open>
  \<open>ARCH_FOREACH_MMAP\<close> with paging on: the entries are read through the page tables, which the body may
  change. The body says whether it leaves the loop.
\<close>

partial_function (option) foreach_entry ::
    "(addr \<Rightarrow> 'a \<times> 'f machine \<Rightarrow> kerror + (bool \<times> 'a \<times> 'f machine)) \<Rightarrow> addr \<Rightarrow> addr \<Rightarrow> 'a \<times> 'f machine
      \<Rightarrow> (kerror + ('a \<times> 'f machine)) option" where
  "foreach_entry body mp e st =
     (if \<not> mp < e then Some (Inr st)
      else case body mp st of
          Inl x \<Rightarrow> Some (Inl x)
        | Inr (stop, st) \<Rightarrow>
            if stop then Some (Inr st)
            else if \<not> readable (snd st) mp 4 then Some (Inl Page_fault)
            else foreach_entry body (mp + ld32 (view (snd st)) mp + 4) e st)"

definition run_entries ::
    "(addr \<Rightarrow> 'a \<times> 'f machine \<Rightarrow> kerror + (bool \<times> 'a \<times> 'f machine)) \<Rightarrow> multiboot_info \<Rightarrow> 'a \<times> 'f machine
      \<Rightarrow> kerror + ('a \<times> 'f machine)" where
  "run_entries body mbt st =
     bind_res (loop_res (foreach_entry body (mb_mmap_addr mbt) (mb_mmap_addr mbt + mb_mmap_length mbt) st)) id"

definition max_step :: "addr \<Rightarrow> phys_t \<times> 'f machine \<Rightarrow> kerror + (bool \<times> phys_t \<times> 'f machine)" where
  "max_step mp = (\<lambda>(mx, s).
     if \<not> readable s mp 24 then Inl Page_fault
     else let e = ld_mmap (view s) mp in Inr (False, MAX_of mx (mm_addr e + mm_len e), s))"

text \<open>The pages of one area; \<open>va\<close> is the length of the strip so far, \<open>mx\<close> the end of the highest page.\<close>

type_synonym strip = "(u32 \<times> phys_t) \<times> pmm machine"

function map_area :: "addr \<Rightarrow> phys_t \<Rightarrow> phys_t \<Rightarrow> strip \<Rightarrow> kerror + strip" where
  "map_area buf pa e ((va, mx), s) =
     (if pa < e \<and> va < ARCH_KMALLOC_LENGTH then
        bind_res (kernel_map buf (ucast va + ucast ARCH_KMALLOC_BASE) pa 0x3 s) (\<lambda>s.
          map_area buf (pa + ARCH_PAGE_SIZE) e ((va + ARCH_PAGE_SIZE, MAX_of (pa + ARCH_PAGE_SIZE) mx), s))
      else Inr ((va, mx), s))"
  by pat_completeness auto
termination
proof (relation "measure (\<lambda>(buf, pa, e, (va, mx), s). 0x20000000 - unat va)", goal_cases)
  case (2 buf pa e va mx s s')
  then have "unat va < 0x20000000" by (simp add: ARCH_KMALLOC_LENGTH_def word_less_nat_alt)
  moreover from this have "unat (va + 4096) = unat va + 4096" by (subst unat_word_ariths) simp
  ultimately show ?case by (simp add: page_size_val)
qed simp

definition strip_step :: "addr \<Rightarrow> bool \<Rightarrow> addr \<Rightarrow> strip \<Rightarrow> kerror + (bool \<times> strip)" where
  "strip_step buf pae mp = (\<lambda>((va, mx), s).
     if va \<ge> ARCH_KMALLOC_LENGTH then Inr (True, (va, mx), s)
     else if \<not> readable s mp 24 then Inl Page_fault
     else let e = ld_mmap (view s) mp in
       if \<not> pae \<and> mm_addr e \<ge> 0xFFFFFFFF then Inr (True, (va, mx), s)
       else if mm_type e = MULTIBOOT_MEMORY_AVAILABLE then
         bind_res (map_area buf (ARCH_PAGE_ALIGN (mm_addr e)) (ARCH_PAGE_ALIGN_DOWN (mm_addr e + mm_len e)) ((va, mx), s))
           (\<lambda>st. Inr (False, st))
       else Inr (False, (va, mx), s))"

text \<open>The result: the end of memory, the end of the highest page of the strip, and the machine.\<close>

definition platform_init :: "addr \<Rightarrow> bool \<Rightarrow> multiboot_info \<Rightarrow> phys_t \<times> pmm machine \<Rightarrow> kerror + (phys_t \<times> phys_t \<times> pmm machine)" where
  "platform_init buf pae mbt st =
     bind_res (run_entries max_step mbt st) (\<lambda>(max_mem, s).
     bind_res (run_entries (strip_step buf pae) mbt ((0, 0), s)) (\<lambda>((va, max_pa), s).
       Inr (max_mem, max_pa, s)))"

section \<open>The strip\<close>

text \<open>The pages the loop maps, in order.\<close>

definition area_frames :: "mmap_entry \<Rightarrow> u64 list" where
  "area_frames e = (if mm_type e = MULTIBOOT_MEMORY_AVAILABLE
     then map (\<lambda>i. of_nat (4096 * i)) [unat (area_start e) ..< unat (area_end e)] else [])"

definition taken :: "bool \<Rightarrow> mmap_entry list \<Rightarrow> u64 list" where
  "taken pae es = concat (map area_frames (seen_areas pae es))"

definition strip_frames :: "bool \<Rightarrow> mmap_entry list \<Rightarrow> u64 list" where
  "strip_frames pae es = take 0x20000 (taken pae es)"

definition top_of :: "u64 list \<Rightarrow> u64" where
  "top_of fs = fold (\<lambda>p mx. MAX_of (p + 4096) mx) fs 0"

lemma top_of_snoc: "top_of (fs @ [p]) = MAX_of (p + 4096) (top_of fs)"
  by (simp add: top_of_def)

definition tables_for :: "nat \<Rightarrow> nat" where
  "tables_for n = (n + 1023) div 1024"

lemma tables_for_Suc: "tables_for (Suc n) = (if n mod 1024 = 0 then Suc (tables_for n) else tables_for n)"
proof -
  have "Suc (n + 1023) = n + 1024" by simp
  then have "Suc (n + 1023) mod 1024 = n mod 1024" by (simp only: mod_add_self2)
  then show ?thesis unfolding tables_for_def by (simp only: add_Suc div_Suc)
qed

lemma tables_for_mono: "m \<le> n \<Longrightarrow> tables_for m \<le> tables_for n"
  unfolding tables_for_def by (intro div_le_mono) simp

text \<open>The boot allocator has \<open>n\<close> pages to give, and the list allocator is as \<open>t\<close>.\<close>

definition boot_stock :: "pmm_node \<Rightarrow> nat \<Rightarrow> pmm \<Rightarrow> bool" where
  "boot_stock t n f \<longleftrightarrow> boot_ready n f \<and> pm_node f = t"

lemma kernel_frame_node:
  "kernel_frame buf (m, f) = Inr (p, m', f') \<Longrightarrow> pm_allocator f = Some BootAllocator \<Longrightarrow> pm_node f' = pm_node f"
  by (auto simp: kernel_frame_def get_allocator_def bind_res_Inr_conv)

interpretation node_kept: frame_source "kernel_frame buf" boot_in_use "boot_stock t" for buf t
proof
  fix n f m assume "boot_stock t (Suc n) f"
  then have r: "boot_ready (Suc n) f" and t: "pm_node f = t" by (simp_all add: boot_stock_def)
  from kernel_boot.take [OF r, of buf m] obtain p f' where "kernel_frame buf (m, f) = Inr (p, m, f')" "boot_ready n f'"
      "aligned (ucast p)" "\<not> boot_in_use f (ucast p)" "boot_in_use f' (ucast p)" "\<forall>b. boot_in_use f b \<longrightarrow> boot_in_use f' b"
    by blast
  moreover from this have "pm_node f' = t" using r t kernel_frame_node by (simp add: boot_ready_def)
  ultimately show "\<exists>p f'. kernel_frame buf (m, f) = Inr (p, m, f') \<and> boot_stock t n f'
      \<and> aligned (ucast p) \<and> \<not> boot_in_use f (ucast p) \<and> boot_in_use f' (ucast p) \<and> (\<forall>b. boot_in_use f b \<longrightarrow> boot_in_use f' b)"
    by (auto simp: boot_stock_def)
  show "boot_stock t n f" using kernel_boot.ready_Suc [OF r] t by (simp add: boot_stock_def)
qed

text \<open>
  \<open>fs\<close> is mapped, \<open>n\<close> pages are still to come; the allocator can give their tables and \<open>c\<close> more pages.
\<close>

definition strip_inv :: "nat \<Rightarrow> nat \<Rightarrow> pmm machine \<Rightarrow> u64 list \<Rightarrow> strip \<Rightarrow> bool" where
  "strip_inv n c s0 fs = (\<lambda>((va, mx), s). length fs \<le> n \<and> va = of_nat (4096 * length fs) \<and> mx = top_of fs
     \<and> maps_pages boot_in_use s0 s 0xC0000000 (length fs) (\<lambda>i. ucast (fs ! i)) (\<lambda>w. True)
     \<and> boot_stock (pm_node (frames s0)) (tables_for n - tables_for (length fs) + c) (frames s)
     \<and> (\<forall>k. 1024 * k < length fs \<longrightarrow> has_table s (of_nat (768 + k))))"

lemma strip_page:
  assumes "n < 0x20000"
  shows "unat (0xC0000000 + of_nat (4096 * n) :: u32) = 0xC0000000 + 4096 * n"
    "aligned (0xC0000000 + of_nat (4096 * n))"
    "ARCH_GET_PD_IDX (0xC0000000 + of_nat (4096 * n)) = of_nat (768 + n div 1024)"
    "ucast (of_nat (4096 * n) :: u32) + ucast ARCH_KMALLOC_BASE = (ucast (0xC0000000 + of_nat (4096 * n) :: u32) :: u64)"
    "(of_nat (4096 * n) :: u32) < ARCH_KMALLOC_LENGTH"
proof -
  have al: "aligned 0xC0000000" by (simp add: aligned_def)
  have lim: "unat (0xC0000000 :: u32) + 4096 * n < 2 ^ 32" using assms by simp
  note a = region_start [OF al lim]
  then show u: "unat (0xC0000000 + of_nat (4096 * n) :: u32) = 0xC0000000 + 4096 * n" by simp
  show "aligned (0xC0000000 + of_nat (4096 * n))" by (rule a)
  have d: "(0xC0000000 + 4096 * n) div 4194304 = 768 + n div 1024"
  proof -
    have "(0xC0000000 + 4096 * n) div 4194304 = (786432 + n) * 4096 div (1024 * 4096)" by simp
    also have "\<dots> = (786432 + n) div 1024" by (rule div_mult_mult2) simp
    also have "\<dots> = 768 + n div 1024" by simp
    finally show ?thesis .
  qed
  have "unat (of_nat (768 + n div 1024) :: u32) = 768 + n div 1024"
    using assms by (intro unat_of_nat_small) simp
  then show "ARCH_GET_PD_IDX (0xC0000000 + of_nat (4096 * n)) = of_nat (768 + n div 1024)"
    unfolding word_unat_eq_iff unat_indices u d by simp
  have w: "unat (of_nat (4096 * n) :: u32) = 4096 * n" using assms by (intro unat_of_nat_small) simp
  then show "(of_nat (4096 * n) :: u32) < ARCH_KMALLOC_LENGTH"
    using assms by (simp add: ARCH_KMALLOC_LENGTH_def word_less_nat_alt del: of_nat_mult)
  have "unat (ucast (of_nat (4096 * n) :: u32) + ucast ARCH_KMALLOC_BASE :: u64) = 4096 * n + 0xC0000000"
    using assms w by (simp add: unat_word_ariths ARCH_KMALLOC_BASE_def unat_ucast_up del: of_nat_mult)
  moreover have "unat (ucast (0xC0000000 + of_nat (4096 * n) :: u32) :: u64) = 0xC0000000 + 4096 * n"
    using u by (simp add: unat_ucast_up del: of_nat_mult)
  ultimately show "ucast (of_nat (4096 * n) :: u32) + ucast ARCH_KMALLOC_BASE = (ucast (0xC0000000 + of_nat (4096 * n) :: u32) :: u64)"
    by (simp add: word_unat_eq_iff del: of_nat_mult)
qed

lemma boot_stock_less:
  assumes "boot_stock t n f" "m \<le> n" shows "boot_stock t m f"
  using assms by (simp add: boot_stock_def boot_ready_def)

lemma strip_inv_start:
  assumes "paging_inv boot_in_use s" "boot_ready (tables_for n + c) (frames s)"
  shows "strip_inv n c s [] ((0, 0), s)"
  using assms by (simp add: strip_inv_def top_of_def tables_for_def maps_none boot_stock_def)

text \<open>One page more.\<close>

lemma strip_more:
  assumes inv: "strip_inv n c s0 fs ((va, mx), s)" and n: "length fs < n" "n \<le> 0x20000" and p: "aligned (ucast p)"
  shows "\<exists>s'. kernel_map buf (ucast va + ucast ARCH_KMALLOC_BASE) p 0x3 s = Inr s'
    \<and> strip_inv n c s0 (fs @ [p]) ((va + ARCH_PAGE_SIZE, MAX_of (p + ARCH_PAGE_SIZE) mx), s')"
proof -
  let ?t = "pm_node (frames s0)" and ?k = "length fs" and ?B = "0xC0000000 :: u32"
  have va: "va = of_nat (4096 * ?k)" and mx: "mx = top_of fs" 
    and mp: "maps_pages boot_in_use s0 s ?B ?k (\<lambda>i. ucast (fs ! i)) (\<lambda>w. True)"
    and r: "boot_stock ?t (tables_for n - tables_for ?k + c) (frames s)"
    and t: "\<And>k. 1024 * k < ?k \<Longrightarrow> has_table s (of_nat (768 + k))"
    using inv by (auto simp: strip_inv_def)
  have "?k < 0x20000" using n by simp
  note v = strip_page [OF this]
  let ?v = "?B + of_nat (4096 * ?k)" and ?m = "tables_for n - tables_for (Suc ?k) + c"
  have idx: "ARCH_GET_PD_IDX ?v = of_nat (768 + ?k div 1024)" by (rule v)
  have pd: "ARCH_GET_PD_IDX ?v \<noteq> 1023"
  proof (rule pd_index_below)
    show "unat ?v < 0xFFC00000" unfolding v(1) using n by simp
  qed
  have le: "tables_for (Suc ?k) \<le> tables_for n" using n by (intro tables_for_mono) simp
  have room: "boot_stock ?t (if has_table s (ARCH_GET_PD_IDX ?v) then ?m else Suc ?m) (frames s)"
  proof (cases "?k mod 1024 = 0")
    case True
    then have "tables_for n - tables_for ?k + c = Suc ?m" using le by (simp add: tables_for_Suc)
    then show ?thesis using r by (auto intro: boot_stock_less)
  next
    case False
    then have "1024 * (?k div 1024) < ?k" by (metis mult_div_mod_eq less_add_same_cancel1 neq0_conv)
    then have "has_table s (ARCH_GET_PD_IDX ?v)" unfolding idx by (rule t)
    then show ?thesis using r False by (simp add: tables_for_Suc)
  qed
  have inv': "paging_inv boot_in_use s" using mp by (simp add: maps_pages_def)
  obtain s' where s': "kernel_map buf (ucast ?v) p 3 s = Inr s'" "boot_stock ?t ?m (frames s')"
      "maps_pages boot_in_use s s' ?v 1 (\<lambda>_. ucast p) (\<lambda>w. True)"
      "\<forall>i < 1023. has_table s' i \<longleftrightarrow> has_table s i \<or> i = ARCH_GET_PD_IDX ?v"
  proof -
    have b: "bit (3 :: u64) 0" "bit (3 :: u64) 1" by simp_all
    show thesis
      using node_kept.map_page [OF inv' v(2) pd p room, of buf 3] that
      unfolding kernel_map_def by (simp only: b) auto
  qed
  let ?q = "\<lambda>i. ucast ((fs @ [p]) ! i) :: u32"
  have q: "?q ?k = ucast p" by simp
  have lim: "unat ?B + 4096 * ?k < 2 ^ 32" using n by simp
  have "maps_pages boot_in_use s0 s ?B ?k ?q (\<lambda>w. True)"
    by (rule maps_cong [OF mp]) (simp add: nth_append)
  moreover have "maps_pages boot_in_use s s' ?v 1 (\<lambda>_. ?q ?k) (\<lambda>w. True)" using s'(3) by (simp only: q)
  moreover have "aligned ?B" by (simp add: aligned_def)
  ultimately have mp': "maps_pages boot_in_use s0 s' ?B (Suc ?k) ?q (\<lambda>w. True)"
    using lim by (rule maps_more)
  have t': "has_table s' (of_nat (768 + k))" if k: "1024 * k < Suc ?k" for k
  proof -
    have k': "768 + k < 1023" using k n by simp
    then have "(of_nat (768 + k) :: u32) < 1023"
      by (simp add: word_less_nat_alt unat_of_nat_small del: of_nat_add)
    moreover have "has_table s (of_nat (768 + k)) \<or> k = ?k div 1024" using t [of k] k by (cases "1024 * k < ?k") auto
    ultimately show ?thesis using s'(4) idx by auto
  qed
  have "kernel_map buf (ucast va + ucast ARCH_KMALLOC_BASE) p 0x3 s = Inr s'"
    unfolding va v(4) by (rule s'(1))
  moreover have "va + ARCH_PAGE_SIZE = of_nat (4096 * Suc ?k)" by (simp add: va page_size_val)
  ultimately show ?thesis
    using n mp' s'(2) t' by (auto simp: strip_inv_def mx top_of_snoc page_size_val)
qed

text \<open>One area.\<close>

lemma map_area_strip:
  assumes inv: "strip_inv n c s0 fs ((va, mx), s)" and j: "i \<le> j" "j < 2 ^ 52"
    and n: "length (take 0x20000 (fs @ map (\<lambda>i. of_nat (4096 * i)) [i ..< j])) \<le> n" "n \<le> 0x20000"
  shows "\<exists>st. map_area buf (of_nat (4096 * i)) (of_nat (4096 * j)) ((va, mx), s) = Inr st
    \<and> strip_inv n c s0 (take 0x20000 (fs @ map (\<lambda>i. of_nat (4096 * i)) [i ..< j])) st"
  using assms
proof (induction "j - i" arbitrary: i fs va mx s)
  case 0
  then have "\<not> (of_nat (4096 * i) :: u64) < of_nat (4096 * j)" by simp
  moreover have "length fs \<le> 0x20000" using 0 by (simp add: strip_inv_def)
  ultimately show ?case using 0 by (subst map_area.simps) simp
next
  case (Suc d)
  have i: "i < j" using Suc.hyps(2) by simp
  have l: "length fs \<le> 0x20000" and va: "va = of_nat (4096 * length fs)"
    using Suc.prems by (simp_all add: strip_inv_def)
  have u: "unat (of_nat (4096 * k) :: u64) = 4096 * k" if "k \<le> j" for k
    using that Suc.prems(3) by (intro unat_of_nat_small) simp
  have lt: "(of_nat (4096 * i) :: u64) < of_nat (4096 * j)"
    using i u [of i] u [of j] unfolding word_less_nat_alt by simp
  show ?case
  proof (cases "length fs = 0x20000")
    case True
    then have "\<not> va < ARCH_KMALLOC_LENGTH" by (simp add: va ARCH_KMALLOC_LENGTH_def)
    then show ?thesis using Suc.prems(1) True by (subst map_area.simps) simp
  next
    case False
    then have lf: "length fs < 0x20000" using l by simp
    let ?p = "of_nat (4096 * i) :: u64"
    have up: "[i ..< j] = i # [Suc i ..< j]" using i by (simp add: upt_conv_Cons)
    have n': "length fs < n" using Suc.prems(4) lf by (simp add: up)
    have al: "aligned (ucast ?p)"
      unfolding ucast_add using aligned_add [of 0 i] by (simp add: aligned_def del: of_nat_mult)
    obtain s' where s': "kernel_map buf (ucast va + ucast ARCH_KMALLOC_BASE) ?p 0x3 s = Inr s'"
        "strip_inv n c s0 (fs @ [?p]) ((va + ARCH_PAGE_SIZE, MAX_of (?p + ARCH_PAGE_SIZE) mx), s')"
      using strip_more [OF Suc.prems(1) n' Suc.prems(5) al] by blast
    have nx: "?p + ARCH_PAGE_SIZE = of_nat (4096 * Suc i)" by (simp add: page_size_val)
    have "\<exists>st. map_area buf (of_nat (4096 * Suc i)) (of_nat (4096 * j)) ((va + ARCH_PAGE_SIZE, MAX_of (?p + ARCH_PAGE_SIZE) mx), s') = Inr st
      \<and> strip_inv n c s0 (take 0x20000 ((fs @ [?p]) @ map (\<lambda>i. of_nat (4096 * i)) [Suc i ..< j])) st"
      using Suc.prems Suc.hyps(2) i by (intro Suc.hyps(1) [OF _ s'(2)]) (simp_all add: up)
    moreover have "va < ARCH_KMALLOC_LENGTH" unfolding va by (rule strip_page [OF lf])
    ultimately show ?thesis
      using lt s'(1) by (subst map_area.simps) (simp add: nx up del: of_nat_mult)
  qed
qed

text \<open>An area as the code computes its bounds.\<close>

lemma page_times:
  "of_nat (4096 * unat ((x AND ARCH_PAGE_MASK :: u64) div ARCH_PAGE_SIZE)) = x AND ARCH_PAGE_MASK"
  "unat ((x AND ARCH_PAGE_MASK :: u64) div ARCH_PAGE_SIZE) < 2 ^ 52"
proof -
  have x: "x AND ARCH_PAGE_MASK = push_bit 12 (drop_bit 12 x)"
    using align_down_eq [of x] by (simp add: ARCH_PAGE_ALIGN_DOWN_def)
  have "ARCH_PAGE_ALIGN_DOWN x div ARCH_PAGE_SIZE = drop_bit 12 x"
    by (subst drop_align_down [symmetric]) (simp add: ARCH_PAGE_SIZE_def ARCH_PAGE_SHIFT_def drop_bit_eq_div)
  then have d: "(x AND ARCH_PAGE_MASK) div ARCH_PAGE_SIZE = drop_bit 12 x" by (simp only: ARCH_PAGE_ALIGN_DOWN_def)
  show "of_nat (4096 * unat ((x AND ARCH_PAGE_MASK :: u64) div ARCH_PAGE_SIZE)) = x AND ARCH_PAGE_MASK"
    unfolding d unfolding x by (simp add: push_bit_eq_mult mult.commute)
  have "unat x < 2 ^ 52 * 4096" using unsigned_less [of x, where 'a = nat] by simp
  then have "unat x div 4096 < 2 ^ 52" by (rule less_mult_imp_div_less)
  then show "unat ((x AND ARCH_PAGE_MASK :: u64) div ARCH_PAGE_SIZE) < 2 ^ 52"
    unfolding d by (simp add: unat_drop_bit_eq drop_bit_eq_div unat_div_distrib)
qed

lemma map_area_entry:
  assumes inv: "strip_inv n c s0 fs ((va, mx), s)" and ty: "mm_type e = MULTIBOOT_MEMORY_AVAILABLE"
    and n: "length (take 0x20000 (fs @ area_frames e)) \<le> n" "n \<le> 0x20000"
  shows "\<exists>st. map_area buf (ARCH_PAGE_ALIGN (mm_addr e)) (ARCH_PAGE_ALIGN_DOWN (mm_addr e + mm_len e)) ((va, mx), s) = Inr st
    \<and> strip_inv n c s0 (take 0x20000 (fs @ area_frames e)) st"
proof -
  let ?i = "unat (area_start e)" and ?j = "unat (area_end e)"
  have b: "of_nat (4096 * ?i) = ARCH_PAGE_ALIGN (mm_addr e)" "of_nat (4096 * ?j) = ARCH_PAGE_ALIGN_DOWN (mm_addr e + mm_len e)"
      "?i < 2 ^ 52" "?j < 2 ^ 52"
    unfolding area_start_def area_end_def ARCH_PAGE_ALIGN_def ARCH_PAGE_ALIGN_DOWN_def by (rule page_times)+
  show ?thesis
  proof (cases "?i \<le> ?j")
    case True
    show ?thesis
      using map_area_strip [OF inv True b(4) _ n(2), of buf] n(1) unfolding b(1,2) by (simp add: area_frames_def ty)
  next
    case False
    have u: "unat (of_nat (4096 * k) :: u64) = 4096 * k" if "k < 2 ^ 52" for k
      using that by (intro unat_of_nat_small) simp
    have "\<not> (of_nat (4096 * ?i) :: u64) < of_nat (4096 * ?j)"
      using False by (simp only: word_less_nat_alt u [OF b(3)] u [OF b(4)] mult_less_cancel1) auto
    then have "map_area buf (ARCH_PAGE_ALIGN (mm_addr e)) (ARCH_PAGE_ALIGN_DOWN (mm_addr e + mm_len e)) ((va, mx), s) = Inr ((va, mx), s)"
      unfolding b(1,2) by (subst map_area.simps) simp
    moreover have "area_frames e = []" using False by (simp add: area_frames_def)
    moreover have "length fs \<le> 0x20000" using inv n(2) by (simp add: strip_inv_def)
    ultimately show ?thesis using inv by simp
  qed
qed

section \<open>The memory map stays readable\<close>

text \<open>A byte of a data page, outside the strip.\<close>

definition kept :: "('f \<Rightarrow> u32 \<Rightarrow> bool) \<Rightarrow> 'f machine \<Rightarrow> addr \<Rightarrow> bool" where
  "kept used s v \<longleftrightarrow> ARCH_GET_PD_IDX v \<noteq> 1023 \<and> 0x20000 \<le> page_in ARCH_KMALLOC_BASE v
    \<and> (\<exists>p. translate s False v = Some p \<and> data_page used s (frame_of p))"

fun entries_at :: "('f \<Rightarrow> u32 \<Rightarrow> bool) \<Rightarrow> 'f machine \<Rightarrow> addr \<Rightarrow> mmap_entry list \<Rightarrow> addr \<Rightarrow> bool" where
  "entries_at used s a [] e \<longleftrightarrow> a = e"
| "entries_at used s a (x # xs) e \<longleftrightarrow> a < e \<and> x = ld_mmap (view s) a \<and> (\<forall>k < 24. kept used s (a + of_nat k))
     \<and> entries_at used s (a + mm_size x + 4) xs e"

lemma ld_mmap_cong:
  assumes "\<And>k. k < 24 \<Longrightarrow> m' (a + of_nat k) = m (a + of_nat k)" shows "ld_mmap m' a = ld_mmap m a"
proof -
  have l: "ld32 m' (a + of_nat j) = ld32 m (a + of_nat j)" if "j + 4 \<le> 24" for j
  proof (rule ld32_cong)
    fix k :: nat assume "k < 4"
    then show "m' (a + of_nat j + of_nat k) = m (a + of_nat j + of_nat k)"
      using assms [of "j + k"] that by (simp add: add.assoc)
  qed
  have w: "ld32 m' a = ld32 m a" "ld32 m' (a + 4) = ld32 m (a + 4)" "ld32 m' (a + 8) = ld32 m (a + 8)"
    "ld32 m' (a + 12) = ld32 m (a + 12)" "ld32 m' (a + 16) = ld32 m (a + 16)" "ld32 m' (a + 20) = ld32 m (a + 20)"
    using l [of 0] l [of 4] l [of 8] l [of 12] l [of 16] l [of 20] by simp_all
  have e: "a + 4 + 4 = a + 8" "a + 12 + 4 = a + 16" by simp_all
  show ?thesis unfolding ld_mmap_def ld64_def e w ..
qed

lemma entry_kept:
  assumes mp: "maps_pages boot_in_use s0 s 0xC0000000 n q ok" "n \<le> 0x20000"
    and k: "\<forall>k < 24. kept boot_in_use s0 (a + of_nat k)"
  shows "readable s a 24" "readable s a 4" "ld_mmap (view s) a = ld_mmap (view s0) a"
    "ld32 (view s) a = mm_size (ld_mmap (view s0) a)"
proof -
  have tr: "translate s False v = translate s0 False v \<and> translate s0 False v \<noteq> None \<and> view s v = view s0 v"
    if v: "kept boot_in_use s0 v" for v
  proof -
    obtain p where p: "translate s0 False v = Some p" "data_page boot_in_use s0 (frame_of p)" "ARCH_GET_PD_IDX v \<noteq> 1023"
        "\<not> page_in 0xC0000000 v < n"
      using v mp(2) by (auto simp: kept_def ARCH_KMALLOC_BASE_def)
    then have "translate s False v = translate s0 False v" "memory s p = memory s0 p"
      using mp(1) unfolding maps_pages_def by simp_all
    then show ?thesis using p(1) by (simp add: view_def)
  qed
  show "readable s a 24" using k tr by (simp add: readable_def)
  then show "readable s a 4" by (simp add: readable_def)
  show e: "ld_mmap (view s) a = ld_mmap (view s0) a" by (rule ld_mmap_cong) (use k tr in blast)
  have "ld32 (view s) a = mm_size (ld_mmap (view s) a)" by (simp add: ld_mmap_def)
  then show "ld32 (view s) a = mm_size (ld_mmap (view s0) a)" by (simp only: e)
qed

section \<open>The walks\<close>

lemma run_max:
  assumes at: "entries_at boot_in_use s a es e" and inv: "paging_inv boot_in_use s"
  shows "foreach_entry max_step a e (mx, s) = Some (Inr (fold (\<lambda>x mx. MAX_of mx (mm_addr x + mm_len x)) es mx, s))"
  using at
proof (induction es arbitrary: a mx)
  case Nil
  then show ?case by (subst foreach_entry.simps) simp
next
  case (Cons x xs)
  then have k: "\<forall>k < 24. kept boot_in_use s (a + of_nat k)" and x: "x = ld_mmap (view s) a" and lt: "a < e"
    and at: "entries_at boot_in_use s (a + mm_size x + 4) xs e"
    unfolding entries_at.simps by blast+
  note v = entry_kept [OF maps_none [OF inv] le0 k]
  have "max_step a (mx, s) = Inr (False, MAX_of mx (mm_addr x + mm_len x), s)"
    by (simp add: max_step_def v(1) x [symmetric])
  with lt Cons.IH [OF at] show ?case by (subst foreach_entry.simps) (simp add: v(2,4) x [symmetric])
qed

lemma run_strip:
  assumes "entries_at boot_in_use s0 a es e" "strip_inv n c s0 fs st"
    and "length (take 0x20000 (fs @ taken pae es)) \<le> n" "n \<le> 0x20000"
  shows "\<exists>st'. foreach_entry (strip_step buf pae) a e st = Some (Inr st')
    \<and> strip_inv n c s0 (take 0x20000 (fs @ taken pae es)) st'"
  using assms
proof (induction es arbitrary: a st fs)
  case Nil
  then have "length fs \<le> 0x20000" by (cases st) (auto simp: strip_inv_def)
  then show ?case using Nil by (subst foreach_entry.simps) (simp add: taken_def seen_areas_def)
next
  case (Cons x xs)
  obtain va mx s where st: "st = ((va, mx), s)" by (cases st) auto
  have inv: "strip_inv n c s0 fs ((va, mx), s)" using Cons.prems(2) by (simp add: st)
  have k: "\<forall>k < 24. kept boot_in_use s0 (a + of_nat k)" and x: "x = ld_mmap (view s0) a" and lt: "a < e"
    and at: "entries_at boot_in_use s0 (a + mm_size x + 4) xs e"
    using Cons.prems(1) unfolding entries_at.simps by blast+
  have fs: "length fs \<le> n" and va: "va = of_nat (4096 * length fs)"
    and mp: "maps_pages boot_in_use s0 s 0xC0000000 (length fs) (\<lambda>i. ucast (fs ! i)) (\<lambda>w. True)"
    using inv by (simp_all add: strip_inv_def)
  note v = entry_kept [OF mp _ k]
  show ?case
  proof (cases "length fs = 0x20000")
    case True
    then have "ARCH_KMALLOC_LENGTH \<le> va" by (simp add: va ARCH_KMALLOC_LENGTH_def)
    then show ?thesis using inv lt True by (subst foreach_entry.simps) (simp add: strip_step_def st)
  next
    case False
    then have lf: "length fs < 0x20000" using fs Cons.prems(4) by simp
    then have va': "\<not> ARCH_KMALLOC_LENGTH \<le> va" unfolding va not_le by (rule strip_page(5))
    show ?thesis
    proof (cases "\<not> pae \<and> 0xFFFFFFFF \<le> mm_addr x")
      case True
      then have "taken pae (x # xs) = []" by (auto simp: taken_def seen_areas_def)
      then show ?thesis
        using inv lt va' lf True by (subst foreach_entry.simps) (simp add: strip_step_def st v x [symmetric])
    next
      case go: False
      then have tk: "taken pae (x # xs) = area_frames x @ taken pae xs" by (auto simp: taken_def seen_areas_def not_le)
      have le: "length (take 0x20000 (fs @ area_frames x)) \<le> n"
        using Cons.prems(3) unfolding tk by (simp add: min_def split: if_splits)
      obtain st1 where st1: "strip_step buf pae a ((va, mx), s) = Inr (False, st1)"
          "strip_inv n c s0 (take 0x20000 (fs @ area_frames x)) st1"
      proof (cases "mm_type x = MULTIBOOT_MEMORY_AVAILABLE")
        case True
        obtain st1 where "map_area buf (ARCH_PAGE_ALIGN (mm_addr x)) (ARCH_PAGE_ALIGN_DOWN (mm_addr x + mm_len x)) ((va, mx), s) = Inr st1"
            "strip_inv n c s0 (take 0x20000 (fs @ area_frames x)) st1"
          using map_area_entry [OF inv True le Cons.prems(4), of buf] by blast
        then show thesis
          using True go va' lf by (intro that [of st1]) (auto simp: strip_step_def v x [symmetric])
      next
        case False
        then have "area_frames x = []" by (simp add: area_frames_def)
        then show thesis
          using False go va' lf inv by (intro that [of "((va, mx), s)"]) (auto simp: strip_step_def v x [symmetric])
      qed
      let ?fs1 = "take 0x20000 (fs @ area_frames x)"
      obtain va1 mx1 s1 where s1: "st1 = ((va1, mx1), s1)" by (cases st1) auto
      have mp1: "maps_pages boot_in_use s0 s1 0xC0000000 (length ?fs1) (\<lambda>i. ucast (?fs1 ! i)) (\<lambda>w. True)"
        using st1(2) by (simp add: strip_inv_def s1)
      have v1: "readable s1 a 4" "ld32 (view s1) a = mm_size x"
        using entry_kept [OF mp1 _ k] by (simp_all add: x)
      have eq: "take 0x20000 (?fs1 @ taken pae xs) = take 0x20000 (fs @ taken pae (x # xs))"
        unfolding tk using lf by (cases "length (fs @ area_frames x) \<le> 0x20000") (simp_all add: min_absorb1)
      obtain st' where "foreach_entry (strip_step buf pae) (a + mm_size x + 4) e st1 = Some (Inr st')"
          "strip_inv n c s0 (take 0x20000 (fs @ taken pae (x # xs))) st'"
        using Cons.IH [OF at st1(2)] Cons.prems(3,4) unfolding eq by blast
      then show ?thesis
        using lt st1(1) v1 by (subst foreach_entry.simps) (simp add: st s1)
    qed
  qed
qed

lemma platform_init_result:
  assumes inv: "paging_inv boot_in_use s" and r: "boot_ready (tables_for (length (strip_frames pae es)) + c) (frames s)"
    and at: "entries_at boot_in_use s (mb_mmap_addr mbt) es (mb_mmap_addr mbt + mb_mmap_length mbt)"
  shows "\<exists>s'. platform_init buf pae mbt (mx, s) =
      Inr (fold (\<lambda>x mx. MAX_of mx (mm_addr x + mm_len x)) es mx, top_of (strip_frames pae es), s')
    \<and> maps_pages boot_in_use s s' 0xC0000000 (length (strip_frames pae es)) (\<lambda>i. ucast (strip_frames pae es ! i)) (\<lambda>w. True)
    \<and> boot_stock (pm_node (frames s)) c (frames s')"
proof -
  let ?fs = "strip_frames pae es"
  have "length ?fs \<le> 0x20000" by (simp add: strip_frames_def)
  then obtain st where st: "foreach_entry (strip_step buf pae) (mb_mmap_addr mbt) (mb_mmap_addr mbt + mb_mmap_length mbt) ((0, 0), s)
        = Some (Inr st)" "strip_inv (length ?fs) c s ?fs st"
    using run_strip [OF at strip_inv_start [OF inv r], of pae buf] unfolding strip_frames_def by auto
  then show ?thesis
    using run_max [OF at inv, of mx]
    by (cases st) (auto simp: platform_init_def run_entries_def strip_inv_def)
qed

section \<open>Properties\<close>

text \<open>C11. \<open>platform::init\<close>, with the boot allocator in charge and enough pages for the tables, maps the pages of the
  available areas in the order of the memory map, without the holes between them and 512 MiB at most, as
  one writable strip at \<open>ARCH_KMALLOC_BASE\<close>, changes no other translation, and finds the end of memory
  and of the highest page in the strip.\<close>

theorem kmalloc_strip:
  fixes pae :: bool
  assumes inv: "paging_inv boot_in_use s"
    and at: "entries_at boot_in_use s (mb_mmap_addr mbt) es (mb_mmap_addr mbt + mb_mmap_length mbt)"
  defines "fs \<equiv> strip_frames pae es"
  assumes r: "boot_ready (tables_for (length fs) + c) (frames s)"
  shows "\<exists>s'. platform_init buf pae mbt (mx, s) =
      Inr (fold (\<lambda>x mx. MAX_of mx (mm_addr x + mm_len x)) es mx, top_of fs, s')
    \<and> (\<forall>w u. ARCH_GET_PD_IDX u \<noteq> 1023 \<longrightarrow> translate s' w u =
        (if page_in ARCH_KMALLOC_BASE u < length fs then Some (ucast (fs ! page_in ARCH_KMALLOC_BASE u) + (u AND 0xFFF))
         else translate s w u))
    \<and> paging_inv boot_in_use s' \<and> boot_ready c (frames s')"
  using platform_init_result [OF inv _ at, of pae c buf mx] r
  unfolding fs_def maps_pages_def boot_stock_def ARCH_KMALLOC_BASE_def by fastforce

section \<open>A machine with a memory map\<close>

text \<open>
  The directory at \<open>0x1000\<close> has three tables: one maps page 5 to itself, one maps two pages at \<open>0xE0100000\<close> to pages 6
  and 7, one the page below \<open>0xFF800000\<close> to page 8. In page 5 lie a memory map with two available areas, of
  three and of two pages, and a reserved one between them, and from \<open>0x5100\<close> on the words of a \<open>multiboot_info\<close>.
\<close>

definition page_words :: "(u32 \<times> u32 \<times> u32) list \<Rightarrow> mem" where
  "page_words ws = foldr (\<lambda>(b, j, x). st32 (entry_at b j) x) ws (\<lambda>_. 0)"

lemma page_words_ld:
  assumes "aligned b" "unat i < 1024" "\<forall>(b', j, x) \<in> set ws. aligned b' \<and> unat j < 1024"
  shows "ld32 (page_words ws) (entry_at b i) = (case map_of (map (\<lambda>(b, j, x). ((b, j), x)) ws) (b, i) of None \<Rightarrow> 0 | Some x \<Rightarrow> x)"
  using assms(3)
proof (induction ws)
  case Nil
  then show ?case by (simp add: page_words_def ld32_def)
next
  case (Cons w ws)
  obtain b' j x where w: "w = (b', j, x)" by (cases w)
  have "page_words (w # ws) = st32 (entry_at b' j) x (page_words ws)" by (simp add: page_words_def w)
  then show ?case
    using Cons assms(1,2) by (cases "(b', j) = (b, i)") (auto simp: w ld32_entry_other)
qed

definition map_words :: "(u32 \<times> u32 \<times> u32) list" where
  "map_words = [(0x1000, 1023, 0x1003), (0x1000, 0, 0x2003), (0x1000, 896, 0x3003), (0x1000, 1021, 0x4003),
     (0x2000, 5, 0x5003), (0x3000, 0x100, 0x6003), (0x3000, 0x101, 0x7003), (0x4000, 1023, 0x8003),
     (0x5000, 0, 20), (0x5000, 1, 0x10000), (0x5000, 3, 0x3000), (0x5000, 5, 1),
     (0x5000, 6, 20), (0x5000, 7, 0x13000), (0x5000, 9, 0x1000), (0x5000, 11, 2),
     (0x5000, 12, 20), (0x5000, 13, 0x20000), (0x5000, 15, 0x2000), (0x5000, 17, 1),
     (0x5000, 64, 0x49), (0x5000, 69, 1), (0x5000, 70, 0x9000), (0x5000, 75, 72), (0x5000, 76, 0x5000),
     (0x6000, 0, 0xBBAA)]"

definition strip_bitmap :: bitmap where
  "strip_bitmap = \<lparr>bm_length = 1, bm_bit_count = 32, bm_words = (\<lambda>_. 0x1FE)\<rparr>"

definition start_machine :: "'f \<Rightarrow> 'f machine" where
  "start_machine f = \<lparr>memory = page_words map_words, cr0 = CR0_PG, cr3 = 0x1000, cr4 = 0, page_dir_addr = 0xFFFFF000,
     frames = f\<rparr>"

definition strip_pmm :: pmm where
  "strip_pmm = \<lparr>pm_allocator = Some BootAllocator, pm_boot = \<lparr>alloc_map = strip_bitmap, ba_ptr = 0\<rparr>, pm_node = pmm_empty_example\<rparr>"

abbreviation strip_machine :: "pmm machine" where
  "strip_machine \<equiv> start_machine strip_pmm"

definition strip_info :: multiboot_info where
  "strip_info = (ld_multiboot_info (\<lambda>_. 0) 0)\<lparr>mb_mmap_addr := 0x5000, mb_mmap_length := 72\<rparr>"

definition strip_areas :: "mmap_entry list" where
  "strip_areas = [\<lparr>mm_size = 20, mm_addr = 0x10000, mm_len = 0x3000, mm_type = 1\<rparr>,
     \<lparr>mm_size = 20, mm_addr = 0x13000, mm_len = 0x1000, mm_type = 2\<rparr>,
     \<lparr>mm_size = 20, mm_addr = 0x20000, mm_len = 0x2000, mm_type = 1\<rparr>]"

lemma map_words_ld:
  assumes "aligned b" "unat i < 1024"
  shows "ld32 (page_words map_words) (entry_at b i) = (case map_of (map (\<lambda>(b, j, x). ((b, j), x)) map_words) (b, i) of None \<Rightarrow> 0 | Some x \<Rightarrow> x)"
  using assms by (rule page_words_ld) (simp add: map_words_def aligned_def)

lemma map_words_dir:
  assumes "unat i < 1024"
  shows "ld32 (page_words map_words) (entry_at 0x1000 i) =
    (if i = 1023 then 0x1003 else if i = 0 then 0x2003 else if i = 896 then 0x3003 else if i = 1021 then 0x4003 else 0)"
  using map_words_ld [OF _ assms, of "0x1000"] by (auto simp: aligned_def map_words_def)

lemma strip_bitmap_bit: "bm_bit (bm_words strip_bitmap) k \<longleftrightarrow> 1 \<le> k mod 32 \<and> k mod 32 \<le> 8"
proof -
  have eq: "(0x1FE :: u32) = push_bit 1 (mask 8)" by (simp add: mask_eq_exp_minus_1)
  have "bit (0x1FE :: u32) j \<longleftrightarrow> 1 \<le> j \<and> j \<le> 8" for j
    unfolding eq bit_push_bit_iff bit_mask_iff by auto
  from this [of "k mod 32"] show ?thesis by (simp add: strip_bitmap_def bm_bit_def)
qed

lemma start_fields [simp]:
  "memory (start_machine f) = page_words map_words" "cr0 (start_machine f) = CR0_PG" "cr3 (start_machine f) = 0x1000"
  "page_dir_addr (start_machine f) = 0xFFFFF000" "frames (start_machine f) = f"
  by (simp_all add: start_machine_def)

lemma table_words:
  "frame_of 0x2003 = 0x2000" "frame_of 0x3003 = 0x3000" "frame_of 0x4003 = 0x4000" "frame_of 0x1000 = 0x1000"
  "frame_of 0x5003 = 0x5000" "frame_of 0x6003 = 0x6000" "frame_of 0x7003 = 0x7000" "frame_of 0x8003 = 0x8000"
  "usable w 0x2003" "usable w 0x3003" "usable w 0x4003" "usable w 0x5003" "usable w 0x6003" "usable w 0x7003" "usable w 0x8003"
  by (simp_all add: frame_of_def ARCH_PAGE_MASK_def ARCH_PAGE_SIZE_def ARCH_PAGE_SHIFT_def usable_def)

lemma CR0_PG_on: "CR0_PG AND CR0_PG \<noteq> 0" "CR0_PG \<noteq> 0"
  by (simp_all add: CR0_PG_def)

lemma start_machine_inv:
  assumes "\<And>k. k < 9 \<Longrightarrow> 0 < k \<Longrightarrow> used f (of_nat (4096 * k))"
  shows "paging_inv used (start_machine f)"
proof -
  have u: "used f 0x1000" "used f 0x2000" "used f 0x3000" "used f 0x4000"
    using assms [of 1] assms [of 2] assms [of 3] assms [of 4] by simp_all
  have al: "aligned 0x1000" by (simp add: aligned_def)
  have d: "ld32 (page_words map_words) (entry_at 0x1000 i) =
      (if i = 0 then 0x2003 else if i = 896 then 0x3003 else if i = 1021 then 0x4003 else 0)" if "i < 1023" for i
    using that map_words_dir [OF small_index(1) [OF that]] by auto
  have "tables_ok (page_words map_words) 0x1000"
    using map_words_dir [OF unat_1023] unfolding tables_ok_def by (simp add: d al table_words)
  then have "machine_ok (start_machine f)" by (simp add: machine_ok_def CR0_PG_on)
  moreover have "used f (frame_of (ld32 (page_words map_words) (entry_at 0x1000 i)))"
    if "i < 1023" "ld32 (page_words map_words) (entry_at 0x1000 i) \<noteq> 0" for i
    using that d [OF that(1)] u by (simp add: table_words split: if_splits)
  ultimately show ?thesis using u(1) by (simp add: paging_inv_def)
qed

lemma start_table_frame: "table_frame (start_machine f) e \<longleftrightarrow> e \<in> {0x1000, 0x2000, 0x3000, 0x4000}"
proof -
  have "(\<exists>i < 1023. ld32 (page_words map_words) (entry_at 0x1000 i) \<noteq> 0 \<and> frame_of (ld32 (page_words map_words) (entry_at 0x1000 i)) = e)
      \<longleftrightarrow> e \<in> {0x2000, 0x3000, 0x4000}"
  proof
    assume "\<exists>i < 1023. ld32 (page_words map_words) (entry_at 0x1000 i) \<noteq> 0 \<and> frame_of (ld32 (page_words map_words) (entry_at 0x1000 i)) = e"
    then show "e \<in> {0x2000, 0x3000, 0x4000}"
      using map_words_dir [OF small_index(1)] by (auto simp: table_words split: if_splits)
  next
    assume "e \<in> {0x2000, 0x3000, 0x4000}"
    then obtain i :: u32 where "i < 1023" "ld32 (page_words map_words) (entry_at 0x1000 i) \<noteq> 0" "frame_of (ld32 (page_words map_words) (entry_at 0x1000 i)) = e"
      using map_words_dir [of 0] map_words_dir [of 896] map_words_dir [of 1021]
      by (auto simp: table_words intro: that [of 0] that [of 896] that [of 1021])
    then show "\<exists>i < 1023. ld32 (page_words map_words) (entry_at 0x1000 i) \<noteq> 0 \<and> frame_of (ld32 (page_words map_words) (entry_at 0x1000 i)) = e"
      by blast
  qed
  then show ?thesis by (auto simp: table_frame_def)
qed

lemma start_walk:
  assumes v: "aligned v" "k < 4096" and d: "ld32 (page_words map_words) (entry_at 0x1000 (ARCH_GET_PD_IDX v)) = e"
    and t: "ld32 (page_words map_words) (entry_at (frame_of e) (ARCH_GET_PT_IDX v)) = x" and u: "usable w e" "usable w x"
  shows "translate (start_machine f) w (v + of_nat k) = Some (frame_of x + of_nat k)" 
proof -
  let ?u = "v + of_nat k"
  have fr: "frame_of ?u = v" by (rule frame_of_offset [OF v])
  then have "frame_of ?u = frame_of v" by (simp add: frame_of_aligned v)
  then have i: "ARCH_GET_PD_IDX ?u = ARCH_GET_PD_IDX v" "ARCH_GET_PT_IDX ?u = ARCH_GET_PT_IDX v"
    by (simp_all add: same_page_iff)
  have "?u AND 0xFFF = of_nat k" using page_parts [of ?u] fr by (metis add_left_imp_eq)
  then show ?thesis using d t u by (simp add: translate_def walk_def CR0_PG_on i table_words)
qed

lemma start_pages:
  assumes "k < 4096"
  shows "translate (start_machine f) w (0x5000 + of_nat k) = Some (0x5000 + of_nat k)"
    "translate (start_machine f) w (0xE0100000 + of_nat k) = Some (0x6000 + of_nat k)"
    "translate (start_machine f) w (0xE0101000 + of_nat k) = Some (0x7000 + of_nat k)"
    "translate (start_machine f) w (0xFF7FF000 + of_nat k) = Some (0x8000 + of_nat k)"
proof -
  have i: "ARCH_GET_PD_IDX 0x5000 = 0" "ARCH_GET_PT_IDX 0x5000 = 5"
    "ARCH_GET_PD_IDX 0xE0100000 = 896" "ARCH_GET_PT_IDX 0xE0100000 = 0x100"
    "ARCH_GET_PD_IDX 0xE0101000 = 896" "ARCH_GET_PT_IDX 0xE0101000 = 0x101"
    "ARCH_GET_PD_IDX 0xFF7FF000 = 1021" "ARCH_GET_PT_IDX 0xFF7FF000 = 1023"
    by (simp_all add: ARCH_GET_PD_IDX_def ARCH_GET_PT_IDX_def)
  have t: "ld32 (page_words map_words) (entry_at 0x2000 5) = 0x5003" "ld32 (page_words map_words) (entry_at 0x3000 0x100) = 0x6003"
    "ld32 (page_words map_words) (entry_at 0x3000 0x101) = 0x7003" "ld32 (page_words map_words) (entry_at 0x4000 1023) = 0x8003"
    using map_words_ld [of "0x2000" 5] map_words_ld [of "0x3000" "0x100"] map_words_ld [of "0x3000" "0x101"] map_words_ld [of "0x4000" 1023]
    by (simp_all add: aligned_def map_words_def)
  have al: "aligned 0x5000" "aligned 0xE0100000" "aligned 0xE0101000" "aligned 0xFF7FF000" by (simp_all add: aligned_def)
  note d = map_words_dir [of 0] map_words_dir [of 896] map_words_dir [of 1021]
  show "translate (start_machine f) w (0x5000 + of_nat k) = Some (0x5000 + of_nat k)"
    using start_walk [OF al(1) assms, of "0x2003" "0x5003" w f] d t by (simp add: i table_words)
  show "translate (start_machine f) w (0xE0100000 + of_nat k) = Some (0x6000 + of_nat k)"
    using start_walk [OF al(2) assms, of "0x3003" "0x6003" w f] d t by (simp add: i table_words)
  show "translate (start_machine f) w (0xE0101000 + of_nat k) = Some (0x7000 + of_nat k)"
    using start_walk [OF al(3) assms, of "0x3003" "0x7003" w f] d t by (simp add: i table_words)
  show "translate (start_machine f) w (0xFF7FF000 + of_nat k) = Some (0x8000 + of_nat k)"
    using start_walk [OF al(4) assms, of "0x4003" "0x8003" w f] d t by (simp add: i table_words)
qed

lemma strip_machine_inv: "paging_inv boot_in_use strip_machine"
proof (rule start_machine_inv)
  fix k :: nat assume k: "k < 9" "0 < k"
  then have "unat (of_nat (4096 * k) :: u32) = 4096 * k" by (intro unat_of_nat_small) simp
  then show "boot_in_use strip_pmm (of_nat (4096 * k))"
    using k by (simp add: boot_in_use_def boot_used_def strip_pmm_def strip_bitmap_bit page_no_def del: of_nat_mult)
qed

lemma start_map_kept:
  assumes k: "k < 4096" and u: "used f 0x5000"
  shows "kept used (start_machine f) (0x5000 + of_nat k)"
proof -
  let ?v = "0x5000 + of_nat k :: u32"
  have al: "aligned 0x5000" by (simp add: aligned_def)
  have fr: "frame_of ?v = 0x5000" by (rule frame_of_offset [OF al k])
  have n: "unat ?v = 0x5000 + k" using offset_unat [OF al k] by simp
  then have "unat ?v < 0xFFC00000" using k by simp
  then have "ARCH_GET_PD_IDX ?v \<noteq> 1023" by (rule pd_index_below)
  moreover have "page_in ARCH_KMALLOC_BASE ?v = 0x40005"
    using k unfolding page_in_def ARCH_KMALLOC_BASE_def by (subst unat_sub_if') (simp_all add: n)
  ultimately show ?thesis
    using start_pages(1) [OF k, of f False] u by (simp add: kept_def data_page_def fr start_table_frame)
qed

lemma strip_machine_map:
  assumes k: "k < 4096"
  shows "translate strip_machine False (0x5000 + of_nat k) = Some (0x5000 + of_nat k)" "kept boot_in_use strip_machine (0x5000 + of_nat k)"
proof -
  show "translate strip_machine False (0x5000 + of_nat k) = Some (0x5000 + of_nat k)" by (rule start_pages [OF k])
  show "kept boot_in_use strip_machine (0x5000 + of_nat k)"
    by (rule start_map_kept [OF k]) (simp add: boot_in_use_def boot_used_def strip_pmm_def strip_bitmap_bit page_no_def)
qed

lemma map_offset: "0x5000 + of_nat (24 * i) + of_nat k = (0x5000 + of_nat (24 * i + k) :: u32)"
  by simp

lemma strip_machine_entry:
  assumes "i < 3"
  shows "ld_mmap (view strip_machine) (0x5000 + of_nat (24 * i)) = strip_areas ! i"
proof -
  have w: "view strip_machine (0x5000 + of_nat k) = page_words map_words (0x5000 + of_nat k)" if "k < 4096" for k
    using strip_machine_map(1) [OF that] by (simp add: view_def)
  have "ld_mmap (view strip_machine) (0x5000 + of_nat (24 * i)) = ld_mmap (page_words map_words) (0x5000 + of_nat (24 * i))"
    by (intro ld_mmap_cong, unfold map_offset, rule w) (use assms in simp)
  moreover have e: "ld32 (page_words map_words) (0x5000 + of_nat (4 * j)) =
      (case map_of (map (\<lambda>(b, j, x). ((b, j), x)) map_words) (0x5000, of_nat j) of None \<Rightarrow> 0 | Some x \<Rightarrow> x)" if "j < 1024" for j
  proof -
    have "unat (of_nat j :: u32) = j" using that by (intro unat_of_nat_small) simp
    then show ?thesis using map_words_ld [of "0x5000" "of_nat j"] that by (simp add: entry_at_offset aligned_def)
  qed
  ultimately show ?thesis
    using assms e [of 0] e [of 1] e [of 2] e [of 3] e [of 4] e [of 5] e [of 6] e [of 7] e [of 8] e [of 9] e [of 10] e [of 11]
      e [of 12] e [of 13] e [of 14] e [of 15] e [of 16] e [of 17]
    by (auto simp: ld_mmap_def ld64_def strip_areas_def map_words_def less_Suc_eq numeral_3_eq_3)
qed

lemma strip_machine_at: "entries_at boot_in_use strip_machine 0x5000 strip_areas 0x5048"
proof -
  have "\<forall>k < 24. kept boot_in_use strip_machine (0x5000 + of_nat (24 * i) + of_nat k)" if "i < 3" for i
    unfolding map_offset by (intro allI impI strip_machine_map(2)) (use that in simp)
  from this [of 0] this [of 1] this [of 2] strip_machine_entry [of 0] strip_machine_entry [of 1] strip_machine_entry [of 2]
  show ?thesis by (simp add: strip_areas_def)
qed

lemma strip_machine_frames: "strip_frames pae strip_areas = [0x10000, 0x11000, 0x12000, 0x20000, 0x21000]"
proof -
  have "map area_frames strip_areas = [[0x10000, 0x11000, 0x12000], [], [0x20000, 0x21000]]"
    by (simp add: strip_areas_def area_frames_def MULTIBOOT_MEMORY_AVAILABLE_def area_start_def area_end_def ARCH_PAGE_ALIGN_def
        ARCH_PAGE_ALIGN_DOWN_def ARCH_PAGE_MASK_def ARCH_PAGE_SIZE_def ARCH_PAGE_SHIFT_def upt_conv_Cons)
  moreover have "seen_areas pae strip_areas = strip_areas" by (simp add: seen_areas_def strip_areas_def)
  ultimately show ?thesis by (simp add: strip_frames_def taken_def)
qed

lemma strip_bitmap_free: "{k. k < 32 \<and> \<not> bm_bit (bm_words strip_bitmap) k} = {0} \<union> {9 ..< 32}"
  by (auto simp: strip_bitmap_bit)

lemma strip_machine_ready:
  assumes "n \<le> 24" shows "boot_ready n (frames strip_machine)"
proof -
  have "boot_managed (pm_boot strip_pmm) - boot_used (pm_boot strip_pmm) = {k. k < 32 \<and> \<not> bm_bit (bm_words strip_bitmap) k}"
    by (auto simp: boot_managed_def boot_used_def strip_pmm_def) (simp_all add: strip_bitmap_def)
  also have "card \<dots> = 24" unfolding strip_bitmap_free by simp
  finally show ?thesis
    using assms by (auto simp: boot_ready_def boot_inv_def) (auto simp: strip_pmm_def strip_bitmap_def)
qed

theorem kmalloc_strip_witness:
  "\<exists>s'. platform_init 0x9000 False strip_info (0, strip_machine) = Inr (0x22000, 0x22000, s')
    \<and> translate s' True 0xC0003010 = Some 0x20010 \<and> translate s' True 0xC0005010 = None"
proof -
  have a: "mb_mmap_addr strip_info = 0x5000" "mb_mmap_addr strip_info + mb_mmap_length strip_info = 0x5048"
    by (simp_all add: strip_info_def)
  have p: "page_in ARCH_KMALLOC_BASE 0xC0003010 = 3" "page_in ARCH_KMALLOC_BASE 0xC0005010 = 5"
      "ARCH_GET_PD_IDX 0xC0003010 = 768" "ARCH_GET_PD_IDX 0xC0005010 = 768"
    by (simp_all add: page_in_def ARCH_KMALLOC_BASE_def ARCH_GET_PD_IDX_def)
  have none: "translate strip_machine True 0xC0005010 = None"
    using map_words_dir [of 768]
    by (simp add: translate_def walk_def p(4) table_words usable_def CR0_PG_on)
  have "tables_for (length (strip_frames False strip_areas)) + 1 \<le> 24" by (simp add: strip_machine_frames tables_for_def)
  then have r: "boot_ready (tables_for (length (strip_frames False strip_areas)) + 1) (frames strip_machine)"
    by (rule strip_machine_ready)
  have at: "entries_at boot_in_use strip_machine (mb_mmap_addr strip_info) strip_areas (mb_mmap_addr strip_info + mb_mmap_length strip_info)"
    unfolding a(2) unfolding a(1) by (rule strip_machine_at)
  have m: "fold (\<lambda>x mx. MAX_of mx (mm_addr x + mm_len x)) strip_areas 0 = 0x22000"
      "top_of [0x10000, 0x11000, 0x12000, 0x20000, 0x21000] = 0x22000"
    by (simp_all add: strip_areas_def top_of_def MAX_of_def)
  obtain s' where s': "platform_init 0x9000 False strip_info (0, strip_machine) = Inr (0x22000, 0x22000, s')"
    "\<forall>w u. ARCH_GET_PD_IDX u \<noteq> 1023 \<longrightarrow> translate s' w u =
        (if page_in ARCH_KMALLOC_BASE u < 5 then Some (ucast ([0x10000, 0x11000, 0x12000, 0x20000, 0x21000 :: u64] ! page_in ARCH_KMALLOC_BASE u) + (u AND 0xFFF))
         else translate strip_machine w u)"
    using kmalloc_strip [OF strip_machine_inv at r, of "0x9000" 0] unfolding strip_machine_frames m by auto
  then show ?thesis using p none by auto
qed

end
