(* ===== verification/OwnData.thy ===== *)
theory OwnData
  imports Kmalloc
begin

text \<open>
  The kernel's own data in memory: its static objects, its stack and the page descriptors are written through the
  page tables, like everything else. The lemmas say what such writes leave alone when they reach pages of data only.
\<close>

section \<open>Writing through the page tables\<close>

text \<open>A list of byte writes, and the bytes \<open>vs\<close> of an object brought up to date with its new contents \<open>d\<close>.\<close>

primrec own_writes :: "(addr \<times> u8) list \<Rightarrow> 'f machine \<Rightarrow> kerror + 'f machine" where
  "own_writes [] s = Inr s"
| "own_writes (x # xs) s = bind_res (vst8 (fst x) (snd x) s) (own_writes xs)"

definition write_back :: "addr list \<Rightarrow> mem \<Rightarrow> 'f machine \<Rightarrow> kerror + 'f machine" where
  "write_back vs d = own_writes (map (\<lambda>v. (v, d v)) vs)"

definition region :: "addr \<Rightarrow> nat \<Rightarrow> addr list" where
  "region a n = map (\<lambda>k. a + of_nat k) [0 ..< n]"

lemma in_region: "v \<in> set (region a n) \<longleftrightarrow> (\<exists>k < n. v = a + of_nat k)"
  by (auto simp: region_def)

section \<open>Where the writes go\<close>

text \<open>
  The addresses \<open>V\<close> are mapped for writing, no two to the same byte, to pages of data, outside the strip and the
  recursive window.
\<close>

definition own_ok :: "('f \<Rightarrow> u32 \<Rightarrow> bool) \<Rightarrow> 'f machine \<Rightarrow> addr set \<Rightarrow> bool" where
  "own_ok used s V \<longleftrightarrow> inj_on (translate s True) V \<and> (\<forall>v \<in> V. ARCH_GET_PD_IDX v \<noteq> 1023
     \<and> 0x20000 \<le> page_in ARCH_KMALLOC_BASE v \<and> (\<exists>p. translate s True v = Some p \<and> data_page used s (frame_of p)))"

definition own_bytes :: "'f machine \<Rightarrow> addr set \<Rightarrow> addr set" where
  "own_bytes s V = {p. \<exists>v \<in> V. translate s True v = Some p}"

text \<open>\<open>k\<close> is \<open>s\<close> after writes to addresses of \<open>U\<close>.\<close>

definition follows :: "addr set \<Rightarrow> 'f machine \<Rightarrow> 'f machine \<Rightarrow> bool" where
  "follows U s k \<longleftrightarrow> (\<exists>m. k = s\<lparr>memory := m\<rparr> \<and> (\<forall>x. x \<notin> own_bytes s U \<longrightarrow> m x = memory s x))"

lemma translate_read: "translate s True v = Some p \<Longrightarrow> translate s False v = Some p"
  by (auto simp: translate_def walk_def usable_def Let_def split: if_splits)

lemma own_bytes_mono: "U \<subseteq> V \<Longrightarrow> own_bytes s U \<subseteq> own_bytes s V"
  by (auto simp: own_bytes_def)

lemma own_okD:
  assumes "own_ok used s V" "v \<in> V"
  shows "\<exists>p. translate s True v = Some p \<and> data_page used s (frame_of p)"
  using assms by (simp add: own_ok_def)

lemma own_bytes_data: "own_ok used s V \<Longrightarrow> x \<in> own_bytes s V \<Longrightarrow> data_page used s (frame_of x)"
  using own_okD by (fastforce simp: own_bytes_def)

text \<open>Another address is another byte.\<close>

lemma own_apart:
  assumes "own_ok used s V" "v \<in> V" "U \<subseteq> V" "v \<notin> U" "translate s True v = Some p" shows "p \<notin> own_bytes s U"
proof
  assume "p \<in> own_bytes s U"
  then obtain u where u: "u \<in> U" "translate s True u = Some p" by (auto simp: own_bytes_def)
  have "inj_on (translate s True) V" using assms(1) by (simp add: own_ok_def)
  then have "u = v" by (rule inj_onD) (use u assms in auto)
  then show False using u(1) assms(4) by simp
qed

section \<open>What they leave alone\<close>

lemma follows_refl [simp]: "follows U s s"
  unfolding follows_def by (intro exI [of _ "memory s"]) simp

lemma follows_mono: "follows U s k \<Longrightarrow> U \<subseteq> V \<Longrightarrow> follows V s k"
  using own_bytes_mono unfolding follows_def by blast

lemma own_off:
  assumes "own_ok used s V" "U \<subseteq> V" "\<forall>x. x \<notin> own_bytes s U \<longrightarrow> m x = memory s x" "table_frame s (frame_of x)"
  shows "m x = memory s x"
proof -
  have "x \<notin> own_bytes s V" using own_bytes_data [OF assms(1)] assms(4) by (auto simp: data_page_def)
  then show ?thesis using assms(3) own_bytes_mono [OF assms(2)] by blast
qed

lemma follows_same:
  assumes inv: "paging_inv used s" and own: "own_ok used s V" and f: "follows U s k" and U: "U \<subseteq> V"
  shows "translate k = translate s" "paging_inv used k" "data_page used k = data_page used s" "own_ok used k V"
    "own_bytes k = own_bytes s" "frames k = frames s" "table_frame k = table_frame s"
    "x \<notin> own_bytes s U \<Longrightarrow> memory k x = memory s x"
proof -
  obtain m where k: "k = s\<lparr>memory := m\<rparr>" and m: "\<forall>x. x \<notin> own_bytes s U \<longrightarrow> m x = memory s x"
    using f by (auto simp: follows_def)
  note o = own_off [OF own U m] and ok = inv [unfolded paging_inv_def, THEN conjunct1]
  show tr: "translate k = translate s" unfolding k by (intro ext off_tables(3) [OF ok o])
  show "paging_inv used k" unfolding k by (rule off_tables_inv(1) [OF inv o])
  show d: "data_page used k = data_page used s" unfolding k by (rule off_tables_inv(2) [OF inv o])
  show "table_frame k = table_frame s" unfolding k by (rule off_tables(4) [OF ok o])
  show "own_ok used k V" using own unfolding own_ok_def tr d .
  show "own_bytes k = own_bytes s" by (simp add: fun_eq_iff own_bytes_def tr)
  show "frames k = frames s" by (simp add: k)
  show "x \<notin> own_bytes s U \<Longrightarrow> memory k x = memory s x" using m by (simp add: k)
qed

lemma follows_trans:
  assumes "paging_inv used s" "own_ok used s V" "follows U s k" "U \<subseteq> V" "follows U k l" shows "follows U s l"
proof -
  note s = follows_same [OF assms(1-4)]
  obtain m where l: "l = k\<lparr>memory := m\<rparr>" "\<forall>x. x \<notin> own_bytes k U \<longrightarrow> m x = memory k x" using assms(5) by (auto simp: follows_def)
  moreover obtain m' where "k = s\<lparr>memory := m'\<rparr>" using assms(3) by (auto simp: follows_def)
  ultimately show ?thesis
    using s(5,8) unfolding follows_def by (intro exI [of _ m]) simp
qed

text \<open>A byte of another page is read as before.\<close>

lemma follows_view:
  assumes "paging_inv used s" "own_ok used s V" "follows U s k" "U \<subseteq> V"
    and "translate s False v = Some p" "p \<notin> own_bytes s U"
  shows "view k v = view s v"
  using follows_same(1) [OF assms(1-4)] follows_same(8) [OF assms(1-4)] assms(5,6) by (simp add: view_def)

section \<open>The writes go through\<close>

definition put :: "'f machine \<Rightarrow> (addr \<times> u8) list \<Rightarrow> mem \<Rightarrow> mem" where
  "put s ws = fold (\<lambda>x m. m(the (translate s True (fst x)) := snd x)) ws"

lemma put_outside:
  assumes "\<And>v. v \<in> fst ` set ws \<Longrightarrow> translate s True v \<noteq> None" "x \<notin> own_bytes s (fst ` set ws)"
  shows "put s ws m x = m x"
  using assms
proof (induction ws arbitrary: m)
  case (Cons w ws)
  obtain p where p: "translate s True (fst w) = Some p" using Cons.prems(1) [of "fst w"] by auto
  then have "x \<noteq> p" using Cons.prems(2) by (auto simp: own_bytes_def)
  moreover have "x \<notin> own_bytes s (fst ` set ws)"
    using Cons.prems(2) own_bytes_mono [of "fst ` set ws" "fst ` set (w # ws)" s] by auto
  ultimately show ?case using Cons.IH Cons.prems(1) p by (simp add: put_def)
qed (simp add: put_def)

lemma own_writes_put:
  assumes inv: "paging_inv used s" and own: "own_ok used s V"
  shows "fst ` set ws \<subseteq> V \<Longrightarrow> follows V s (s\<lparr>memory := m\<rparr>) \<Longrightarrow>
    own_writes ws (s\<lparr>memory := m\<rparr>) = Inr (s\<lparr>memory := put s ws m\<rparr>)"
proof (induction ws arbitrary: m)
  case (Cons w ws)
  let ?k = "s\<lparr>memory := m\<rparr>" and ?m = "m(the (translate s True (fst w)) := snd w)"
  note f = follows_same [OF inv own Cons.prems(2) order.refl]
  have "fst w \<in> V" using Cons.prems(1) by simp
  then obtain p where p: "translate s True (fst w) = Some p" "p \<in> own_bytes s V"
    using own_okD [OF own] by (fastforce simp: own_bytes_def)
  have m: "m x = memory s x" if "x \<notin> own_bytes s V" for x using f(8) [OF that] by simp
  have "?m x = memory s x" if "x \<notin> own_bytes s V" for x using p m that by auto
  then have "follows V s (s\<lparr>memory := ?m\<rparr>)" unfolding follows_def by blast
  moreover have "fst ` set ws \<subseteq> V" using Cons.prems(1) by simp
  ultimately have "own_writes ws (s\<lparr>memory := ?m\<rparr>) = Inr (s\<lparr>memory := put s ws ?m\<rparr>)"
    by (rule Cons.IH [rotated])
  moreover have "vst8 (fst w) (snd w) ?k = Inr (s\<lparr>memory := ?m\<rparr>)"
    using vst8_off [of ?k "fst w" p "snd w"] f(1) p(1) by simp
  moreover have "put s (w # ws) m = put s ws ?m" by (simp add: put_def)
  ultimately show ?case by (simp only: own_writes.simps bind_res.simps)
qed (simp add: put_def)

lemma own_writes_ok:
  assumes inv: "paging_inv used s" and own: "own_ok used s V" and ws: "fst ` set ws \<subseteq> U" "U \<subseteq> V"
  shows "\<exists>k. own_writes ws s = Inr k \<and> follows U s k"
proof -
  have t: "translate s True v \<noteq> None" if "v \<in> fst ` set ws" for v
    using own_okD [OF own, of v] that ws by auto
  have "own_writes ws s = Inr (s\<lparr>memory := put s ws (memory s)\<rparr>)"
    using own_writes_put [OF inv own, of ws "memory s"] ws by simp
  moreover have "follows U s (s\<lparr>memory := put s ws (memory s)\<rparr>)"
    unfolding follows_def
    using put_outside [OF t] own_bytes_mono [OF ws(1), of s]
    by (intro exI [of _ "put s ws (memory s)"]) auto
  ultimately show ?thesis by blast
qed

lemma put_back:
  assumes inj: "inj_on (translate s True) (set vs)" and t: "\<And>v. v \<in> set vs \<Longrightarrow> translate s True v \<noteq> None"
    and v: "v \<in> set vs" "translate s True v = Some p"
  shows "put s (map (\<lambda>v. (v, d v)) vs) m p = d v"
  using assms
proof (induction vs arbitrary: m)
  case (Cons u vs)
  have inj: "inj_on (translate s True) (set vs)" using Cons.prems(1) by (auto simp: inj_on_def)
  show ?case
  proof (cases "v \<in> set vs")
    case True
    then show ?thesis using Cons.IH [OF inj _ True] Cons.prems by (simp add: put_def)
  next
    case False
    then have u: "u = v" using Cons.prems(3) by simp
    have "p \<notin> own_bytes s (set vs)"
    proof
      assume "p \<in> own_bytes s (set vs)"
      then obtain w where w: "w \<in> set vs" "translate s True w = translate s True v"
        using Cons.prems(4) by (auto simp: own_bytes_def)
      have "w = v" using Cons.prems(1) w(2) by (rule inj_onD) (use w(1) Cons.prems(3) in auto)
      then show False using w(1) False by simp
    qed
    moreover have "fst ` set (map (\<lambda>v. (v, d v)) vs) = set vs" by force
    ultimately show ?thesis
      using put_outside [of "map (\<lambda>v. (v, d v)) vs" s p] Cons.prems(2,4) u by (simp add: put_def)
  qed
qed simp

lemma write_back_ok:
  assumes inv: "paging_inv used s" and own: "own_ok used s V" and vs: "set vs \<subseteq> V"
  shows "\<exists>k. write_back vs d s = Inr k \<and> follows (set vs) s k \<and> (\<forall>v \<in> set vs. view k v = d v)"
proof -
  let ?ws = "map (\<lambda>v. (v, d v)) vs"
  have f: "fst ` set ?ws = set vs" by force
  have inj: "inj_on (translate s True) (set vs)"
    using own vs unfolding own_ok_def by (metis inj_on_subset)
  have t: "translate s True v \<noteq> None" if "v \<in> set vs" for v using own_okD [OF own, of v] that vs by auto
  obtain k where k: "own_writes ?ws s = Inr k" "follows (set vs) s k"
    using own_writes_ok [OF inv own, of ?ws "set vs"] vs f by auto
  have "k = s\<lparr>memory := put s ?ws (memory s)\<rparr>"
    using own_writes_put [OF inv own, of ?ws "memory s"] k(1) f vs by simp
  moreover have "translate k = translate s" by (rule follows_same(1) [OF inv own k(2) vs])
  moreover have "view k v = d v" if v: "v \<in> set vs" for v
  proof -
    obtain p where p: "translate s True v = Some p" using t [OF v] by auto
    have "memory k p = d v"
      using put_back [OF inj t v p, of d "memory s"] by (simp add: \<open>k = _\<close>)
    then show ?thesis using translate_read [OF p] \<open>translate k = translate s\<close> by (simp add: view_def)
  qed
  ultimately show ?thesis using k by (auto simp: write_back_def)
qed

lemma own_bytes_region: "x \<notin> own_bytes s (set (region a n)) \<Longrightarrow> k < n \<Longrightarrow> translate s True (a + of_nat k) \<noteq> Some x"
  by (auto simp: own_bytes_def region_def)

lemma vmemset_own:
  assumes inv: "paging_inv used s" and own: "own_ok used s V" and r: "set (region a n) \<subseteq> V"
  shows "\<exists>k. vmemset a c n s = Inr k \<and> follows (set (region a n)) s k"
proof -
  define f where "f k = the (translate s True (a + of_nat k))" for k
  have f: "translate s True (a + of_nat k) = Some (f k) \<and> \<not> table_frame s (frame_of (f k))" if "k < n" for k
  proof -
    have "a + of_nat k \<in> V" using r that by (auto simp: region_def)
    from own_okD [OF own this] show ?thesis by (auto simp: f_def data_page_def)
  qed
  have ok: "machine_ok s" using inv by (simp add: paging_inv_def)
  let ?m = "\<lambda>x. if \<exists>k < n. f k = x then c else memory s x"
  have "vmemset a c n s = Inr (s\<lparr>memory := ?m\<rparr>)" by (rule vmemset_off [OF ok f])
  moreover have "?m x = memory s x" if "x \<notin> own_bytes s (set (region a n))" for x
    using own_bytes_region [OF that] f by auto
  ultimately show ?thesis unfolding follows_def by blast
qed

lemma vmemcpy_own:
  assumes inv: "paging_inv used s" and own: "own_ok used s V" and r: "set (region d n) \<subseteq> V" and n: "n < 2 ^ 32"
    and src: "\<And>k. k < n \<Longrightarrow> \<exists>p. translate s False (v + of_nat k) = Some p \<and> p \<notin> own_bytes s V"
  shows "\<exists>k. vmemcpy d v n s = Inr k \<and> follows (set (region d n)) s k
    \<and> (\<forall>j < n. view k (d + of_nat j) = view s (v + of_nat j))"
proof -
  define f where "f k = the (translate s True (d + of_nat k))" for k
  define g where "g k = the (translate s False (v + of_nat k))" for k
  have dV: "d + of_nat k \<in> V" if "k < n" for k using r that by (auto simp: region_def)
  have f: "translate s True (d + of_nat k) = Some (f k) \<and> \<not> table_frame s (frame_of (f k))" if "k < n" for k
    using own_okD [OF own dV [OF that]] by (auto simp: f_def data_page_def)
  have g: "translate s False (v + of_nat k) = Some (g k)" "g k \<notin> own_bytes s V" if "k < n" for k
    using src [OF that] by (auto simp: g_def)
  have fV: "f k \<in> own_bytes s V" if "k < n" for k using f [OF that] dV [OF that] by (auto simp: own_bytes_def)
  have inj: "inj_on f {..< n}"
  proof (rule inj_onI)
    fix i j assume ij: "i \<in> {..< n}" "j \<in> {..< n}" "f i = f j"
    have "inj_on (translate s True) V" using own by (simp add: own_ok_def)
    moreover have "translate s True (d + of_nat i) = translate s True (d + of_nat j)" using f ij by simp
    ultimately have "d + of_nat i = d + of_nat j" by (rule inj_onD) (use dV ij in simp_all)
    then show "i = j" using ij n by (simp add: of_nat_inj_small)
  qed
  have ok: "machine_ok s" using inv by (simp add: paging_inv_def)
  obtain m where m: "vmemcpy d v n s = Inr (s\<lparr>memory := m\<rparr>)" "\<forall>k < n. m (f k) = memory s (g k)"
      "\<forall>x. (\<forall>k < n. f k \<noteq> x) \<longrightarrow> m x = memory s x"
  proof -
    have "g i \<noteq> f j" if "i < n" "j < n" for i j using g(2) [OF that(1)] fV [OF that(2)] by auto
    from vmemcpy_off [OF ok f g(1) this inj] show thesis using that by blast
  qed
  let ?k = "s\<lparr>memory := m\<rparr>"
  have fol: "follows (set (region d n)) s ?k"
    unfolding follows_def
  proof (intro exI [of _ m] conjI allI impI refl)
    fix x assume "x \<notin> own_bytes s (set (region d n))"
    then have "\<forall>k < n. f k \<noteq> x" using own_bytes_region f by blast
    then show "m x = memory s x" using m(3) by simp
  qed
  have "view ?k (d + of_nat j) = view s (v + of_nat j)" if "j < n" for j
  proof -
    have "translate ?k False (d + of_nat j) = Some (f j)"
      using translate_read [OF conjunct1 [OF f [OF that]]] follows_same(1) [OF inv own fol r] by simp
    then show ?thesis using m(2) g(1) [OF that] that by (simp add: view_def)
  qed
  with m(1) fol show ?thesis by blast
qed

section \<open>Structures that are read meanwhile\<close>

text \<open>The pages in use without those that hold own data.\<close>

definition foreign :: "('f \<Rightarrow> u32 \<Rightarrow> bool) \<Rightarrow> u32 set \<Rightarrow> 'f \<Rightarrow> u32 \<Rightarrow> bool" where
  "foreign used B f b \<longleftrightarrow> used f b \<and> b \<notin> B"

lemma kept_foreign: "kept (foreign used B) s v \<Longrightarrow> kept used s v"
  by (auto simp: kept_def data_page_def foreign_def)

lemma entries_foreign: "entries_at (foreign used B) s a es e \<Longrightarrow> entries_at used s a es e"
  by (induction es arbitrary: a) (auto intro: kept_foreign)

lemma entries_follow:
  assumes inv: "paging_inv used s" and own: "own_ok used s V" and f: "follows V s k"
    and B: "B = frame_of ` own_bytes s V"
  shows "entries_at (foreign used B) s a es e \<Longrightarrow> entries_at (foreign used B) k a es e"
proof (induction es arbitrary: a)
  case (Cons x xs)
  note s = follows_same [OF inv own f order.refl]
  have k: "kept (foreign used B) k v \<and> view k v = view s v" if v: "kept (foreign used B) s v" for v
  proof -
    obtain p where p: "translate s False v = Some p" "data_page (foreign used B) s (frame_of p)"
      using v by (auto simp: kept_def)
    then have "p \<notin> own_bytes s V" by (auto simp: data_page_def foreign_def B)
    then have "view k v = view s v" by (rule follows_view [OF inv own f order.refl p(1)])
    moreover have "data_page (foreign used B) k (frame_of p)"
      using p(2) by (simp add: data_page_def foreign_def s(6,7))
    ultimately show ?thesis using v p(1) by (simp add: kept_def s(1))
  qed
  have "ld_mmap (view k) a = ld_mmap (view s) a"
    by (rule ld_mmap_cong) (use Cons.prems k in auto)
  then show ?case using Cons.prems Cons.IH k by auto
qed simp

text \<open>The mapping of the strip.\<close>

lemma own_ok_maps:
  assumes mp: "maps_pages used s s' ARCH_KMALLOC_BASE n q ok" and n: "n \<le> 0x20000" and own: "own_ok used s V"
  shows "own_ok used s' V" "\<And>U. U \<subseteq> V \<Longrightarrow> own_bytes s' U = own_bytes s U"
proof -
  have t: "translate s' w v = translate s w v" if "v \<in> V" for w v
    using own that mp n by (auto simp: own_ok_def maps_pages_def)
  have "inj_on (translate s' True) V = inj_on (translate s True) V" by (rule inj_on_cong) (simp add: t)
  moreover have "data_page used s e \<Longrightarrow> data_page used s' e" for e using mp by (simp add: maps_pages_def)
  ultimately show "own_ok used s' V" using own unfolding own_ok_def by (metis t)
  show "own_bytes s' U = own_bytes s U" if "U \<subseteq> V" for U using t that by (auto simp: own_bytes_def subset_iff)
qed

end
