(* ===== verification/Cpuid.thy ===== *)
theory Cpuid
  imports Memory
begin

text \<open>
  Processor identification: \<open>include/arch/x86/cpu.h\<close> and \<open>arch/x86/cpu.cc\<close>. The instruction is a
  parameter \<open>cpuid\<close>, the answer for a leaf in \<open>EAX\<close> and a subleaf in \<open>ECX\<close>; the code stores the answers in two
  arrays and looks features up there.
\<close>

section \<open>Vendors\<close>

definition CPUID_VENDOR_AMD :: string where "CPUID_VENDOR_AMD = ''AuthenticAMD''"
definition CPUID_VENDOR_INTEL :: string where "CPUID_VENDOR_INTEL = ''GenuineIntel''"
definition CPUID_VENDOR_AMD_K5 :: string where "CPUID_VENDOR_AMD_K5 = ''AMDisbetter!''"
definition CPUID_VENDOR_CENTAUR :: string where "CPUID_VENDOR_CENTAUR = ''CentaurHauls''"
definition CPUID_VENDOR_CYRIX :: string where "CPUID_VENDOR_CYRIX = ''CyrixInstead''"
definition CPUID_VENDOR_TRANSMETA1 :: string where "CPUID_VENDOR_TRANSMETA1 = ''TransmetaCPU''"
definition CPUID_VENDOR_TRANSMETA2 :: string where "CPUID_VENDOR_TRANSMETA2 = ''GenuineTMx86''"
definition CPUID_VENDOR_NATSEMICON :: string where "CPUID_VENDOR_NATSEMICON = ''Geode by NSC''"
definition CPUID_VENDOR_NEXGEN :: string where "CPUID_VENDOR_NEXGEN = ''NexGenDriven''"
definition CPUID_VENDOR_RISE :: string where "CPUID_VENDOR_RISE = ''RiseRiseRise''"
definition CPUID_VENDOR_SIS :: string where "CPUID_VENDOR_SIS = ''SiS SiS SiS ''"
definition CPUID_VENDOR_UMC :: string where "CPUID_VENDOR_UMC = ''UMC UMC UMC ''"
definition CPUID_VENDOR_VIA :: string where "CPUID_VENDOR_VIA = ''VIA VIA VIA ''"
definition CPUID_VENDOR_VORTEX :: string where "CPUID_VENDOR_VORTEX = ''Vortex86 SoC''"
definition CPUID_VENDOR_KVM :: string where "CPUID_VENDOR_KVM = ''KVMKVMKVM''"
definition CPUID_VENDOR_MSHYPERV :: string where "CPUID_VENDOR_MSHYPERV = ''Microsoft HV''"
definition CPUID_VENDOR_PARALLELS :: string where "CPUID_VENDOR_PARALLELS = '' lrpepyh vr''"
definition CPUID_VENDOR_VMWARE :: string where "CPUID_VENDOR_VMWARE = ''VMwareVMWare''"
definition CPUID_VENDOR_XENVMM :: string where "CPUID_VENDOR_XENVMM = ''XenVMMXenVMM''"

datatype cpu_vendor = x86_VENDOR_UNKNOWN | x86_VENDOR_AMD | x86_VENDOR_INTEL

section \<open>Leaves\<close>

definition MAX_SUPPORTED_CPUID :: u32 where "MAX_SUPPORTED_CPUID = 0xD"
definition MAX_SUPPORTED_CPUID_EXT :: u32 where "MAX_SUPPORTED_CPUID_EXT = 0x8000001E"
definition CPUID_BASE :: u32 where "CPUID_BASE = 0x0"
definition CPUID_MODEL_FEAT :: u32 where "CPUID_MODEL_FEAT = 0x1"
definition CPUID_CACHE_V0 :: u32 where "CPUID_CACHE_V0 = 0x2"
definition CPUID_CACHE_V1 :: u32 where "CPUID_CACHE_V1 = 0x3"
definition CPUID_CACHE3 :: u32 where "CPUID_CACHE3 = 0x4"
definition CPUID_MWAIT :: u32 where "CPUID_MWAIT = 0x5"
definition CPUID_THERM :: u32 where "CPUID_THERM = 0x6"
definition CPUID_EXT_FEAT :: u32 where "CPUID_EXT_FEAT = 0x7"
definition CPUID_PERF :: u32 where "CPUID_PERF = 0xA"
definition CPUID_TOPOLOGY :: u32 where "CPUID_TOPOLOGY = 0xB"
definition CPUID_XSAVE :: u32 where "CPUID_XSAVE = 0xD"
definition CPUID_EXT_BASE :: u32 where "CPUID_EXT_BASE = 0x80000000"
definition CPUID_EXT_MODEL_FEAT :: u32 where "CPUID_EXT_MODEL_FEAT = 0x80000001"
definition CPUID_EXT_CACHE :: u32 where "CPUID_EXT_CACHE = 0x80000006"
definition CPUID_EXT_ADDR_SIZE :: u32 where "CPUID_EXT_ADDR_SIZE = 0x80000008"
definition CPUID_EXT_AMD_TOPO :: u32 where "CPUID_EXT_AMD_TOPO = 0x8000001E"

record cpuid_leaf =
  leaf_a :: u32
  leaf_b :: u32
  leaf_c :: u32
  leaf_d :: u32

record cpuid_bit =
  cb_leaf :: u32
  cb_word :: u8
  cb_bit :: u8

definition CPUID_BIT :: "u32 \<Rightarrow> u8 \<Rightarrow> u8 \<Rightarrow> cpuid_bit" where
  "CPUID_BIT l w b = \<lparr>cb_leaf = l, cb_word = w, cb_bit = b\<rparr>"

section \<open>Features\<close>

definition x86_FEATURE_SSE3 :: cpuid_bit where "x86_FEATURE_SSE3 = CPUID_BIT CPUID_MODEL_FEAT 2 0"
definition x86_FEATURE_MONITOR :: cpuid_bit where "x86_FEATURE_MONITOR = CPUID_BIT CPUID_MODEL_FEAT 2 3"
definition x86_FEATURE_SSSE3 :: cpuid_bit where "x86_FEATURE_SSSE3 = CPUID_BIT CPUID_MODEL_FEAT 2 9"
definition x86_FEATURE_SSE4_1 :: cpuid_bit where "x86_FEATURE_SSE4_1 = CPUID_BIT CPUID_MODEL_FEAT 2 19"
definition x86_FEATURE_SSE4_2 :: cpuid_bit where "x86_FEATURE_SSE4_2 = CPUID_BIT CPUID_MODEL_FEAT 2 20"
definition x86_FEATURE_AES :: cpuid_bit where "x86_FEATURE_AES = CPUID_BIT CPUID_MODEL_FEAT 2 25"
definition x86_FEATURE_XSAVE :: cpuid_bit where "x86_FEATURE_XSAVE = CPUID_BIT CPUID_MODEL_FEAT 2 26"
definition x86_FEATURE_OSXSAVE :: cpuid_bit where "x86_FEATURE_OSXSAVE = CPUID_BIT CPUID_MODEL_FEAT 2 27"
definition x86_FEATURE_AVX :: cpuid_bit where "x86_FEATURE_AVX = CPUID_BIT CPUID_MODEL_FEAT 2 28"
definition x86_FEATURE_RDRAND :: cpuid_bit where "x86_FEATURE_RDRAND = CPUID_BIT CPUID_MODEL_FEAT 2 30"
definition x86_FEATURE_FPU :: cpuid_bit where "x86_FEATURE_FPU = CPUID_BIT CPUID_MODEL_FEAT 3 0"
definition x86_FEATURE_VME :: cpuid_bit where "x86_FEATURE_VME = CPUID_BIT CPUID_MODEL_FEAT 3 1"
definition x86_FEATURE_PSE :: cpuid_bit where "x86_FEATURE_PSE = CPUID_BIT CPUID_MODEL_FEAT 3 3"
definition x86_FEATURE_PAE :: cpuid_bit where "x86_FEATURE_PAE = CPUID_BIT CPUID_MODEL_FEAT 3 6"
definition x86_FEATURE_APIC :: cpuid_bit where "x86_FEATURE_APIC = CPUID_BIT CPUID_MODEL_FEAT 3 9"
definition x86_FEATURE_SYSENTEREXIT :: cpuid_bit where "x86_FEATURE_SYSENTEREXIT = CPUID_BIT CPUID_MODEL_FEAT 3 11"
definition x86_FEATURE_PGE :: cpuid_bit where "x86_FEATURE_PGE = CPUID_BIT CPUID_MODEL_FEAT 3 13"
definition x86_FEATURE_PSE36 :: cpuid_bit where "x86_FEATURE_PSE36 = CPUID_BIT CPUID_MODEL_FEAT 3 17"
definition x86_FEATURE_CLFLUSH :: cpuid_bit where "x86_FEATURE_CLFLUSH = CPUID_BIT CPUID_MODEL_FEAT 3 19"
definition x86_FEATURE_MMX :: cpuid_bit where "x86_FEATURE_MMX = CPUID_BIT CPUID_MODEL_FEAT 3 23"
definition x86_FEATURE_FXSR :: cpuid_bit where "x86_FEATURE_FXSR = CPUID_BIT CPUID_MODEL_FEAT 3 24"
definition x86_FEATURE_SSE :: cpuid_bit where "x86_FEATURE_SSE = CPUID_BIT CPUID_MODEL_FEAT 3 25"
definition x86_FEATURE_SSE2 :: cpuid_bit where "x86_FEATURE_SSE2 = CPUID_BIT CPUID_MODEL_FEAT 3 26"
definition x86_FEATURE_TM :: cpuid_bit where "x86_FEATURE_TM = CPUID_BIT CPUID_MODEL_FEAT 3 29"
definition x86_FEATURE_HTT :: cpuid_bit where "x86_FEATURE_HTT = CPUID_BIT CPUID_MODEL_FEAT 3 28"
definition x86_FEATURE_SYSCALL :: cpuid_bit where "x86_FEATURE_SYSCALL = CPUID_BIT CPUID_EXT_MODEL_FEAT 3 11"
definition x86_FEATURE_NX :: cpuid_bit where "x86_FEATURE_NX = CPUID_BIT CPUID_EXT_MODEL_FEAT 3 20"
definition x86_FEATURE_LONGMODE :: cpuid_bit where "x86_FEATURE_LONGMODE = CPUID_BIT CPUID_EXT_MODEL_FEAT 4 29"
definition IA_FEATURE_VMX :: cpuid_bit where "IA_FEATURE_VMX = CPUID_BIT CPUID_MODEL_FEAT 2 5"
definition IA_FEATURE_TM2 :: cpuid_bit where "IA_FEATURE_TM2 = CPUID_BIT CPUID_MODEL_FEAT 2 8"
definition IA_FEATURE_PDCM :: cpuid_bit where "IA_FEATURE_PDCM = CPUID_BIT CPUID_MODEL_FEAT 2 15"
definition IA_FEATURE_PCID :: cpuid_bit where "IA_FEATURE_PCID = CPUID_BIT CPUID_MODEL_FEAT 2 17"
definition IA_FEATURE_X2APIC :: cpuid_bit where "IA_FEATURE_X2APIC = CPUID_BIT CPUID_MODEL_FEAT 2 21"
definition IA_FEATURE_TSCDEADLINE :: cpuid_bit where "IA_FEATURE_TSCDEADLINE = CPUID_BIT CPUID_MODEL_FEAT 2 24"
definition IA_FEATURE_ACPI :: cpuid_bit where "IA_FEATURE_ACPI = CPUID_BIT CPUID_MODEL_FEAT 3 22"
definition IA_FEATURE_DTES64 :: cpuid_bit where "IA_FEATURE_DTES64 = CPUID_BIT CPUID_MODEL_FEAT 2 2"
definition IA_FEATURE_DSCPL :: cpuid_bit where "IA_FEATURE_DSCPL = CPUID_BIT CPUID_MODEL_FEAT 2 4"
definition IA_FEATURE_SMX :: cpuid_bit where "IA_FEATURE_SMX = CPUID_BIT CPUID_MODEL_FEAT 2 6"
definition IA_FEATURE_EIST :: cpuid_bit where "IA_FEATURE_EIST = CPUID_BIT CPUID_MODEL_FEAT 2 7"
definition IA_FEATURE_CNXTID :: cpuid_bit where "IA_FEATURE_CNXTID = CPUID_BIT CPUID_MODEL_FEAT 2 10"
definition IA_FEATURE_SDBG :: cpuid_bit where "IA_FEATURE_SDBG = CPUID_BIT CPUID_MODEL_FEAT 2 11"
definition IA_FEATURE_XTPRUPDATECTRL :: cpuid_bit where "IA_FEATURE_XTPRUPDATECTRL = CPUID_BIT CPUID_MODEL_FEAT 2 14"
definition IA_FEATURE_DCA :: cpuid_bit where "IA_FEATURE_DCA = CPUID_BIT CPUID_MODEL_FEAT 2 18"
definition IA_FEATURE_PSN :: cpuid_bit where "IA_FEATURE_PSN = CPUID_BIT CPUID_MODEL_FEAT 3 18"
definition IA_FEATURE_DS :: cpuid_bit where "IA_FEATURE_DS = CPUID_BIT CPUID_MODEL_FEAT 3 21"
definition IA_FEATURE_PBE :: cpuid_bit where "IA_FEATURE_PBE = CPUID_BIT CPUID_MODEL_FEAT 3 31"
definition AMD_FEATURE_HYP :: cpuid_bit where "AMD_FEATURE_HYP = CPUID_BIT CPUID_MODEL_FEAT 2 31"
definition AMD_FEATURE_TOPO :: cpuid_bit where "AMD_FEATURE_TOPO = CPUID_BIT CPUID_EXT_MODEL_FEAT 2 22"
definition x86_FEATURE_PCMULQDQ :: cpuid_bit where "x86_FEATURE_PCMULQDQ = CPUID_BIT CPUID_MODEL_FEAT 2 1"
definition x86_FEATURE_FMA :: cpuid_bit where "x86_FEATURE_FMA = CPUID_BIT CPUID_MODEL_FEAT 2 12"
definition x86_FEATURE_CMPXCHG16B :: cpuid_bit where "x86_FEATURE_CMPXCHG16B = CPUID_BIT CPUID_MODEL_FEAT 2 13"
definition x86_FEATURE_MOVBE :: cpuid_bit where "x86_FEATURE_MOVBE = CPUID_BIT CPUID_MODEL_FEAT 2 22"
definition x86_FEATURE_POPCNT :: cpuid_bit where "x86_FEATURE_POPCNT = CPUID_BIT CPUID_MODEL_FEAT 2 23"
definition x86_FEATURE_F16C :: cpuid_bit where "x86_FEATURE_F16C = CPUID_BIT CPUID_MODEL_FEAT 2 29"
definition x86_FEATURE_CMPXCHG8B :: cpuid_bit where "x86_FEATURE_CMPXCHG8B = CPUID_BIT CPUID_MODEL_FEAT 3 8"
definition x86_FEATURE_CMOV :: cpuid_bit where "x86_FEATURE_CMOV = CPUID_BIT CPUID_MODEL_FEAT 3 15"
definition x86_FEATURE_DE :: cpuid_bit where "x86_FEATURE_DE = CPUID_BIT CPUID_MODEL_FEAT 3 2"
definition x86_FEATURE_TSC :: cpuid_bit where "x86_FEATURE_TSC = CPUID_BIT CPUID_MODEL_FEAT 3 4"
definition x86_FEATURE_MSR :: cpuid_bit where "x86_FEATURE_MSR = CPUID_BIT CPUID_MODEL_FEAT 3 5"
definition x86_FEATURE_MCE :: cpuid_bit where "x86_FEATURE_MCE = CPUID_BIT CPUID_MODEL_FEAT 3 7"
definition x86_FEATURE_MTRR :: cpuid_bit where "x86_FEATURE_MTRR = CPUID_BIT CPUID_MODEL_FEAT 3 12"
definition x86_FEATURE_MCA :: cpuid_bit where "x86_FEATURE_MCA = CPUID_BIT CPUID_MODEL_FEAT 3 14"
definition x86_FEATURE_PAT :: cpuid_bit where "x86_FEATURE_PAT = CPUID_BIT CPUID_MODEL_FEAT 3 16"

section \<open>Reading the answers\<close>

record cpu_info =
  cpuid_tab :: "nat \<Rightarrow> cpuid_leaf"
  cpuid_ext_tab :: "nat \<Rightarrow> cpuid_leaf"
  max_cpuid :: u32
  max_ext_cpuid :: u32
  x86_vendor :: cpu_vendor

definition word_bytes :: "u32 \<Rightarrow> u8 list" where
  "word_bytes w = [ucast w, ucast (drop_bit 8 w), ucast (drop_bit 16 w), ucast (drop_bit 24 w)]"

text \<open>\<open>!memcmp(v.vendor, s, 12)\<close> on the bytes of the three words.\<close>

definition vendor_is :: "u32 list \<Rightarrow> string \<Rightarrow> bool" where
  "vendor_is ids s \<longleftrightarrow> concat (map word_bytes ids) = map of_char s"

text \<open>The extended loop; its array has 31 entries.\<close>

function ext_loop :: "(u32 \<Rightarrow> u32 \<Rightarrow> cpuid_leaf) \<Rightarrow> u32 \<Rightarrow> nat \<Rightarrow> (nat \<Rightarrow> cpuid_leaf) \<Rightarrow> kerror + (nat \<Rightarrow> cpuid_leaf)" where
  "ext_loop cpuid n i tab =
     (if i - 1 < unat n then
        if i > 30 then Inl Out_of_bounds
        else ext_loop cpuid n (Suc i) (tab(i := cpuid (of_nat i + CPUID_EXT_BASE) 0))
      else Inr tab)"
  by pat_completeness auto
termination by (relation "measure (\<lambda>(cpuid, n, i, tab). 31 - i)") auto

text \<open>\<open>ecx\<close> is what that register holds when a leaf without subleaves is asked for.\<close>

definition cpuid_max :: "u32 \<Rightarrow> u32 \<Rightarrow> u32" where
  "cpuid_max cap n = (if n > cap then cap else n)"

definition vendor_of :: "(nat \<Rightarrow> cpuid_leaf) \<Rightarrow> cpu_vendor" where
  "vendor_of tab =
     (let ids = [leaf_b (tab 0), leaf_c (tab 1), leaf_d (tab 2)] in
      if vendor_is ids CPUID_VENDOR_INTEL then x86_VENDOR_INTEL
      else if vendor_is ids CPUID_VENDOR_AMD then x86_VENDOR_AMD else x86_VENDOR_UNKNOWN)"

definition x86_cpuid_init :: "(u32 \<Rightarrow> u32 \<Rightarrow> cpuid_leaf) \<Rightarrow> u32 \<Rightarrow> cpu_info \<Rightarrow> kerror + cpu_info" where
  "x86_cpuid_init cpuid ecx s =
     (let tab = (cpuid_tab s)(0 := cpuid CPUID_BASE ecx);
          maxc = cpuid_max MAX_SUPPORTED_CPUID (leaf_a (tab 0));
          tab = fold (\<lambda>i t. t(i := cpuid (of_nat i) 0)) [1 ..< Suc (unat maxc)] tab;
          ext = (cpuid_ext_tab s)(0 := cpuid CPUID_EXT_BASE ecx);
          maxe = cpuid_max MAX_SUPPORTED_CPUID_EXT (leaf_a (ext 0))
      in bind_res (ext_loop cpuid (maxe - CPUID_EXT_BASE) 1 ext) (\<lambda>ext.
           Inr (s\<lparr>cpuid_tab := tab, cpuid_ext_tab := ext, max_cpuid := maxc, max_ext_cpuid := maxe,
                  x86_vendor := vendor_of tab\<rparr>)))"

definition x86_cpuid_leaf :: "cpu_info \<Rightarrow> u32 \<Rightarrow> cpuid_leaf option" where
  "x86_cpuid_leaf s leaf =
     (if leaf \<le> max_cpuid s then Some (cpuid_tab s (unat leaf))
      else if leaf \<ge> CPUID_EXT_BASE \<and> leaf \<le> max_ext_cpuid s then Some (cpuid_ext_tab s (unat (leaf - CPUID_EXT_BASE)))
      else None)"

definition x86_feature_test :: "cpu_info \<Rightarrow> cpuid_bit \<Rightarrow> bool" where
  "x86_feature_test s b =
     (if cb_word b > 3 \<or> cb_bit b > 31 then False
      else case x86_cpuid_leaf s (cb_leaf b) of
          None \<Rightarrow> False
        | Some leaf \<Rightarrow>
            if cb_word b = 0 then push_bit (unat (cb_bit b)) 1 AND leaf_a leaf \<noteq> 0
            else if cb_word b = 1 then push_bit (unat (cb_bit b)) 1 AND leaf_b leaf \<noteq> 0
            else if cb_word b = 2 then push_bit (unat (cb_bit b)) 1 AND leaf_c leaf \<noteq> 0
            else if cb_word b = 3 then push_bit (unat (cb_bit b)) 1 AND leaf_d leaf \<noteq> 0
            else False)"

definition x86_linear_addresss_width :: "cpu_info \<Rightarrow> u8" where
  "x86_linear_addresss_width s = (case x86_cpuid_leaf s CPUID_EXT_ADDR_SIZE of
     None \<Rightarrow> 0 | Some leaf \<Rightarrow> ucast (drop_bit 8 (leaf_a leaf) AND 0xFF))"

definition x86_physical_addresss_width :: "cpu_info \<Rightarrow> u8" where
  "x86_physical_addresss_width s = (case x86_cpuid_leaf s CPUID_EXT_ADDR_SIZE of
     None \<Rightarrow> 0 | Some leaf \<Rightarrow> ucast (leaf_a leaf AND 0xFF))"

definition x86_get_clflush_line_size :: "cpu_info \<Rightarrow> u8" where
  "x86_get_clflush_line_size s = (case x86_cpuid_leaf s CPUID_MODEL_FEAT of
     None \<Rightarrow> 0 | Some leaf \<Rightarrow> ucast ((drop_bit 8 (leaf_a leaf) AND 0xFF) * 8))"

section \<open>The features of the header\<close>

lemmas feature_defs =
  x86_FEATURE_SSE3_def x86_FEATURE_MONITOR_def x86_FEATURE_SSSE3_def x86_FEATURE_SSE4_1_def
  x86_FEATURE_SSE4_2_def x86_FEATURE_AES_def x86_FEATURE_XSAVE_def x86_FEATURE_OSXSAVE_def
  x86_FEATURE_AVX_def x86_FEATURE_RDRAND_def x86_FEATURE_FPU_def x86_FEATURE_VME_def
  x86_FEATURE_PSE_def x86_FEATURE_PAE_def x86_FEATURE_APIC_def x86_FEATURE_SYSENTEREXIT_def
  x86_FEATURE_PGE_def x86_FEATURE_PSE36_def x86_FEATURE_CLFLUSH_def x86_FEATURE_MMX_def
  x86_FEATURE_FXSR_def x86_FEATURE_SSE_def x86_FEATURE_SSE2_def x86_FEATURE_TM_def
  x86_FEATURE_HTT_def x86_FEATURE_SYSCALL_def x86_FEATURE_NX_def x86_FEATURE_LONGMODE_def
  IA_FEATURE_VMX_def IA_FEATURE_TM2_def IA_FEATURE_PDCM_def IA_FEATURE_PCID_def
  IA_FEATURE_X2APIC_def IA_FEATURE_TSCDEADLINE_def IA_FEATURE_ACPI_def IA_FEATURE_DTES64_def
  IA_FEATURE_DSCPL_def IA_FEATURE_SMX_def IA_FEATURE_EIST_def IA_FEATURE_CNXTID_def
  IA_FEATURE_SDBG_def IA_FEATURE_XTPRUPDATECTRL_def IA_FEATURE_DCA_def IA_FEATURE_PSN_def
  IA_FEATURE_DS_def IA_FEATURE_PBE_def AMD_FEATURE_HYP_def AMD_FEATURE_TOPO_def
  x86_FEATURE_PCMULQDQ_def x86_FEATURE_FMA_def x86_FEATURE_CMPXCHG16B_def x86_FEATURE_MOVBE_def
  x86_FEATURE_POPCNT_def x86_FEATURE_F16C_def x86_FEATURE_CMPXCHG8B_def x86_FEATURE_CMOV_def
  x86_FEATURE_DE_def x86_FEATURE_TSC_def x86_FEATURE_MSR_def x86_FEATURE_MCE_def
  x86_FEATURE_MTRR_def x86_FEATURE_MCA_def x86_FEATURE_PAT_def

section \<open>The loops\<close>

declare ext_loop.simps [simp del]

lemma ext_loop_fits:
  assumes "unat n \<le> 30"
  shows "1 \<le> i \<Longrightarrow> ext_loop cpuid n i tab =
    Inr (\<lambda>j. if i \<le> j \<and> j \<le> unat n then cpuid (of_nat j + CPUID_EXT_BASE) 0 else tab j)"
proof (induction "31 - i" arbitrary: i tab rule: less_induct)
  case less
  show ?case
  proof (cases "i - 1 < unat n")
    case True
    then have i: "i \<le> 30" "\<not> i > 30" using assms by simp_all
    have "ext_loop cpuid n (Suc i) (tab(i := cpuid (of_nat i + CPUID_EXT_BASE) 0)) =
        Inr (\<lambda>j. if Suc i \<le> j \<and> j \<le> unat n then cpuid (of_nat j + CPUID_EXT_BASE) 0
          else (tab(i := cpuid (of_nat i + CPUID_EXT_BASE) 0)) j)"
      by (rule less.hyps) (use i in simp_all)
    then show ?thesis
      using True i(2) less.prems by (subst ext_loop.simps) (auto simp: fun_eq_iff)
  next
    case False
    then show ?thesis using less.prems by (subst ext_loop.simps) (auto simp: fun_eq_iff)
  qed
qed

lemma ext_loop_overrun:
  assumes "30 < unat n"
  shows "i \<le> 31 \<Longrightarrow> ext_loop cpuid n i tab = Inl Out_of_bounds"
proof (induction "31 - i" arbitrary: i tab rule: less_induct)
  case less
  show ?case
  proof (cases "i > 30")
    case True
    then show ?thesis using assms less.prems by (subst ext_loop.simps) simp
  next
    case False
    then have "ext_loop cpuid n (Suc i) (tab(i := cpuid (of_nat i + CPUID_EXT_BASE) 0)) = Inl Out_of_bounds"
      by (intro less.hyps) simp_all
    then show ?thesis using False assms by (subst ext_loop.simps) simp
  qed
qed

lemma ext_count:
  fixes m :: u32
  defines "e \<equiv> cpuid_max MAX_SUPPORTED_CPUID_EXT m"
  shows "m \<ge> CPUID_EXT_BASE \<Longrightarrow> unat (e - CPUID_EXT_BASE) \<le> 30 \<and> e \<ge> CPUID_EXT_BASE"
    and "m < CPUID_EXT_BASE \<Longrightarrow> 30 < unat (e - CPUID_EXT_BASE)"
proof -
  note defs = MAX_SUPPORTED_CPUID_EXT_def CPUID_EXT_BASE_def
  show "unat (e - CPUID_EXT_BASE) \<le> 30 \<and> e \<ge> CPUID_EXT_BASE" if "m \<ge> CPUID_EXT_BASE"
  proof -
    have e: "e \<ge> CPUID_EXT_BASE" "e \<le> MAX_SUPPORTED_CPUID_EXT" using that by (auto simp: e_def cpuid_max_def defs)
    then have "unat (e - CPUID_EXT_BASE) = unat e - unat CPUID_EXT_BASE" by (intro unat_sub)
    then show ?thesis using e by (simp add: defs word_le_nat_alt)
  qed
  show "30 < unat (e - CPUID_EXT_BASE)" if "m < CPUID_EXT_BASE"
  proof -
    have "unat m < 2147483648" using that by (simp add: defs word_less_nat_alt)
    moreover have "e = m" using that by (auto simp: e_def cpuid_max_def defs word_less_nat_alt)
    moreover have "unat m < 2147483648" by fact
    then have "unat (m - 0x80000000) = 2147483648 + unat m"
      by (simp add: unat_sub_if_size word_size)
    ultimately show ?thesis by (simp add: defs)
  qed
qed

lemma fold_tab:
  "fold (\<lambda>i t. t(i := f i)) [Suc 0 ..< Suc n] tab = (\<lambda>j. if 1 \<le> j \<and> j \<le> n then f j else tab j)"
proof -
  have "fold (\<lambda>i t. t(i := f i)) [Suc 0 ..< m] tab = (\<lambda>j. if 1 \<le> j \<and> j < m then f j else tab j)" for m
    by (induction m) (auto simp: fun_eq_iff less_Suc_eq)
  then show ?thesis by (simp only: less_Suc_eq_le)
qed

section \<open>Looking leaves up\<close>

definition reg_of :: "cpuid_leaf \<Rightarrow> u8 \<Rightarrow> u32" where
  "reg_of l w = (if w = 0 then leaf_a l else if w = 1 then leaf_b l else if w = 2 then leaf_c l else leaf_d l)"

text \<open>The leaves the arrays hold: what the processor reports, cut off at the sizes of the arrays.\<close>

definition cached :: "(u32 \<Rightarrow> u32 \<Rightarrow> cpuid_leaf) \<Rightarrow> u32 \<Rightarrow> u32 \<Rightarrow> bool" where
  "cached cpuid ecx l \<longleftrightarrow>
     l \<le> leaf_a (cpuid CPUID_BASE ecx) \<and> l \<le> MAX_SUPPORTED_CPUID
     \<or> CPUID_EXT_BASE \<le> l \<and> l \<le> leaf_a (cpuid CPUID_EXT_BASE ecx) \<and> l \<le> MAX_SUPPORTED_CPUID_EXT"

lemma cpuid_init_ok:
  assumes "x86_cpuid_init cpuid ecx s = Inr s'"
  shows "CPUID_EXT_BASE \<le> leaf_a (cpuid CPUID_EXT_BASE ecx)"
proof (rule ccontr)
  assume "\<not> CPUID_EXT_BASE \<le> leaf_a (cpuid CPUID_EXT_BASE ecx)"
  then have "leaf_a (cpuid CPUID_EXT_BASE ecx) < CPUID_EXT_BASE" by simp
  from ext_loop_overrun [OF ext_count(2) [OF this], of 1] assms show False
    by (simp add: x86_cpuid_init_def Let_def)
qed

lemma leaf_cached:
  assumes "x86_cpuid_init cpuid ecx s = Inr s'"
  shows "x86_cpuid_leaf s' l = (if cached cpuid ecx l then
      Some (cpuid l (if l = CPUID_BASE \<or> l = CPUID_EXT_BASE then ecx else 0)) else None)"
proof -
  let ?a = "leaf_a (cpuid CPUID_BASE ecx)" and ?e = "leaf_a (cpuid CPUID_EXT_BASE ecx)"
  let ?maxc = "cpuid_max MAX_SUPPORTED_CPUID ?a"
  let ?maxe = "cpuid_max MAX_SUPPORTED_CPUID_EXT ?e"
  have e: "unat (?maxe - CPUID_EXT_BASE) \<le> 30" "?maxe \<ge> CPUID_EXT_BASE"
    using ext_count(1) [OF cpuid_init_ok [OF assms]] by simp_all
  have s': "max_cpuid s' = ?maxc" "max_ext_cpuid s' = ?maxe"
    "cpuid_tab s' = (\<lambda>j. if 1 \<le> j \<and> j \<le> unat ?maxc then cpuid (of_nat j) 0
        else ((cpuid_tab s)(0 := cpuid CPUID_BASE ecx)) j)"
    "cpuid_ext_tab s' = (\<lambda>j. if 1 \<le> j \<and> j \<le> unat (?maxe - CPUID_EXT_BASE) then cpuid (of_nat j + CPUID_EXT_BASE) 0
        else ((cpuid_ext_tab s)(0 := cpuid CPUID_EXT_BASE ecx)) j)"
    using assms unfolding x86_cpuid_init_def Let_def
    by (auto simp: fold_tab ext_loop_fits [OF e(1)] simp del: upt_Suc)
  have base: "x86_cpuid_leaf s' l = Some (cpuid l (if l = CPUID_BASE then ecx else 0))" if l: "l \<le> ?maxc"
  proof -
    have "unat l \<le> unat ?maxc" using l by (simp add: word_le_nat_alt)
    moreover have "l = 0 \<longleftrightarrow> unat l = 0" by (simp add: unat_eq_0)
    ultimately show ?thesis using l by (auto simp: x86_cpuid_leaf_def s' CPUID_BASE_def)
  qed
  have ext: "x86_cpuid_leaf s' l = Some (cpuid l (if l = CPUID_EXT_BASE then ecx else 0))"
    if l: "\<not> l \<le> ?maxc" "CPUID_EXT_BASE \<le> l" "l \<le> ?maxe"
  proof -
    have "unat (l - CPUID_EXT_BASE) \<le> unat (?maxe - CPUID_EXT_BASE)"
      using l(2,3) e(2) by (simp add: unat_sub word_le_nat_alt diff_le_mono)
    moreover have "l = CPUID_EXT_BASE \<longleftrightarrow> unat (l - CPUID_EXT_BASE) = 0" by (simp add: unat_eq_0)
    ultimately show ?thesis using l by (auto simp: x86_cpuid_leaf_def s')
  qed
  have out: "x86_cpuid_leaf s' l = None" if "\<not> l \<le> ?maxc" "\<not> (CPUID_EXT_BASE \<le> l \<and> l \<le> ?maxe)"
    using that by (auto simp: x86_cpuid_leaf_def s')
  have c: "l \<le> ?maxc \<longleftrightarrow> l \<le> ?a \<and> l \<le> MAX_SUPPORTED_CPUID" "l \<le> ?maxe \<longleftrightarrow> l \<le> ?e \<and> l \<le> MAX_SUPPORTED_CPUID_EXT"
    by (auto simp: cpuid_max_def)
  have "l \<noteq> CPUID_EXT_BASE" if "l \<le> ?maxc"
  proof -
    have "l \<le> 0xD" using that unfolding c by (simp add: MAX_SUPPORTED_CPUID_def)
    then show ?thesis by (auto simp: CPUID_EXT_BASE_def)
  qed
  moreover have "l \<noteq> CPUID_BASE" if "\<not> l \<le> ?maxc"
    using that by (auto simp: CPUID_BASE_def)
  moreover have "cached cpuid ecx l \<longleftrightarrow> l \<le> ?maxc \<or> CPUID_EXT_BASE \<le> l \<and> l \<le> ?maxe"
    unfolding cached_def c by auto
  ultimately show ?thesis
    using base ext out by (cases "l \<le> ?maxc"; cases "CPUID_EXT_BASE \<le> l \<and> l \<le> ?maxe") simp_all
qed

section \<open>Features\<close>

lemma exp_and: "2 ^ n AND (x :: u32) = 0 \<longleftrightarrow> \<not> bit x n"
  by (simp add: and.commute and_exp_eq_0_iff_not_bit)

text \<open>A feature test answers what the processor reports for the leaf, when the leaf is supported.\<close>

lemma feature_test_correct:
  assumes init: "x86_cpuid_init cpuid ecx s = Inr s'" and l: "cb_leaf f \<noteq> CPUID_BASE" "cb_leaf f \<noteq> CPUID_EXT_BASE"
  shows "x86_feature_test s' f \<longleftrightarrow> cb_word f \<le> 3 \<and> cb_bit f \<le> 31 \<and> cached cpuid ecx (cb_leaf f)
    \<and> bit (reg_of (cpuid (cb_leaf f) 0) (cb_word f)) (unat (cb_bit f))"
proof -
  have w: "cb_word f \<le> 3 \<longleftrightarrow> cb_word f \<in> {0, 1, 2, 3}"
  proof -
    have "cb_word f \<le> 3 \<longleftrightarrow> unat (cb_word f) \<in> {0, 1, 2, 3}" by (auto simp: word_le_nat_alt)
    then show ?thesis by (auto simp: word_unat_eq_iff)
  qed
  show ?thesis
    using l unfolding x86_feature_test_def leaf_cached [OF init]
    by (auto simp: exp_and reg_of_def not_less [symmetric] w [unfolded not_less [symmetric]])
qed

lemma longmode_never: "\<not> x86_feature_test s x86_FEATURE_LONGMODE"
  by (simp add: x86_feature_test_def x86_FEATURE_LONGMODE_def CPUID_BIT_def)

text \<open>C28. 
  After \<open>x86_cpuid_init\<close> a feature test answers with the bit the processor reports, and with no for a leaf
  the processor or the arrays do not have. Of the three tests the code makes, those for PAE and for the
  execute-disable bit look at bit 6 of \<open>EDX\<close> of leaf 1 and bit 20 of \<open>EDX\<close> of leaf \<open>0x80000001\<close>; the one for long
  mode fails on every processor.
\<close>

theorem feature_tests:
  assumes init: "x86_cpuid_init cpuid ecx s = Inr s'"
  shows "(x86_feature_test s' x86_FEATURE_PAE \<longleftrightarrow> 1 \<le> leaf_a (cpuid 0 ecx) \<and> bit (leaf_d (cpuid 1 0)) 6)
    \<and> (x86_feature_test s' x86_FEATURE_NX \<longleftrightarrow>
        0x80000001 \<le> leaf_a (cpuid 0x80000000 ecx) \<and> bit (leaf_d (cpuid 0x80000001 0)) 20)
    \<and> \<not> x86_feature_test s' x86_FEATURE_LONGMODE
    \<and> (\<forall>f. cb_leaf f \<noteq> 0 \<longrightarrow> cb_leaf f \<noteq> 0x80000000 \<longrightarrow>
        x86_feature_test s' f = (cb_word f \<le> 3 \<and> cb_bit f \<le> 31
          \<and> (cb_leaf f \<le> leaf_a (cpuid 0 ecx) \<and> cb_leaf f \<le> 0xD
            \<or> 0x80000000 \<le> cb_leaf f \<and> cb_leaf f \<le> leaf_a (cpuid 0x80000000 ecx) \<and> cb_leaf f \<le> 0x8000001E)
          \<and> bit (reg_of (cpuid (cb_leaf f) 0) (cb_word f)) (unat (cb_bit f))))"
proof -
  note leaves = CPUID_BASE_def CPUID_EXT_BASE_def CPUID_MODEL_FEAT_def CPUID_EXT_MODEL_FEAT_def
    MAX_SUPPORTED_CPUID_def MAX_SUPPORTED_CPUID_EXT_def
  note t = feature_test_correct [OF init]
  have far: "\<not> (0x80000000 :: u32) \<le> 1" by (simp add: word_le_nat_alt)
  have "x86_feature_test s' x86_FEATURE_PAE \<longleftrightarrow> 1 \<le> leaf_a (cpuid 0 ecx) \<and> bit (leaf_d (cpuid 1 0)) 6"
    using t [of x86_FEATURE_PAE] by (simp add: feature_defs CPUID_BIT_def cached_def reg_of_def leaves far)
  moreover have "x86_feature_test s' x86_FEATURE_NX \<longleftrightarrow>
      0x80000001 \<le> leaf_a (cpuid 0x80000000 ecx) \<and> bit (leaf_d (cpuid 0x80000001 0)) 20"
    using t [of x86_FEATURE_NX] by (simp add: feature_defs CPUID_BIT_def cached_def reg_of_def leaves far)
  moreover have "\<not> x86_feature_test s' x86_FEATURE_LONGMODE" by (rule longmode_never)
  moreover have "x86_feature_test s' f = (cb_word f \<le> 3 \<and> cb_bit f \<le> 31
          \<and> (cb_leaf f \<le> leaf_a (cpuid 0 ecx) \<and> cb_leaf f \<le> 0xD
            \<or> 0x80000000 \<le> cb_leaf f \<and> cb_leaf f \<le> leaf_a (cpuid 0x80000000 ecx) \<and> cb_leaf f \<le> 0x8000001E)
          \<and> bit (reg_of (cpuid (cb_leaf f) 0) (cb_word f)) (unat (cb_bit f)))"
    if "cb_leaf f \<noteq> 0" "cb_leaf f \<noteq> 0x80000000" for f
    using t [of f] that by (simp add: cached_def leaves)
  ultimately show ?thesis by blast
qed

lemma cpuid_init_total:
  assumes "CPUID_EXT_BASE \<le> leaf_a (cpuid CPUID_EXT_BASE ecx)"
  shows "\<exists>s'. x86_cpuid_init cpuid ecx s = Inr s'"
  using ext_loop_fits [OF conjunct1 [OF ext_count(1) [OF assms]], of 1] by (simp add: x86_cpuid_init_def Let_def)

text \<open>C29. 
  A processor without extended leaves answers a number below \<open>0x80000000\<close>; the difference wraps and the
  loop runs past the end of the extended array. Otherwise the initialisation succeeds.
\<close>

theorem cpuid_init_overrun:
  "x86_cpuid_init cpuid ecx s = Inl Out_of_bounds \<longleftrightarrow> leaf_a (cpuid CPUID_EXT_BASE ecx) < CPUID_EXT_BASE"
proof
  assume "leaf_a (cpuid CPUID_EXT_BASE ecx) < CPUID_EXT_BASE"
  from ext_loop_overrun [OF ext_count(2) [OF this], of 1]
  show "x86_cpuid_init cpuid ecx s = Inl Out_of_bounds" by (simp add: x86_cpuid_init_def Let_def)
next
  assume e: "x86_cpuid_init cpuid ecx s = Inl Out_of_bounds"
  then show "leaf_a (cpuid CPUID_EXT_BASE ecx) < CPUID_EXT_BASE"
    using cpuid_init_total [of cpuid ecx s] by (fastforce simp: not_less [symmetric])
qed

lemma word_bytes_eq: "word_bytes w = word_bytes v \<longleftrightarrow> w = v"
proof
  assume b: "word_bytes w = word_bytes v"
  show "w = v"
  proof (rule bit_word_eqI)
    fix n assume "n < LENGTH(32)"
    then consider "n < 8" | "8 \<le> n" "n < 16" | "16 \<le> n" "n < 24" | "24 \<le> n" "n < 32" by fastforce
    then show "bit w n = bit v n"
    proof cases
      case 1 then show ?thesis using arg_cong [where f = "\<lambda>x. bit x n", OF conjunct1 [OF b [unfolded word_bytes_def list.inject]]]
        by (simp add: bit_simps)
    next
      case 2
      from b have "(ucast (drop_bit 8 w) :: u8) = ucast (drop_bit 8 v)" by (simp add: word_bytes_def)
      then have "bit (ucast (drop_bit 8 w) :: u8) (n - 8) = bit (ucast (drop_bit 8 v) :: u8) (n - 8)" by simp
      moreover have "n - 8 < 8" "8 + (n - 8) = n" using 2 by linarith+
      ultimately show ?thesis by (simp add: bit_simps)
    next
      case 3
      from b have "(ucast (drop_bit 16 w) :: u8) = ucast (drop_bit 16 v)" by (simp add: word_bytes_def)
      then have "bit (ucast (drop_bit 16 w) :: u8) (n - 16) = bit (ucast (drop_bit 16 v) :: u8) (n - 16)" by simp
      moreover have "n - 16 < 8" "16 + (n - 16) = n" using 3 by linarith+
      ultimately show ?thesis by (simp add: bit_simps)
    next
      case 4
      from b have "(ucast (drop_bit 24 w) :: u8) = ucast (drop_bit 24 v)" by (simp add: word_bytes_def)
      then have "bit (ucast (drop_bit 24 w) :: u8) (n - 24) = bit (ucast (drop_bit 24 v) :: u8) (n - 24)" by simp
      moreover have "n - 24 < 8" "24 + (n - 24) = n" using 4 by linarith+
      ultimately show ?thesis by (simp add: bit_simps)
    qed
  qed
qed simp

lemma vendor_is_words:
  assumes "map of_char s = concat (map word_bytes [x, y, z])"
  shows "vendor_is [a, b, c] s \<longleftrightarrow> a = x \<and> b = y \<and> c = z"
proof -
  have len: "length (word_bytes w) = 4" for w by (simp add: word_bytes_def)
  have "word_bytes a @ word_bytes b @ word_bytes c = word_bytes x @ word_bytes y @ word_bytes z \<longleftrightarrow>
      word_bytes a = word_bytes x \<and> word_bytes b = word_bytes y \<and> word_bytes c = word_bytes z"
    by (simp add: len)
  then show ?thesis by (simp add: vendor_is_def assms word_bytes_eq)
qed

lemma vendor_words:
  "map of_char CPUID_VENDOR_INTEL = concat (map word_bytes [0x756E6547, 0x49656E69, 0x6C65746E])"
  "map of_char CPUID_VENDOR_AMD = concat (map word_bytes [0x68747541, 0x69746E65, 0x444D4163])"
  by (simp_all add: CPUID_VENDOR_INTEL_def CPUID_VENDOR_AMD_def word_bytes_def)

text \<open>
  The vendor is made of one register each of the leaves 0, 1 and 2 instead of three registers of leaf 0, so a
  vendor's processor is recognised only when its feature bits happen to spell the rest of the name.
\<close>

theorem vendor_from_feature_bits:
  assumes init: "x86_cpuid_init cpuid ecx s = Inr s'" and two: "2 \<le> leaf_a (cpuid CPUID_BASE ecx)"
  shows "(x86_vendor s' = x86_VENDOR_INTEL \<longleftrightarrow> leaf_b (cpuid CPUID_BASE ecx) = 0x756E6547
      \<and> leaf_c (cpuid 1 0) = 0x49656E69 \<and> leaf_d (cpuid 2 0) = 0x6C65746E)
    \<and> (x86_vendor s' = x86_VENDOR_AMD \<longleftrightarrow> leaf_b (cpuid CPUID_BASE ecx) = 0x68747541
      \<and> leaf_c (cpuid 1 0) = 0x69746E65 \<and> leaf_d (cpuid 2 0) = 0x444D4163)"
proof -
  let ?maxc = "cpuid_max MAX_SUPPORTED_CPUID (leaf_a (cpuid CPUID_BASE ecx))"
  let ?tab = "\<lambda>j. if 1 \<le> j \<and> j \<le> unat ?maxc then cpuid (of_nat j) 0 else ((cpuid_tab s)(0 := cpuid CPUID_BASE ecx)) j"
  have "2 \<le> unat ?maxc" using two by (simp add: cpuid_max_def MAX_SUPPORTED_CPUID_def word_le_nat_alt)
  then have tab: "?tab 0 = cpuid CPUID_BASE ecx" "?tab 1 = cpuid 1 0" "?tab 2 = cpuid 2 0" by simp_all
  obtain ext where "x86_vendor s' = vendor_of ?tab"
    using init unfolding x86_cpuid_init_def Let_def bind_res_Inr_conv
    by (auto simp: fold_tab simp del: upt_Suc)
  then show ?thesis
    unfolding vendor_of_def Let_def tab vendor_is_words [OF vendor_words(1)] vendor_is_words [OF vendor_words(2)] by auto
qed

section \<open>Witnesses\<close>

text \<open>A processor with PAE and NX, and one without extended leaves.\<close>

definition demo_cpuid :: "u32 \<Rightarrow> u32 \<Rightarrow> cpuid_leaf" where
  "demo_cpuid l c = \<lparr>leaf_a = (if l = 0 then 0xD else if l = 0x80000000 then 0x80000008 else 0),
     leaf_b = (if l = 0 then 0x756E6547 else 0), leaf_c = 0x6C65746E,
     leaf_d = (if l = 1 then 0x40 else if l = 0x80000001 then 0x100000 else 0x49656E69)\<rparr>"

definition old_cpuid :: "u32 \<Rightarrow> u32 \<Rightarrow> cpuid_leaf" where
  "old_cpuid l c = \<lparr>leaf_a = 1, leaf_b = 0, leaf_c = 0, leaf_d = 0\<rparr>"

definition no_info :: cpu_info where
  "no_info = \<lparr>cpuid_tab = (\<lambda>_. old_cpuid 0 0), cpuid_ext_tab = (\<lambda>_. old_cpuid 0 0), max_cpuid = 0, max_ext_cpuid = 0,
     x86_vendor = x86_VENDOR_UNKNOWN\<rparr>"

lemma demo_init: "\<exists>s. x86_cpuid_init demo_cpuid 0 no_info = Inr s"
  by (rule cpuid_init_total) (simp add: demo_cpuid_def CPUID_EXT_BASE_def)

theorem feature_tests_witness:
  "\<exists>s. x86_cpuid_init demo_cpuid 0 no_info = Inr s \<and> x86_feature_test s x86_FEATURE_PAE
    \<and> x86_feature_test s x86_FEATURE_NX \<and> \<not> x86_feature_test s x86_FEATURE_SSE"
proof -
  obtain s where s: "x86_cpuid_init demo_cpuid 0 no_info = Inr s" using demo_init by blast
  have "cb_leaf x86_FEATURE_SSE = 1" "cb_word x86_FEATURE_SSE = 3" "cb_bit x86_FEATURE_SSE = 25"
    by (simp_all add: feature_defs CPUID_BIT_def CPUID_MODEL_FEAT_def)
  with s feature_tests [OF s] show ?thesis by (auto simp: demo_cpuid_def reg_of_def bit_iff_odd)
qed

theorem vendor_from_feature_bits_witness:
  "\<exists>s. x86_cpuid_init demo_cpuid 0 no_info = Inr s \<and> x86_vendor s \<noteq> x86_VENDOR_INTEL"
proof -
  obtain s where s: "x86_cpuid_init demo_cpuid 0 no_info = Inr s" using demo_init by blast
  with vendor_from_feature_bits [OF s] show ?thesis by (auto simp: demo_cpuid_def CPUID_BASE_def)
qed

end
