(* ===== verification/Loader.thy ===== *)
theory Loader
  imports Regions Elf Cpuid DescTables
begin

text \<open>
  The loader's way to the kernel: the choice of a module and the checks of \<open>main\<close>
  (\<open>loader/x86/main.cc\<close>), and \<open>run_program32\<close> (\<open>loader/x86/loader.cc\<close>), which maps the kernel's
  segments, the page structures and a stack, and jumps to the entry point. What is printed is left out; a
  failed hard assertion panics.
\<close>

section \<open>Choosing a kernel\<close>

definition CHECK_FLAG :: "u32 \<Rightarrow> nat \<Rightarrow> u32" where
  "CHECK_FLAG flags i = flags AND push_bit i 1"

definition CHECK_MFLG :: "u32 \<Rightarrow> u32 \<Rightarrow> u32" where
  "CHECK_MFLG flags msk = flags AND msk"

text \<open>The addresses of the literals \<open>main\<close> compares with.\<close>

record main_rodata =
  lit_cxkrnl32 :: addr
  lit_cxkrnl64 :: addr
  lit_exec32 :: addr
  lit_exec64 :: addr

definition multiboot_ok :: "u32 \<Rightarrow> multiboot_info \<Rightarrow> bool" where
  "multiboot_ok sig mbt \<longleftrightarrow>
     sig = MULTIBOOT_BOOTLOADER_MAGIC \<and> CHECK_FLAG (mb_flags mbt) 0 \<noteq> 0
     \<and> (CHECK_FLAG (mb_flags mbt) 3 \<noteq> 0 \<and> mb_mods_addr mbt \<noteq> 0 \<and> mb_mods_count mbt > 0)
     \<and> \<not> (CHECK_FLAG (mb_flags mbt) 4 \<noteq> 0 \<and> CHECK_FLAG (mb_flags mbt) 5 \<noteq> 0)
     \<and> CHECK_FLAG (mb_flags mbt) 6 \<noteq> 0"

text \<open>The addresses of the module entries the loop visits, and what it keeps of them.\<close>

partial_function (option) module_walk :: "addr \<Rightarrow> addr \<Rightarrow> addr list option" where
  "module_walk a e = (if a < e then Option.bind (module_walk (a + 16) e) (\<lambda>l. Some (a # l)) else Some [])"

record found_modules =
  cxkrnl32 :: "addr option"
  cxkrnl64 :: "addr option"
  mods_end :: u32

definition see_module :: "main_rodata \<Rightarrow> mem \<Rightarrow> addr \<Rightarrow> found_modules \<Rightarrow> found_modules" where
  "see_module ro m a f =
     (let md = ld_module m a;
          is32 = (memcmp (mod_cmdline md) (lit_cxkrnl32 ro) 8 m = 0);
          is64 = (memcmp (mod_cmdline md) (lit_cxkrnl64 ro) 8 m = 0);
          f = f\<lparr>mods_end := MAX_of (mods_end f) (mod_end md)\<rparr>
      in if is32 then (if cxkrnl32 f = None then f\<lparr>cxkrnl32 := Some a\<rparr> else f)
         else if is64 then (if cxkrnl64 f = None then f\<lparr>cxkrnl64 := Some a\<rparr> else f)
         else f)"

text \<open>\<open>main\<close> up to the call of \<open>init32\<close> or \<open>init64\<close>.\<close>

datatype boot = Boot32 addr | Boot64

definition loader_main :: "main_rodata \<Rightarrow> cpu_info \<Rightarrow> mem \<Rightarrow> u32 \<Rightarrow> multiboot_info \<Rightarrow> u32 \<Rightarrow> kerror + (boot \<times> u32)" where
  "loader_main ro ci m sig mbt MODS_END =
     (if \<not> multiboot_ok sig mbt then Inl Panicked
      else bind_res (loop_res (module_walk (mb_mods_addr mbt) (mb_mods_addr mbt + mb_mods_count mbt * 16))) (\<lambda>ms.
        let f = fold (see_module ro m) ms \<lparr>cxkrnl32 = None, cxkrnl64 = None, mods_end = MODS_END\<rparr> in
        if cxkrnl32 f = None \<and> cxkrnl64 f = None then Inl Panicked
        else if CHECK_FLAG (mb_flags mbt) 2 \<noteq> 0 then
          if memcmp (mb_cmdline mbt) (lit_exec32 ro) 6 m = 0 then
            (case cxkrnl32 f of None \<Rightarrow> Inl Panicked | Some a \<Rightarrow> Inr (Boot32 a, mods_end f))
          else if memcmp (mb_cmdline mbt) (lit_exec64 ro) 6 m = 0 then
            if cxkrnl64 f = None then Inl Panicked
            else if \<not> x86_feature_test ci x86_FEATURE_LONGMODE then Inl Panicked
            else Inr (Boot64, mods_end f)
          else Inl Panicked
        else if x86_feature_test ci x86_FEATURE_LONGMODE \<and> cxkrnl64 f \<noteq> None then Inr (Boot64, mods_end f)
        else case cxkrnl32 f of Some a \<Rightarrow> Inr (Boot32 a, mods_end f) | None \<Rightarrow> Inl Panicked))"

section \<open>Running the kernel\<close>

text \<open>A loop over the pages \<open>0 .. n - 1\<close> of a region.\<close>

primrec for_pages :: "(nat \<Rightarrow> 's \<Rightarrow> kerror + 's) \<Rightarrow> nat \<Rightarrow> 's \<Rightarrow> kerror + 's" where
  "for_pages f 0 s = Inr s"
| "for_pages f (Suc n) s = bind_res (for_pages f n s) (f n)"

text \<open>\<open>map(v, pmm_alloc_page(false), flags)\<close>.\<close>

definition map_new_page :: "u32 \<Rightarrow> u64 \<Rightarrow> loader_mm machine \<Rightarrow> kerror + loader_mm machine" where
  "map_new_page v flags s =
     bind_res (loader_frame False (memory s, frames s)) (\<lambda>(a, m, f).
       loader_map (ucast v) a flags (s\<lparr>memory := m, frames := f\<rparr>))"

definition map_low :: "loader_mm machine \<Rightarrow> kerror + loader_mm machine" where
  "map_low = for_pages (\<lambda>i. let p = of_nat (4096 * i) :: u32 in
     loader_map (ucast (ARCH_GET_PHYS p)) (ucast p) (ucast (PTE_RW OR PTE_PR))) 256"

definition seg_flags :: "elf32_phdr \<Rightarrow> u64" where
  "seg_flags ph =
     (let flags = ucast PTE_PR;
          flags = (if CHECK_MFLG (p_flags ph) PF_W \<noteq> 0 then flags OR ucast PTE_RW else flags)
      in if CHECK_MFLG (p_flags ph) PF_X = 0 then flags OR PTE_NX else flags)"

definition seg_pages :: "elf32_phdr \<Rightarrow> nat" where
  "seg_pages ph = unat (ARCH_PAGE_ALIGN (p_memsz ph)) div 4096"

text \<open>gcc extends a pointer with its sign when it is cast to a wider integer.\<close>

definition load_segment :: "addr \<Rightarrow> elf32_phdr \<Rightarrow> loader_mm machine \<Rightarrow> kerror + loader_mm machine" where
  "load_segment img ph s =
     (let v = p_vaddr ph; p = ucast (p_offset ph) + scast img :: phys_t; flags = seg_flags ph in
      if p_filesz ph \<noteq> p_memsz ph then
        bind_res (for_pages (\<lambda>i. map_new_page (v + of_nat (4096 * i)) flags) (seg_pages ph) s) (\<lambda>s.
        bind_res (vmemset v 0 (unat (ARCH_PAGE_ALIGN (p_memsz ph))) s)
          (vmemcpy v (p_offset ph + img) (unat (p_filesz ph))))
      else for_pages (\<lambda>i. loader_map (ucast (v + of_nat (4096 * i))) (p + of_nat (4096 * i)) flags) (seg_pages ph) s)"

text \<open>The loop reads the number of headers and each header from memory as it goes.\<close>

function load_segments :: "elf_context \<Rightarrow> nat \<Rightarrow> u32 \<Rightarrow> loader_mm machine \<Rightarrow> kerror + (u32 \<times> loader_mm machine)" where
  "load_segments ctx i pps s =
     (if \<not> readable s (img32 ctx) 52 then Inl Page_fault
      else if i < unat (e_phnum (ld_ehdr (view s) (img32 ctx))) then
        if \<not> readable s (phdr32 ctx + 32 * of_nat i) 32 then Inl Page_fault
        else let ph = ld_phdr (view s) (phdr32 ctx) i in
          bind_res (load_segment (img32 ctx) ph s)
            (load_segments ctx (Suc i) (MAX_of pps (p_vaddr ph + ARCH_PAGE_ALIGN (p_memsz ph))))
      else Inr (pps, s))"
  by pat_completeness auto
termination
proof (relation "measure (\<lambda>(ctx, i, pps, s). 65536 - i)", goal_cases)
  case (2 ctx i pps s ph t)
  have "unat n < 65536" for n :: "16 word" using unsigned_less [of n] by simp
  with 2 show ?case using less_trans by fastforce
qed simp

definition init_pps32 :: "u32 \<Rightarrow> loader_mm machine \<Rightarrow> kerror + loader_mm machine" where
  "init_pps32 base s =
     (let num_struct = (lm_num_pages (frames s) * sizeof_page + 1) div ARCH_PAGE_SIZE
      in for_pages (\<lambda>i. map_new_page (base + of_nat (4096 * i)) (ucast (PTE_RW OR PTE_PR))) (Suc (unat num_struct)) s)"

text \<open>What the kernel is started with.\<close>

record handoff =
  h_entry :: addr
  h_esp :: addr
  h_magic :: u32
  h_ctx :: elf_context
  h_pps_start :: u32

definition run_program32 :: "u32 \<Rightarrow> elf_context \<Rightarrow> loader_mm machine \<Rightarrow> kerror + (handoff \<times> loader_mm machine)" where
  "run_program32 sig ctx s =
     bind_res (map_low s) (\<lambda>s.
     bind_res (load_segments ctx 0 0 s) (\<lambda>(pps, s).
     bind_res (init_pps32 pps s) (\<lambda>s.
     bind_res (map_new_page (ARCH_STACK_BOTTOM - 1 * ARCH_PAGE_SIZE) (ucast PTE_PR OR ucast PTE_RW OR PTE_NX) s) (\<lambda>s.
     bind_res (vmemset (ARCH_STACK_BOTTOM - ARCH_PAGE_SIZE) 0 (unat (ARCH_PAGE_SIZE :: u32)) s) (\<lambda>s.
     if \<not> readable s (img32 ctx) 52 then Inl Page_fault
     else Inr (\<lparr>h_entry = e_entry (ld_ehdr (view s) (img32 ctx)), h_esp = ARCH_STACK_BOTTOM - 0x10, h_magic = sig,
       h_ctx = ctx, h_pps_start = pps\<rparr>, s))))))"

text \<open>\<open>init32\<close>: paging is off until \<open>init\<close> of the MMU; the descriptor tables are those of \<open>initgdt32\<close>.\<close>

definition loader_init32 ::
    "bool \<Rightarrow> bool \<Rightarrow> elf_rodata \<Rightarrow> gdt_symbols \<Rightarrow> u32 \<Rightarrow> multiboot_info \<Rightarrow> addr \<Rightarrow> loader_mm machine \<times> table_regs
      \<Rightarrow> kerror + (handoff \<times> loader_mm machine \<times> table_regs)" where
  "loader_init32 pae debug ro y sig mbt krnl = (\<lambda>(s, r).
     case initgdt32 y (memory s, r) of (m, r) \<Rightarrow>
       let s = s\<lparr>memory := m\<rparr> in
       bind_res (init_bootmm32 pae m mbt (frames s)) (\<lambda>f.
         let s = s\<lparr>frames := f\<rparr> in
         bind_res (loop_res (load_img debug ro m (mod_start (ld_module m krnl))
             (\<lparr>img32 = 0, shdr32 = 0, phdr32 = 0, symtab32 = 0, strtab32 = 0\<rparr>))) (\<lambda>(ctx, logs).
           if strtab32 ctx = NULL \<or> symtab32 ctx = NULL then Inl Panicked
           else bind_res (Mmu32Nopae_init s) (\<lambda>s.
             bind_res (run_program32 sig ctx s) (\<lambda>(h, s). Inr (h, s, r))))))"

section \<open>Mapping regions\<close>

text \<open>The allocator has \<open>n\<close> pages to give and counts \<open>N\<close> pages in all.\<close>

definition stock :: "u32 \<Rightarrow> nat \<Rightarrow> loader_mm \<Rightarrow> bool" where
  "stock N n f \<longleftrightarrow> ready n f \<and> lm_num_pages f = N"

interpretation counted: frame_source "loader_frame False" in_use "stock N" for N
proof
  fix n f m assume "stock N (Suc n) f"
  then have r: "ready (Suc n) f" and N: "lm_num_pages f = N" by (simp_all add: stock_def)
  from loader.take [OF r, of m] obtain p f' where "loader_frame False (m, f) = Inr (p, m, f')" "ready n f'"
      "aligned (ucast p)" "\<not> in_use f (ucast p)" "in_use f' (ucast p)" "\<forall>b. in_use f b \<longrightarrow> in_use f' b"
    by blast
  then show "\<exists>p f'. loader_frame False (m, f) = Inr (p, m, f') \<and> stock N n f'
      \<and> aligned (ucast p) \<and> \<not> in_use f (ucast p) \<and> in_use f' (ucast p) \<and> (\<forall>b. in_use f b \<longrightarrow> in_use f' b)"
    using loader_frame_pages N by (fastforce simp: stock_def)
  show "stock N n f" using ready_Suc [OF r] N by (simp add: stock_def)
qed

text \<open>One page.\<close>

lemma map_one:
  fixes p flags :: u64
  assumes inv: "loader_inv s" and r: "stock N (Suc n) (frames s)" and v: "aligned v" "ARCH_GET_PD_IDX v \<noteq> 1023"
    and p: "aligned (ucast p)"
  shows "\<exists>s'. loader_map (ucast v) p flags s = Inr s' \<and> stock N n (frames s')
    \<and> maps_pages in_use s s' v 1 (\<lambda>_. ucast p) (\<lambda>w. bit flags 0 \<and> (w \<longrightarrow> bit flags 1))"
proof -
  have "stock N (if has_table s (ARCH_GET_PD_IDX v) then n else Suc n) (frames s)"
    using r counted.ready_Suc by simp
  from counted.map_page [OF inv v p this, of flags] show ?thesis unfolding loader_map_def by blast
qed

section \<open>Runs of pages\<close>

text \<open>Pages mapped to a region of physical memory.\<close>

lemma map_run:
  fixes p flags :: u64
  assumes v: "aligned v" "unat v + 4096 * n \<le> 0xFFC00000" and p: "aligned (ucast p)"
    and inv: "loader_inv s" and r: "stock N (n + c) (frames s)"
  shows "\<exists>s'. for_pages (\<lambda>i. loader_map (ucast (v + of_nat (4096 * i))) (p + of_nat (4096 * i)) flags) n s = Inr s'
    \<and> stock N c (frames s') \<and> maps_pages in_use s s' v n (\<lambda>i. ucast p + of_nat (4096 * i)) (\<lambda>w. bit flags 0 \<and> (w \<longrightarrow> bit flags 1))"
  using v(2) r
proof (induction n arbitrary: c)
  case 0
  then show ?case using inv by (simp add: maps_none)
next
  case (Suc n)
  have r: "stock N (n + Suc c) (frames s)" using Suc.prems(2) by simp
  obtain s1 where s1: "for_pages (\<lambda>i. loader_map (ucast (v + of_nat (4096 * i))) (p + of_nat (4096 * i)) flags) n s = Inr s1"
      "stock N (Suc c) (frames s1)" "maps_pages in_use s s1 v n (\<lambda>i. ucast p + of_nat (4096 * i)) (\<lambda>w. bit flags 0 \<and> (w \<longrightarrow> bit flags 1))"
    using Suc.IH [OF _ r] Suc.prems(1) by (auto simp del: of_nat_mult)
  have lim: "unat v + 4096 * n < 2 ^ 32" using Suc.prems(1) by simp
  note a = region_start [OF v(1) lim]
  have pd: "ARCH_GET_PD_IDX (v + of_nat (4096 * n)) \<noteq> 1023"
    using Suc.prems(1) by (intro pd_index_below) (simp only: a, simp)
  have up: "ucast (p + of_nat (4096 * n)) = (ucast p + of_nat (4096 * n) :: u32)"
    by (simp add: ucast_add del: of_nat_mult)
  have al: "aligned (ucast (p + of_nat (4096 * n)))"
    unfolding up by (rule aligned_add [OF p])
  obtain s2 where s2: "loader_map (ucast (v + of_nat (4096 * n))) (p + of_nat (4096 * n)) flags s1 = Inr s2" "stock N c (frames s2)"
      "maps_pages in_use s1 s2 (v + of_nat (4096 * n)) 1 (\<lambda>_. ucast p + of_nat (4096 * n)) (\<lambda>w. bit flags 0 \<and> (w \<longrightarrow> bit flags 1))"
    using map_one [OF _ s1(2) a(2) pd al, of flags] s1(3) unfolding maps_pages_def up by blast
  show ?case
    using s1(1) s2(1,2) maps_more [OF s1(3) s2(3) v(1) lim] by simp
qed

text \<open>A page on a frame the allocator had free.\<close>

lemma map_fresh:
  fixes flags :: u64
  assumes inv: "loader_inv s" and r: "stock N (Suc (Suc n)) (frames s)" and v: "aligned v" "ARCH_GET_PD_IDX v \<noteq> 1023"
  shows "\<exists>s' q. map_new_page v flags s = Inr s' \<and> stock N n (frames s') \<and> aligned q \<and> \<not> in_use (frames s) q
    \<and> data_page in_use s' q \<and> maps_pages in_use s s' v 1 (\<lambda>_. q) (\<lambda>w. bit flags 0 \<and> (w \<longrightarrow> bit flags 1))"
proof -
  let ?p = "lm_ptr (frames s) * ARCH_PAGE_SIZE" and ?q = "cursor_page (frames s)"
  have r': "ready (Suc (Suc n)) (frames s)" and N: "lm_num_pages (frames s) = N" using r by (simp_all add: stock_def)
  have lim: "unat (lm_ptr (frames s)) < 2 ^ 20" using r' by (simp add: ready_def)
  have q: "aligned ?q" "\<not> in_use (frames s) ?q" "ucast ?p = ?q"
    using cursor_page(1) [OF lim] ready_not_used [OF r'] by (simp_all add: cursor_page_def)
  obtain f where f: "loader_frame False (memory s, frames s) = Inr (?p, memory s, f)" "ready (Suc n) f"
      "\<forall>b. in_use f b \<longleftrightarrow> in_use (frames s) b \<or> page_no b = unat (lm_ptr (frames s))"
    using loader_frame_ready [OF r', of False "memory s"] by (simp only: if_False) blast
  have sup: "stock N (Suc n) f" using f(2) loader_frame_pages [OF f(1)] N by (simp add: stock_def)
  let ?s = "s\<lparr>frames := f\<rparr>"
  have inv1: "loader_inv ?s" using inv f(3) by (simp add: paging_inv_def machine_ok_def)
  have tab: "table_frame ?s = table_frame s" by (simp add: table_frame_def fun_eq_iff)
  have "table_frame s e \<Longrightarrow> in_use (frames s) e" for e
    using inv by (auto simp: paging_inv_def table_frame_def)
  then have dq: "data_page in_use ?s ?q" "\<And>e. data_page in_use s e \<Longrightarrow> data_page in_use ?s e"
    using q(2) f(3) cursor_page(2) [OF lim] by (auto simp: data_page_def tab)
  obtain s' where s': "loader_map (ucast v) ?p flags ?s = Inr s'" "stock N n (frames s')"
      "maps_pages in_use ?s s' v 1 (\<lambda>_. ?q) (\<lambda>w. bit flags 0 \<and> (w \<longrightarrow> bit flags 1))"
    using map_one [OF inv1 _ v, of N n ?p flags] sup q by auto
  have "translate ?s w u = translate s w u" for w u by (simp add: translate_def)
  then have "maps_pages in_use s s' v 1 (\<lambda>_. ?q) (\<lambda>w. bit flags 0 \<and> (w \<longrightarrow> bit flags 1))"
    using s'(3) f(3) dq(2) unfolding maps_pages_def by simp
  moreover have "data_page in_use s' ?q" using s'(3) dq(1) by (simp add: maps_pages_def)
  ultimately show ?thesis using f(1) s'(1,2) q by (auto simp: map_new_page_def)
qed

lemma fresh_run:
  fixes flags :: u64
  assumes v: "aligned v" "unat v + 4096 * n \<le> 0xFFC00000" and inv: "loader_inv s" and r: "stock N (2 * n + c) (frames s)"
  shows "\<exists>s' q. for_pages (\<lambda>i. map_new_page (v + of_nat (4096 * i)) flags) n s = Inr s' \<and> stock N c (frames s')
    \<and> maps_pages in_use s s' v n q (\<lambda>w. bit flags 0 \<and> (w \<longrightarrow> bit flags 1))
    \<and> inj_on q {..< n} \<and> (\<forall>i < n. aligned (q i) \<and> \<not> in_use (frames s) (q i) \<and> data_page in_use s' (q i))"
  using v(2) r
proof (induction n arbitrary: c)
  case 0
  then show ?case using inv by (simp add: maps_none)
next
  case (Suc n)
  let ?ok = "\<lambda>w. bit flags 0 \<and> (w \<longrightarrow> bit flags 1)"
  have r: "stock N (2 * n + Suc (Suc c)) (frames s)" using Suc.prems(2) by simp
  obtain s1 q where s1: "for_pages (\<lambda>i. map_new_page (v + of_nat (4096 * i)) flags) n s = Inr s1"
      "stock N (Suc (Suc c)) (frames s1)" "maps_pages in_use s s1 v n q ?ok" "inj_on q {..< n}"
      "\<forall>i < n. aligned (q i) \<and> \<not> in_use (frames s) (q i) \<and> data_page in_use s1 (q i)"
    using Suc.IH [OF _ r] Suc.prems(1) by (auto simp del: of_nat_mult)
  have lim: "unat v + 4096 * n < 2 ^ 32" using Suc.prems(1) by simp
  note a = region_start [OF v(1) lim]
  have pd: "ARCH_GET_PD_IDX (v + of_nat (4096 * n)) \<noteq> 1023"
    using Suc.prems(1) by (intro pd_index_below) (simp only: a, simp)
  obtain s2 b where s2: "map_new_page (v + of_nat (4096 * n)) flags s1 = Inr s2" "stock N c (frames s2)" "aligned b"
      "\<not> in_use (frames s1) b" "data_page in_use s2 b" "maps_pages in_use s1 s2 (v + of_nat (4096 * n)) 1 (\<lambda>_. b) ?ok"
    using map_fresh [OF _ s1(2) a(2) pd, of flags] s1(3) unfolding maps_pages_def by blast
  define q' where "q' = q(n := b)"
  have q': "\<And>i. i < n \<Longrightarrow> q' i = q i" "q' n = b" by (simp_all add: q'_def)
  have m1: "maps_pages in_use s s1 v n q' ?ok" by (rule maps_cong [OF s1(3)]) (simp add: q')
  have m2: "maps_pages in_use s1 s2 (v + of_nat (4096 * n)) 1 (\<lambda>_. q' n) ?ok" using s2(6) by (simp only: q')
  have use: "in_use (frames s) e \<Longrightarrow> in_use (frames s1) e" "data_page in_use s1 e \<Longrightarrow> data_page in_use s2 e" for e
    using m1 m2 by (simp_all add: maps_pages_def)
  have "b \<noteq> q i" if "i < n" for i using s1(5) s2(4) that by (auto simp: data_page_def)
  then have "inj_on q' {..< Suc n}" using s1(4) by (auto simp: lessThan_Suc q' inj_on_def less_Suc_eq)
  moreover have "\<forall>i < Suc n. aligned (q' i) \<and> \<not> in_use (frames s) (q' i) \<and> data_page in_use s2 (q' i)"
    using s1(5) s2(3,4,5) use by (auto simp: less_Suc_eq q')
  moreover have "for_pages (\<lambda>i. map_new_page (v + of_nat (4096 * i)) flags) (Suc n) s = Inr s2" using s1(1) s2(1) by simp
  ultimately show ?case using s2(2) maps_more [OF m1 m2 v(1) lim] by blast
qed

section \<open>Segments\<close>

lemma seg_pages_bounds:
  assumes "unat (p_memsz ph) \<le> 0xFFC00000"
  shows "unat (ARCH_PAGE_ALIGN (p_memsz ph)) = 4096 * seg_pages ph" "unat (p_memsz ph) \<le> 4096 * seg_pages ph"
    "4096 * seg_pages ph < unat (p_memsz ph) + 4096"
proof -
  have "ARCH_PAGE_ALIGN (p_memsz ph) = frame_of (p_memsz ph + 0xFFF)"
    by (simp add: ARCH_PAGE_ALIGN_def frame_of_def ARCH_PAGE_SIZE_def ARCH_PAGE_SHIFT_def)
  moreover have "unat (p_memsz ph + 0xFFF) = unat (p_memsz ph) + 4095" using assms by (subst unat_word_ariths) simp
  ultimately have u: "unat (ARCH_PAGE_ALIGN (p_memsz ph)) = 4096 * ((unat (p_memsz ph) + 4095) div 4096)"
    by (simp add: frame_of_unat minus_mod_eq_mult_div)
  then show "unat (ARCH_PAGE_ALIGN (p_memsz ph)) = 4096 * seg_pages ph" by (simp add: seg_pages_def)
  show "unat (p_memsz ph) \<le> 4096 * seg_pages ph" "4096 * seg_pages ph < unat (p_memsz ph) + 4096"
    unfolding seg_pages_def u by simp_all
qed

lemma seg_lim:
  assumes "aligned (p_vaddr ph)" "unat (p_vaddr ph) + unat (p_memsz ph) \<le> 0xFFC00000"
  shows "unat (p_vaddr ph) + 4096 * seg_pages ph \<le> 0xFFC00000"
proof -
  obtain j where "unat (p_vaddr ph) = 4096 * j" using assms(1) by (auto simp: aligned_iff elim!: dvdE)
  moreover from this have "4096 * (j + seg_pages ph) < 4096 * 1047553"
    using seg_pages_bounds(3) [of ph, OF order_trans [OF le_add2 assms(2)]] assms(2) by simp
  then have "j + seg_pages ph \<le> 1047552" by simp
  ultimately show ?thesis by simp
qed

lemma seg_flag_bits: "bit (seg_flags ph) 0" "bit (seg_flags ph) 1 \<longleftrightarrow> CHECK_MFLG (p_flags ph) PF_W \<noteq> 0"
proof -
  have one: "bit (ucast PTE_PR :: u64) k \<longleftrightarrow> k = 0" "bit (ucast PTE_RW :: u64) k \<longleftrightarrow> k = 1" "bit PTE_NX k \<longleftrightarrow> k = 63" for k
  proof -
    show "bit (ucast PTE_PR :: u64) k \<longleftrightarrow> k = 0" by (simp add: PTE_PR_def bit_1_iff)
    show "bit (ucast PTE_RW :: u64) k \<longleftrightarrow> k = 1" "bit PTE_NX k \<longleftrightarrow> k = 63"
      unfolding PTE_RW_def PTE_NX_def by (auto simp only: bit_simps possible_bit_word) simp_all
  qed
  show "bit (seg_flags ph) 0" "bit (seg_flags ph) 1 \<longleftrightarrow> CHECK_MFLG (p_flags ph) PF_W \<noteq> 0"
    by (simp_all add: seg_flags_def Let_def bit_or_iff one)
qed

text \<open>
  A header the loader can serve: page aligned, below the last 4 MiB, its bytes in the file in data pages the
  tables map to themselves, outside the place the segment goes to.
\<close>

definition file_at :: "addr \<Rightarrow> elf32_phdr \<Rightarrow> nat \<Rightarrow> addr" where
  "file_at img ph i = p_offset ph + img + of_nat i"

definition segment_ok :: "loader_mm machine \<Rightarrow> addr \<Rightarrow> elf32_phdr \<Rightarrow> bool" where
  "segment_ok s img ph \<longleftrightarrow> aligned (p_vaddr ph) \<and> aligned (p_offset ph + img)
    \<and> unat (p_vaddr ph) + unat (p_memsz ph) \<le> 0xFFC00000 \<and> p_filesz ph \<le> p_memsz ph
    \<and> (p_filesz ph \<noteq> p_memsz ph \<longrightarrow> CHECK_MFLG (p_flags ph) PF_W \<noteq> 0)
    \<and> (\<forall>i < unat (p_filesz ph). translate s False (file_at img ph i) = Some (file_at img ph i)
         \<and> ARCH_GET_PD_IDX (file_at img ph i) \<noteq> 1023 \<and> data_page in_use s (frame_of (file_at img ph i))
         \<and> seg_pages ph \<le> page_in (p_vaddr ph) (file_at img ph i))"

text \<open>
  The segment is in place: its pages are mapped, writable when the header says so, the bytes of the file come
  first (\<open>m\<close> is the memory that holds the file) and what the file does not have is zero.
\<close>

definition segment_loaded :: "mem \<Rightarrow> addr \<Rightarrow> elf32_phdr \<Rightarrow> loader_mm machine \<Rightarrow> bool" where
  "segment_loaded m img ph s \<longleftrightarrow> (\<forall>i < 4096 * seg_pages ph. \<exists>a.
     translate s False (p_vaddr ph + of_nat i) = Some a \<and> data_page in_use s (frame_of a)
     \<and> translate s True (p_vaddr ph + of_nat i) = (if CHECK_MFLG (p_flags ph) PF_W \<noteq> 0 then Some a else None)
     \<and> (i < unat (p_filesz ph) \<longrightarrow> memory s a = m (file_at img ph i))
     \<and> (unat (p_filesz ph) \<le> i \<and> p_filesz ph \<noteq> p_memsz ph \<longrightarrow> memory s a = 0))"

lemma segment_loaded_cong:
  assumes "\<And>i. i < unat (p_filesz ph) \<Longrightarrow> m (file_at img ph i) = m' (file_at img ph i)"
  shows "segment_loaded m img ph s = segment_loaded m' img ph s"
  using assms by (simp add: segment_loaded_def)

text \<open>From \<open>s\<close> to \<open>s'\<close> only the translation of the addresses in \<open>R\<close> and free frames changed.\<close>

definition keeps_off :: "(u32 \<Rightarrow> bool) \<Rightarrow> loader_mm machine \<Rightarrow> loader_mm machine \<Rightarrow> bool" where
  "keeps_off R s s' \<longleftrightarrow> loader_inv s'
    \<and> (\<forall>w u. ARCH_GET_PD_IDX u \<noteq> 1023 \<and> \<not> R u \<longrightarrow> translate s' w u = translate s w u)
    \<and> (\<forall>e. in_use (frames s) e \<longrightarrow> in_use (frames s') e)
    \<and> (\<forall>e. data_page in_use s e \<longrightarrow> data_page in_use s' e)
    \<and> (\<forall>y. data_page in_use s (frame_of y) \<longrightarrow> memory s' y = memory s y)"

lemma keeps_off_refl: "loader_inv s \<Longrightarrow> keeps_off R s s"
  by (simp add: keeps_off_def)

lemma keeps_off_trans:
  assumes "keeps_off R s s1" "keeps_off R' s1 s2" "\<And>u. R u \<or> R' u \<Longrightarrow> R'' u" shows "keeps_off R'' s s2"
  using assms unfolding keeps_off_def by metis

lemma maps_keeps_off: "maps_pages in_use s s' v n q ok \<Longrightarrow> keeps_off (\<lambda>u. page_in v u < n) s s'"
  by (simp add: maps_pages_def keeps_off_def)

text \<open>A segment whose bytes are all in the file is mapped where it lies.\<close>

lemma load_shared:
  assumes inv: "loader_inv s" and ok: "segment_ok s img ph" and r: "stock N (seg_pages ph + c) (frames s)"
    and eq: "p_filesz ph = p_memsz ph"
  shows "\<exists>s'. load_segment img ph s = Inr s' \<and> stock N c (frames s') \<and> segment_loaded (memory s) img ph s'
    \<and> keeps_off (\<lambda>u. page_in (p_vaddr ph) u < seg_pages ph) s s'"
proof -
  let ?v = "p_vaddr ph" and ?p = "ucast (p_offset ph) + scast img :: u64" and ?n = "seg_pages ph" and ?b = "p_offset ph + img"
  have v: "aligned ?v" "aligned ?b" "unat ?v + unat (p_memsz ph) \<le> 0xFFC00000" using ok by (auto simp: segment_ok_def)
  note n = seg_pages_bounds [of ph, OF order_trans [OF le_add2 v(3)]]
  have lim: "unat ?v + 4096 * ?n \<le> 0xFFC00000" by (rule seg_lim [OF v(1,3)])
  have "(ucast (scast img :: u64) :: u32) = img" by (rule bit_word_eqI) (simp add: bit_simps)
  then have up: "(ucast ?p :: u32) = ?b" by (simp add: ucast_add ucast_wide)
  obtain s' where s': "load_segment img ph s = Inr s'" "stock N c (frames s')"
      "maps_pages in_use s s' ?v ?n (\<lambda>i. ?b + of_nat (4096 * i)) (\<lambda>w. w \<longrightarrow> CHECK_MFLG (p_flags ph) PF_W \<noteq> 0)"
    using map_run [OF v(1) lim, of ?p s N c "seg_flags ph"] v(2) inv r
    by (auto simp: load_segment_def eq seg_flag_bits up Let_def simp del: of_nat_mult One_nat_def)
  have "segment_loaded (memory s) img ph s'"
    unfolding segment_loaded_def
  proof (intro allI impI)
    fix i assume i: "i < 4096 * ?n"
    note p = in_page [OF v(1) order_trans [OF lim] i]
    let ?k = "4096 * (i div 4096)"
    have pd: "ARCH_GET_PD_IDX (?v + of_nat i) \<noteq> 1023" using p(3) lim i by (intro pd_index_below) simp
    have f: "file_at img ph i = ?b + of_nat ?k + of_nat (i mod 4096)"
      unfolding file_at_def by (metis (no_types) add.assoc mult_div_mod_eq of_nat_add)
    have "translate s' w (?v + of_nat i) = (if w \<longrightarrow> CHECK_MFLG (p_flags ph) PF_W \<noteq> 0 then Some (file_at img ph i) else None)" for w
      using s'(3) pd p i unfolding maps_pages_def f by (simp add: less_mult_imp_div_less mult.commute del: of_nat_mult)
    moreover have "frame_of (file_at img ph i) = frame_of (file_at img ph ?k)"
      using frame_of_offset [OF aligned_add [OF v(2)], of "i mod 4096" "i div 4096"]
        frame_of_aligned [OF aligned_add [OF v(2)], of "i div 4096"] by (simp only: f) (simp add: file_at_def del: of_nat_mult)
    moreover have k: "?k < unat (p_filesz ph)"
    proof -
      have "Suc (i div 4096) \<le> ?n" using i by (simp add: Suc_le_eq less_mult_imp_div_less mult.commute)
      then have "4096 * Suc (i div 4096) \<le> 4096 * ?n" by (rule mult_le_mono2)
      then show ?thesis using n(3) eq by simp
    qed
    then have "data_page in_use s (frame_of (file_at img ph ?k))" using ok by (simp only: segment_ok_def)
    ultimately show "\<exists>a. translate s' False (?v + of_nat i) = Some a \<and> data_page in_use s' (frame_of a)
       \<and> translate s' True (?v + of_nat i) = (if CHECK_MFLG (p_flags ph) PF_W \<noteq> 0 then Some a else None)
       \<and> (i < unat (p_filesz ph) \<longrightarrow> memory s' a = memory s (file_at img ph i))
       \<and> (unat (p_filesz ph) \<le> i \<and> p_filesz ph \<noteq> p_memsz ph \<longrightarrow> memory s' a = 0)"
      using s'(3) eq unfolding maps_pages_def by simp
  qed
  with s' maps_keeps_off show ?thesis by blast
qed

text \<open>A segment with bytes the file does not have gets pages of its own, cleared, and a copy of the file.\<close>

lemma load_copied:
  assumes inv: "loader_inv s" and ok: "segment_ok s img ph" and r: "stock N (2 * seg_pages ph + c) (frames s)"
    and ne: "p_filesz ph \<noteq> p_memsz ph"
  shows "\<exists>s'. load_segment img ph s = Inr s' \<and> stock N c (frames s') \<and> segment_loaded (memory s) img ph s'
    \<and> keeps_off (\<lambda>u. page_in (p_vaddr ph) u < seg_pages ph) s s'"
proof -
  let ?v = "p_vaddr ph" and ?n = "seg_pages ph" and ?fs = "unat (p_filesz ph)" and ?src = "file_at img ph"
  have v: "aligned ?v" "unat ?v + unat (p_memsz ph) \<le> 0xFFC00000" "CHECK_MFLG (p_flags ph) PF_W \<noteq> 0"
    and src: "\<And>i. i < ?fs \<Longrightarrow> translate s False (?src i) = Some (?src i)"
      "\<And>i. i < ?fs \<Longrightarrow> ARCH_GET_PD_IDX (?src i) \<noteq> 1023" "\<And>i. i < ?fs \<Longrightarrow> ?n \<le> page_in ?v (?src i)"
      "\<And>i. i < ?fs \<Longrightarrow> data_page in_use s (frame_of (?src i))"
    using ok ne by (auto simp: segment_ok_def)
  note n = seg_pages_bounds [of ph, OF order_trans [OF le_add2 v(2)]] and lim = seg_lim [OF v(1,2)]
  have fs: "?fs \<le> 4096 * ?n" using ok n(2) by (simp add: segment_ok_def word_le_nat_alt)
  obtain s1 q where s1: "for_pages (\<lambda>i. map_new_page (?v + of_nat (4096 * i)) (seg_flags ph)) ?n s = Inr s1" "stock N c (frames s1)"
      "maps_pages in_use s s1 ?v ?n q (\<lambda>w. True)" "inj_on q {..< ?n}"
      "\<forall>i < ?n. aligned (q i) \<and> \<not> in_use (frames s) (q i) \<and> data_page in_use s1 (q i)"
    using fresh_run [OF v(1) lim inv r, of "seg_flags ph"] v(3) by (auto simp: seg_flag_bits simp del: of_nat_mult One_nat_def)
  define \<phi> where "\<phi> k = q (k div 4096) + of_nat (k mod 4096)" for k
  have inv1: "loader_inv s1" and ok1: "machine_ok s1" using s1(3) by (simp_all add: maps_pages_def paging_inv_def)
  have div: "k div 4096 < ?n" if "k < 4096 * ?n" for k using that by (simp add: less_mult_imp_div_less mult.commute)
  have fr: "frame_of (\<phi> k) = q (k div 4096)" "\<not> in_use (frames s) (frame_of (\<phi> k))" "data_page in_use s1 (frame_of (\<phi> k))"
    if "k < 4096 * ?n" for k
    using s1(5) div [OF that] frame_of_offset [of "q (k div 4096)" "k mod 4096"] by (simp_all add: \<phi>_def)
  have tr: "translate s1 w (?v + of_nat k) = Some (\<phi> k)" if k: "k < 4096 * ?n" for w k
  proof -
    note p = in_page [OF v(1) order_trans [OF lim] k]
    have "ARCH_GET_PD_IDX (?v + of_nat k) \<noteq> 1023" using p(3) lim k by (intro pd_index_below) simp
    then show ?thesis using s1(3) p div [OF k] unfolding maps_pages_def \<phi>_def by simp
  qed
  have inj: "inj_on \<phi> {..< 4096 * ?n}"
  proof (rule inj_onI)
    fix i j assume ij: "i \<in> {..< 4096 * ?n}" "j \<in> {..< 4096 * ?n}" "\<phi> i = \<phi> j"
    then have "q (i div 4096) = q (j div 4096) \<and> i mod 4096 = j mod 4096"
      unfolding \<phi>_def using s1(5) div by (intro offset_inj) auto
    then have "i div 4096 = j div 4096 \<and> i mod 4096 = j mod 4096" using s1(4) ij div by (auto simp: inj_on_def)
    then show "i = j" by (metis mult_div_mod_eq)
  qed
  have off: "\<phi> k \<noteq> x" if "k < 4096 * ?n" "table_frame s1 (frame_of x) \<or> in_use (frames s) (frame_of x)" for k x
    using fr [OF that(1)] that(2) by (auto simp: data_page_def)
  define m2 where "m2 = (\<lambda>x. if \<exists>k < 4096 * ?n. \<phi> k = x then 0 else memory s1 x)"
  let ?s2 = "s1\<lparr>memory := m2\<rparr>"
  have "vmemset ?v 0 (4096 * ?n) s1 = Inr ?s2"
    unfolding m2_def using tr fr(3) by (intro vmemset_off [OF ok1]) (simp add: data_page_def)
  have m2: "\<And>x. table_frame s1 (frame_of x) \<Longrightarrow> m2 x = memory s1 x" using off by (auto simp: m2_def)
  note off2 = off_tables [OF ok1 m2]
  have tr2: "translate ?s2 False (?src k) = Some (?src k)" if "k < ?fs" for k
    using s1(3) src(1,2,3) [OF that] unfolding maps_pages_def by (simp add: off2(3))
  obtain m3 where m3: "vmemcpy ?v (p_offset ph + img) ?fs ?s2 = Inr (?s2\<lparr>memory := m3\<rparr>)"
      "\<forall>k < ?fs. m3 (\<phi> k) = memory ?s2 (?src k)" "\<forall>x. (\<forall>k < ?fs. \<phi> k \<noteq> x) \<longrightarrow> m3 x = memory ?s2 x"
  proof -
    have "\<exists>m. vmemcpy ?v (p_offset ph + img) ?fs ?s2 = Inr (?s2\<lparr>memory := m\<rparr>)
        \<and> (\<forall>k < ?fs. m (\<phi> k) = memory ?s2 (?src k)) \<and> (\<forall>x. (\<forall>k < ?fs. \<phi> k \<noteq> x) \<longrightarrow> m x = memory ?s2 x)"
    proof (rule vmemcpy_off [OF off2(2)])
      fix k assume k: "k < ?fs"
      then have k': "k < 4096 * ?n" using fs by simp
      show "translate ?s2 True (?v + of_nat k) = Some (\<phi> k) \<and> \<not> table_frame ?s2 (frame_of (\<phi> k))"
        using tr [OF k'] fr(3) [OF k'] by (simp add: off2(3,4) data_page_def)
      show "translate ?s2 False (p_offset ph + img + of_nat k) = Some (?src k)"
        using tr2 [OF k] by (simp add: file_at_def)
    next
      fix i j assume "i < ?fs" "j < ?fs"
      then show "?src i \<noteq> \<phi> j" using off [of j "?src i"] src(4) [of i] fs by (auto simp: data_page_def)
    next
      show "inj_on \<phi> {..< ?fs}" using inj fs by (auto intro: inj_on_subset)
    qed
    then show thesis using that by blast
  qed
  let ?s3 = "s1\<lparr>memory := m3\<rparr>"
  have same: "m3 x = memory s1 x" if "table_frame s1 (frame_of x) \<or> in_use (frames s) (frame_of x)" for x
    using m3(3) off [OF _ that] fs by (simp add: m2_def) fastforce
  then have same': "\<And>x. table_frame s1 (frame_of x) \<Longrightarrow> m3 x = memory s1 x" by blast
  note off3 = off_tables [OF ok1 same'] and inv3 = off_tables_inv [OF inv1 same']
  have "load_segment img ph s = Inr ?s3"
    using s1(1) m3(1) \<open>vmemset ?v 0 (4096 * ?n) s1 = Inr ?s2\<close> ne by (simp add: load_segment_def Let_def n(1))
  moreover have "keeps_off (\<lambda>u. page_in ?v u < ?n) s ?s3"
    using maps_keeps_off [OF s1(3)] same inv3 unfolding keeps_off_def by (simp add: off3(3)) (simp add: data_page_def)
  moreover have "segment_loaded (memory s) img ph ?s3"
    unfolding segment_loaded_def
  proof (intro allI impI exI conjI)
    fix i assume i: "i < 4096 * ?n"
    show "translate ?s3 False (?v + of_nat i) = Some (\<phi> i)"
      "translate ?s3 True (?v + of_nat i) = (if CHECK_MFLG (p_flags ph) PF_W \<noteq> 0 then Some (\<phi> i) else None)"
      using tr [OF i] v(3) by (simp_all add: off3(3))
    show "data_page in_use ?s3 (frame_of (\<phi> i))" using fr(3) [OF i] inv3(2) by simp
    show "memory ?s3 (\<phi> i) = memory s (?src i)" if "i < ?fs"
    proof -
      have "m2 (?src i) = memory s1 (?src i)"
        using off [of _ "?src i"] src(4) [OF that] by (auto simp: m2_def data_page_def)
      then show ?thesis using m3(2) that src(4) [OF that] s1(3) by (simp add: maps_pages_def)
    qed
    show "memory ?s3 (\<phi> i) = 0" if "?fs \<le> i \<and> p_filesz ph \<noteq> p_memsz ph"
    proof -
      have "\<phi> k \<noteq> \<phi> i" if "k < ?fs" for k
        using inj_onD [OF inj, of k i] that i fs \<open>?fs \<le> i \<and> p_filesz ph \<noteq> p_memsz ph\<close> by auto
      then show ?thesis using m3(3) i by (auto simp: m2_def)
    qed
  qed
  ultimately show ?thesis using s1(2) by auto
qed

lemma stock_less: "stock N (n + c) f \<Longrightarrow> stock N c f"
  by (auto simp: stock_def ready_def)

lemma load_segment_in:
  assumes inv: "loader_inv s" and ok: "segment_ok s img ph" and r: "stock N (2 * seg_pages ph + c) (frames s)"
  shows "\<exists>s'. load_segment img ph s = Inr s' \<and> stock N c (frames s') \<and> segment_loaded (memory s) img ph s'
    \<and> keeps_off (\<lambda>u. page_in (p_vaddr ph) u < seg_pages ph) s s'"
proof (cases "p_filesz ph = p_memsz ph")
  case True
  have "stock N (seg_pages ph + (seg_pages ph + c)) (frames s)" using r by (simp add: mult_2 add.assoc)
  from load_shared [OF inv ok this True] stock_less show ?thesis by (metis le_add2)
next
  case False
  then show ?thesis by (rule load_copied [OF inv ok r])
qed

section \<open>All segments\<close>

text \<open>What is loaded stays when later mappings touch neither the segment's addresses nor used frames.\<close>

lemma segment_stays:
  assumes l: "segment_loaded m img ph s" and k: "keeps_off R s s'"
    and v: "aligned (p_vaddr ph)" "unat (p_vaddr ph) + unat (p_memsz ph) \<le> 0xFFC00000"
    and out: "\<And>u. page_in (p_vaddr ph) u < seg_pages ph \<Longrightarrow> \<not> R u"
  shows "segment_loaded m img ph s'"
  unfolding segment_loaded_def
proof (intro allI impI)
  fix i assume i: "i < 4096 * seg_pages ph"
  note lim = seg_lim [OF v]
  note p = in_page [OF v(1) order_trans [OF lim] i]
  have "ARCH_GET_PD_IDX (p_vaddr ph + of_nat i) \<noteq> 1023" using p(3) lim i by (intro pd_index_below) simp
  moreover have "\<not> R (p_vaddr ph + of_nat i)" using p(1) i by (intro out) (simp add: less_mult_imp_div_less mult.commute)
  ultimately have tr: "translate s' w (p_vaddr ph + of_nat i) = translate s w (p_vaddr ph + of_nat i)" for w
    using k by (simp add: keeps_off_def)
  show "\<exists>a. translate s' False (p_vaddr ph + of_nat i) = Some a \<and> data_page in_use s' (frame_of a)
     \<and> translate s' True (p_vaddr ph + of_nat i) = (if CHECK_MFLG (p_flags ph) PF_W \<noteq> 0 then Some a else None)
     \<and> (i < unat (p_filesz ph) \<longrightarrow> memory s' a = m (file_at img ph i))
     \<and> (unat (p_filesz ph) \<le> i \<and> p_filesz ph \<noteq> p_memsz ph \<longrightarrow> memory s' a = 0)"
    unfolding tr using l [unfolded segment_loaded_def, rule_format, OF i] k by (auto simp: keeps_off_def)
qed

text \<open>An address lies in the pages of a region.\<close>

lemma region_iff:
  assumes "unat v + 4096 * n \<le> 2 ^ 32"
  shows "page_in v u < n \<longleftrightarrow> unat v \<le> unat u \<and> unat u < unat v + 4096 * n"
proof (cases "v \<le> u")
  case True
  then show ?thesis by (auto simp: page_in_def unat_sub word_le_nat_alt less_mult_imp_div_less mult.commute div_less_iff_less_mult)
next
  case False
  have "unat (u - v) = 2 ^ 32 + unat u - unat v" using False unat_sub_if' [of u v] by (simp add: word_le_nat_alt)
  then show ?thesis using False assms by (auto simp: page_in_def word_le_nat_alt div_less_iff_less_mult)
qed

text \<open>
  The loader reads the image below 4 MiB, where \<open>init\<close> maps every page to itself, and maps everything above.
  A byte of the image lies there, in a page that is in use.
\<close>

definition above :: "u32 \<Rightarrow> bool" where
  "above u \<longleftrightarrow> 0x400000 \<le> u"

definition image_byte :: "loader_mm machine \<Rightarrow> addr \<Rightarrow> bool" where
  "image_byte s a \<longleftrightarrow> \<not> above a \<and> translate s False a = Some a \<and> data_page in_use s (frame_of a)"

lemma image_byte_stays:
  assumes "image_byte s a" "keeps_off above s s'"
  shows "image_byte s' a" "memory s' a = memory s a" "view s' a = memory s a" "translate s' False a \<noteq> None"
proof -
  have "ARCH_GET_PD_IDX a \<noteq> 1023" using assms(1) by (intro pd_index_below) (simp add: image_byte_def above_def word_le_nat_alt)
  with assms show "image_byte s' a" "memory s' a = memory s a" "view s' a = memory s a" "translate s' False a \<noteq> None"
    by (auto simp: image_byte_def keeps_off_def view_def)
qed

definition header_ok :: "elf32_phdr \<Rightarrow> addr \<Rightarrow> bool" where
  "header_ok ph img \<longleftrightarrow> aligned (p_vaddr ph) \<and> aligned (p_offset ph + img) \<and> above (p_vaddr ph)
    \<and> unat (p_vaddr ph) + unat (p_memsz ph) \<le> 0xFFC00000 \<and> p_filesz ph \<le> p_memsz ph
    \<and> (p_filesz ph \<noteq> p_memsz ph \<longrightarrow> CHECK_MFLG (p_flags ph) PF_W \<noteq> 0)"

text \<open>The bytes of the image the loader reads.\<close>

definition image_reads :: "elf_context \<Rightarrow> elf32_phdr list \<Rightarrow> addr set" where
  "image_reads ctx phs = (\<lambda>k. img32 ctx + of_nat k) ` {..< 52}
    \<union> (\<Union>i < length phs. (\<lambda>k. phdr32 ctx + 32 * of_nat i + of_nat k) ` {..< 32})
    \<union> (\<Union>ph \<in> set phs. file_at (img32 ctx) ph ` {..< unat (p_filesz ph)})"

text \<open>An image the loader can serve; its segments do not overlap.\<close>

definition image_ok :: "mem \<Rightarrow> elf_context \<Rightarrow> elf32_phdr list \<Rightarrow> bool" where
  "image_ok m ctx phs \<longleftrightarrow>
     phs = map (ld_phdr m (phdr32 ctx)) [0 ..< unat (e_phnum (ld_ehdr m (img32 ctx)))]
    \<and> (\<forall>ph \<in> set phs. header_ok ph (img32 ctx))
    \<and> (\<forall>i < length phs. \<forall>j < i. \<forall>u. page_in (p_vaddr (phs ! i)) u < seg_pages (phs ! i)
         \<longrightarrow> \<not> page_in (p_vaddr (phs ! j)) u < seg_pages (phs ! j))"

lemma ld_words:
  assumes "\<And>k. k < n \<Longrightarrow> m' (a + of_nat k) = m (a + of_nat k)"
  shows "i + 4 \<le> n \<Longrightarrow> ld32 m' (a + of_nat i) = ld32 m (a + of_nat i)"
    "i + 2 \<le> n \<Longrightarrow> ld16 m' (a + of_nat i) = ld16 m (a + of_nat i)"
  using assms [of i] assms [of "i + 1"] assms [of "i + 2"] assms [of "i + 3"]
  by (simp_all add: ld32_def ld16_def ac_simps)

lemma ld_ehdr_cong:
  assumes "\<And>k. k < 52 \<Longrightarrow> m' (a + of_nat k) = m (a + of_nat k)" shows "ld_ehdr m' a = ld_ehdr m a"
proof -
  note w = ld_words [of 52 m' a m, OF assms]
  have "map (\<lambda>i. m' (a + of_nat i)) [0 ..< 16] = map (\<lambda>i. m (a + of_nat i)) [0 ..< 16]" using assms by simp
  then show ?thesis
    using w(1) [of 20] w(1) [of 24] w(1) [of 28] w(1) [of 32] w(1) [of 36] w(2) [of 16] w(2) [of 18] w(2) [of 40]
      w(2) [of 42] w(2) [of 44] w(2) [of 46] w(2) [of 48] w(2) [of 50]
    unfolding ld_ehdr_def by simp
qed

lemma ld_phdr_cong:
  assumes "\<And>k. k < 32 \<Longrightarrow> m' (t + 32 * of_nat i + of_nat k) = m (t + 32 * of_nat i + of_nat k)"
  shows "ld_phdr m' t i = ld_phdr m t i"
proof -
  note w = ld_words(1) [of 32 m' "t + 32 * of_nat i" m, OF assms]
  show ?thesis
    using w [of 0] w [of 4] w [of 8] w [of 12] w [of 16] w [of 20] w [of 24] w [of 28]
    unfolding ld_phdr_def Let_def by simp
qed

text \<open>What the loader reads of the image does not change while it maps segments.\<close>

lemma image_views:
  assumes im: "image_ok (memory s) ctx phs" "\<forall>a \<in> image_reads ctx phs. image_byte s a" and k: "keeps_off above s s'"
  shows "readable s' (img32 ctx) 52" "ld_ehdr (view s') (img32 ctx) = ld_ehdr (memory s) (img32 ctx)"
    "i < length phs \<Longrightarrow> readable s' (phdr32 ctx + 32 * of_nat i) 32"
    "i < length phs \<Longrightarrow> ld_phdr (view s') (phdr32 ctx) i = phs ! i"
    "length phs = unat (e_phnum (ld_ehdr (memory s) (img32 ctx)))"
proof -
  have e: "image_byte s (img32 ctx + of_nat k)" if "k < 52" for k
    using im(2) that by (auto simp: image_reads_def)
  note E = image_byte_stays [OF e k]
  have p: "image_byte s (phdr32 ctx + 32 * of_nat i + of_nat k)" if "i < length phs" "k < 32" for k
    using im(2) that by (auto simp: image_reads_def)
  note P = image_byte_stays [OF p k]
  have ph: "phs = map (ld_phdr (memory s) (phdr32 ctx)) [0 ..< unat (e_phnum (ld_ehdr (memory s) (img32 ctx)))]"
    using im by (simp only: image_ok_def)
  then show l: "length phs = unat (e_phnum (ld_ehdr (memory s) (img32 ctx)))" by (metis diff_zero length_map length_upt)
  show "readable s' (img32 ctx) 52" using E(4) by (simp add: readable_def)
  show "ld_ehdr (view s') (img32 ctx) = ld_ehdr (memory s) (img32 ctx)"
    by (rule ld_ehdr_cong) (use E(2,3) in simp)
  assume i: "i < length phs"
  show "readable s' (phdr32 ctx + 32 * of_nat i) 32" using P(4) [OF i] by (simp add: readable_def)
  have "phs ! i = ld_phdr (memory s) (phdr32 ctx) i" using i l by (subst ph) simp
  moreover have "ld_phdr (view s') (phdr32 ctx) i = ld_phdr (memory s) (phdr32 ctx) i"
    by (rule ld_phdr_cong) (use P(2,3) [OF i] in simp)
  ultimately show "ld_phdr (view s') (phdr32 ctx) i = phs ! i" by simp
qed

lemma header_area:
  assumes "header_ok ph img" "page_in (p_vaddr ph) u < seg_pages ph"
  shows "above u" "unat u < unat (p_vaddr ph) + 4096 * seg_pages ph"
proof -
  have lim: "unat (p_vaddr ph) + 4096 * seg_pages ph \<le> 0xFFC00000"
    using assms(1) by (intro seg_lim) (simp_all add: header_ok_def)
  from assms show "above u" "unat u < unat (p_vaddr ph) + 4096 * seg_pages ph"
    using region_iff [OF order_trans [OF lim], of u] by (simp_all add: header_ok_def above_def word_le_nat_alt)
qed

lemma image_segment:
  assumes im: "image_ok (memory s) ctx phs" "\<forall>a \<in> image_reads ctx phs. image_byte s a"
    and k: "keeps_off above s s'" and ph: "ph \<in> set phs"
  shows "segment_ok s' (img32 ctx) ph" "i < unat (p_filesz ph) \<Longrightarrow> memory s' (file_at (img32 ctx) ph i) = memory s (file_at (img32 ctx) ph i)"
proof -
  have "file_at (img32 ctx) ph i \<in> image_reads ctx phs" if "i < unat (p_filesz ph)" for i
    using ph that unfolding image_reads_def by blast
  then have b: "image_byte s (file_at (img32 ctx) ph i)" if "i < unat (p_filesz ph)" for i
    using im(2) that by blast
  note B = image_byte_stays [OF b k]
  have h: "header_ok ph (img32 ctx)" using im(1) ph unfolding image_ok_def by blast
  have "seg_pages ph \<le> page_in (p_vaddr ph) (file_at (img32 ctx) ph i)"
    "ARCH_GET_PD_IDX (file_at (img32 ctx) ph i) \<noteq> 1023" if "i < unat (p_filesz ph)" for i
  proof -
    have "\<not> above (file_at (img32 ctx) ph i)" using b [OF that] by (simp add: image_byte_def)
    then show "seg_pages ph \<le> page_in (p_vaddr ph) (file_at (img32 ctx) ph i)"
      using header_area(1) [OF h, of "file_at (img32 ctx) ph i"] by (auto simp: not_less [symmetric])
    have "unat (file_at (img32 ctx) ph i) < 0x400000"
      using \<open>\<not> above (file_at (img32 ctx) ph i)\<close> by (simp add: above_def word_le_nat_alt not_le)
    then show "ARCH_GET_PD_IDX (file_at (img32 ctx) ph i) \<noteq> 1023" by (intro pd_index_below) simp
  qed
  with B(1) h show "segment_ok s' (img32 ctx) ph" by (simp add: segment_ok_def header_ok_def image_byte_def)
  show "i < unat (p_filesz ph) \<Longrightarrow> memory s' (file_at (img32 ctx) ph i) = memory s (file_at (img32 ctx) ph i)"
    by (rule B(2))
qed

definition image_end :: "elf32_phdr list \<Rightarrow> u32 \<Rightarrow> u32" where
  "image_end phs pps = fold (\<lambda>ph pps. MAX_of pps (p_vaddr ph + ARCH_PAGE_ALIGN (p_memsz ph))) phs pps"

declare load_segments.simps [simp del]

lemma load_segments_run:
  assumes im: "image_ok (memory s) ctx phs" "\<forall>a \<in> image_reads ctx phs. image_byte s a"
    and "keeps_off above s s1" "\<forall>j < i. segment_loaded (memory s) (img32 ctx) (phs ! j) s1"
    and "stock N (sum_list (map (\<lambda>ph. 2 * seg_pages ph) (drop i phs)) + c) (frames s1)" and "i \<le> length phs"
  shows "\<exists>s'. load_segments ctx i pps s1 = Inr (image_end (drop i phs) pps, s') \<and> stock N c (frames s')
    \<and> keeps_off above s s' \<and> (\<forall>ph \<in> set phs. segment_loaded (memory s) (img32 ctx) ph s')"
  using assms(3-6)
proof (induction "length phs - i" arbitrary: i s1 pps)
  case 0
  then have "i = length phs" by simp
  with 0 show ?case
    using image_views [OF im 0(2)] by (subst load_segments.simps) (auto simp: image_end_def in_set_conv_nth)
next
  case (Suc k)
  then have i: "i < length phs" and k: "k = length phs - Suc i" by simp_all
  let ?ph = "phs ! i" and ?img = "img32 ctx"
  note V = image_views [OF im Suc.prems(1)] and S = image_segment [OF im Suc.prems(1) nth_mem [OF i]]
  have d: "drop i phs = ?ph # drop (Suc i) phs" by (rule Cons_nth_drop_Suc [OF i, symmetric])
  have inv: "loader_inv s1" using Suc.prems(1) by (simp add: keeps_off_def)
  have r: "stock N (2 * seg_pages ?ph + (sum_list (map (\<lambda>ph. 2 * seg_pages ph) (drop (Suc i) phs)) + c)) (frames s1)"
    using Suc.prems(3) by (simp add: d add.assoc)
  obtain s2 where s2: "load_segment ?img ?ph s1 = Inr s2"
      "stock N (sum_list (map (\<lambda>ph. 2 * seg_pages ph) (drop (Suc i) phs)) + c) (frames s2)"
      "segment_loaded (memory s1) ?img ?ph s2" "keeps_off (\<lambda>u. page_in (p_vaddr ?ph) u < seg_pages ?ph) s1 s2"
    using load_segment_in [OF inv S(1) r] by blast
  have h: "header_ok (phs ! j) ?img" if "j < length phs" for j
    using im(1) nth_mem [OF that] unfolding image_ok_def by blast
  have area: "\<And>u. above u \<or> page_in (p_vaddr ?ph) u < seg_pages ?ph \<Longrightarrow> above u"
    using header_area(1) [OF h [OF i]] by blast
  have k2: "keeps_off above s s2" by (rule keeps_off_trans [OF Suc.prems(1) s2(4) area])
  have "segment_loaded (memory s) ?img ?ph s2"
    using s2(3) S(2) unfolding segment_loaded_def by simp
  moreover have "segment_loaded (memory s) ?img (phs ! j) s2" if "j < i" for j
  proof (rule segment_stays [OF _ s2(4)])
    show "segment_loaded (memory s) ?img (phs ! j) s1" using Suc.prems(2) that by blast
    show "aligned (p_vaddr (phs ! j))" "unat (p_vaddr (phs ! j)) + unat (p_memsz (phs ! j)) \<le> 0xFFC00000"
      using h [of j] that i by (simp_all add: header_ok_def)
    show "\<And>u. page_in (p_vaddr (phs ! j)) u < seg_pages (phs ! j) \<Longrightarrow> \<not> page_in (p_vaddr ?ph) u < seg_pages ?ph"
      using im(1) that i unfolding image_ok_def by blast
  qed
  ultimately have l: "\<forall>j < Suc i. segment_loaded (memory s) ?img (phs ! j) s2" by (auto simp: less_Suc_eq)
  let ?pps = "MAX_of pps (p_vaddr ?ph + ARCH_PAGE_ALIGN (p_memsz ?ph))"
  obtain s' where s': "load_segments ctx (Suc i) ?pps s2 = Inr (image_end (drop (Suc i) phs) ?pps, s')" "stock N c (frames s')"
      "keeps_off above s s'" "\<forall>ph \<in> set phs. segment_loaded (memory s) ?img ph s'"
    using Suc.hyps(1) [OF k k2 l s2(2), of ?pps] i by auto
  have "load_segments ctx i pps s1 = Inr (image_end (drop i phs) pps, s')"
    using V(1,2,3,4) i s2(1) s'(1) by (subst load_segments.simps) (simp add: V(5) [symmetric] d image_end_def Let_def)
  with s' show ?case by blast
qed

section \<open>The whole run\<close>

lemma for_pages_cong: "(\<And>i. i < n \<Longrightarrow> f i = g i) \<Longrightarrow> for_pages f n s = for_pages g n s"
  by (induction n) simp_all

lemma keeps_off_mono: "keeps_off R s s' \<Longrightarrow> (\<And>u. R u \<Longrightarrow> R' u) \<Longrightarrow> keeps_off R' s s'"
  unfolding keeps_off_def by metis

lemma keeps_above:
  assumes "keeps_off (\<lambda>u. page_in v u < n) s s'" "above v" "unat v + 4096 * n \<le> 2 ^ 32"
  shows "keeps_off above s s'"
  by (rule keeps_off_mono [OF assms(1)]) (use region_iff [OF assms(3)] assms(2) in \<open>auto simp: above_def word_le_nat_alt\<close>)

text \<open>The first MiB again, from \<open>ARCH_VIRT_BASE\<close> on.\<close>

lemma run_flags: "bit (ucast (PTE_RW OR PTE_PR) :: u64) 0" "bit (ucast (PTE_RW OR PTE_PR) :: u64) 1"
  "bit (ucast PTE_PR OR ucast PTE_RW OR PTE_NX :: u64) 0" "bit (ucast PTE_PR OR ucast PTE_RW OR PTE_NX :: u64) 1"
  by (simp_all add: PTE_RW_def PTE_PR_def PTE_NX_def)

lemma map_low_maps:
  assumes inv: "loader_inv s" and r: "stock N (256 + c) (frames s)"
  shows "\<exists>s'. map_low s = Inr s' \<and> stock N c (frames s') \<and> maps_pages in_use s s' 0xE0000000 256 (\<lambda>i. of_nat (4096 * i)) (\<lambda>w. True)"
proof -
  have "map_low s = for_pages (\<lambda>i. loader_map (ucast (0xE0000000 + of_nat (4096 * i) :: u32)) (0 + of_nat (4096 * i))
      (ucast (PTE_RW OR PTE_PR))) 256 s"
    unfolding map_low_def
  proof (rule for_pages_cong)
    fix i :: nat assume i: "i < 256"
    have "ucast (of_nat (4096 * i) :: u32) = (of_nat (4096 * i) :: u64)"
      using i by (simp add: word_unat_eq_iff unsigned_ucast_eq unat_of_nat take_bit_eq_mod del: of_nat_mult)
    then show "(let p = of_nat (4096 * i) in loader_map (ucast (ARCH_GET_PHYS p)) (ucast p) (ucast (PTE_RW OR PTE_PR))) =
        loader_map (ucast (0xE0000000 + of_nat (4096 * i) :: u32)) (0 + of_nat (4096 * i)) (ucast (PTE_RW OR PTE_PR))"
      by (simp only: Let_def ARCH_GET_PHYS_def ARCH_VIRT_BASE_def add_0 add.commute [of "of_nat _" "0xE0000000"])
  qed
  moreover have "aligned 0xE0000000" "unat (0xE0000000 :: u32) + 4096 * 256 \<le> 0xFFC00000" "aligned (ucast (0 :: u64))"
    by (simp_all add: aligned_def)
  note map_run [OF this inv r, where flags = "ucast (PTE_RW OR PTE_PR)"]
  ultimately show ?thesis by (simp add: run_flags del: of_nat_mult One_nat_def)
qed

text \<open>A page of its own, cleared.\<close>

lemma fresh_zeroed:
  fixes flags :: u64
  assumes inv: "loader_inv s" and r: "stock N (Suc (Suc c)) (frames s)" and v: "aligned v" "unat v + 4096 \<le> 0xFFC00000"
    and fl: "bit flags 0" "bit flags 1"
  shows "\<exists>s'. bind_res (map_new_page v flags s) (vmemset v 0 4096) = Inr s' \<and> stock N c (frames s')
    \<and> keeps_off (\<lambda>u. page_in v u < 1) s s'
    \<and> (\<forall>k < 4096. \<exists>a. (\<forall>w. translate s' w (v + of_nat k) = Some a) \<and> memory s' a = 0)"
proof -
  have pd: "ARCH_GET_PD_IDX v \<noteq> 1023" using v(2) by (intro pd_index_below) simp
  obtain s1 q where s1: "map_new_page v flags s = Inr s1" "stock N c (frames s1)" "aligned q" "\<not> in_use (frames s) q"
      "data_page in_use s1 q" "maps_pages in_use s s1 v 1 (\<lambda>_. q) (\<lambda>w. True)"
    using map_fresh [OF inv r v(1) pd, of flags] fl by (auto simp del: One_nat_def)
  have inv1: "loader_inv s1" and ok1: "machine_ok s1" using s1(6) by (simp_all add: maps_pages_def paging_inv_def)
  have tr: "translate s1 w (v + of_nat k) = Some (q + of_nat k) \<and> frame_of (q + of_nat k) = q" if k: "k < 4096" for w k
  proof -
    have k1: "k < 4096 * 1" and l: "unat v + 4096 * 1 \<le> 2 ^ 32" using k v(2) by simp_all
    note p = in_page [OF v(1) l k1]
    have "ARCH_GET_PD_IDX (v + of_nat k) \<noteq> 1023" using p(3) v(2) k by (intro pd_index_below) simp
    then show ?thesis using s1(6) p k frame_of_offset [OF s1(3) k] unfolding maps_pages_def by simp
  qed
  define m where "m = (\<lambda>x. if \<exists>k < 4096 :: nat. q + of_nat k = x then 0 else memory s1 x)"
  have set: "vmemset v 0 4096 s1 = Inr (s1\<lparr>memory := m\<rparr>)"
    unfolding m_def using tr s1(5) by (intro vmemset_off [OF ok1]) (simp add: data_page_def)
  have fr: "frame_of x = q" if "m x \<noteq> memory s1 x" for x
    using that tr by (auto simp: m_def split: if_splits)
  have same: "\<And>x. table_frame s1 (frame_of x) \<Longrightarrow> m x = memory s1 x" using fr s1(5) by (auto simp: data_page_def)
  note off = off_tables [OF ok1 same] and inv' = off_tables_inv [OF inv1 same]
  have "m x = memory s1 x" if "data_page in_use s (frame_of x)" for x using fr s1(4) that by (auto simp: data_page_def)
  then have "keeps_off (\<lambda>u. page_in v u < 1) s (s1\<lparr>memory := m\<rparr>)"
    using maps_keeps_off [OF s1(6)] inv' unfolding keeps_off_def by (simp add: off(3))
  moreover have "\<exists>a. (\<forall>w. translate (s1\<lparr>memory := m\<rparr>) w (v + of_nat k) = Some a) \<and> m a = 0" if "k < 4096" for k
  proof (intro exI conjI allI)
    show "translate (s1\<lparr>memory := m\<rparr>) w (v + of_nat k) = Some (q + of_nat k)" for w
      using tr [OF that] by (simp add: off(3))
    show "m (q + of_nat k) = 0" using that by (auto simp: m_def)
  qed
  ultimately show ?thesis using s1(1,2) set by simp
qed

lemma image_end_bounds:
  assumes "\<forall>ph \<in> set phs. header_ok ph img" "aligned pps"
  shows "aligned (image_end phs pps) \<and> unat pps \<le> unat (image_end phs pps)
    \<and> (\<forall>ph \<in> set phs. unat (p_vaddr ph) + 4096 * seg_pages ph \<le> unat (image_end phs pps))"
  using assms
proof (induction phs arbitrary: pps)
  case (Cons ph phs)
  let ?e = "p_vaddr ph + ARCH_PAGE_ALIGN (p_memsz ph)"
  have h: "aligned (p_vaddr ph)" "unat (p_vaddr ph) + unat (p_memsz ph) \<le> 0xFFC00000" using Cons.prems(1) by (simp_all add: header_ok_def)
  have "unat ?e = unat (p_vaddr ph) + 4096 * seg_pages ph"
    using seg_lim [OF h] seg_pages_bounds(1) [of ph] h(2) by (subst unat_word_ariths) simp
  moreover from this have "aligned ?e" using h(1) by (simp add: aligned_iff)
  then have "aligned (MAX_of pps ?e)" using Cons.prems(2) by (simp add: MAX_of_def)
  note Cons.IH [OF _ this]
  ultimately show ?case
    using Cons.prems(1) by (auto simp: image_end_def MAX_of_def word_le_nat_alt word_less_nat_alt)
qed (simp add: image_end_def)

definition pps_pages :: "u32 \<Rightarrow> nat" where
  "pps_pages N = Suc (unat ((N * sizeof_page + 1) div ARCH_PAGE_SIZE))"

text \<open>The kernel's view of the machine it is started on.\<close>

definition kernel_ready :: "mem \<Rightarrow> elf_context \<Rightarrow> elf32_phdr list \<Rightarrow> u32 \<Rightarrow> loader_mm machine \<Rightarrow> bool" where
  "kernel_ready m ctx phs N s \<longleftrightarrow>
     (\<forall>ph \<in> set phs. segment_loaded m (img32 ctx) ph s)
    \<and> (\<forall>k < 4096 * pps_pages N. \<exists>a. \<forall>w. translate s w (image_end phs 0 + of_nat k) = Some a)
    \<and> (\<forall>k < 4096. \<exists>a. (\<forall>w. translate s w (ARCH_STACK_BOTTOM - ARCH_PAGE_SIZE + of_nat k) = Some a) \<and> memory s a = 0)"

lemma run_program32_run:
  assumes inv: "loader_inv s" and im: "image_ok (memory s) ctx phs" "\<forall>a \<in> image_reads ctx phs. image_byte s a"
    and ne: "phs \<noteq> []" and lim: "unat (image_end phs 0) + 4096 * pps_pages N \<le> 0xFF7FF000"
    and r: "stock N (256 + (sum_list (map (\<lambda>ph. 2 * seg_pages ph) phs) + (2 * pps_pages N + Suc (Suc c)))) (frames s)"
  shows "\<exists>h s'. run_program32 sig ctx s = Inr (h, s') \<and> h_entry h = e_entry (ld_ehdr (memory s) (img32 ctx))
    \<and> h_esp h = 0xFF7FFFF0 \<and> h_magic h = sig \<and> h_ctx h = ctx \<and> h_pps_start h = image_end phs 0
    \<and> kernel_ready (memory s) ctx phs N s' \<and> loader_inv s' \<and> stock N c (frames s')"
proof -
  let ?e = "image_end phs 0" and ?P = "pps_pages N" and ?st = "0xFF7FF000 :: u32"
  have hd: "\<forall>ph \<in> set phs. header_ok ph (img32 ctx)" using im(1) unfolding image_ok_def by blast
  have e: "aligned ?e" "\<forall>ph \<in> set phs. unat (p_vaddr ph) + 4096 * seg_pages ph \<le> unat ?e"
    using image_end_bounds [OF hd, of 0] by (simp_all add: aligned_def)
  have ab: "above ?e" 
  proof -
    have "unat (p_vaddr (hd phs)) \<le> unat ?e" "above (p_vaddr (hd phs))" 
      using e(2) hd list.set_sel(1) [OF ne] by (fastforce simp: header_ok_def)+
    then show ?thesis by (simp add: above_def word_le_nat_alt)
  qed
  have st: "aligned ?st" "unat ?st + 4096 \<le> 0xFFC00000" by (simp_all add: aligned_def)
  obtain s1 where s1: "map_low s = Inr s1" "maps_pages in_use s s1 0xE0000000 256 (\<lambda>i. of_nat (4096 * i)) (\<lambda>w. True)"
      "stock N (sum_list (map (\<lambda>ph. 2 * seg_pages ph) phs) + (2 * ?P + Suc (Suc c))) (frames s1)"
    using map_low_maps [OF inv r] by blast
  have k1: "keeps_off above s s1"
    by (rule keeps_above [OF maps_keeps_off [OF s1(2)]]) (simp_all add: above_def)
  obtain s2 where s2: "load_segments ctx 0 0 s1 = Inr (?e, s2)" "stock N (2 * ?P + Suc (Suc c)) (frames s2)"
      "keeps_off above s s2" "\<forall>ph \<in> set phs. segment_loaded (memory s) (img32 ctx) ph s2"
    using load_segments_run [OF im k1, of 0 N "2 * ?P + Suc (Suc c)" 0] s1(3) by (auto simp: add.assoc)
  have inv2: "loader_inv s2" and N: "lm_num_pages (frames s2) = N" using s2(2,3) by (simp_all add: keeps_off_def stock_def)
  have lime: "unat ?e + 4096 * ?P \<le> 0xFFC00000" using lim by simp
  obtain s3 q where s3: "init_pps32 ?e s2 = Inr s3" "stock N (Suc (Suc c)) (frames s3)" "maps_pages in_use s2 s3 ?e ?P q (\<lambda>w. True)"
    using fresh_run [OF e(1) lime inv2 s2(2), of "ucast (PTE_RW OR PTE_PR)"]
    by (auto simp: init_pps32_def N Let_def pps_pages_def run_flags simp del: of_nat_mult One_nat_def for_pages.simps)
  have inv3: "loader_inv s3" using s3(3) by (simp add: maps_pages_def)
  obtain s4 where s4: "bind_res (map_new_page ?st (ucast PTE_PR OR ucast PTE_RW OR PTE_NX) s3) (vmemset ?st 0 4096) = Inr s4"
      "stock N c (frames s4)" "keeps_off (\<lambda>u. page_in ?st u < 1) s3 s4"
      "\<forall>k < 4096. \<exists>a. (\<forall>w. translate s4 w (?st + of_nat k) = Some a) \<and> memory s4 a = 0"
    using fresh_zeroed [OF inv3 s3(2) st run_flags(3,4)] by blast
  have k3: "keeps_off (\<lambda>u. unat ?e \<le> unat u) s2 s3"
    by (rule keeps_off_mono [OF maps_keeps_off [OF s3(3)]]) (use region_iff [of ?e ?P] lim in simp)
  have k4: "keeps_off (\<lambda>u. unat ?st \<le> unat u) s3 s4"
    by (rule keeps_off_mono [OF s4(3)]) (use region_iff [of ?st 1] in simp)
  have k24: "keeps_off (\<lambda>u. unat ?e \<le> unat u) s2 s4"
    by (rule keeps_off_trans [OF k3 k4]) (use lim in auto)
  have k: "keeps_off above s s4"
    by (rule keeps_off_trans [OF s2(3) k24]) (use ab in \<open>auto simp: above_def word_le_nat_alt\<close>)
  note V = image_views [OF im k]
  have "segment_loaded (memory s) (img32 ctx) ph s4" if "ph \<in> set phs" for ph
  proof (rule segment_stays [OF _ k24])
    show "segment_loaded (memory s) (img32 ctx) ph s2" using s2(4) that by blast
    have h: "header_ok ph (img32 ctx)" using hd that by blast
    then show "aligned (p_vaddr ph)" "unat (p_vaddr ph) + unat (p_memsz ph) \<le> 0xFFC00000" by (simp_all add: header_ok_def)
    show "\<And>u. page_in (p_vaddr ph) u < seg_pages ph \<Longrightarrow> \<not> unat ?e \<le> unat u"
      using header_area(2) [OF h] e(2) that by fastforce
  qed
  moreover have "\<exists>a. \<forall>w. translate s4 w (?e + of_nat k) = Some a" if k: "k < 4096 * ?P" for k
  proof -
    note p = in_page [OF e(1) _ k]
    have u: "unat (?e + of_nat k) < 0xFF7FF000" "page_in ?e (?e + of_nat k) < ?P" 
      using p lim k by (simp_all add: less_mult_imp_div_less mult.commute)
    then have pd: "ARCH_GET_PD_IDX (?e + of_nat k) \<noteq> 1023" by (intro pd_index_below) simp
    have "translate s4 w (?e + of_nat k) = translate s3 w (?e + of_nat k)" for w
      using k4 pd u(1) by (simp add: keeps_off_def)
    then show ?thesis using s3(3) pd u(2) by (simp add: maps_pages_def)
  qed
  ultimately have "kernel_ready (memory s) ctx phs N s4"
    using s4(4) by (simp add: kernel_ready_def ARCH_STACK_BOTTOM_def ARCH_PAGE_SIZE_def ARCH_PAGE_SHIFT_def)
  moreover have "run_program32 sig ctx s = Inr (\<lparr>h_entry = e_entry (ld_ehdr (memory s) (img32 ctx)), h_esp = 0xFF7FFFF0,
      h_magic = sig, h_ctx = ctx, h_pps_start = ?e\<rparr>, s4)"
    using s1(1) s2(1) s3(1) s4(1) V(1,2)
    by (simp add: run_program32_def bind_res_assoc [symmetric] ARCH_STACK_BOTTOM_def ARCH_PAGE_SIZE_def ARCH_PAGE_SHIFT_def)
  ultimately show ?thesis using k s4(2) by (auto simp: keeps_off_def)
qed

lemma image_ok_cong:
  assumes im: "image_ok m ctx phs" and eq: "\<forall>a \<in> image_reads ctx phs. m' a = m a"
  shows "image_ok m' ctx phs"
proof -
  have e: "ld_ehdr m' (img32 ctx) = ld_ehdr m (img32 ctx)"
    by (rule ld_ehdr_cong) (use eq in \<open>auto simp: image_reads_def\<close>)
  have ph: "phs = map (ld_phdr m (phdr32 ctx)) [0 ..< unat (e_phnum (ld_ehdr m (img32 ctx)))]"
    using im by (simp only: image_ok_def)
  then have l: "length phs = unat (e_phnum (ld_ehdr m (img32 ctx)))" by (metis diff_zero length_map length_upt)
  have "ld_phdr m' (phdr32 ctx) i = ld_phdr m (phdr32 ctx) i" if "i < length phs" for i
    by (rule ld_phdr_cong) (use eq that in \<open>auto simp: image_reads_def\<close>)
  then have "map (ld_phdr m' (phdr32 ctx)) [0 ..< unat (e_phnum (ld_ehdr m (img32 ctx)))] =
      map (ld_phdr m (phdr32 ctx)) [0 ..< unat (e_phnum (ld_ehdr m (img32 ctx)))]"
    using l by simp
  with im ph e show ?thesis unfolding image_ok_def by metis
qed

section \<open>The choice\<close>

lemma module_walk_all:
  assumes "unat a + 16 * n < 2 ^ 32"
  shows "module_walk a (a + of_nat (16 * n)) = Some (map (\<lambda>i. a + of_nat (16 * i)) [0 ..< n])"
  using assms
proof (induction n arbitrary: a)
  case 0
  then show ?case by (simp add: module_walk.simps)
next
  case (Suc n)
  have u: "unat (a + of_nat (16 * Suc n)) = unat a + 16 * Suc n"
  proof -
    have "a + of_nat (16 * Suc n) = of_nat (unat a + 16 * Suc n)" by simp
    then show ?thesis using Suc.prems by (simp only:) (rule unat_of_nat_small, simp)
  qed
  have "unat (a + 16) = unat a + 16" using Suc.prems by (subst unat_word_ariths) simp
  then have "module_walk (a + 16) (a + 16 + of_nat (16 * n)) = Some (map (\<lambda>i. a + 16 + of_nat (16 * i)) [0 ..< n])"
    using Suc.prems by (intro Suc.IH) simp
  moreover have "a + 16 + of_nat (16 * n) = a + of_nat (16 * Suc n)" by simp
  moreover have "map (\<lambda>i. a + of_nat (16 * i)) [0 ..< Suc n] = a # map (\<lambda>i. a + 16 + of_nat (16 * i)) [0 ..< n]"
    by (simp add: upt_conv_Cons comp_def add.assoc flip: map_Suc_upt del: upt_Suc)
  moreover have "a < a + of_nat (16 * Suc n)" unfolding word_less_nat_alt u by simp
  ultimately show ?case by (subst module_walk.simps) (simp add: add.assoc)
qed

text \<open>Whether the command line of the module at \<open>a\<close> starts with the name of the 32-bit kernel.\<close>

definition is_kernel32 :: "main_rodata \<Rightarrow> mem \<Rightarrow> addr \<Rightarrow> bool" where
  "is_kernel32 ro m a \<longleftrightarrow> memcmp (mod_cmdline (ld_module m a)) (lit_cxkrnl32 ro) 8 m = 0"

lemma see_modules:
  "cxkrnl32 (fold (see_module ro m) ms f) = (if cxkrnl32 f = None then find (is_kernel32 ro m) ms else cxkrnl32 f)"
  "mods_end (fold (see_module ro m) ms f) = fold (\<lambda>a e. MAX_of e (mod_end (ld_module m a))) ms (mods_end f)"
  by (induction ms arbitrary: f) (auto simp: see_module_def Let_def is_kernel32_def)

section \<open>Properties\<close>

text \<open>C6. Turning paging on and running the kernel's image, with enough free pages, ends in the hand-over
  with the entry point of the image: every segment is at its address, its pages writable if the header says
  so, its bytes those of the file and then zero; the page structures are mapped behind it; the stack page is
  clear and the stack pointer in it.\<close>

theorem kernel_started:
  assumes im: "image_ok (memory s) ctx phs" "phs \<noteq> []"
    and low: "\<forall>a \<in> image_reads ctx phs. a < 0x400000 \<and> in_use (frames s) (frame_of a)"
  defines "N \<equiv> lm_num_pages (frames s)"
  assumes lim: "unat (image_end phs 0) + 4096 * pps_pages N \<le> 0xFF7FF000"
    and r: "ready (260 + 2 * pps_pages N + sum_list (map (\<lambda>ph. 2 * seg_pages ph) phs)) (frames s)"
  shows "\<exists>s1 h s'. Mmu32Nopae_init s = Inr s1 \<and> run_program32 sig ctx s1 = Inr (h, s')
    \<and> h_entry h = e_entry (ld_ehdr (memory s) (img32 ctx)) \<and> h_esp h = 0xFF7FFFF0 \<and> h_magic h = sig
    \<and> h_ctx h = ctx \<and> h_pps_start h = image_end phs 0 \<and> kernel_ready (memory s) ctx phs N s' \<and> loader_inv s'"
proof -
  have r: "ready (Suc (Suc (256 + (sum_list (map (\<lambda>ph. 2 * seg_pages ph) phs) + (2 * pps_pages N + Suc (Suc 0)))))) (frames s)"
    using r by (simp add: algebra_simps)
  obtain pd pt f where s1: "Mmu32Nopae_init s = Inr (s\<lparr>memory := first_tables pd pt (memory s), frames := f, cr3 := pd,
        cr4 := cr4 s OR CR4_PGE, cr0 := cr0 s OR (CR0_PG OR CR0_WP), page_dir_addr := 0xFFFFF000\<rparr>)" (is "_ = Inr ?s1")
      and p: "aligned pd" "aligned pt" "pd \<noteq> pt" "in_use f pd" "in_use f pt"
      and f: "ready (256 + (sum_list (map (\<lambda>ph. 2 * seg_pages ph) phs) + (2 * pps_pages N + Suc (Suc 0)))) f"
        "lm_num_pages f = N" "\<not> in_use (frames s) pd" "\<not> in_use (frames s) pt" "\<forall>b. in_use (frames s) b \<longrightarrow> in_use f b"
    using init_result [OF r] unfolding N_def by blast
  note M = first_tables_machine [OF p, where s = s]
  have fr: "frame_of a \<noteq> pd" "frame_of a \<noteq> pt" if "a \<in> image_reads ctx phs" for a
    using low f(3,4) that by auto
  have same: "\<forall>a \<in> image_reads ctx phs. memory ?s1 a = memory s a"
    using fr by (simp add: first_tables_frame p)
  have tab: "table_frame ?s1 b \<Longrightarrow> b = pd \<or> b = pt" for b
    using first_tables_entries(1) [OF p(1-3) small_index(1), of _ "memory s"]
    by (auto simp: table_frame_def or_flags p split: if_splits)
  have by1: "\<forall>a \<in> image_reads ctx phs. image_byte ?s1 a"
  proof
    fix a assume a: "a \<in> image_reads ctx phs"
    then have "a < 0x400000" "in_use f (frame_of a)" using low f(5) by auto
    moreover from this have "ARCH_GET_PD_IDX a \<noteq> 1023" by (intro pd_index_below) (simp add: word_less_nat_alt)
    ultimately show "image_byte ?s1 a"
      using M(3) [of a False] tab [of "frame_of a"] fr [OF a] by (auto simp: image_byte_def above_def data_page_def not_le)
  qed
  obtain h s' where run: "run_program32 sig ctx ?s1 = Inr (h, s')"
      and h: "h_entry h = e_entry (ld_ehdr (memory ?s1) (img32 ctx))" "h_esp h = 0xFF7FFFF0" "h_magic h = sig"
        "h_ctx h = ctx" "h_pps_start h = image_end phs 0" "kernel_ready (memory ?s1) ctx phs N s'" "loader_inv s'"
    using run_program32_run [OF M(1) image_ok_cong [OF im(1) same] by1 im(2) lim, of 0 sig] f(1,2)
    by (auto simp: stock_def)
  have "ld_ehdr (memory ?s1) (img32 ctx) = ld_ehdr (memory s) (img32 ctx)"
    by (rule ld_ehdr_cong) (use same in \<open>auto simp: image_reads_def\<close>)
  moreover have "kernel_ready (memory s) ctx phs N s'"
  proof -
    have "memory ?s1 (file_at (img32 ctx) ph i) = memory s (file_at (img32 ctx) ph i)"
      if "ph \<in> set phs" "i < unat (p_filesz ph)" for ph i
      using same that unfolding image_reads_def by blast
    then have "segment_loaded (memory s) (img32 ctx) ph s' = segment_loaded (memory ?s1) (img32 ctx) ph s'" if "ph \<in> set phs" for ph
      using that by (intro segment_loaded_cong) simp
    with h(6) show ?thesis unfolding kernel_ready_def by simp
  qed
  ultimately show ?thesis using s1 run h by auto
qed

text \<open>An image of one segment at 1 MiB: two bytes of file, four of memory.\<close>

definition tiny_image :: mem where
  "tiny_image a = (case map_of [(0x10002C, 1), (0x10001A, 0x10), (0x10001B, 0xE0), (0x100039, 0x10), (0x10003E, 0x10),
     (0x10003F, 0xE0), (0x100044, 2), (0x100048, 4), (0x10004C, 2), (0x101000, 0xAA), (0x101001, 0xBB)] a
     of None \<Rightarrow> 0 | Some b \<Rightarrow> b)"

definition tiny_header :: elf32_phdr where
  "tiny_header = \<lparr>p_type = 0, p_offset = 0x1000, p_vaddr = 0xE0100000, p_paddr = 0, p_filesz = 2, p_memsz = 4,
     p_flags = 2, p_align = 0\<rparr>"

definition tiny_context :: elf_context where
  "tiny_context = \<lparr>img32 = 0x100000, shdr32 = 0, phdr32 = 0x100034, symtab32 = 0, strtab32 = 0\<rparr>"

definition tiny_machine :: "loader_mm machine" where
  "tiny_machine = \<lparr>memory = tiny_image, cr0 = 1, cr3 = 0, cr4 = 0, page_dir_addr = 0,
     frames = demo_frames\<lparr>lm_ptr := 1000, lm_alloc := \<lparr>bm_length = 32, bm_bit_count = 1024,
       bm_words = (\<lambda>i. if i = 8 then 3 else 0)\<rparr>\<rparr>\<rparr>"

lemma tiny_headers:
  "ld_phdr tiny_image 0x100034 0 = tiny_header" "e_phnum (ld_ehdr tiny_image 0x100000) = 1"
  "e_entry (ld_ehdr tiny_image 0x100000) = 0xE0100000"
  by (simp_all add: field_loads ld_phdr_def tiny_header_def ld32_def ld16_def tiny_image_def)

lemma tiny_pages: "seg_pages tiny_header = 1" "pps_pages (lm_num_pages (frames tiny_machine)) = 2"
  "image_end [tiny_header] 0 = 0xE0101000"
  by (simp_all add: seg_pages_def tiny_header_def pps_pages_def tiny_machine_def demo_frames_def sizeof_page_def image_end_def
      MAX_of_def ARCH_PAGE_ALIGN_def ARCH_PAGE_MASK_def ARCH_PAGE_SIZE_def ARCH_PAGE_SHIFT_def)

lemma tiny_ok: "image_ok (memory tiny_machine) tiny_context [tiny_header]"
proof -
  have "header_ok tiny_header 0x100000"
    by (simp add: header_ok_def tiny_header_def aligned_def above_def CHECK_MFLG_def PF_W_def)
  moreover have "map (ld_phdr tiny_image 0x100034) [0 ..< unat (e_phnum (ld_ehdr tiny_image 0x100000))] = [tiny_header]"
    by (simp add: tiny_headers)
  ultimately show ?thesis by (simp add: image_ok_def tiny_machine_def tiny_context_def)
qed

lemma tiny_reads:
  assumes "a \<in> image_reads tiny_context [tiny_header]"
  shows "a < 0x400000 \<and> in_use (frames tiny_machine) (frame_of a)"
proof -
  have use: "in_use (frames tiny_machine) 0x100000" "in_use (frames tiny_machine) 0x101000"
    by (simp_all add: in_use_def page_no_def tiny_machine_def bm_bit_def)
  have low: "b + of_nat k < 0x400000 \<and> in_use (frames tiny_machine) (frame_of (b + of_nat k))"
    if b: "b = 0x100000 \<or> b = 0x101000" and k: "k < 4096" for b :: u32 and k
  proof -
    have al: "aligned b" using b by (auto simp: aligned_def)
    have "unat (b + of_nat k) = unat b + k" by (rule offset_unat [OF al k])
    then show ?thesis using b k use frame_of_offset [OF al k] by (auto simp: word_less_nat_alt)
  qed
  from assms consider k where "a = 0x100000 + of_nat k" "k < 52" | k where "a = 0x100000 + of_nat (52 + k)" "k < 32"
    | k where "a = 0x101000 + of_nat k" "k < 2"
    by (auto simp: image_reads_def tiny_context_def file_at_def tiny_header_def lessThan_Suc)
  then show ?thesis by cases (use low in \<open>auto simp del: of_nat_add\<close>)
qed

theorem kernel_started_witness:
  "\<exists>s1 h s' a b. Mmu32Nopae_init tiny_machine = Inr s1 \<and> run_program32 0x2BADB002 tiny_context s1 = Inr (h, s')
    \<and> h_entry h = 0xE0100000 \<and> h_pps_start h = 0xE0101000
    \<and> translate s' True 0xE0100001 = Some a \<and> memory s' a = 0xBB
    \<and> translate s' True 0xE0100003 = Some b \<and> memory s' b = 0"
proof -
  have r: "ready (260 + 2 * pps_pages (lm_num_pages (frames tiny_machine)) + sum_list (map (\<lambda>ph. 2 * seg_pages ph) [tiny_header]))
      (frames tiny_machine)"
  proof -
    have "\<not> bm_bit (bm_words (lm_alloc (frames tiny_machine))) (1000 - k)" if "k < 266" for k
    proof -
      have "8 < (1000 - k) div 32" using that by presburger
      then show ?thesis by (simp add: bm_bit_def tiny_machine_def)
    qed
    then show ?thesis by (simp add: tiny_pages ready_def) (simp add: tiny_machine_def)
  qed
  have e: "unat (image_end [tiny_header] 0) + 4096 * pps_pages (lm_num_pages (frames tiny_machine)) \<le> 0xFF7FF000"
    by (simp add: tiny_pages)
  obtain s1 h s' where s: "Mmu32Nopae_init tiny_machine = Inr s1" "run_program32 0x2BADB002 tiny_context s1 = Inr (h, s')"
      "h_entry h = e_entry (ld_ehdr (memory tiny_machine) (img32 tiny_context))" "h_pps_start h = image_end [tiny_header] 0"
      "kernel_ready (memory tiny_machine) tiny_context [tiny_header] (lm_num_pages (frames tiny_machine)) s'"
    using kernel_started [OF tiny_ok _ _ e r] tiny_reads by blast
  then have l: "segment_loaded tiny_image 0x100000 tiny_header s'"
    by (simp add: kernel_ready_def tiny_context_def tiny_machine_def)
  have "\<exists>a. translate s' True 0xE0100001 = Some a \<and> memory s' a = 0xBB"
    using l [unfolded segment_loaded_def tiny_pages(1), rule_format, of 1]
    by (auto simp: tiny_header_def CHECK_MFLG_def PF_W_def file_at_def tiny_image_def)
  moreover have "\<exists>b. translate s' True 0xE0100003 = Some b \<and> memory s' b = 0"
    using l [unfolded segment_loaded_def tiny_pages(1), rule_format, of 3]
    by (auto simp: tiny_header_def CHECK_MFLG_def PF_W_def)
  ultimately show ?thesis
    using s tiny_headers(3) by (auto simp: tiny_machine_def tiny_context_def tiny_pages)
qed

text \<open>C7. \<open>main\<close>, given an intact multiboot structure, starts the first module whose command line begins with the
  name of the 32-bit kernel, if there is no command line or it begins with \<open>exec32\<close>; in every other case it panics:
  the test for long mode never succeeds, so a 64-bit kernel is not started on any processor.\<close>

theorem kernel_choice:
  assumes ok: "multiboot_ok sig mbt" and lim: "unat (mb_mods_addr mbt) + 16 * unat (mb_mods_count mbt) < 2 ^ 32"
  defines "ms \<equiv> map (\<lambda>i. mb_mods_addr mbt + of_nat (16 * i)) [0 ..< unat (mb_mods_count mbt)]"
  shows "loader_main ro ci m sig mbt e =
    (case find (is_kernel32 ro m) ms of
       Some a \<Rightarrow> if CHECK_FLAG (mb_flags mbt) 2 = 0 \<or> memcmp (mb_cmdline mbt) (lit_exec32 ro) 6 m = 0
         then Inr (Boot32 a, fold (\<lambda>a e. MAX_of e (mod_end (ld_module m a))) ms e) else Inl Panicked
     | None \<Rightarrow> Inl Panicked)"
proof -
  have eq: "mb_mods_addr mbt + of_nat (16 * unat (mb_mods_count mbt)) = mb_mods_addr mbt + mb_mods_count mbt * 16"
    by (simp add: mult.commute)
  have "module_walk (mb_mods_addr mbt) (mb_mods_addr mbt + mb_mods_count mbt * 16) = Some ms"
    using module_walk_all [OF lim] unfolding ms_def eq .
  then show ?thesis
    by (simp add: loader_main_def ok see_modules longmode_never Let_def split: option.split)
qed

text \<open>A table of two modules, the kernel second.\<close>

definition two_modules :: mem where
  "two_modules = write_list 0x1000 (map of_char ''cxkrnl32'') (write_list 0x2000 (map of_char ''initrd..'')
     (write_list 0x3000 (map of_char ''cxkrnl32'')
       (st32 0x508 0x2000 (st32 0x504 0x20000 (st32 0x518 0x3000 (st32 0x514 0x80000 (\<lambda>_. 0)))))))"

definition two_info :: multiboot_info where
  "two_info = (ld_multiboot_info (\<lambda>_. 0) 0)\<lparr>mb_flags := 0x49, mb_mods_addr := 0x500, mb_mods_count := 2\<rparr>"

theorem kernel_choice_witness:
  "loader_main \<lparr>lit_cxkrnl32 = 0x1000, lit_cxkrnl64 = 0x1010, lit_exec32 = 0x1020, lit_exec64 = 0x1030\<rparr> no_info two_modules
     0x2BADB002 two_info 0 = Inr (Boot32 0x510, 0x80000)"
proof -
  have f: "mb_flags two_info = 0x49" "mb_mods_addr two_info = 0x500" "mb_mods_count two_info = 2"
    by (simp_all add: two_info_def)
  have ok: "multiboot_ok 0x2BADB002 two_info"
    by (simp add: multiboot_ok_def f CHECK_FLAG_def MULTIBOOT_BOOTLOADER_MAGIC_def)
  have lim: "unat (mb_mods_addr two_info) + 16 * unat (mb_mods_count two_info) < 2 ^ 32" by (simp add: f)
  let ?ro = "\<lparr>lit_cxkrnl32 = 0x1000, lit_cxkrnl64 = 0x1010, lit_exec32 = 0x1020, lit_exec64 = 0x1030\<rparr>"
  have "mod_end (ld_module two_modules 0x500) = 0x20000" "mod_end (ld_module two_modules 0x510) = 0x80000"
    "mod_cmdline (ld_module two_modules 0x500) = 0x2000" "mod_cmdline (ld_module two_modules 0x510) = 0x3000"
    by (simp_all add: ld_module_def two_modules_def ld32_def st32_def)
  moreover have "memcmp 0x2000 0x1000 8 two_modules \<noteq> 0" "memcmp 0x3000 0x1000 8 two_modules = 0"
    by (simp_all add: memcmp_def memcmp_loop_0_iff string_at_def upt_conv_Cons two_modules_def st32_def)
  ultimately have "\<not> is_kernel32 ?ro two_modules 0x500" "is_kernel32 ?ro two_modules 0x510"
    "mod_end (ld_module two_modules 0x500) = 0x20000" "mod_end (ld_module two_modules 0x510) = 0x80000"
    by (simp_all add: is_kernel32_def)
  then show ?thesis
    by (simp add: kernel_choice [OF ok lim] f CHECK_FLAG_def MAX_of_def upt_conv_Cons)
qed

end
