(* ===== verification/Pic.thy ===== *)
theory Pic
  imports Ports
begin

text \<open>
  The interrupt controllers: \<open>platform/pc/pic.cc\<close> on the bus of the ports theory. The controllers themselves are
  hardware; their initialisation sequence is a bus of its own below, a pair of state machines that
  follows the data sheet of the 8259A, on which the sequences of the driver are proved to arrive where they
  should.
\<close>

section \<open>The driver\<close>

definition PIC1_COMMAND :: u16 where "PIC1_COMMAND = 0x20"
definition PIC2_COMMAND :: u16 where "PIC2_COMMAND = 0xA0"
definition PIC1_DATA :: u16 where "PIC1_DATA = PIC1_COMMAND + 1"
definition PIC2_DATA :: u16 where "PIC2_DATA = PIC2_COMMAND + 1"
definition PIC_EOI :: u8 where "PIC_EOI = 0x20"
definition ICW1_ICW4 :: u8 where "ICW1_ICW4 = 0x01"
definition ICW1_INIT :: u8 where "ICW1_INIT = 0x10"
definition ICW4_8086 :: u8 where "ICW4_8086 = 0x01"

definition pic_remap :: "'d bus \<Rightarrow> u8 \<Rightarrow> u8 \<Rightarrow> 'd \<Rightarrow> 'd" where
  "pic_remap bus offset1 offset2 d =
     (case inb bus PIC1_DATA d of (a1, d) \<Rightarrow>
      case inb bus PIC2_DATA d of (a2, d) \<Rightarrow>
        outbs bus [(PIC1_COMMAND, ICW1_INIT + ICW1_ICW4), (PIC2_COMMAND, ICW1_INIT + ICW1_ICW4),
          (PIC1_DATA, offset1), (PIC2_DATA, offset2), (PIC1_DATA, 4), (PIC2_DATA, 2),
          (PIC1_DATA, ICW4_8086), (PIC2_DATA, ICW4_8086), (PIC1_DATA, a1), (PIC2_DATA, a2)] d)"

definition pic_mask :: "'d bus \<Rightarrow> u8 \<Rightarrow> u8 \<Rightarrow> 'd \<Rightarrow> 'd" where
  "pic_mask bus mask1 mask2 d = outbs bus [(PIC1_DATA, mask1), (PIC2_DATA, mask2)] d"

definition send_eoi :: "'d bus \<Rightarrow> u8 \<Rightarrow> 'd \<Rightarrow> 'd" where
  "send_eoi bus irq d = outb bus PIC1_COMMAND PIC_EOI (if irq \<ge> 8 then outb bus PIC2_COMMAND PIC_EOI d else d)"

definition pic_ack :: "'d bus \<Rightarrow> 'd \<Rightarrow> 'd" where
  "pic_ack bus d = outb bus PIC1_COMMAND PIC_EOI d"

definition pic_autoremap :: "'d bus \<Rightarrow> 'd \<Rightarrow> 'd" where
  "pic_autoremap bus d = outbs bus [(0x20, 0x11), (0xA0, 0x11), (0x21, 0x20), (0xA1, 0x28), (0x21, 0x04), (0xA1, 0x02),
     (0x21, 0x01), (0xA1, 0x01), (0x21, 0x0), (0xA1, 0x0)] d"

section \<open>A pair of controllers\<close>

text \<open>
  The word the data port expects next, the mask, the requests in service, the vector base, the cascade
  word and the mode word.
\<close>

datatype icw = Operating | Icw2 | Icw3 | Icw4

record chip =
  expects :: icw
  wants_icw4 :: bool
  imr :: u8
  isr :: u8
  vector_base :: u8
  cascade :: u8
  mode :: u8

type_synonym pics = "chip \<times> chip"

text \<open>The request of highest priority in service is the lowest bit set.\<close>

definition complete :: "u8 \<Rightarrow> u8" where
  "complete s = s AND (s - 1)"

definition chip_command :: "u8 \<Rightarrow> chip \<Rightarrow> chip" where
  "chip_command v c =
     (if bit v 4 then c\<lparr>expects := Icw2, wants_icw4 := bit v 0, imr := 0, mode := 0\<rparr>
      else if v = 0x20 then c\<lparr>isr := complete (isr c)\<rparr>
      else c)"

definition chip_data :: "u8 \<Rightarrow> chip \<Rightarrow> chip" where
  "chip_data v c = (case expects c of
       Operating \<Rightarrow> c\<lparr>imr := v\<rparr>
     | Icw2 \<Rightarrow> c\<lparr>vector_base := v AND 0xF8, expects := Icw3\<rparr>
     | Icw3 \<Rightarrow> c\<lparr>cascade := v, expects := (if wants_icw4 c then Icw4 else Operating)\<rparr>
     | Icw4 \<Rightarrow> c\<lparr>mode := v, expects := Operating\<rparr>)"

definition pic_bus :: "pics bus" where
  "pic_bus = \<lparr>
     bus_in = (\<lambda>p (a, b). (if p = 0x21 then imr a else if p = 0xA1 then imr b else 0, (a, b))),
     bus_out = (\<lambda>p v (a, b).
       if p = 0x20 then (chip_command v a, b) else if p = 0xA0 then (a, chip_command v b)
       else if p = 0x21 then (chip_data v a, b) else if p = 0xA1 then (a, chip_data v b) else (a, b))\<rparr>"

section \<open>Properties\<close>

lemmas pic_ports = PIC1_COMMAND_def PIC2_COMMAND_def PIC1_DATA_def PIC2_DATA_def PIC_EOI_def
  ICW1_INIT_def ICW1_ICW4_def ICW4_8086_def

text \<open>A chip set up for 8086 vectors from a base on.\<close>

definition set_up :: "u8 \<Rightarrow> u8 \<Rightarrow> u8 \<Rightarrow> chip \<Rightarrow> chip" where
  "set_up base casc m c = c\<lparr>expects := Operating, wants_icw4 := True, imr := m, vector_base := base AND 0xF8,
     cascade := casc, mode := 1\<rparr>"

lemma bit_0x11: "bit (0x11 :: u8) 4" "bit (0x11 :: u8) 0"
  by (simp_all add: bit_iff_odd)

lemma not_bit_eoi: "\<not> bit (0x20 :: u8) 4"
  by (simp add: bit_iff_odd)

lemma pic_remap_set_up:
  "pic_remap pic_bus o1 o2 (a, b) = (set_up o1 4 (imr a) a, set_up o2 2 (imr b) b)"
  by (simp add: pic_remap_def inb_def outbs_def outb_def pic_bus_def pic_ports chip_command_def chip_data_def
      set_up_def bit_0x11)

text \<open>
  Wherever the controllers were in their initialisation, \<open>remap\<close> leaves both set up with the new
  vector bases, wired master to slave, and with the masks they had.
\<close>

theorem pic_remap_correct:
  "pic_remap pic_bus o1 o2 (a, b) = (set_up o1 4 (imr a) a, set_up o2 2 (imr b) b)"
  by (rule pic_remap_set_up)

lemma pic_autoremap_remap:
  "pic_autoremap pic_bus d = pic_mask pic_bus 0 0 (pic_remap pic_bus 0x20 0x28 d)"
  by (cases d, simp only: pic_remap_set_up) (simp add: pic_autoremap_def pic_mask_def outbs_def outb_def pic_bus_def pic_ports
      chip_command_def chip_data_def set_up_def bit_0x11)

lemma pic_mask_correct:
  "expects a = Operating \<Longrightarrow> expects b = Operating \<Longrightarrow>
    pic_mask pic_bus m1 m2 (a, b) = (a\<lparr>imr := m1\<rparr>, b\<lparr>imr := m2\<rparr>)"
  by (simp add: pic_mask_def outbs_def outb_def pic_bus_def pic_ports chip_data_def)

lemma send_eoi_pair:
  "send_eoi pic_bus irq (a, b) =
    (a\<lparr>isr := complete (isr a)\<rparr>, if irq \<ge> 8 then b\<lparr>isr := complete (isr b)\<rparr> else b)"
  by (simp add: send_eoi_def outb_def pic_bus_def pic_ports chip_command_def not_bit_eoi)

end
