(* ===== verification/Interrupts.thy ===== *)
theory Interrupts
  imports DescTables Pic
begin

text \<open>
  Interrupt handling: the table of handlers in \<open>platform/pc/platform.cc\<close> behind \<open>core/interrupts.cc\<close>, and
  \<open>isr_handler\<close> and \<open>exception_handler\<close> of \<open>arch/x86/32/exceptions.cc\<close>, which the entry stubs call with the
  address of the saved registers.
\<close>

section \<open>Vectors and saved registers\<close>

definition IRQ0 :: u8 where "IRQ0 = 32"

record regs =
  r_gs :: u32
  r_fs :: u32
  r_es :: u32
  r_ds :: u32
  r_edi :: u32
  r_esi :: u32
  r_ebp :: u32
  r_useless :: u32
  r_ebx :: u32
  r_edx :: u32
  r_ecx :: u32
  r_eax :: u32
  int_no :: u32
  err_code :: u32
  r_eip :: u32
  r_cs :: u32
  r_eflags :: u32
  r_esp :: u32
  r_ss :: u32

definition ld_regs :: "mem \<Rightarrow> addr \<Rightarrow> regs" where
  "ld_regs m a = \<lparr>r_gs = ld32 m a, r_fs = ld32 m (a + 4), r_es = ld32 m (a + 8), r_ds = ld32 m (a + 12),
     r_edi = ld32 m (a + 16), r_esi = ld32 m (a + 20), r_ebp = ld32 m (a + 24), r_useless = ld32 m (a + 28),
     r_ebx = ld32 m (a + 32), r_edx = ld32 m (a + 36), r_ecx = ld32 m (a + 40), r_eax = ld32 m (a + 44),
     int_no = ld32 m (a + 48), err_code = ld32 m (a + 52), r_eip = ld32 m (a + 56), r_cs = ld32 m (a + 60),
     r_eflags = ld32 m (a + 64), r_esp = ld32 m (a + 68), r_ss = ld32 m (a + 72)\<rparr>"

section \<open>Messages\<close>

text \<open>A call of \<open>fprintf\<close>: the format and the arguments it is given.\<close>

datatype print_arg = Val u32 | Str string

type_synonym report = "string \<times> print_arg list"

definition line :: "string \<Rightarrow> string" where
  "line s = s @ [CHR 0x0A]"

definition exception_messages :: "string list" where
  "exception_messages = [
    ''#DE Division By Zero'',
    ''#DB Debug'',
    ''Non Maskable Interrupt'',
    ''#BP Breakpoint'',
    ''#OF Into Detected Overflow'',
    ''#BR Out of Bounds'',
    ''#UD Invalid Opcode'',
    ''#NM No Coprocessor'',
    ''#DF Double Fault'',
    ''Coprocessor Segment Overrun'',
    ''#TS Bad TSS'',
    ''#NP Segment Not Present'',
    ''#SS Stack-Segment Fault'',
    ''#GP General Protection Fault'',
    ''#PF Page Fault'',
    ''Unknown Interrupt'',
    ''#MF Coprocessor Fault'',
    ''#AC Alignment Check'',
    ''#MC Machine Check'',
    ''#XF SIMD Floating-Point Exception'',
    ''#VE Virtualization Exception'',
    ''Reserved'',
    ''#SX Security Exception'',
    ''Reserved'',
    ''Triple Fault'',
    ''#FERR Legacy'',
    ''Reserved'',
    ''Reserved'',
    ''Reserved'',
    ''Reserved'',
    ''Reserved'',
    ''Reserved'']"

definition page_fault_messages :: "string list" where
  "page_fault_messages = [
    ''Supervisory process tried to read a non-present page entry'',
    ''Supervisory process tried to read a page and caused a protection fault'',
    ''Supervisory process tried to write to a non-present page entry'',
    ''Supervisory process tried to write a page and caused a protection fault'',
    ''User process tried to read a non-present page entry'',
    ''User process tried to read a page and caused a protection fault'',
    ''User process tried to write to a non-present page entry'',
    ''User process tried to write a page and caused a protection fault'']"

definition message :: "string list \<Rightarrow> u32 \<Rightarrow> kerror + string" where
  "message ms i = (if unat i < length ms then Inr (ms ! unat i) else Inl Out_of_bounds)"

section \<open>The handlers\<close>

text \<open>
  \<open>handlers\<close> is an array of 255 pointers at an address of the linker; the index is an \<open>int\<close>. The address
  arithmetic wraps, so an index out of range is the word next to the array, as in C.
\<close>

definition install_handler :: "addr \<Rightarrow> u32 \<Rightarrow> addr \<Rightarrow> mem \<Rightarrow> mem" where
  "install_handler handlers n h m = st32 (handlers + 4 * n) h m"

definition remove_handler :: "addr \<Rightarrow> u32 \<Rightarrow> mem \<Rightarrow> mem" where
  "remove_handler handlers n m = st32 (handlers + 4 * n) NULL m"

definition get_handler :: "addr \<Rightarrow> u32 \<Rightarrow> mem \<Rightarrow> addr" where
  "get_handler handlers n m = ld32 m (handlers + 4 * n)"

text \<open>The C wrappers call the platform's object.\<close>

definition irq_install_handler :: "addr \<Rightarrow> u32 \<Rightarrow> addr \<Rightarrow> mem \<Rightarrow> mem" where
  "irq_install_handler = install_handler"

definition irq_remove_handler :: "addr \<Rightarrow> u32 \<Rightarrow> mem \<Rightarrow> mem" where
  "irq_remove_handler = remove_handler"


definition platform_early_init :: "'d bus \<Rightarrow> addr \<Rightarrow> mem \<times> 'd \<Rightarrow> mem \<times> 'd" where
  "platform_early_init bus handlers = (\<lambda>(m, d).
     let d = pic_remap bus IRQ0 (IRQ0 + 8) d;
         d = pic_mask bus 0xFF 0xFF d;
         d = serial_init bus COM1 d
     in (fill_up handlers 0 (4 * 255) m, d))"

text \<open>The first loop of \<open>x86_32::init\<close>.\<close>

definition install_exceptions :: "addr \<Rightarrow> addr \<Rightarrow> nat \<Rightarrow> mem \<Rightarrow> mem" where
  "install_exceptions handlers exception_handler n m =
     fold (\<lambda>i. irq_install_handler handlers (of_nat i) exception_handler) [0 ..< n] m"

section \<open>Dispatch\<close>

record control_regs =
  c_cr0 :: u32
  c_cr2 :: u32
  c_cr3 :: u32
  c_cr4 :: u32

text \<open>\<open>exception_handler\<close> prints these calls and halts for good.\<close>

definition exception_reports :: "control_regs \<Rightarrow> regs \<Rightarrow> kerror + report list" where
  "exception_reports c r =
     bind_res (message exception_messages (int_no r)) (\<lambda>text.
     bind_res (if int_no r = 14
               then bind_res (message page_fault_messages (err_code r)) (\<lambda>why.
                 Inr [(line '' %s'', [Str why]), (line '' at: 0x%08X'', [Val (c_cr2 c)])])
               else Inr []) (\<lambda>fault.
     Inr ([(line '' === KERNEL UNHANDLED EXCEPTION 0x%02X ==='' @ line '' %s'', [Val (int_no r), Str text])] @ fault @
       [(line '' === Dump ==='', []),
        (line ''eax: 0x%08X ebx: 0x%08X ecx: 0x%08X edx: 0x%08X err: 0x%08X'',
          [Val (r_eax r), Val (r_ebx r), Val (r_ecx r), Val (r_edx r), Val (err_code r)]),
        (line ''edi: 0x%08X esi: 0x%08X esp: 0x%08X ebp: 0x%08X int: 0x%08X'',
          [Val (r_edi r), Val (r_esi r), Val (r_esp r), Val (r_ebp r), Val (int_no r)]),
        (line ''gs:  0x%08X fs:  0x%08X es:  0x%08X ds:  0x%08X cs:  0x%08X'',
          [Val (r_gs r), Val (r_fs r), Val (r_es r), Val (r_ds r), Val (r_cs r)]),
        (line (line ''cr0: 0x%08X cr2: 0x%08X cr3: 0x%08X cr4: 0x%08X''),
          [Val (c_cr0 c), Val (c_cr2 c), Val (c_cr3 c), Val (c_cr4 c)]),
        (line ''eflags: 0x%08X eip: 0x%08X ss: 0x%08X'', [Val (r_eflags r), Val (r_eip r), Val (r_ss r)])])))"

record 'd kernel =
  k_mem :: mem
  k_devices :: 'd
  k_control :: control_regs
  k_reports :: "report list"

definition report :: "report list \<Rightarrow> 'd kernel \<Rightarrow> 'd kernel" where
  "report rs s = s\<lparr>k_reports := k_reports s @ rs\<rparr>"

text \<open>
  \<open>call h r s\<close> is the call of the handler at address \<open>h\<close>: nothing when the handler does not return. \<open>isr_handler\<close>
  is called with the address of the saved registers.
\<close>

definition isr_handler ::
    "'d bus \<Rightarrow> addr \<Rightarrow> (addr \<Rightarrow> addr \<Rightarrow> 'd kernel \<Rightarrow> 'd kernel option) \<Rightarrow> addr \<Rightarrow> 'd kernel \<Rightarrow> 'd kernel option" where
  "isr_handler bus handlers call r s =
     Option.bind
       (if get_handler handlers (int_no (ld_regs (k_mem s) r)) (k_mem s) \<noteq> NULL
        then call (get_handler handlers (int_no (ld_regs (k_mem s) r)) (k_mem s)) r s
        else Some (report [(line ''[%-5s] Unhandled exception 0x%X!'', [Str ''INTR'', Val (int_no (ld_regs (k_mem s) r))])] s))
       (\<lambda>s. Some (s\<lparr>k_devices := send_eoi bus (ucast (int_no (ld_regs (k_mem s) r))) (k_devices s)\<rparr>))"

section \<open>The table of handlers\<close>

interpretation handlers: table "\<lambda>m i. get_handler hs (of_nat i) m" "\<lambda>i h. install_handler hs (of_nat i) h" "\<lambda>h. h" "2 ^ 30" for hs
proof
  fix i j :: nat and h m assume "i < 2 ^ 30" "j < 2 ^ 30"
  then show "get_handler hs (of_nat j) (install_handler hs (of_nat i) h m) = (if i = j then h else get_handler hs (of_nat j) m)"
    using mem_words.rd_wr [of i j hs h m] by (simp add: get_handler_def install_handler_def word_at_def)
qed

lemma remove_is_install: "remove_handler hs n = install_handler hs n NULL"
  by (simp add: fun_eq_iff remove_handler_def install_handler_def)

lemma early_init_handlers:
  "platform_early_init bus hs (m, d) = (m', d') \<Longrightarrow> n < 255 \<Longrightarrow> get_handler hs (of_nat n) m' = NULL"
  using ld_fill_zero(3) [of 1020 "4 * n" hs m] by (auto simp: platform_early_init_def Let_def get_handler_def)

lemma installed_exceptions:
  assumes "platform_early_init bus hs (m, d) = (m', d')" "n < 255"
  shows "get_handler hs (of_nat n) (install_exceptions hs eh 32 m') = (if n < 32 then eh else NULL)"
  using handlers.rd_fold [of 32 n hs "\<lambda>_. eh" m'] early_init_handlers [OF assms] assms(2)
  by (simp add: install_exceptions_def irq_install_handler_def)

text \<open>C25. 
  After \<open>platform::early_init\<close> and \<open>x86_32::init\<close> the 32 exceptions go to \<open>exception_handler\<close>; every other
  vector below 255 is reported and returns. Both end with the acknowledgement, which the
  exception handler never reaches.
\<close>

theorem isr_dispatch:
  assumes init: "platform_early_init bus hs (m, d) = (m1, d1)" and eh: "eh \<noteq> NULL"
    and table: "\<And>i. i < 255 \<Longrightarrow> get_handler hs (of_nat i) (k_mem s) = get_handler hs (of_nat i) (install_exceptions hs eh 32 m1)"
    and n: "int_no (ld_regs (k_mem s) r) = of_nat n" "n < 255" and halts: "call eh r s = None"
  shows "isr_handler bus hs call r s = (if n < 32 then None
    else Some (s\<lparr>k_reports := k_reports s @ [(line ''[%-5s] Unhandled exception 0x%X!'', [Str ''INTR'', Val (of_nat n)])],
      k_devices := send_eoi bus (of_nat n) (k_devices s)\<rparr>))"
proof -
  have "get_handler hs (of_nat n) (k_mem s) = (if n < 32 then eh else NULL)"
    using table [OF n(2)] installed_exceptions [OF init n(2)] by simp
  moreover have "(ucast (of_nat n :: u32) :: u8) = of_nat n"
    using n(2) by (simp add: word_unat_eq_iff unsigned_ucast_eq unsigned_of_nat take_bit_nat_eq_self)
  ultimately show ?thesis
    using eh n halts by (simp add: isr_handler_def report_def)
qed

text \<open>
  \<open>send_eoi\<close> expects the number of an interrupt line but is given the vector, which is 32 or more for every
  line: it always acknowledges at the slave too, and ends there a request of higher number that is
  still in service.
\<close>

theorem isr_ends_slave_request:
  assumes "get_handler hs (of_nat n) (k_mem s) = h" "h \<noteq> NULL" "call h r s = Some s1"
    and "int_no (ld_regs (k_mem s) r) = of_nat n" "int_no (ld_regs (k_mem s1) r) = of_nat n" "32 \<le> n" "n < 40"
  shows "isr_handler pic_bus hs call r s = Some (s1\<lparr>k_devices :=
    (case k_devices s1 of (a, b) \<Rightarrow> (a\<lparr>isr := complete (isr a)\<rparr>, b\<lparr>isr := complete (isr b)\<rparr>))\<rparr>)"
proof -
  have u: "(ucast (of_nat n :: u32) :: u8) = of_nat n" "unat (of_nat n :: u8) = n"
    using assms(7) by (simp_all add: word_unat_eq_iff unsigned_ucast_eq unsigned_of_nat take_bit_nat_eq_self)
  then have "(ucast (of_nat n :: u32) :: u8) \<ge> 8" using assms(6) by (simp add: word_le_nat_alt)
  then show ?thesis
    using assms(1-5) by (cases "k_devices s1") (simp add: isr_handler_def send_eoi_pair)
qed

section \<open>Messages\<close>

text \<open>What the three low bits of the error code of a page fault say.\<close>

definition fault_text :: "u32 \<Rightarrow> string" where
  "fault_text e = (if bit e 2 then ''User'' else ''Supervisory'') @ '' process tried to '' @
     (if bit e 1 then ''write '' else ''read '') @
     (if bit e 0 then ''a page and caused a protection fault''
      else (if bit e 1 then ''to '' else []) @ ''a non-present page entry'')"

lemma page_fault_text:
  assumes "e < 8" shows "message page_fault_messages e = Inr (fault_text e)"
proof -
  from assms have "unat e < 8" by (simp add: word_less_nat_alt)
  then have "unat e \<in> {0, 1, 2, 3, 4, 5, 6, 7}" by auto
  then have "e \<in> {0, 1, 2, 3, 4, 5, 6, 7}" by (auto simp: word_unat_eq_iff)
  then show ?thesis by (auto simp: message_def page_fault_messages_def fault_text_def bit_iff_odd)
qed

text \<open>
  A page fault is reported with the text of its error code and the address in \<open>CR2\<close>; but an error code with a
  bit above the third set (an instruction fetch, or a reserved bit in an entry) indexes past the
  table of texts.
\<close>

theorem exception_page_fault:
  assumes "int_no r = 14"
  shows "(err_code r < 8 \<longrightarrow> (\<exists>dump. exception_reports c r = Inr
      ([(line '' === KERNEL UNHANDLED EXCEPTION 0x%02X ==='' @ line '' %s'', [Val 14, Str ''#PF Page Fault'']),
        (line '' %s'', [Str (fault_text (err_code r))]), (line '' at: 0x%08X'', [Val (c_cr2 c)])] @ dump)))
    \<and> (\<not> err_code r < 8 \<longrightarrow> exception_reports c r = Inl Out_of_bounds)"
proof -
  have 14: "message exception_messages 14 = Inr ''#PF Page Fault''"
    by (simp add: message_def exception_messages_def)
  have "message page_fault_messages e = Inl Out_of_bounds" if "\<not> e < 8" for e
    using that by (simp add: message_def page_fault_messages_def word_less_nat_alt)
  with 14 page_fault_text [of "err_code r"] show ?thesis
    unfolding exception_reports_def assms by simp
qed

lemma exception_total:
  assumes "int_no r < 32" "int_no r \<noteq> 14"
  shows "\<exists>t rs. message exception_messages (int_no r) = Inr t \<and>
    exception_reports c r = Inr ((line '' === KERNEL UNHANDLED EXCEPTION 0x%02X ==='' @ line '' %s'', [Val (int_no r), Str t]) # rs)"
proof -
  have "unat (int_no r) < 32" using assms(1) by (simp add: word_less_nat_alt)
  then have "\<exists>t. message exception_messages (int_no r) = Inr t"
    by (simp add: message_def exception_messages_def)
  with assms(2) show ?thesis by (auto simp: exception_reports_def)
qed

section \<open>Witnesses\<close>

lemma install_exceptions_apart:
  assumes "apart hs 1020 b k" "i < k"
  shows "n \<le> 255 \<Longrightarrow> install_exceptions hs eh n m (b + of_nat i) = m (b + of_nat i)"
proof (induction n)
  case (Suc n)
  have "apart b k (hs + of_nat (4 * n)) 4"
    using apart_part [OF apart_sym [OF assms(1)], of 0 k "4 * n" 4] Suc.prems by simp
  from write_list_apart [OF this assms(2)] Suc show ?case
    by (simp add: install_exceptions_def irq_install_handler_def install_handler_def st32_list del: write_list.simps)
qed (simp add: install_exceptions_def)

definition demo_frame :: "u8 \<Rightarrow> mem" where
  "demo_frame n = (\<lambda>a. if a = 0x8030 then n else 0)"

definition demo_kernel :: "u8 \<Rightarrow> 'd \<Rightarrow> 'd kernel" where
  "demo_kernel n d = \<lparr>k_mem = install_exceptions 0x1000 0x100 32 (fill_up 0x1000 0 1020 (demo_frame n)),
     k_devices = d, k_control = \<lparr>c_cr0 = 0, c_cr2 = 0, c_cr3 = 0, c_cr4 = 0\<rparr>, k_reports = []\<rparr>"

lemma demo_kernel_int_no: "int_no (ld_regs (k_mem (demo_kernel n d)) 0x8000) = ucast n"
proof -
  have ap: "apart 0x1000 1020 0x8030 4" by (rule apart_if) simp_all
  have "k_mem (demo_kernel n d) (0x8030 + of_nat k) = demo_frame n (0x8030 + of_nat k)" if "k < 4" for k
    using install_exceptions_apart [OF ap that, of 32] write_list_apart [OF apart_sym [OF ap] that, of "replicate 1020 0"]
    by (simp add: demo_kernel_def fill_up_write_list)
  from this [of 0] this [of 1] this [of 2] this [of 3] show ?thesis
    by (simp add: ld_regs_def ld32_def demo_frame_def)
qed

lemma demo_early_init:
  "platform_early_init log_bus 0x1000 (demo_frame n, []) =
    (fill_up 0x1000 0 1020 (demo_frame n), snd (platform_early_init log_bus 0x1000 (demo_frame n, [])))"
  by (simp add: platform_early_init_def Let_def)

theorem isr_dispatch_witness:
  "\<exists>s. isr_handler log_bus 0x1000 (\<lambda>h r s. None) 0x8000 (demo_kernel 40 []) = Some s
    \<and> k_devices s = [(0xA0, 0x20), (0x20, 0x20)]"
  using isr_dispatch [OF demo_early_init [of 40], of "0x100" "demo_kernel 40 []" "0x8000" 40 "\<lambda>h r s. None"]
    demo_kernel_int_no [of 40 "[]"]
  by (simp add: demo_kernel_def send_eoi_def outb_def log_bus_def pic_ports)

definition demo_chip :: chip where
  "demo_chip = \<lparr>expects = Operating, wants_icw4 = True, imr = 0, isr = 0x10, vector_base = 0, cascade = 0, mode = 1\<rparr>"

definition demo_pics :: "pics kernel" where
  "demo_pics = \<lparr>k_mem = (\<lambda>a. if a = 0x8030 then 33 else if a = 0x1084 then 1 else 0), k_devices = (demo_chip, demo_chip),
     k_control = \<lparr>c_cr0 = 0, c_cr2 = 0, c_cr3 = 0, c_cr4 = 0\<rparr>, k_reports = []\<rparr>"

theorem isr_ends_slave_request_witness:
  "\<exists>s. isr_handler pic_bus 0x1000 (\<lambda>h r s. Some s) 0x8000 demo_pics = Some s \<and> isr (snd (k_devices s)) = 0"
  using isr_ends_slave_request [of "0x1000" 33 demo_pics 1 "\<lambda>h r s. Some s" "0x8000" demo_pics]
  by (simp add: demo_pics_def get_handler_def ld_regs_def ld32_def demo_chip_def complete_def)

theorem exception_page_fault_witness:
  "exception_reports \<lparr>c_cr0 = 0, c_cr2 = 0x1234, c_cr3 = 0, c_cr4 = 0\<rparr>
     ((ld_regs (\<lambda>_. 0) 0)\<lparr>int_no := 14, err_code := 0x10\<rparr>) = Inl Out_of_bounds"
  using exception_page_fault [of "(ld_regs (\<lambda>_. 0) 0)\<lparr>int_no := 14, err_code := 0x10\<rparr>"] by simp

end
