(* ===== verification/Slab.thy ===== *)
theory Slab
  imports Pmm CString Libc
begin

text \<open>
  \<open>core/mm/slab.cc\<close>: the object caches of the kernel. A cache keeps its slabs in three lists, free,
  partial and full; a slab is a run of pages that holds its \<open>slab_t\<close>, the indices of the free
  objects as a chain through the array \<open>bufctl\<close>, and the objects. The nodes of all lists are in one heap,
  the other fields of the structures in maps from their addresses, the names, the \<open>bufctl\<close>
  arrays and the objects in the byte memory. The offsets are those of the i386 ABI.
\<close>

section \<open>State\<close>

definition SLAB_MAX_SIZE :: u32 where "SLAB_MAX_SIZE = 256"

record slabcache =
  sc_order :: u32
  sc_slab_size :: u32
  sc_slab_objects :: u32
  sc_colour_next :: u32
  sc_colour_num :: u32

record slab =
  sl_objects :: addr
  sl_free :: u32
  sl_colour_offset :: u32
  sl_inuse :: u32
  sl_parent :: addr

record kmem =
  km_heap :: lheap
  km_cache :: "addr \<Rightarrow> slabcache"
  km_slab :: "addr \<Rightarrow> slab"
  km_mem :: mem
  km_pmm :: pmm
  root_cache :: addr

definition list_free :: "addr \<Rightarrow> addr" where "list_free c = c"
definition list_partial :: "addr \<Rightarrow> addr" where "list_partial c = c + 8"
definition list_full :: "addr \<Rightarrow> addr" where "list_full c = c + 16"
definition cache_name :: "addr \<Rightarrow> addr" where "cache_name c = c + 24"
definition cache_node :: "addr \<Rightarrow> addr" where "cache_node c = c + 64"

definition sizeof_slabcache :: u32 where "sizeof_slabcache = 72"
definition sizeof_slab :: u32 where "sizeof_slab = 28"
definition sizeof_objctl :: u32 where "sizeof_objctl = 4"

definition bufctl :: "addr \<Rightarrow> u32 \<Rightarrow> addr" where
  "bufctl sl i = sl + sizeof_slab + sizeof_objctl * i"

text \<open>The macro as it is written: the object is at or below the first object of the slab.\<close>

definition IS_OBJECT_IN_SLAB :: "slabcache \<Rightarrow> slab \<Rightarrow> addr \<Rightarrow> bool" where
  "IS_OBJECT_IN_SLAB c s obj \<longleftrightarrow>
     sl_objects s \<ge> obj \<and> obj \<le> sl_objects s + sc_slab_size c * sc_slab_objects c"

definition upd_cache :: "addr \<Rightarrow> (slabcache \<Rightarrow> slabcache) \<Rightarrow> kmem \<Rightarrow> kmem" where
  "upd_cache c f s = s\<lparr>km_cache := (km_cache s)(c := f (km_cache s c))\<rparr>"

definition upd_slab :: "addr \<Rightarrow> (slab \<Rightarrow> slab) \<Rightarrow> kmem \<Rightarrow> kmem" where
  "upd_slab p f s = s\<lparr>km_slab := (km_slab s)(p := f (km_slab s p))\<rparr>"

definition upd_heap :: "(lheap \<Rightarrow> kerror + lheap) \<Rightarrow> kmem \<Rightarrow> kerror + kmem" where
  "upd_heap f s = bind_res (f (km_heap s)) (\<lambda>h. Inr (s\<lparr>km_heap := h\<rparr>))"

section \<open>Caches\<close>

text \<open>The two loops of \<open>init_cache\<close>, on \<open>int\<close>s that wrap around.\<close>

partial_function (option) order_loop :: "u32 \<Rightarrow> u32 \<Rightarrow> u32 \<Rightarrow> (u32 \<times> u32) option" where
  "order_loop sz free order =
     (if sint (free - (sz + sizeof_objctl + sizeof_slab)) < 0 then order_loop sz (free * 2) (order + 1)
      else Some (free, order))"

partial_function (option) objects_loop :: "u32 \<Rightarrow> u32 \<Rightarrow> u32 \<Rightarrow> (u32 \<times> u32) option" where
  "objects_loop sz free objs =
     (if sint (free - (sz + sizeof_objctl)) \<ge> 0 then objects_loop sz (free - (sz + sizeof_objctl)) (objs + 1)
      else Some (free, objs))"

definition cache_shape :: "u32 \<Rightarrow> slabcache option" where
  "cache_shape sz =
     Option.bind (order_loop sz ARCH_PAGE_SIZE 0) (\<lambda>(free, order).
     Option.bind (objects_loop sz (free - sizeof_slab) 0) (\<lambda>(free, objs).
       Some \<lparr>sc_order = order, sc_slab_size = sz, sc_slab_objects = objs, sc_colour_next = 0,
             sc_colour_num = word_of_int (sint free sdiv 64)\<rparr>))"

definition init_cache :: "addr \<Rightarrow> u32 \<Rightarrow> kmem \<Rightarrow> kerror + kmem" where
  "init_cache c sz s =
     bind_res (upd_heap (INIT_LLIST (list_free c)) s) (\<lambda>s.
     bind_res (upd_heap (INIT_LLIST (list_full c)) s) (\<lambda>s.
     bind_res (upd_heap (INIT_LLIST (list_partial c)) s) (\<lambda>s.
     bind_res (upd_heap (INIT_LLIST (cache_node c)) s) (\<lambda>s.
     bind_res (loop_res (cache_shape sz)) (\<lambda>sh. Inr (upd_cache c (\<lambda>_. sh) s))))))"

text \<open>The test of \<open>get_cache\<close>, with the distance of the best fit so far.\<close>

definition better_fit :: "kmem \<Rightarrow> u32 \<Rightarrow> addr \<Rightarrow> addr \<times> u32 \<Rightarrow> addr \<times> u32" where
  "better_fit s sz c = (\<lambda>(best, delta).
     let n = sc_slab_size (km_cache s c)
     in if n \<ge> sz \<and> n - sz \<le> delta then (c, n - sz) else (best, delta))"

partial_function (option) get_cache_loop :: "kmem \<Rightarrow> u32 \<Rightarrow> addr \<Rightarrow> addr \<times> u32 \<Rightarrow> addr option" where
  "get_cache_loop s sz c bd =
     (let bd = better_fit s sz c bd; nx = lnext (km_heap s (cache_node c))
      in if nx \<noteq> NULL then get_cache_loop s sz (nx - 64) bd else Some (fst bd))"

definition get_cache :: "u32 \<Rightarrow> kmem \<Rightarrow> addr option" where
  "get_cache sz s = get_cache_loop s sz (root_cache s) (NULL, SLAB_MAX_SIZE)"

text \<open>The first slab of a list, from \<open>p\<close> on, that \<open>IS_OBJECT_IN_SLAB\<close> accepts, or null.\<close>

partial_function (option) find_slab :: "kmem \<Rightarrow> addr \<Rightarrow> addr \<Rightarrow> addr \<Rightarrow> addr option" where
  "find_slab s c obj p =
     (if p = NULL then Some NULL
      else if IS_OBJECT_IN_SLAB (km_cache s c) (km_slab s p) obj then Some p
      else find_slab s c obj (lnext (km_heap s p)))"

text \<open>\<open>ubxela\<close> is the address of the literal.\<close>

partial_function (option) find_cache_loop :: "addr \<Rightarrow> kmem \<Rightarrow> addr \<Rightarrow> addr \<Rightarrow> addr option" where
  "find_cache_loop ubxela s obj cur =
     (if cur = NULL then Some NULL
      else let c = cur - 64 in
        Option.bind (strstr (cache_name c) ubxela (km_mem s)) (\<lambda>q.
        Option.bind (if q = NULL then Some NULL
            else Option.bind (find_slab s c obj (lnext (km_heap s (list_full c)))) (\<lambda>p.
              if p \<noteq> NULL then Some p else find_slab s c obj (lnext (km_heap s (list_partial c))))) (\<lambda>p.
          if p \<noteq> NULL then Some c else find_cache_loop ubxela s obj (lnext (km_heap s (cache_node c))))))"

definition find_cache_kmalloc :: "addr \<Rightarrow> addr \<Rightarrow> kmem \<Rightarrow> addr option" where
  "find_cache_kmalloc ubxela obj s = find_cache_loop ubxela s obj (cache_node (root_cache s))"

definition kmem_init :: "kmem \<Rightarrow> kerror + kmem" where
  "kmem_init s = init_cache (root_cache s) sizeof_slabcache s"

section \<open>Allocation\<close>

primrec fill_bufctl :: "addr \<Rightarrow> nat \<Rightarrow> mem \<Rightarrow> mem" where
  "fill_bufctl sl 0 m = m"
| "fill_bufctl sl (Suc n) m = st32 (bufctl sl (of_nat n)) (of_nat (Suc n)) (fill_bufctl sl n m)"

text \<open>
  A new slab. \<open>stk\<close> is the node on the stack of the list allocator; when it finds no run of pages
  \<open>page\<close> stays null and goes to \<open>get_phys\<close> all the same.
\<close>

definition new_slab :: "addr \<Rightarrow> addr \<Rightarrow> kmem \<Rightarrow> kerror + (addr \<times> kmem)" where
  "new_slab stk c s =
     bind_res (pmm_alloc_pages_contig stk (push_bit (unat (sc_order (km_cache s c))) 1) (km_pmm s)) (\<lambda>(n, page, pm).
     bind_res (pmm_get_phys (\<lambda>_. \<lparr>ba_addr = 0, ba_pages = 0\<rparr>) (case page of None \<Rightarrow> NULL | Some p \<Rightarrow> p) pm) (\<lambda>phys.
       let sl = ucast (phys + ucast ARCH_KMALLOC_BASE); k = km_cache s c;
           offset = sc_colour_next k * 64
       in bind_res (upd_heap (INIT_LLIST sl) (s\<lparr>km_pmm := pm\<rparr>)) (\<lambda>s.
         let s = upd_slab sl (\<lambda>_. \<lparr>sl_objects = sl + sizeof_slab + sc_slab_objects k * sizeof_objctl + offset, sl_free = 0,
                   sl_colour_offset = offset, sl_inuse = 0, sl_parent = c\<rparr>) s;
             s = upd_cache c (\<lambda>k. k\<lparr>sc_colour_next := (sc_colour_next k + 1) mod (sc_colour_num k + 1)\<rparr>) s;
             m = snd (memset (bufctl sl 0) 0 (sizeof_objctl * sc_slab_objects k) (km_mem s))
         in Inr (sl, s\<lparr>km_mem := fill_bufctl sl (unat (sc_slab_objects k)) m\<rparr>))))"

definition take_slab :: "addr \<Rightarrow> kmem \<Rightarrow> kerror + (addr \<times> kmem)" where
  "take_slab sl s = bind_res (list_remove sl (km_heap s)) (\<lambda>(n, h). Inr (sl, s\<lparr>km_heap := h\<rparr>))"

definition pick_slab :: "addr \<Rightarrow> addr \<Rightarrow> kmem \<Rightarrow> kerror + (addr \<times> kmem)" where
  "pick_slab stk c s =
     bind_res (loop_err (list_count (list_free c) (km_heap s))) (\<lambda>nfree.
     bind_res (loop_err (list_count (list_partial c) (km_heap s))) (\<lambda>npart.
       if nfree = 0 \<and> npart = 0 then new_slab stk c s
       else if npart \<noteq> 0 then take_slab (lnext (km_heap s (list_partial c))) s
       else take_slab (lnext (km_heap s (list_free c))) s))"

definition take_object :: "addr \<Rightarrow> addr \<Rightarrow> kmem \<Rightarrow> addr \<times> kmem" where
  "take_object c sl s =
     (let x = km_slab s sl
      in (sl_objects x + sl_free x * sc_slab_size (km_cache s c),
          upd_slab sl (\<lambda>x. x\<lparr>sl_free := ld32 (km_mem s) (bufctl sl (sl_free x)), sl_inuse := sl_inuse x + 1\<rparr>) s))"

definition file_slab :: "addr \<Rightarrow> addr \<Rightarrow> kmem \<Rightarrow> kerror + kmem" where
  "file_slab c sl s =
     (let x = km_slab s sl in
      if sl_inuse x = sc_slab_objects (km_cache s c) then upd_heap (list_append (list_full c) sl) s
      else if sl_inuse x = 0 then upd_heap (list_append (list_free c) sl) s
      else upd_heap (list_append (list_partial c) sl) s)"

definition cache_alloc :: "addr \<Rightarrow> u32 \<Rightarrow> kmem \<Rightarrow> kerror + (addr \<times> kmem)" where
  "cache_alloc stk sz s =
     bind_res (get_allocator (km_pmm s)) (\<lambda>a.
       if allocator_get_type a \<noteq> PMM_TYPE_LIST then Inr (NULL, s)
       else bind_res (loop_res (get_cache sz s)) (\<lambda>c.
         if c = NULL then Inr (NULL, s)
         else bind_res (pick_slab stk c s) (\<lambda>(sl, s).
           if sl = NULL then Inl Panicked
           else let (ret, s) = take_object c sl s in bind_res (file_slab c sl s) (\<lambda>s. Inr (ret, s)))))"

definition new_cache :: "addr \<Rightarrow> u32 \<Rightarrow> kmem \<Rightarrow> kerror + (addr \<times> kmem)" where
  "new_cache stk sz s =
     bind_res (cache_alloc stk sizeof_slabcache s) (\<lambda>(c, s).
       if c = NULL then Inr (NULL, s)
       else bind_res (init_cache c sz s) (\<lambda>s.
         bind_res (upd_heap (list_append (cache_node (root_cache s)) (cache_node c)) s) (\<lambda>s. Inr (c, s))))"

section \<open>Freeing\<close>

definition put_object :: "addr \<Rightarrow> addr \<Rightarrow> addr \<Rightarrow> kmem \<Rightarrow> kerror + kmem" where
  "put_object c sl obj s =
     (if sc_slab_size (km_cache s c) = 0 then Inl Divide_error
      else let x = km_slab s sl; i = (obj - sl_objects x) div sc_slab_size (km_cache s c)
        in Inr (upd_slab sl (\<lambda>x. x\<lparr>sl_free := i, sl_inuse := sl_inuse x - 1\<rparr>)
             (s\<lparr>km_mem := st32 (bufctl sl i) (sl_free x) (km_mem s)\<rparr>)))"

definition move_slab :: "addr \<Rightarrow> addr \<Rightarrow> kmem \<Rightarrow> kerror + kmem" where
  "move_slab sl hp s =
     bind_res (take_slab sl s) (\<lambda>(sl, s). upd_heap (list_append hp sl) s)"

definition cache_free :: "addr \<Rightarrow> addr \<Rightarrow> kmem \<Rightarrow> kerror + kmem" where
  "cache_free c obj s =
     (if c = NULL then Inr s
      else bind_res (loop_res (find_slab s c obj (lnext (km_heap s (list_full c))))) (\<lambda>sl.
        if sl \<noteq> NULL then bind_res (put_object c sl obj s) (move_slab sl (list_partial c))
        else bind_res (loop_res (find_slab s c obj (lnext (km_heap s (list_partial c))))) (\<lambda>sl.
          if sl = NULL then Inr s
          else bind_res (put_object c sl obj s) (\<lambda>s.
            if sl_inuse (km_slab s sl) = 0 then move_slab sl (list_free c) s else Inr s))))"

section \<open>General sizes\<close>

text \<open>
  \<open>next_pow2l\<close> of a 32-bit \<open>size_t\<close> shifts an \<open>int\<close> by at least 33, which C leaves undefined; the shift
  instruction of the i386 takes the count modulo 32.
\<close>

definition next_pow2l_i386 :: "u32 \<Rightarrow> u32 option" where
  "next_pow2l_i386 x =
     (if x = 1 then Some 1 else map_option (\<lambda>k. push_bit ((64 - k) mod 32) 1) (clz (x - 1)))"

definition kmalloc :: "addr \<Rightarrow> addr \<Rightarrow> u32 \<Rightarrow> kmem \<Rightarrow> kerror + (addr \<times> kmem)" where
  "kmalloc ubxela stk sz s =
     bind_res (loop_res (next_pow2l_i386 sz)) (\<lambda>j.
     bind_res (loop_res (get_cache j s)) (\<lambda>best.
     bind_res (if best = NULL \<or> sc_slab_size (km_cache s best) \<noteq> j
       then bind_res (new_cache stk j s) (\<lambda>(best, s).
         if best = NULL then Inl Null_deref
         else bind_res (loop_res (strcpy (cache_name best) ubxela (km_mem s))) (\<lambda>(_, m). Inr (s\<lparr>km_mem := m\<rparr>)))
       else Inr s) (\<lambda>s. cache_alloc stk j s)))"

definition kfree :: "addr \<Rightarrow> addr \<Rightarrow> kmem \<Rightarrow> kerror + kmem" where
  "kfree ubxela obj s =
     bind_res (loop_res (find_cache_kmalloc ubxela obj s)) (\<lambda>c. if c = NULL then Inr s else cache_free c obj s)"

section \<open>Lists with their heads\<close>

text \<open>The laws of \<^const>\<open>list_append\<close> and \<^const>\<open>list_remove\<close> on lists whose head points back to itself.\<close>

interpretation rl: node_lists rooted list_append list_remove "\<lambda>a. a \<noteq> NULL"
proof
  fix h :: lheap and p n :: addr and xs ys :: "addr list"
  show "rooted h p xs \<Longrightarrow> distinct (p # xs) \<and> (\<forall>a \<in> set (p # xs). a \<noteq> NULL)"
    by (auto simp: rooted_def dlist_def)
  show "\<exists>h'. list_append p n h = Inr h' \<and> rooted h' p (n # xs) \<and>
      (\<forall>q ys. rooted h q ys \<and> set (q # ys) \<inter> set (p # n # xs) = {} \<longrightarrow> rooted h' q ys)"
    if l: "rooted h p xs" "n \<noteq> NULL" "n \<notin> set (p # xs)"
  proof -
    obtain h' where h': "list_append p n h = Inr h'" "dlist h' p (n # xs)" "lprev (h' p) = lprev (h p)"
      "\<And>a. a \<notin> set (p # n # xs) \<Longrightarrow> h' a = h a"
      using list_append_dlist [of h p "[]" xs p n] l by (auto simp: rooted_def)
    have "rooted h' q ys" if "rooted h q ys" "set (q # ys) \<inter> set (p # n # xs) = {}" for q ys
      using that rooted_frame [of q ys h' h] h'(4) by blast
    with h' l show ?thesis by (auto simp: rooted_def)
  qed
  show "\<exists>h'. list_remove n h = Inr (n, h') \<and> rooted h' p (xs @ ys) \<and>
      (\<forall>q zs. rooted h q zs \<and> set (q # zs) \<inter> set (p # xs @ ys) = {} \<longrightarrow> rooted h' q zs)"
    if l: "rooted h p (xs @ n # ys)"
  proof -
    obtain h' where h': "list_remove n h = Inr (n, h')" "dlist h' p (xs @ ys)" "lprev (h' p) = lprev (h p)"
      "\<And>a. a \<notin> set (p # xs @ ys) \<Longrightarrow> h' a = h a"
      using list_remove_dlist [of h p xs n ys] l by (auto simp: rooted_def)
    have "rooted h' q zs" if "rooted h q zs" "set (q # zs) \<inter> set (p # xs @ ys) = {}" for q zs
      using that rooted_frame [of q zs h' h] h'(4) by blast
    with h' l show ?thesis by (auto simp: rooted_def)
  qed
qed

section \<open>The invariant of a cache\<close>

text \<open>The free objects of a slab, in the order of the chain, which ends at the number of objects.\<close>

primrec chain :: "mem \<Rightarrow> addr \<Rightarrow> u32 \<Rightarrow> u32 \<Rightarrow> u32 list \<Rightarrow> bool" where
  "chain m sl n k [] \<longleftrightarrow> k = n"
| "chain m sl n k (i # is) \<longleftrightarrow> k = i \<and> i < n \<and> chain m sl n (ld32 m (bufctl sl i)) is"

definition slab_ok :: "kmem \<Rightarrow> addr \<Rightarrow> addr \<Rightarrow> u32 list \<Rightarrow> bool" where
  "slab_ok s c sl ks \<longleftrightarrow>
     chain (km_mem s) sl (sc_slab_objects (km_cache s c)) (sl_free (km_slab s sl)) ks \<and> distinct ks
     \<and> unat (sl_inuse (km_slab s sl)) + length ks = unat (sc_slab_objects (km_cache s c))"

abbreviation heads :: "addr \<Rightarrow> addr list" where
  "heads c \<equiv> [list_free c, list_partial c, list_full c]"

text \<open>\<open>F\<close>, \<open>P\<close> and \<open>U\<close> are the slabs of the three lists, \<open>K\<close> the free objects of each slab.\<close>

definition cache_ok :: "kmem \<Rightarrow> addr \<Rightarrow> addr list \<Rightarrow> addr list \<Rightarrow> addr list \<Rightarrow> (addr \<Rightarrow> u32 list) \<Rightarrow> bool" where
  "cache_ok s c F P U K \<longleftrightarrow>
     rooted (km_heap s) (list_free c) F \<and> rooted (km_heap s) (list_partial c) P \<and> rooted (km_heap s) (list_full c) U
     \<and> distinct (heads c @ F @ P @ U)
     \<and> (\<forall>sl \<in> set (F @ P @ U). slab_ok s c sl (K sl))
     \<and> (\<forall>sl \<in> set F. sl_inuse (km_slab s sl) = 0) \<and> (\<forall>sl \<in> set P. sl_inuse (km_slab s sl) \<noteq> 0 \<and> K sl \<noteq> [])
     \<and> (\<forall>sl \<in> set U. K sl = []) \<and> sc_slab_objects (km_cache s c) \<noteq> 0"

definition object_at :: "kmem \<Rightarrow> addr \<Rightarrow> addr \<Rightarrow> u32 \<Rightarrow> addr" where
  "object_at s c sl k = sl_objects (km_slab s sl) + k * sc_slab_size (km_cache s c)"

lemma slab_ok_cong:
  assumes "km_mem s' = km_mem s" "km_slab s' sl = km_slab s sl"
    and "sc_slab_objects (km_cache s' c) = sc_slab_objects (km_cache s c)"
  shows "slab_ok s' c sl ks = slab_ok s c sl ks"
  by (simp add: slab_ok_def assms)

text \<open>Taking an object off a slab that is in no list and filing the slab where it now belongs.\<close>

lemma serve_slab:
  assumes ok: "cache_ok s c F P U K" and sl: "sl \<notin> set (heads c @ F @ P @ U)" "sl \<noteq> NULL"
    and k: "slab_ok s c sl (k # ks)"
  shows "\<exists>s'. (case take_object c sl s of (ret, s) \<Rightarrow> bind_res (file_slab c sl s) (\<lambda>s. Inr (ret, s)))
      = Inr (object_at s c sl k, s')
    \<and> cache_ok s' c F (if ks = [] then P else sl # P) (if ks = [] then sl # U else U) (K(sl := ks))"
proof -
  let ?n = "sc_slab_objects (km_cache s c)"
  define s1 where "s1 = upd_slab sl (\<lambda>x. x\<lparr>sl_free := ld32 (km_mem s) (bufctl sl (sl_free x)), sl_inuse := sl_inuse x + 1\<rparr>) s"
  have s1: "km_heap s1 = km_heap s" "km_mem s1 = km_mem s" "km_cache s1 = km_cache s"
      "x \<noteq> sl \<Longrightarrow> km_slab s1 x = km_slab s x" for x
    by (simp_all add: s1_def upd_slab_def)
  have inuse: "unat (sl_inuse (km_slab s1 sl)) = Suc (unat (sl_inuse (km_slab s sl)))"
  proof -
    have "unat (sl_inuse (km_slab s sl)) < unat ?n" using k by (simp add: slab_ok_def)
    then have "sl_inuse (km_slab s sl) < ?n" by (simp add: word_less_nat_alt)
    then show ?thesis by (simp add: s1_def upd_slab_def unat_plus_one_less)
  qed
  have sl_ok: "slab_ok s1 c sl ks"
    using k inuse unfolding slab_ok_def s1(2,3) by (auto simp: s1_def upd_slab_def)
  have ret: "take_object c sl s = (object_at s c sl k, s1)"
    using k by (simp add: take_object_def object_at_def slab_ok_def s1_def)
  have other: "slab_ok s1 c x (K x)" if "x \<in> set (F @ P @ U)" for x
  proof -
    have "x \<noteq> sl" using sl(1) that by auto
    then show ?thesis using ok that slab_ok_cong [of s1 s x c "K x"] s1 by (simp add: cache_ok_def)
  qed
  have full: "sl_inuse (km_slab s1 sl) = ?n \<longleftrightarrow> ks = []"
    using sl_ok s1(3) by (auto simp: slab_ok_def word_unat_eq_iff)
  have used: "sl_inuse (km_slab s1 sl) \<noteq> 0" using inuse by auto
  have inuse_F: "\<forall>x \<in> set F. sl_inuse (km_slab s1 x) = 0"
    and inuse_P: "\<forall>x \<in> set P. sl_inuse (km_slab s1 x) \<noteq> 0"
  proof -
    have "km_slab s1 x = km_slab s x" if "x \<in> set F \<union> set P" for x
    proof (rule s1(4))
      show "x \<noteq> sl" using that sl(1) by auto
    qed
    then show "\<forall>x \<in> set F. sl_inuse (km_slab s1 x) = 0" "\<forall>x \<in> set P. sl_inuse (km_slab s1 x) \<noteq> 0"
      using ok by (simp_all add: cache_ok_def)
  qed
  define hp zs where "hp = (if ks = [] then list_full c else list_partial c)" and "zs = (if ks = [] then U else P)"
  have zs: "rooted (km_heap s1) hp zs" "sl \<notin> set (hp # zs)"
    using ok sl(1) s1(1) by (auto simp: cache_ok_def hp_def zs_def)
  obtain h' where h': "list_append hp sl (km_heap s1) = Inr h'" "rooted h' hp (sl # zs)"
      "\<And>q ys. rooted (km_heap s1) q ys \<Longrightarrow> set (q # ys) \<inter> set (hp # sl # zs) = {} \<Longrightarrow> rooted h' q ys"
    using rl.push_valid [OF zs(1) sl(2) zs(2)] by blast
  let ?s' = "s1\<lparr>km_heap := h'\<rparr>"
  have filed: "file_slab c sl s1 = Inr ?s'"
    using h'(1) full used s1(3) by (auto simp: file_slab_def upd_heap_def hp_def Let_def)
  have d: "distinct (heads c @ F @ P @ U)" using ok by (simp add: cache_ok_def)
  have keep: "rooted h' q ys" if "rooted (km_heap s) q ys" "set (q # ys) \<inter> set (hp # sl # zs) = {}" for q ys
    using h'(3) [of q ys] that s1(1) by simp
  have ok': "slab_ok ?s' c x ((K(sl := ks)) x)" if "x \<in> set (sl # F @ P @ U)" for x
    using that other sl_ok slab_ok_cong [of ?s' s1 x c] by auto
  have "rooted h' (list_free c) F"
    using keep [of "list_free c" F] ok sl(1) d by (cases "ks = []") (auto simp: cache_ok_def hp_def zs_def Int_Un_distrib)
  moreover have "rooted h' (list_partial c) (if ks = [] then P else sl # P)"
    using keep [of "list_partial c" P] ok sl(1) d h'(2) by (cases "ks = []") (auto simp: cache_ok_def hp_def zs_def Int_Un_distrib)
  moreover have "rooted h' (list_full c) (if ks = [] then sl # U else U)"
    using keep [of "list_full c" U] ok sl(1) d h'(2) by (cases "ks = []") (auto simp: cache_ok_def hp_def zs_def Int_Un_distrib)
  ultimately have "cache_ok ?s' c F (if ks = [] then P else sl # P) (if ks = [] then sl # U else U) (K(sl := ks))"
    using ok sl(1) d ok' used inuse_F inuse_P s1(1-3) unfolding cache_ok_def by (cases "ks = []") auto
  then show ?thesis using ret filed by auto
qed

lemma rooted_count:
  assumes "rooted h p xs"
  shows "\<exists>n. loop_err (list_count p h) = Inr n \<and> (n = 0 \<longleftrightarrow> xs = [])"
proof -
  have "card (set (p # xs)) \<le> card (UNIV :: addr set)" by (rule card_mono) simp_all
  then have "length xs < 2 ^ 32"
    using assms distinct_card [of "p # xs"] by (simp add: rooted_def dlist_def card_word)
  then have "(of_nat (length xs) :: u32) = 0 \<longleftrightarrow> length xs = 0"
    using of_nat_inj_small [of "length xs" 0, where ?'a = 32] by simp
  then show ?thesis using list_walks(2) [OF assms, of p] by simp
qed

lemma take_slab_first:
  assumes "rooted (km_heap s) p (sl # xs)"
  shows "\<exists>h. take_slab (lnext (km_heap s p)) s = Inr (sl, s\<lparr>km_heap := h\<rparr>) \<and> rooted h p xs
    \<and> (\<forall>q zs. rooted (km_heap s) q zs \<and> set (q # zs) \<inter> set (p # xs) = {} \<longrightarrow> rooted h q zs)"
proof -
  have "lnext (km_heap s p) = sl" using dlist_next [of "km_heap s" p "sl # xs"] assms by (simp add: rooted_def)
  then show ?thesis
    using rl.unlink_valid [of "km_heap s" p "[]" sl xs] assms by (auto simp: take_slab_def)
qed

text \<open>The slab an allocation uses: the first partial one, else the first free one.\<close>

lemma pick_slab_old:
  assumes ok: "cache_ok s c F P U K" and ne: "P @ F = sl # Q"
  shows "\<exists>h. pick_slab stk c s = Inr (sl, s\<lparr>km_heap := h\<rparr>)
    \<and> cache_ok (s\<lparr>km_heap := h\<rparr>) c (if P = [] then tl F else F) (tl P) U K"
proof -
  have r: "rooted (km_heap s) (list_free c) F" "rooted (km_heap s) (list_partial c) P"
      "rooted (km_heap s) (list_full c) U" and d: "distinct (heads c @ F @ P @ U)"
    using ok by (simp_all add: cache_ok_def)
  obtain nf np where n: "loop_err (list_count (list_free c) (km_heap s)) = Inr nf" "nf = 0 \<longleftrightarrow> F = []"
      "loop_err (list_count (list_partial c) (km_heap s)) = Inr np" "np = 0 \<longleftrightarrow> P = []"
    using rooted_count [OF r(1)] rooted_count [OF r(2)] by blast
  have same: "slab_ok (s\<lparr>km_heap := h\<rparr>) c x ks = slab_ok s c x ks" for h x ks
    by (rule slab_ok_cong) simp_all
  show ?thesis
  proof (cases P)
    case Nil
    then have F: "F = sl # Q" using ne by simp
    obtain h where h: "take_slab (lnext (km_heap s (list_free c))) s = Inr (sl, s\<lparr>km_heap := h\<rparr>)"
        "rooted h (list_free c) Q"
        "\<And>q zs. rooted (km_heap s) q zs \<Longrightarrow> set (q # zs) \<inter> set (list_free c # Q) = {} \<Longrightarrow> rooted h q zs"
      using take_slab_first [OF r(1) [unfolded F]] by blast
    have "rooted h (list_partial c) P" "rooted h (list_full c) U"
      using h(3) r(2,3) d unfolding F by auto
    then have "cache_ok (s\<lparr>km_heap := h\<rparr>) c Q [] U K"
      using ok h(2) unfolding cache_ok_def F Nil by (auto simp: same)
    then show ?thesis using h(1) n Nil F by (auto simp: pick_slab_def)
  next
    case (Cons y Q')
    then have P: "P = sl # Q'" using ne by simp
    obtain h where h: "take_slab (lnext (km_heap s (list_partial c))) s = Inr (sl, s\<lparr>km_heap := h\<rparr>)"
        "rooted h (list_partial c) Q'"
        "\<And>q zs. rooted (km_heap s) q zs \<Longrightarrow> set (q # zs) \<inter> set (list_partial c # Q') = {} \<Longrightarrow> rooted h q zs"
      using take_slab_first [OF r(2) [unfolded P]] by blast
    have "rooted h (list_free c) F" "rooted h (list_full c) U"
      using h(3) r(1,3) d unfolding P by (auto simp: Int_Un_distrib)
    then have "cache_ok (s\<lparr>km_heap := h\<rparr>) c F Q' U K"
      using ok h(2) unfolding cache_ok_def P by (auto simp: same)
    then show ?thesis using h(1) n P by (auto simp: pick_slab_def)
  qed
qed

lemma alloc_steps:
  assumes "get_allocator (km_pmm s) = Inr PmmNode" "get_cache sz s = Some c" "c \<noteq> NULL"
    and "pick_slab stk c s = Inr (sl, s1)" "sl \<noteq> NULL"
  shows "cache_alloc stk sz s =
    (case take_object c sl s1 of (ret, s) \<Rightarrow> bind_res (file_slab c sl s) (\<lambda>s. Inr (ret, s)))"
  using assms by (simp add: cache_alloc_def allocator_get_type_def PmmNode_get_type_def)

section \<open>A new slab\<close>

lemma bufctl_offset: "bufctl sl (of_nat i) + of_nat k = sl + sizeof_slab + of_nat (4 * i + k)"
  by (simp add: bufctl_def sizeof_objctl_def)

lemma bufctl_apart:
  assumes "i < 2 ^ 29" "j < 2 ^ 29" "i \<noteq> j"
  shows "apart (bufctl sl (of_nat i)) 4 (bufctl sl (of_nat j)) 4"
  unfolding apart_def bufctl_offset
proof (intro allI impI notI)
  fix k k' :: nat assume k: "k < 4" "k' < 4"
    and eq: "sl + sizeof_slab + of_nat (4 * i + k) = sl + sizeof_slab + of_nat (4 * j + k')"
  then have "(of_nat (4 * i + k) :: u32) = of_nat (4 * j + k')" by (simp only: add_left_cancel)
  then have "4 * i + k = 4 * j + k'"
    using of_nat_inj_small [of "4 * i + k" "4 * j + k'", where ?'a = 32] assms(1,2) k by simp
  with k assms(3) show False by presburger
qed

lemma fill_bufctl_entry:
  assumes "i < n" "n \<le> 2 ^ 29"
  shows "ld32 (fill_bufctl sl n m) (bufctl sl (of_nat i)) = of_nat (Suc i)"
  using assms
proof (induction n)
  case (Suc n)
  show ?case
  proof (cases "i = n")
    case False
    then have "apart (bufctl sl (of_nat i)) 4 (bufctl sl (of_nat n)) 4"
      using Suc.prems by (intro bufctl_apart) auto
    then show ?thesis using Suc False by (simp add: ld32_st32_apart)
  qed simp
qed simp

lemma chain_fresh:
  assumes "a \<le> n" "n \<le> 2 ^ 29"
  shows "chain (fill_bufctl sl n m) sl (of_nat n) (of_nat a) (map of_nat [a ..< n])"
  using assms(1)
proof (induction rule: inc_induct)
  case (step k)
  have "ld32 (fill_bufctl sl n m) (bufctl sl (of_nat k)) = of_nat (Suc k)"
    by (rule fill_bufctl_entry) (use step assms(2) in auto)
  moreover have "(of_nat k :: u32) < of_nat n"
    using step assms(2) by (simp add: word_less_nat_alt unat_of_nat_small)
  ultimately show ?case using step by (simp add: upt_conv_Cons)
qed simp

text \<open>\<open>grown s stk c sl\<close>: the page allocator hands out a run of pages that is mapped at \<open>sl\<close>.\<close>

definition grown :: "kmem \<Rightarrow> addr \<Rightarrow> addr \<Rightarrow> addr \<Rightarrow> bool" where
  "grown s stk c sl \<longleftrightarrow> (\<exists>q p pm phys.
     pmm_alloc_pages_contig stk (push_bit (unat (sc_order (km_cache s c))) 1) (km_pmm s) = Inr (q, Some p, pm)
     \<and> pmm_get_phys (\<lambda>_. \<lparr>ba_addr = 0, ba_pages = 0\<rparr>) p pm = Inr phys \<and> sl = ucast (phys + ucast ARCH_KMALLOC_BASE))"

text \<open>The list allocator finds the pages of a slab whenever an arena has a long enough run.\<close>

lemma grown_pool:
  assumes pm: "pm_allocator (km_pmm s) = Some PmmNode" and p: "pool (pm_node (km_pmm s)) A F"
    and stk: "stk \<notin> set (footprint (pm_node (km_pmm s)) A)" "stk \<noteq> NULL"
    and n: "unat (sc_order (km_cache s c)) < 31"
    and run: "\<exists>a \<in> set A. \<exists>e. run_in (pm_node (km_pmm s)) (2 ^ unat (sc_order (km_cache s c))) a e"
  shows "\<exists>a \<in> set A. \<exists>i < unat (ar_size (narenas (pm_node (km_pmm s)) a)).
      grown s stk c (ucast (ar_base (narenas (pm_node (km_pmm s)) a) + of_nat i * 4096 + ucast ARCH_KMALLOC_BASE))"
proof -
  let ?t = "pm_node (km_pmm s)" and ?k = "unat (sc_order (km_cache s c))"
  let ?cnt = "push_bit ?k 1 :: u32"
  have "(2 :: nat) ^ ?k \<le> 2 ^ 30" using n by (intro power_increasing) auto
  then have "(2 :: nat) ^ ?k < 4294967296" by simp
  then have "unat (of_nat (2 ^ ?k) :: u32) = 2 ^ ?k" by (intro unat_of_nat_small) simp
  moreover have "?cnt = of_nat (2 ^ ?k)" by (simp add: push_bit_eq_mult)
  ultimately have u: "unat ?cnt = 2 ^ ?k" by (simp only:)
  have "0 < unat ?cnt" unfolding u by simp
  then have c: "?cnt \<noteq> 0" unfolding unat_gt_0 .
  have le: "?cnt \<le> 0x7FFFFFFF" unfolding word_le_nat_alt u using \<open>2 ^ ?k \<le> 2 ^ 30\<close> by simp
  have cond: "\<exists>a \<in> set A. \<exists>e. run_in ?t (unat ?cnt) a e" using run unfolding u .
  from PmmNode_contiguous_result [OF p stk c le]
  obtain a e t' F' where r: "a \<in> set A" "run_in ?t (unat ?cnt) a e"
    "let ys = map (\<lambda>j. page_at (narenas ?t a) (of_nat j)) [Suc e - unat ?cnt ..< Suc e] in
      PmmNode_allocate_contiguous stk ?cnt ?t = Inr (?cnt, Some (hd ys), t')
      \<and> page_chain t' ys \<and> pool t' A F' \<and> set ys \<subseteq> occupied_pages t' A \<and> geometry t' = geometry ?t"
    unfolding if_P [OF cond] by blast
  let ?i = "Suc e - unat ?cnt"
  have i: "?i < Suc e" "Suc e < unat (ar_size (narenas ?t a))"
    using r(2) \<open>0 < unat ?cnt\<close> by (auto simp: run_in_def free_window_def)
  then have hd: "hd (map (\<lambda>j. page_at (narenas ?t a) (of_nat j)) [?i ..< Suc e]) = page_at (narenas ?t a) (of_nat ?i)"
    by (simp only: hd_map upt_conv_Cons list.map list.sel)
  have g: "geometry t' = geometry ?t" and t: "pool t' A F'"
    and al: "PmmNode_allocate_contiguous stk ?cnt ?t = Inr (?cnt, Some (page_at (narenas ?t a) (of_nat ?i)), t')"
    using r(3) unfolding Let_def hd by blast+
  have eqs: "page_at (narenas t' a) = page_at (narenas ?t a)" "ar_base (narenas t' a) = ar_base (narenas ?t a)"
      "ar_size (narenas t' a) = ar_size (narenas ?t a)"
    using geometry_cong(5-7) [OF g] by (simp_all add: page_at_def fun_eq_iff)
  have "PmmNode_page_to_physical (page_at (narenas ?t a) (of_nat ?i)) t' = Inr (ar_base (narenas ?t a) + of_nat ?i * 4096)"
    using pmm_page_to_physical [OF t r(1), of ?i] i unfolding eqs by linarith
  then have "grown s stk c (ucast (ar_base (narenas ?t a) + of_nat ?i * 4096 + ucast ARCH_KMALLOC_BASE))"
    using pm al unfolding grown_def pmm_alloc_pages_contig_def pmm_get_phys_def get_allocator_def by simp
  moreover have "?i < unat (ar_size (narenas ?t a))" using i by linarith
  ultimately show ?thesis using r(1) by blast
qed

lemma new_slab_result:
  assumes ok: "cache_ok s c [] [] U K" and g: "grown s stk c sl" and sl: "sl \<notin> set (heads c @ U)" "sl \<noteq> NULL"
    and n: "unat (sc_slab_objects (km_cache s c)) = n" "n \<le> 2 ^ 29"
  shows "\<exists>s1. new_slab stk c s = Inr (sl, s1) \<and> cache_ok s1 c [] [] U K \<and> slab_ok s1 c sl (map of_nat [0 ..< n])
    \<and> sl_objects (km_slab s1 sl) = sl + sizeof_slab + of_nat (4 * n) + sc_colour_next (km_cache s c) * 64"
proof -
  obtain q p pm phys where g': "pmm_alloc_pages_contig stk (push_bit (unat (sc_order (km_cache s c))) 1) (km_pmm s)
      = Inr (q, Some p, pm)" "pmm_get_phys (\<lambda>_. \<lparr>ba_addr = 0, ba_pages = 0\<rparr>) p pm = Inr phys"
    "sl = ucast (phys + ucast ARCH_KMALLOC_BASE)"
    using g by (auto simp: grown_def)
  obtain h where h: "INIT_LLIST sl (km_heap s) = Inr h" "\<And>a. a \<noteq> sl \<Longrightarrow> h a = km_heap s a"
    using init_dlist [OF sl(2), of "km_heap s"] by blast
  have obj: "sc_slab_objects (km_cache s c) = of_nat n" unfolding n(1) [symmetric] by simp
  obtain s1 where s1: "new_slab stk c s = Inr (sl, s1)" "km_heap s1 = h"
      "\<And>x. x \<noteq> sl \<Longrightarrow> km_slab s1 x = km_slab s x" "sc_slab_objects (km_cache s1 c) = of_nat n"
      "km_mem s1 = fill_bufctl sl n (snd (memset (bufctl sl 0) 0 (sizeof_objctl * of_nat n) (km_mem s)))" "sl_free (km_slab s1 sl) = 0" "sl_inuse (km_slab s1 sl) = 0"
      "sl_objects (km_slab s1 sl) = sl + sizeof_slab + of_nat (4 * n) + sc_colour_next (km_cache s c) * 64"
    using g' h(1) n obj
    by (simp add: new_slab_def upd_heap_def Let_def upd_slab_def upd_cache_def sizeof_objctl_def mult.commute)
  have d: "distinct (heads c @ U)" using ok by (simp add: cache_ok_def)
  have "rooted h q ys \<longleftrightarrow> rooted (km_heap s) q ys" if "sl \<notin> set (q # ys)" for q ys
    by (rule rooted_frame, rule h(2)) (use that in auto)
  then have "rooted h (list_free c) []" "rooted h (list_partial c) []" "rooted h (list_full c) U"
    using ok sl(1) by (auto simp: cache_ok_def)
  moreover have "slab_ok s1 c x (K x)" if "x \<in> set U" for x
  proof -
    have "x \<noteq> sl" using sl(1) that by auto
    moreover have "K x = []" "slab_ok s c x []" using ok that by (auto simp: cache_ok_def)
    ultimately show ?thesis using s1(3,4) obj by (simp add: slab_ok_def)
  qed
  ultimately have "cache_ok s1 c [] [] U K"
    using ok obj unfolding cache_ok_def s1(2,4) by simp
  moreover have "slab_ok s1 c sl (map of_nat [0 ..< n])"
  proof -
    have "inj_on (of_nat :: nat \<Rightarrow> u32) {0 ..< n}"
      using n(2) by (intro inj_onI) (simp add: of_nat_inj_small)
    then have "distinct (map (of_nat :: nat \<Rightarrow> u32) [0 ..< n])" by (simp add: distinct_map)
    moreover have "unat (of_nat n :: u32) = n" using n(2) by (intro unat_of_nat_small) simp
    ultimately show ?thesis
      using chain_fresh [of 0 n sl] n(2) s1(4-7) by (auto simp: slab_ok_def)
  qed
  ultimately show ?thesis using s1(1,8) by blast
qed

section \<open>Searching\<close>

lemma find_slab_dlist:
  assumes "dlist (km_heap s) p xs"
  shows "find_slab s c obj (lnext (km_heap s p)) =
    Some (case List.find (\<lambda>x. IS_OBJECT_IN_SLAB (km_cache s c) (km_slab s x) obj) xs of None \<Rightarrow> NULL | Some x \<Rightarrow> x)"
  using assms
proof (induction xs arbitrary: p)
  case Nil
  then show ?case by (simp add: find_slab.simps)
next
  case (Cons x xs)
  then have "lnext (km_heap s p) = x" "x \<noteq> NULL" by (auto simp: dlist_def linked_def)
  with Cons.IH [OF dlist_tail [OF Cons.prems]] show ?case by (simp add: find_slab.simps [of s c obj x])
qed

section \<open>The shape of a cache\<close>

lemma sint_diff:
  assumes "a < 2 ^ 31" "b < 2 ^ 31"
  shows "sint (of_nat a - of_nat b :: u32) = int a - int b"
proof -
  have "(of_nat a - of_nat b :: u32) = word_of_int (int a - int b)" by simp
  then have "sint (of_nat a - of_nat b :: u32) = signed_take_bit 31 (int a - int b)"
    by (simp only: sint_sbintrunc') simp
  also have "\<dots> = int a - int b" using assms by (intro signed_take_bit_int_eq_self) auto
  finally show ?thesis .
qed

lemma order_loop_result:
  assumes "unat (sz + sizeof_objctl + sizeof_slab) = need" "need \<le> 2 ^ 30" "k \<le> 30"
  shows "\<exists>d. order_loop sz (of_nat (2 ^ k)) e = Some (of_nat (2 ^ (k + d)), e + of_nat d)
    \<and> k + d \<le> 30 \<and> need \<le> 2 ^ (k + d) \<and> (d = 0 \<or> 2 ^ (k + d) < 2 * need)"
  using assms(3)
proof (induction "30 - k" arbitrary: k e)
  case less: (Suc m)
  then have k: "m = 30 - Suc k" "Suc k \<le> 30" by auto
  have w: "sz + sizeof_objctl + sizeof_slab = of_nat need" unfolding assms(1) [symmetric] by simp
  have "(2 :: nat) ^ k \<le> 2 ^ 30" using less.prems by (intro power_increasing) auto
  then have c: "sint (of_nat (2 ^ k) - (sz + sizeof_objctl + sizeof_slab)) < 0 \<longleftrightarrow> 2 ^ k < need"
    unfolding w using assms(2) by (subst sint_diff) auto
  show ?case
  proof (cases "2 ^ k < need")
    case True
    obtain d where d: "order_loop sz (of_nat (2 ^ Suc k)) (e + 1) = Some (of_nat (2 ^ (Suc k + d)), e + 1 + of_nat d)"
        "Suc k + d \<le> 30" "need \<le> 2 ^ (Suc k + d)" "d = 0 \<or> 2 ^ (Suc k + d) < 2 * need"
      using less.hyps(1) [OF k, of "e + 1"] by blast
    have "order_loop sz (of_nat (2 ^ k)) e = order_loop sz (of_nat (2 ^ Suc k)) (e + 1)"
      using True c by (subst order_loop.simps) (simp add: mult.commute)
    with d True show ?thesis by (intro exI [of _ "Suc d"]) auto
  next
    case False
    then show ?thesis using c less.prems by (intro exI [of _ 0]) (subst order_loop.simps, simp)
  qed
next
  case 0
  then have k: "k = 30" by simp
  have w: "sz + sizeof_objctl + sizeof_slab = of_nat need" unfolding assms(1) [symmetric] by simp
  have "\<not> sint (of_nat (2 ^ 30) - (sz + sizeof_objctl + sizeof_slab)) < 0"
    unfolding w using assms(2) by (subst sint_diff) auto
  then show ?case using assms(2) unfolding k by (intro exI [of _ 0]) (subst order_loop.simps, simp)
qed

lemma objects_loop_result:
  assumes "sz + sizeof_objctl = of_nat b" "0 < b" "b < 2 ^ 31" "f < 2 ^ 31"
  shows "objects_loop sz (of_nat f) e = Some (of_nat (f mod b), e + of_nat (f div b))"
  using assms(4)
proof (induction f arbitrary: e rule: less_induct)
  case (less f)
  have c: "sint (of_nat f - (sz + sizeof_objctl)) \<ge> 0 \<longleftrightarrow> b \<le> f"
    unfolding assms(1) using less.prems assms(3) by (subst sint_diff) auto
  show ?case
  proof (cases "b \<le> f")
    case True
    have "objects_loop sz (of_nat f) e = objects_loop sz (of_nat (f - b)) (e + 1)"
      using True c by (subst objects_loop.simps) (simp add: assms(1) of_nat_diff)
    also have "\<dots> = Some (of_nat ((f - b) mod b), e + 1 + of_nat ((f - b) div b))"
      using True assms(2) less.prems by (intro less.IH) auto
    finally show ?thesis using True assms(2) by (simp add: le_mod_geq le_div_geq)
  next
    case False
    then show ?thesis using c by (subst objects_loop.simps) simp
  qed
qed

lemma cache_shape_result:
  assumes "unat sz + 32 \<le> 2 ^ 30"
  shows "\<exists>d. cache_shape sz = Some \<lparr>sc_order = of_nat d, sc_slab_size = sz,
      sc_slab_objects = of_nat ((4096 * 2 ^ d - 28) div (unat sz + 4)), sc_colour_next = 0,
      sc_colour_num = of_nat ((4096 * 2 ^ d - 28) mod (unat sz + 4) div 64)\<rparr>
    \<and> d \<le> 18 \<and> unat sz + 32 \<le> 4096 * 2 ^ d \<and> (d = 0 \<or> 4096 * 2 ^ d < 2 * (unat sz + 32))"
proof -
  have w: "sz + sizeof_objctl + sizeof_slab = sz + of_nat 32" "sz + sizeof_objctl = sz + of_nat 4"
    by (simp_all add: sizeof_objctl_def sizeof_slab_def)
  have u: "unat (sz + sizeof_objctl + sizeof_slab) = unat sz + 32"
    unfolding w(1) using assms by (intro unat_add_of_nat) simp
  obtain d where d: "order_loop sz (of_nat (2 ^ 12)) 0 = Some (of_nat (2 ^ (12 + d)), 0 + of_nat d)"
      "12 + d \<le> 30" "unat sz + 32 \<le> 2 ^ (12 + d)" "d = 0 \<or> 2 ^ (12 + d) < 2 * (unat sz + 32)"
    using order_loop_result [OF u assms, of 12 0] by auto
  let ?f = "4096 * 2 ^ d - 28 :: nat" and ?b = "unat sz + 4"
  have p: "(2 :: nat) ^ (12 + d) = 4096 * 2 ^ d" by (simp add: power_add)
  have f: "?f < 2 ^ 31"
  proof -
    have "(2 :: nat) ^ (12 + d) \<le> 2 ^ 30" using d(2) by (intro power_increasing) auto
    then show ?thesis unfolding p by simp
  qed
  have b: "sz + sizeof_objctl = of_nat ?b" unfolding w(2) by simp
  have fr: "of_nat (2 ^ (12 + d)) - sizeof_slab = (of_nat ?f :: u32)"
  proof -
    have "28 \<le> 4096 * (2 :: nat) ^ d" using d(3) unfolding p by simp
    then show ?thesis unfolding p by (simp add: of_nat_diff sizeof_slab_def)
  qed
  have "?f mod ?b < 2 ^ 31" using f by (meson le_less_trans mod_less_eq_dividend)
  then have "sint (of_nat (?f mod ?b) :: u32) sdiv 64 = int (?f mod ?b div 64)"
    by (simp add: sint_of_nat_small zdiv_int signed_divide_int_def sgn_if)
  then have "word_of_int (sint (of_nat (?f mod ?b) :: u32) sdiv 64) = (of_nat (?f mod ?b div 64) :: u32)"
    by (simp only: of_int_of_nat_eq)
  moreover have "objects_loop sz (of_nat ?f) 0 = Some (of_nat (?f mod ?b), 0 + of_nat (?f div ?b))"
    using assms by (intro objects_loop_result [OF b _ _ f]) auto
  moreover have "order_loop sz ARCH_PAGE_SIZE 0 = Some (of_nat (2 ^ (12 + d)), of_nat d)"
    using d(1) by (simp add: page_size_val)
  ultimately have "cache_shape sz = Some \<lparr>sc_order = of_nat d, sc_slab_size = sz, sc_slab_objects = of_nat (?f div ?b),
      sc_colour_next = 0, sc_colour_num = of_nat (?f mod ?b div 64)\<rparr>"
    by (simp only: cache_shape_def bind.bind_lunit prod.case fr add_0_left)
  then show ?thesis using d(2-4) unfolding p by (intro exI [of _ d]) simp
qed

section \<open>Properties\<close>

text \<open>C12. While a cache has a slab with a free object, an allocation takes the first free object of the
  first partial slab, or else of the first free slab, and moves the slab to the list its number of
  objects in use calls for; the object is not free any more and every other one as before.\<close>

theorem cache_alloc_reuses:
  assumes "get_allocator (km_pmm s) = Inr PmmNode" "get_cache sz s = Some c" "c \<noteq> NULL"
    and ok: "cache_ok s c F P U K" and sl: "P @ F = sl # Q" and k: "K sl = k # ks"
  shows "\<exists>s'. cache_alloc stk sz s = Inr (object_at s c sl k, s')
    \<and> cache_ok s' c (if P = [] then tl F else F) (if ks = [] then tl P else sl # tl P)
        (if ks = [] then sl # U else U) (K(sl := ks))"
proof -
  let ?F = "if P = [] then tl F else F"
  obtain h where h: "pick_slab stk c s = Inr (sl, s\<lparr>km_heap := h\<rparr>)" "cache_ok (s\<lparr>km_heap := h\<rparr>) c ?F (tl P) U K"
    using pick_slab_old [OF ok sl] by blast
  have "set (F @ P @ U) \<subseteq> {x. x \<noteq> NULL}" "distinct (heads c @ F @ P @ U)" "slab_ok s c sl (K sl)"
    using ok sl by (cases P; auto simp: cache_ok_def rooted_def dlist_def)+
  moreover have "sl \<in> set (F @ P @ U)" using sl by (cases P) auto
  ultimately have "sl \<notin> set (heads c @ ?F @ tl P @ U)" "sl \<noteq> NULL" "slab_ok (s\<lparr>km_heap := h\<rparr>) c sl (k # ks)"
    using sl k slab_ok_cong [of "s\<lparr>km_heap := h\<rparr>" s sl c] by (cases P; auto)+
  from serve_slab [OF h(2) this] alloc_steps [OF assms(1-3) h(1)] this show ?thesis
    by (auto simp: object_at_def)
qed

text \<open>C13. With no free object left an allocation makes a slab of the pages it is given: the object
  is the first one of the slab, behind the array of indices and the colour, and the others are free in order.\<close>

theorem cache_alloc_grows:
  assumes "get_allocator (km_pmm s) = Inr PmmNode" "get_cache sz s = Some c" "c \<noteq> NULL"
    and ok: "cache_ok s c [] [] U K" and g: "grown s stk c sl" and sl: "sl \<notin> set (heads c @ U)" "sl \<noteq> NULL"
    and n: "unat (sc_slab_objects (km_cache s c)) = Suc n" "Suc n \<le> 2 ^ 29"
  shows "\<exists>s'. cache_alloc stk sz s =
      Inr (sl + sizeof_slab + of_nat (4 * Suc n) + sc_colour_next (km_cache s c) * 64, s')
    \<and> cache_ok s' c [] (if n = 0 then [] else [sl]) (if n = 0 then sl # U else U) (K(sl := map of_nat [1 ..< Suc n]))"
proof -
  have r: "rooted (km_heap s) (list_free c) []" "rooted (km_heap s) (list_partial c) []"
    using ok by (simp_all add: cache_ok_def)
  obtain s1 where s1: "new_slab stk c s = Inr (sl, s1)" "cache_ok s1 c [] [] U K"
      "slab_ok s1 c sl (map of_nat [0 ..< Suc n])"
      "sl_objects (km_slab s1 sl) = sl + sizeof_slab + of_nat (4 * Suc n) + sc_colour_next (km_cache s c) * 64"
    using new_slab_result [OF ok g sl n] by blast
  have p: "pick_slab stk c s = Inr (sl, s1)"
    using rooted_count [OF r(1)] rooted_count [OF r(2)] s1(1) by (auto simp: pick_slab_def)
  have ks: "map of_nat [0 ..< Suc n] = (0 :: u32) # map of_nat [1 ..< Suc n]"
    by (simp add: upt_conv_Cons del: upt_Suc)
  have "\<exists>s'. (case take_object c sl s1 of (ret, s) \<Rightarrow> bind_res (file_slab c sl s) (\<lambda>s. Inr (ret, s)))
      = Inr (object_at s1 c sl 0, s')
    \<and> cache_ok s' c [] (if map of_nat [1 ..< Suc n] = ([] :: u32 list) then [] else [sl])
        (if map of_nat [1 ..< Suc n] = ([] :: u32 list) then sl # U else U) (K(sl := map of_nat [1 ..< Suc n]))"
    using serve_slab [OF s1(2) _ sl(2) s1(3) [unfolded ks]] sl(1) by simp
  then show ?thesis
    unfolding alloc_steps [OF assms(1-3) p sl(2)] by (simp add: object_at_def s1(4) del: upt_Suc)
qed

text \<open>C14. An object beyond the first one of every slab is not found, whichever slab it came from: freeing
  it changes nothing, and the object is lost.\<close>

theorem cache_free_lost:
  assumes ok: "cache_ok s c F P U K"
    and obj: "\<forall>sl \<in> set (P @ U). sl_objects (km_slab s sl) < obj"
  shows "cache_free c obj s = Inr s"
proof -
  have "List.find (\<lambda>x. IS_OBJECT_IN_SLAB (km_cache s c) (km_slab s x) obj) xs = None" if "set xs \<subseteq> set (P @ U)" for xs
    using that obj by (auto simp: find_None_iff IS_OBJECT_IN_SLAB_def not_le)
  moreover have "dlist (km_heap s) (list_partial c) P" "dlist (km_heap s) (list_full c) U"
    using ok by (simp_all add: cache_ok_def rooted_def)
  ultimately show ?thesis by (simp add: cache_free_def find_slab_dlist)
qed

text \<open>\<open>kmalloc\<close> when no list allocator is in charge: unless there is already a cache of the very size, the
  name is copied into a cache that could not be made.\<close>

theorem kmalloc_null:
  assumes "get_allocator (km_pmm s) = Inr a" "a \<noteq> PmmNode" "next_pow2l_i386 sz = Some j" "get_cache j s = Some c"
    and "c = NULL \<or> sc_slab_size (km_cache s c) \<noteq> j"
  shows "kmalloc ubxela stk sz s = Inl Null_deref"
proof -
  have "allocator_get_type a \<noteq> PMM_TYPE_LIST"
    using assms(2) by (cases a) (simp_all add: allocator_get_type_def PhysicalAllocator_get_type_def
        BootAllocator_get_type_def PMM_TYPE_LIST_def PMM_TYPE_OTHER_def PMM_TYPE_BOOT_def)
  then have "cache_alloc stk k s = Inr (NULL, s)" for k using assms(1) by (simp add: cache_alloc_def)
  then show ?thesis using assms(3-5) by (auto simp: kmalloc_def new_cache_def)
qed

text \<open>For an object of up to 1 GiB less 32 bytes \<open>init_cache\<close> ends with the least order whose
  pages hold a slab with one object, and with as many objects that the \<open>slab_t\<close>, the array, the objects and
  the gap of any colour fit into the pages.\<close>

theorem cache_shape_fits:
  assumes "unat sz + 32 \<le> 2 ^ 30"
  shows "\<exists>sh d. cache_shape sz = Some sh \<and> sc_slab_size sh = sz \<and> unat (sc_order sh) = d
    \<and> (d = 0 \<or> 4096 * 2 ^ (d - 1) < unat sz + 32) \<and> sc_slab_objects sh \<noteq> 0
    \<and> (\<forall>colour \<le> unat (sc_colour_num sh).
         28 + unat (sc_slab_objects sh) * (4 + unat sz) + 64 * colour \<le> 4096 * 2 ^ d)"
proof -
  obtain d where d: "cache_shape sz = Some \<lparr>sc_order = of_nat d, sc_slab_size = sz,
      sc_slab_objects = of_nat ((4096 * 2 ^ d - 28) div (unat sz + 4)), sc_colour_next = 0,
      sc_colour_num = of_nat ((4096 * 2 ^ d - 28) mod (unat sz + 4) div 64)\<rparr>" (is "_ = Some ?sh")
    "d \<le> 18" "unat sz + 32 \<le> 4096 * 2 ^ d" "d = 0 \<or> 4096 * 2 ^ d < 2 * (unat sz + 32)"
    using cache_shape_result [OF assms] by blast
  let ?f = "4096 * 2 ^ d - 28 :: nat" and ?b = "unat sz + 4"
  have "(2 :: nat) ^ d \<le> 2 ^ 18" using d(2) by (intro power_increasing) auto
  then have "?f < 2147483648" by simp
  moreover have "?f div ?b \<le> ?f" "?f mod ?b \<le> ?f" by (rule div_le_dividend) (rule mod_less_eq_dividend)
  ultimately have "?f div ?b < 4294967296" "?f mod ?b div 64 < 4294967296" by linarith+
  then have n: "unat (sc_slab_objects ?sh) = ?f div ?b" "unat (sc_colour_num ?sh) = ?f mod ?b div 64"
    by (simp_all add: unat_of_nat_small)
  have "?b \<le> ?f" using d(3) by simp
  then have "?f div ?b \<noteq> 0" by (simp add: div_eq_0_iff)
  then have pos: "sc_slab_objects ?sh \<noteq> 0" using n(1) by (metis unat_0)
  have "28 + ?f div ?b * ?b + 64 * col \<le> 4096 * 2 ^ d" if "col \<le> ?f mod ?b div 64" for col
  proof -
    have "64 * col \<le> ?f mod ?b" using that by linarith
    moreover have "?f div ?b * ?b + ?f mod ?b = ?f" by (rule div_mult_mod_eq)
    moreover have "28 \<le> 4096 * (2 :: nat) ^ d" using d(3) by simp
    ultimately show ?thesis by linarith
  qed
  then have "\<forall>colour \<le> unat (sc_colour_num ?sh).
      28 + unat (sc_slab_objects ?sh) * (4 + unat sz) + 64 * colour \<le> 4096 * 2 ^ d"
    unfolding n by (simp add: add.commute)
  moreover have "unat (of_nat d :: u32) = d" using d(2) by (intro unat_of_nat_small) simp
  moreover have "d = 0 \<or> 4096 * 2 ^ (d - 1) < unat sz + 32" using d(4) by (cases d) auto
  ultimately show ?thesis using d(1) pos by (intro exI [of _ ?sh] exI [of _ d]) simp
qed

section \<open>Witnesses\<close>

text \<open>
  The root cache at \<open>0x500\<close> with a slab at \<open>0x7000\<close> of three objects, the last of them free; and the same
  cache without a slab.
\<close>

definition slab_demo :: "allocator_class \<Rightarrow> kmem" where
  "slab_demo a = \<lparr>
     km_heap = (\<lambda>_. \<lparr>lprev = 0, lnext = 0\<rparr>)(
       0x500 := \<lparr>lprev = 0x500, lnext = 0\<rparr>, 0x508 := \<lparr>lprev = 0x508, lnext = 0x7000\<rparr>,
       0x510 := \<lparr>lprev = 0x510, lnext = 0\<rparr>, 0x540 := \<lparr>lprev = 0x540, lnext = 0\<rparr>,
       0x7000 := \<lparr>lprev = 0x508, lnext = 0\<rparr>),
     km_cache = (\<lambda>_. \<lparr>sc_order = 0, sc_slab_size = 72, sc_slab_objects = 3, sc_colour_next = 1, sc_colour_num = 2\<rparr>),
     km_slab = (\<lambda>_. \<lparr>sl_objects = 0x7100, sl_free = 2, sl_colour_offset = 0, sl_inuse = 2, sl_parent = 0x500\<rparr>),
     km_mem = st32 (bufctl 0x7000 2) 3 (\<lambda>_. 0),
     km_pmm = \<lparr>pm_allocator = Some a, pm_boot = boot_example, pm_node = pmm_example\<rparr>, root_cache = 0x500\<rparr>"

definition empty_demo :: kmem where
  "empty_demo = (slab_demo PmmNode)\<lparr>km_heap := (km_heap (slab_demo PmmNode))(0x508 := \<lparr>lprev = 0x508, lnext = 0\<rparr>)\<rparr>"

lemma demo_heads: "list_free 0x500 = 0x500" "list_partial 0x500 = 0x508" "list_full 0x500 = 0x510" "cache_node 0x500 = 0x540"
  by (simp_all add: list_free_def list_partial_def list_full_def cache_node_def)

lemma slab_demo_ok: "cache_ok (slab_demo a) 0x500 [] [0x7000] [] (\<lambda>_. [2])"
  unfolding cache_ok_def demo_heads
  by (simp add: slab_ok_def rooted_def) (simp add: slab_demo_def dlist_def linked_def)

lemma empty_demo_ok: "cache_ok empty_demo 0x500 [] [] [] (\<lambda>_. [2])"
  unfolding cache_ok_def demo_heads
  by (simp add: slab_ok_def rooted_def) (simp add: empty_demo_def slab_demo_def)

lemma demo_get_cache: "get_cache 72 (slab_demo a) = Some 0x500" "get_cache 72 empty_demo = Some 0x500"
    "get_cache 128 (slab_demo a) = Some NULL"
  by (simp_all add: get_cache_def slab_demo_def empty_demo_def get_cache_loop.simps better_fit_def cache_node_def
      SLAB_MAX_SIZE_def)

lemma demo_allocator: "get_allocator (km_pmm (slab_demo a)) = Inr a" "get_allocator (km_pmm empty_demo) = Inr PmmNode"
  by (simp_all add: slab_demo_def empty_demo_def get_allocator_def)

theorem cache_alloc_reuses_witness:
  "\<exists>s'. cache_alloc 0x9000 72 (slab_demo PmmNode) = Inr (0x7190, s') \<and> cache_ok s' 0x500 [] [] [0x7000] ((\<lambda>_. [2])(0x7000 := []))"
  using cache_alloc_reuses [OF demo_allocator(1) demo_get_cache(1) _ slab_demo_ok, of "0x7000" "[]" 2 "[]" "0x9000"]
  by (simp add: object_at_def slab_demo_def)

theorem cache_free_lost_witness: "cache_free 0x500 0x7148 (slab_demo PmmNode) = Inr (slab_demo PmmNode)"
  by (rule cache_free_lost [OF slab_demo_ok]) (simp add: slab_demo_def)

theorem kmalloc_null_witness: "kmalloc 0x600 0x9000 100 (slab_demo BootAllocator) = Inl Null_deref"
proof (rule kmalloc_null [OF demo_allocator(1) _ _ demo_get_cache(3)])
  have "bit_width 99 = 7" by (simp add: bit_width.simps)
  then show "next_pow2l_i386 100 = Some 128" by (simp add: next_pow2l_i386_def clz_def)
qed simp_all

theorem cache_shape_fits_witness: "\<exists>sh. cache_shape 72 = Some sh \<and> sc_slab_size sh = 72 \<and> unat (sc_order sh) = 0"
proof -
  obtain sh d where "cache_shape 72 = Some sh" "sc_slab_size sh = 72" "unat (sc_order sh) = d"
      "d = 0 \<or> 4096 * 2 ^ (d - 1) < (104 :: nat)"
    using cache_shape_fits [of 72] by auto
  moreover have "\<not> 4096 * 2 ^ (d - 1) < (104 :: nat)"
    using one_le_power [of "2 :: nat" "d - 1"] by linarith
  ultimately show ?thesis by (intro exI [of _ sh]) auto
qed

theorem cache_alloc_grows_witness:
  "\<exists>sl s'. cache_alloc 0x9000 72 empty_demo = Inr (104 + sl, s') \<and> cache_ok s' 0x500 [] [sl] [] ((\<lambda>_. [2])(sl := [1, 2]))"
proof -
  have "page_free pmm_example a j" for a j
    by (simp add: page_free_def occupied_def pmm_example_def)
  then have "run_in pmm_example 1 0x1000 0"
    by (simp add: run_in_def free_window_def) (simp add: pmm_example_def)
  then have r: "\<exists>a \<in> set [0x1000]. \<exists>e. run_in pmm_example 1 a e" by auto
  have f: "km_pmm empty_demo = \<lparr>pm_allocator = Some PmmNode, pm_boot = boot_example, pm_node = pmm_example\<rparr>"
      "km_cache empty_demo 0x500 = \<lparr>sc_order = 0, sc_slab_size = 72, sc_slab_objects = 3, sc_colour_next = 1, sc_colour_num = 2\<rparr>"
    by (simp_all add: empty_demo_def slab_demo_def)
  have "\<exists>a \<in> set [0x1000]. \<exists>i < unat (ar_size (narenas (pm_node (km_pmm empty_demo)) a)).
      grown empty_demo 0x9000 0x500
        (ucast (ar_base (narenas (pm_node (km_pmm empty_demo)) a) + of_nat i * 4096 + ucast ARCH_KMALLOC_BASE))"
    by (rule grown_pool) (use r example_pool example_stack in \<open>simp_all add: f\<close>)
  then obtain i where i: "i < 3" "grown empty_demo 0x9000 0x500 (ucast (0x100000 + of_nat i * 4096 + 0xC0000000 :: u64))"
    by (auto simp: f ARCH_KMALLOC_BASE_def) (auto simp: pmm_example_def)
  then consider "i = 0" | "i = 1" | "i = 2" by linarith
  then obtain sl where sl: "grown empty_demo 0x9000 0x500 sl" "sl \<in> {0xC0100000, 0xC0101000, 0xC0102000}"
    using i(2) by cases auto
  have "sl \<notin> set (heads 0x500 @ [])" "sl \<noteq> NULL" using sl(2) by (auto simp: demo_heads)
  from cache_alloc_grows [OF demo_allocator(2) demo_get_cache(2) _ empty_demo_ok sl(1) this, of 2]
  show ?thesis by (intro exI [of _ sl]) (simp add: f upt_conv_Cons sizeof_slab_def)
qed

end
