(* ===== verification/Vga.thy ===== *)
theory Vga
  imports Ports
begin

text \<open>
  The text consoles: \<open>platform/pc/vga.cc\<close> of the kernel and \<open>loader/x86/vga.cc\<close>. The frame buffer is a
  function from the index of a cell, with no end: the loader writes beyond the last row. The cursor of
  the hardware is set through the ports.
\<close>

section \<open>Cells\<close>

datatype vga_color = VGA_COLOR_BLACK | VGA_COLOR_BLUE | VGA_COLOR_GREEN | VGA_COLOR_CYAN | VGA_COLOR_RED
  | VGA_COLOR_MAGENTA | VGA_COLOR_BROWN | VGA_COLOR_LIGHT_GREY | VGA_COLOR_DARK_GREY | VGA_COLOR_LIGHT_BLUE
  | VGA_COLOR_LIGHT_GREEN | VGA_COLOR_LIGHT_CYAN | VGA_COLOR_LIGHT_RED | VGA_COLOR_LIGHT_MAGENTA
  | VGA_COLOR_LIGHT_BROWN | VGA_COLOR_WHITE

primrec color_code :: "vga_color \<Rightarrow> u8" where
  "color_code VGA_COLOR_BLACK = 0"
| "color_code VGA_COLOR_BLUE = 1"
| "color_code VGA_COLOR_GREEN = 2"
| "color_code VGA_COLOR_CYAN = 3"
| "color_code VGA_COLOR_RED = 4"
| "color_code VGA_COLOR_MAGENTA = 5"
| "color_code VGA_COLOR_BROWN = 6"
| "color_code VGA_COLOR_LIGHT_GREY = 7"
| "color_code VGA_COLOR_DARK_GREY = 8"
| "color_code VGA_COLOR_LIGHT_BLUE = 9"
| "color_code VGA_COLOR_LIGHT_GREEN = 10"
| "color_code VGA_COLOR_LIGHT_CYAN = 11"
| "color_code VGA_COLOR_LIGHT_RED = 12"
| "color_code VGA_COLOR_LIGHT_MAGENTA = 13"
| "color_code VGA_COLOR_LIGHT_BROWN = 14"
| "color_code VGA_COLOR_WHITE = 15"

definition VGA_WIDTH :: nat where "VGA_WIDTH = 80"
definition VGA_HEIGHT :: nat where "VGA_HEIGHT = 25"

record vga =
  fg_color :: u8
  bg_color :: u8
  vga_x :: u8
  vga_y :: u8
  frame :: "nat \<Rightarrow> u16"

definition vga_start :: vga where
  "vga_start = \<lparr>fg_color = color_code VGA_COLOR_WHITE, bg_color = color_code VGA_COLOR_BLACK, vga_x = 0, vga_y = 0,
     frame = (\<lambda>_. 0)\<rparr>"

definition vga_entry_color :: "vga \<Rightarrow> u8" where
  "vga_entry_color s = (fg_color s AND 0x0F) OR push_bit 4 (bg_color s)"

definition vga_entry :: "vga \<Rightarrow> u8 \<Rightarrow> u16" where
  "vga_entry s c = ucast c OR push_bit 8 (ucast (vga_entry_color s))"

section \<open>The kernel's console\<close>

text \<open>The cast binds before the shift: the byte sent for the high half of the position is 0.\<close>

definition move_cursor :: "'d bus \<Rightarrow> vga \<Rightarrow> 'd \<Rightarrow> 'd" where
  "move_cursor bus s d =
     (let position = ucast (vga_y s) * of_nat VGA_WIDTH + ucast (vga_x s) :: u16
      in outbs bus [(0x3D4, 0x0F), (0x3D5, ucast position), (0x3D4, 0x0E), (0x3D5, drop_bit 8 (ucast position))] d)"

definition copy_rows :: "(nat \<Rightarrow> u16) \<Rightarrow> nat \<Rightarrow> u16" where
  "copy_rows f = fold (\<lambda>i f. f(i := f (i + VGA_WIDTH))) [0 ..< (VGA_HEIGHT - 1) * VGA_WIDTH] f"

definition fill_cells :: "u16 \<Rightarrow> nat list \<Rightarrow> (nat \<Rightarrow> u16) \<Rightarrow> nat \<Rightarrow> u16" where
  "fill_cells v is f = fold (\<lambda>i f. f(i := v)) is f"

definition last_row :: "nat list" where
  "last_row = [(VGA_HEIGHT - 1) * VGA_WIDTH ..< VGA_HEIGHT * VGA_WIDTH]"

definition vga_scroll :: "vga \<Rightarrow> vga" where
  "vga_scroll s =
     (let blank = vga_entry s 0x20 in
      if unat (vga_y s) \<ge> VGA_HEIGHT
      then s\<lparr>frame := fill_cells blank last_row (copy_rows (frame s)),
             vga_y := of_nat (VGA_HEIGHT - 1), vga_x := 0\<rparr>
      else s)"

text \<open>\<open>clear\<close> takes the entry before it sets the background.\<close>

definition vga_clear :: "'d bus \<Rightarrow> u8 \<Rightarrow> vga \<times> 'd \<Rightarrow> vga \<times> 'd" where
  "vga_clear bus bg = (\<lambda>(s, d).
     let entry = vga_entry s 0x20;
         s = s\<lparr>bg_color := bg, frame := fill_cells entry [0 ..< VGA_WIDTH * VGA_HEIGHT] (frame s), vga_y := 0, vga_x := 0\<rparr>
     in (s, move_cursor bus s d))"

text \<open>The part of \<open>putc\<close> and of the loader's \<open>console_emit\<close> before the end of the line is looked at.\<close>

definition put_cell :: "u8 \<Rightarrow> vga \<Rightarrow> vga" where
  "put_cell c s =
     (if c = 0x08 \<and> vga_x s \<noteq> 0 then s\<lparr>vga_x := vga_x s - 1\<rparr>
      else if c = 0x09 then s\<lparr>vga_x := (vga_x s + 8) AND NOT 7\<rparr>
      else if c = 0x0D then s\<lparr>vga_x := 0\<rparr>
      else if c = 0x0A then s\<lparr>vga_x := 0, vga_y := vga_y s + 1\<rparr>
      else if sint c \<ge> 0x20
      then s\<lparr>frame := (frame s)(unat (vga_y s) * VGA_WIDTH + unat (vga_x s) := vga_entry s c), vga_x := vga_x s + 1\<rparr>
      else s)"

definition end_line :: "vga \<Rightarrow> vga" where
  "end_line s = (if unat (vga_x s) \<ge> VGA_WIDTH then s\<lparr>vga_x := 0, vga_y := vga_y s + 1\<rparr> else s)"

definition vga_putc :: "'d bus \<Rightarrow> u8 \<Rightarrow> vga \<times> 'd \<Rightarrow> vga \<times> 'd" where
  "vga_putc bus c = (\<lambda>(s, d). let s = vga_scroll (end_line (put_cell c s)) in (s, move_cursor bus s d))"

section \<open>The loader's console\<close>

text \<open>The position is a byte.\<close>

definition console_upd :: "'d bus \<Rightarrow> vga \<Rightarrow> 'd \<Rightarrow> 'd" where
  "console_upd bus s d =
     (let position = ucast (ucast (vga_y s) * of_nat VGA_WIDTH + ucast (vga_x s) :: u32) :: u8
      in outbs bus [(0x3D4, 0x0F), (0x3D5, position), (0x3D4, 0x0E), (0x3D5, drop_bit 8 position)] d)"

definition console_emit :: "'d bus \<Rightarrow> u8 \<Rightarrow> vga \<times> 'd \<Rightarrow> vga \<times> 'd" where
  "console_emit bus c = (\<lambda>(s, d). let s = end_line (put_cell c s) in (s, console_upd bus s d))"

definition loader_console_init :: "'d bus \<Rightarrow> vga \<times> 'd \<Rightarrow> vga \<times> 'd" where
  "loader_console_init bus = (\<lambda>(s, d).
     let s = s\<lparr>vga_x := 0, vga_y := 0\<rparr>;
         s = s\<lparr>frame := fill_cells (vga_entry s 0x20)
           (concat (map (\<lambda>y. map (\<lambda>x. y * VGA_WIDTH + x) [0 ..< VGA_WIDTH]) [0 ..< VGA_HEIGHT])) (frame s)\<rparr>
     in (s, outbs bus [(0x3F9, 0x00), (0x3FB, 0x80), (0x3F8, 0x03), (0x3F9, 0x00), (0x3FB, 0x03), (0x3FA, 0xC7),
           (0x3FC, 0x0B)] d))"

text \<open>\<open>console_puts\<close> and \<open>console_log\<close> of a string given by its characters.\<close>

definition loader_console_puts :: "'d bus \<Rightarrow> u8 list \<Rightarrow> vga \<times> 'd \<Rightarrow> vga \<times> 'd" where
  "loader_console_puts bus cs = fold (console_emit bus) cs"

primrec loader_console_log :: "'d bus \<Rightarrow> u8 list \<Rightarrow> 'd \<Rightarrow> 'd option" where
  "loader_console_log bus [] d = Some d"
| "loader_console_log bus (c # cs) d = Option.bind (serial_write bus 0x3F8 c d) (loader_console_log bus cs)"

section \<open>The screen the console shows\<close>

text \<open>
  The abstract terminal: 25 rows of 80 cells and a cursor. A character goes to the cell under the
  cursor; a row that is full, or a line feed, leads to the next row, and below the last row the
  screen moves up by one.
\<close>

record screen =
  rows :: "u16 list list"
  row :: nat
  col :: nat

definition advance :: "u16 \<Rightarrow> screen \<Rightarrow> screen" where
  "advance blank t =
     (let t = (if col t \<ge> 80 then t\<lparr>row := row t + 1, col := 0\<rparr> else t)
      in if row t \<ge> 25 then \<lparr>rows = tl (rows t) @ [replicate 80 blank], row = 24, col = 0\<rparr> else t)"

definition type_cell :: "u8 \<Rightarrow> u16 \<Rightarrow> screen \<Rightarrow> screen" where
  "type_cell c entry t =
     (if c = 0x08 \<and> col t > 0 then t\<lparr>col := col t - 1\<rparr>
      else if c = 0x09 then t\<lparr>col := (col t div 8 + 1) * 8\<rparr>
      else if c = 0x0D then t\<lparr>col := 0\<rparr>
      else if c = 0x0A then t\<lparr>row := row t + 1, col := 0\<rparr>
      else if sint c \<ge> 0x20 then t\<lparr>rows := (rows t)[row t := (rows t ! row t)[col t := entry]], col := col t + 1\<rparr>
      else t)"

definition type_char :: "u16 \<Rightarrow> u8 \<Rightarrow> u16 \<Rightarrow> screen \<Rightarrow> screen" where
  "type_char blank c entry t = advance blank (type_cell c entry t)"

definition screen_of :: "vga \<Rightarrow> screen" where
  "screen_of s = \<lparr>rows = map (\<lambda>r. map (\<lambda>k. frame s (r * 80 + k)) [0 ..< 80]) [0 ..< 25],
     row = unat (vga_y s), col = unat (vga_x s)\<rparr>"

definition on_screen :: "vga \<Rightarrow> bool" where
  "on_screen s \<longleftrightarrow> unat (vga_x s) < 80 \<and> unat (vga_y s) < 25"

section \<open>Lemmas\<close>

lemma fill_cells_apply: "fill_cells v is f i = (if i \<in> set is then v else f i)"
  unfolding fill_cells_def by (induction "is" arbitrary: f) auto

lemma copy_rows_apply: "copy_rows f i = (if i < 1920 then f (i + 80) else f i)"
proof -
  have "fold (\<lambda>i f. f(i := f (i + 80))) [0 ..< n] f i = (if i < n then f (i + 80) else f i)" for n
    by (induction n arbitrary: i) auto
  then show ?thesis by (simp add: copy_rows_def VGA_HEIGHT_def VGA_WIDTH_def)
qed

lemma u8_small: "n < 256 \<Longrightarrow> unat (of_nat n :: u8) = n"
  by (rule unat_of_nat_small) simp

lemma unat_and_not_7: "unat (x AND NOT 7 :: u8) = unat x - unat x mod 8"
proof -
  have eq: "x = (x AND NOT 7) + (x AND 7)"
  proof -
    have "(x AND NOT 7) + (x AND 7) = (x AND NOT 7) OR (x AND 7)"
      by (rule disjunctive_add) (auto simp: bit_simps)
    also have "\<dots> = x" by (rule bit_word_eqI) (auto simp: bit_simps)
    finally show ?thesis by simp
  qed
  have m: "unat (x AND 7) = unat x mod 8"
  proof -
    have "(7 :: u8) = mask 3" by (simp add: mask_eq_exp_minus_1)
    then have "x AND 7 = take_bit 3 x" by (simp add: take_bit_eq_mask)
    then have "unat (x AND 7) = take_bit 3 (unat x)" by (simp only: unsigned_take_bit_eq)
    then show ?thesis by (simp add: take_bit_eq_mod)
  qed
  have "x AND 7 \<le> x" by (simp add: word_le_nat_alt m)
  moreover have "x AND NOT 7 = x - (x AND 7)" using eq by (metis add_diff_cancel_right')
  ultimately show ?thesis by (simp add: unat_sub m)
qed

lemma cell_index: "k < 80 \<Longrightarrow> x < 80 \<Longrightarrow> r * 80 + k = y * 80 + x \<longleftrightarrow> r = y \<and> k = (x :: nat)"
proof -
  assume a: "k < 80" "x < 80"
  have "(r * 80 + k) div 80 = r" "(r * 80 + k) mod 80 = k" "(y * 80 + x) div 80 = y" "(y * 80 + x) mod 80 = x"
    using a by simp_all
  then show ?thesis by metis
qed

lemma screen_rows_upd:
  assumes "y < 25" "x < 80"
  shows "map (\<lambda>r. map (\<lambda>k. (f(y * 80 + x := v)) (r * 80 + k)) [0 ..< 80]) [0 ..< 25] =
    (map (\<lambda>r. map (\<lambda>k. f (r * 80 + k)) [0 ..< 80]) [0 ..< 25])
      [y := (map (\<lambda>r. map (\<lambda>k. f (r * 80 + k)) [0 ..< 80]) [0 ..< 25] ! y)[x := v]]"
proof (rule nth_equalityI)
  fix r assume "r < length (map (\<lambda>r. map (\<lambda>k. (f(y * 80 + x := v)) (r * 80 + k)) [0 ..< 80]) [0 ..< 25])"
  then have r: "r < 25" by simp
  show "map (\<lambda>r. map (\<lambda>k. (f(y * 80 + x := v)) (r * 80 + k)) [0 ..< 80]) [0 ..< 25] ! r =
      (map (\<lambda>r. map (\<lambda>k. f (r * 80 + k)) [0 ..< 80]) [0 ..< 25])
      [y := (map (\<lambda>r. map (\<lambda>k. f (r * 80 + k)) [0 ..< 80]) [0 ..< 25] ! y)[x := v]] ! r"
    using r assms cell_index [of _ x r y] by (intro nth_equalityI) (auto simp: nth_list_update)
qed simp

lemma put_cell_refines:
  assumes "on_screen s"
  shows "screen_of (put_cell c s) = type_cell c (vga_entry s c) (screen_of s)"
    and "unat (vga_y (put_cell c s)) \<le> 25" "unat (vga_x (put_cell c s)) \<le> 80"
    and "unat (vga_x (put_cell c s)) = 80 \<Longrightarrow> unat (vga_y (put_cell c s)) < 25"
    and "fg_color (put_cell c s) = fg_color s" "bg_color (put_cell c s) = bg_color s"
proof -
  have xy: "unat (vga_x s) < 80" "unat (vga_y s) < 25" using assms by (simp_all add: on_screen_def)
  have x0: "vga_x s \<noteq> 0 \<longleftrightarrow> 0 < unat (vga_x s)" by (simp add: unat_gt_0)
  have xm: "unat (vga_x s - 1) = unat (vga_x s) - 1" if "vga_x s \<noteq> 0"
    using that by (simp add: unat_minus_one)
  have xp: "unat (vga_x s + 1) = unat (vga_x s) + 1" "unat (vga_y s + 1) = unat (vga_y s) + 1"
    using xy unat_add_of_nat [of "vga_x s" 1] unat_add_of_nat [of "vga_y s" 1] by simp_all
  have xt: "unat ((vga_x s + 8) AND NOT 7) = (unat (vga_x s) div 8 + 1) * 8"
  proof -
    have "unat (vga_x s + 8) = unat (vga_x s) + 8" using xy unat_add_of_nat [of "vga_x s" 8] by simp
    moreover have "n + 8 - (n + 8) mod 8 = (n div 8 + 1) * 8" for n :: nat
      unfolding minus_mod_eq_div_mult by presburger
    ultimately show ?thesis using unat_and_not_7 [of "vga_x s + 8"] by (simp only:)
  qed
  have "n < 80 \<Longrightarrow> (n div 8 + 1) * 8 \<le> 80" for n :: nat by presburger
  from this [OF xy(1)] show "unat (vga_y (put_cell c s)) \<le> 25" "unat (vga_x (put_cell c s)) \<le> 80"
    "unat (vga_x (put_cell c s)) = 80 \<Longrightarrow> unat (vga_y (put_cell c s)) < 25"
    "fg_color (put_cell c s) = fg_color s" "bg_color (put_cell c s) = bg_color s"
    using xy by (auto simp: put_cell_def xp xm xt [simplified])
  show "screen_of (put_cell c s) = type_cell c (vga_entry s c) (screen_of s)"
    unfolding put_cell_def type_cell_def screen_of_def
    by (simp add: x0 xp xm xt [simplified] screen_rows_upd [OF xy(2,1)] VGA_WIDTH_def del: fun_upd_apply)
qed

lemma dims: "VGA_HEIGHT \<le> n \<longleftrightarrow> 25 \<le> n" "VGA_WIDTH \<le> n \<longleftrightarrow> 80 \<le> n" "(of_nat (VGA_HEIGHT - Suc 0) :: u8) = 24"
  by (simp_all add: VGA_HEIGHT_def VGA_WIDTH_def)

lemma last_row_cell: "fill_cells v last_row f i = (if 1920 \<le> i \<and> i < 2000 then v else f i)"
  unfolding fill_cells_apply last_row_def set_upt by (simp add: VGA_HEIGHT_def VGA_WIDTH_def)

lemma scroll_rows:
  "map (\<lambda>r. map (\<lambda>k. fill_cells v last_row (copy_rows f) (r * 80 + k)) [0 ..< 80]) [0 ..< 25] =
    tl (map (\<lambda>r. map (\<lambda>k. f (r * 80 + k)) [0 ..< 80]) [0 ..< 25]) @ [replicate 80 v]"
proof (rule nth_equalityI)
  fix r assume "r < length (map (\<lambda>r. map (\<lambda>k. fill_cells v last_row (copy_rows f) (r * 80 + k)) [0 ..< 80]) [0 ..< 25])"
  then have r: "r < 25" by simp
  show "map (\<lambda>r. map (\<lambda>k. fill_cells v last_row (copy_rows f) (r * 80 + k)) [0 ..< 80]) [0 ..< 25] ! r =
      (tl (map (\<lambda>r. map (\<lambda>k. f (r * 80 + k)) [0 ..< 80]) [0 ..< 25]) @ [replicate 80 v]) ! r"
  proof (cases "r = 24")
    case True
    then show ?thesis by (intro nth_equalityI) (auto simp: last_row_cell nth_append)
  next
    case False
    then have r': "r < 24" using r by simp
    have "fill_cells v last_row (copy_rows f) (r * 80 + k) = f (Suc r * 80 + k)" if "k < 80" for k
    proof -
      have "r * 80 + k < 1920" using r' that by linarith
      then show ?thesis by (simp add: last_row_cell copy_rows_apply algebra_simps)
    qed
    then show ?thesis using r' by (intro nth_equalityI) (auto simp: nth_append nth_tl)
  qed
qed simp

lemma advance_refines:
  assumes "unat (vga_y s) \<le> 25" "unat (vga_x s) \<le> 80" "unat (vga_x s) = 80 \<Longrightarrow> unat (vga_y s) < 25"
  shows "screen_of (vga_scroll (end_line s)) = advance (vga_entry s 0x20) (screen_of s)"
    and "on_screen (vga_scroll (end_line s))"
    and "fg_color (vga_scroll (end_line s)) = fg_color s" "bg_color (vga_scroll (end_line s)) = bg_color s"
proof -
  have yp: "unat (vga_y s + 1) = unat (vga_y s) + 1"
    using assms(1) unat_add_of_nat [of "vga_y s" 1] by simp
  have e: "vga_entry (s\<lparr>vga_x := a, vga_y := b\<rparr>) k = vga_entry s k" for a b k
    by (simp add: vga_entry_def vga_entry_color_def)
  show "screen_of (vga_scroll (end_line s)) = advance (vga_entry s 0x20) (screen_of s)"
    unfolding vga_scroll_def end_line_def advance_def screen_of_def
    by (simp add: yp dims scroll_rows Let_def e del: upt_Suc)
  show "on_screen (vga_scroll (end_line s))"
    using assms by (auto simp: vga_scroll_def end_line_def on_screen_def yp dims Let_def not_le)
  show "fg_color (vga_scroll (end_line s)) = fg_color s" "bg_color (vga_scroll (end_line s)) = bg_color s"
    by (simp_all add: vga_scroll_def end_line_def Let_def)
qed

section \<open>Properties\<close>

text \<open>C32. With the cursor on the screen \<open>putc\<close> does to the cells and the cursor what the abstract terminal
  does, in the current colours, and leaves the cursor on the screen.\<close>

theorem vga_putc_refines:
  assumes "on_screen s"
  shows "\<exists>s'. vga_putc bus c (s, d) = (s', move_cursor bus s' d) \<and> on_screen s'
    \<and> screen_of s' = type_char (vga_entry s 0x20) c (vga_entry s c) (screen_of s)
    \<and> vga_entry_color s' = vga_entry_color s"
proof -
  let ?s = "put_cell c s"
  note p = put_cell_refines [OF assms, of c]
  note a = advance_refines [OF p(2-4)]
  have "vga_entry ?s k = vga_entry s k" for k using p(5,6) by (simp add: vga_entry_def vga_entry_color_def)
  then show ?thesis
    using p a by (auto simp: vga_putc_def Let_def type_char_def vga_entry_color_def)
qed

text \<open>The loader's console has no last row: after a line feed on row 24 the next printable character is
  written behind the 2000 cells of the screen.\<close>

theorem console_emit_overflow:
  assumes "vga_y s = 24" "sint c \<ge> 0x20"
  shows "frame (fst (console_emit bus c (console_emit bus 0x0A (s, d)))) 2000 = vga_entry s c"
proof -
  have "c \<noteq> 0x08" "c \<noteq> 0x09" "c \<noteq> 0x0A" "c \<noteq> 0x0D" using assms(2) by auto
  then show ?thesis
    using assms by (simp add: console_emit_def put_cell_def end_line_def Let_def VGA_WIDTH_def vga_entry_def vga_entry_color_def)
qed

text \<open>The position of the hardware cursor: the high byte is always written as 0.\<close>

lemma move_cursor_log:
  "move_cursor log_bus s [] = [(0x3D4, 0x0F), (0x3D5, ucast (ucast (vga_y s) * of_nat VGA_WIDTH + ucast (vga_x s) :: u16)),
     (0x3D4, 0x0E), (0x3D5, 0)]"
proof -
  have "drop_bit 8 (w :: u8) = 0" for w by (rule bit_word_eqI) (simp add: bit_simps)
  then show ?thesis by (simp add: move_cursor_def Let_def outbs_log)
qed

section \<open>Witnesses\<close>

theorem vga_putc_refines_witness:
  "\<exists>s'. vga_putc log_bus 0x41 (vga_start, []) = (s', move_cursor log_bus s' []) \<and> rows (screen_of s') ! 0 ! 0 = 0x0F41"
proof -
  have o: "on_screen vga_start" by (simp add: on_screen_def vga_start_def)
  obtain s' where "vga_putc log_bus 0x41 (vga_start, []) = (s', move_cursor log_bus s' [])"
      "screen_of s' = type_char (vga_entry vga_start 0x20) 0x41 (vga_entry vga_start 0x41) (screen_of vga_start)"
    using vga_putc_refines [OF o, of log_bus "0x41" "[]"] by blast
  moreover have "vga_entry vga_start 0x41 = 0x0F41" by (simp add: vga_entry_def vga_entry_color_def vga_start_def)
  moreover have "rows (type_char b 0x41 e (screen_of vga_start)) ! 0 ! 0 = e" for b e
    by (simp add: type_char_def type_cell_def advance_def screen_of_def Let_def) (simp add: vga_start_def)
  ultimately show ?thesis by auto
qed

theorem console_emit_overflow_witness:
  "frame (fst (console_emit log_bus 0x41 (console_emit log_bus 0x0A (vga_start\<lparr>vga_y := 24\<rparr>, [])))) 2000 = 0x0F41"
proof -
  have "vga_entry (vga_start\<lparr>vga_y := 24\<rparr>) 0x41 = 0x0F41" by (simp add: vga_entry_def vga_entry_color_def vga_start_def)
  then show ?thesis using console_emit_overflow [of "vga_start\<lparr>vga_y := 24\<rparr>" "0x41" log_bus "[]"] by simp
qed

end
