(* ===== verification/KernelStart.thy ===== *)
theory KernelStart
  imports OwnData Loader Interrupts Slab Vga
begin

text \<open>
  The kernel's start: \<open>kernel_main\<close> (\<open>core/kernel.cc\<close>) up to the point where the kernel's allocators are in place,
  with \<open>early_init\<close> and \<open>init\<close> of the architecture (\<open>arch/x86/32/init.cc\<close>) and of the platform
  (\<open>platform/pc/platform.cc\<close>).
\<close>

section \<open>State\<close>

text \<open>
  The kernel writes its static objects through the page tables, at the addresses of the linker: the copy of the
  multiboot structure, the descriptor tables, the table of handlers and the page descriptors. Messages are left out.
  What else it writes meanwhile, on its stack and to its other variables (the constructors, the copy of the loader's
  structure, the links of the lists, the words of the bitmap, the cells of the screen), is given as a list of byte
  writes for each stage, whose addresses and values are arbitrary; the model also keeps the contents of these objects
  in records of their own.
\<close>

record loader_args =
  la_magic :: u32
  la_bitmap :: bitmap
  la_ctx :: elf_context
  la_pps_start :: u32
  la_obj :: addr

record kernel_symbols =
  y_gdt :: gdt_symbols
  y_idt :: idt_symbols
  y_isr_stub_table :: addr
  y_handlers :: addr
  y_exception_handler :: addr
  y_mbt :: addr
  y_kmap :: addr
  y_page :: addr       \<comment> \<open>the buffer of \<open>map\<close> on the stack\<close>

record 'd kernel_state =
  ks_machine :: "pmm machine"
  ks_regs :: table_regs
  ks_devices :: 'd
  ks_screen :: vga
  ks_mbt :: multiboot_info
  ks_ctx :: elf_context
  ks_max_mem :: phys_t
  ks_kmem :: kmem

section \<open>The console of the platform\<close>

definition ConsoleImpl_log :: "'d bus \<Rightarrow> u8 \<Rightarrow> 'd \<Rightarrow> 'd option" where
  "ConsoleImpl_log bus c d = serial_write bus COM1 c d"

definition ConsoleImpl_putc :: "'d bus \<Rightarrow> u8 \<Rightarrow> vga \<times> 'd \<Rightarrow> vga \<times> 'd" where
  "ConsoleImpl_putc bus c = vga_putc bus c"

definition ConsoleImpl_clear :: "'d bus \<Rightarrow> vga \<times> 'd \<Rightarrow> vga \<times> 'd" where
  "ConsoleImpl_clear bus = vga_clear bus 0"

definition ConsoleImpl_getc :: u8 where "ConsoleImpl_getc = 0"

section \<open>Architecture\<close>

definition enough_step :: "addr \<Rightarrow> unit \<times> 'f machine \<Rightarrow> kerror + (bool \<times> unit \<times> 'f machine)" where
  "enough_step mp = (\<lambda>(u, s).
     if \<not> readable s mp 24 then Inl Page_fault
     else if \<not> enough_memory (ld_mmap (view s) mp) then Inl Panicked
     else Inr (False, u, s))"

text \<open>The bytes of the descriptor tables with their pointers and the task state segment, and of the table of handlers.\<close>

definition static_tables :: "kernel_symbols \<Rightarrow> addr list" where
  "static_tables y = region (gdt_entries (y_gdt y)) 48 @ region (gdt_ptr (y_gdt y)) 6 @ region (tss_entry (y_gdt y)) 104
     @ region (idt_entries (y_idt y)) 2048 @ region (idt_ptr (y_idt y)) 6"

definition handler_table :: "kernel_symbols \<Rightarrow> addr list" where
  "handler_table y = region (y_handlers y) 1020"

definition x86_early_init :: "kernel_symbols \<Rightarrow> loader_args \<Rightarrow> 'd kernel_state \<Rightarrow> kerror + 'd kernel_state" where
  "x86_early_init y args s =
     bind_res (vmemcpy (y_mbt y) (la_obj args) 120 (ks_machine s)) (\<lambda>m.
       let mbt = ld_multiboot_info (view m) (y_mbt y) in
       if \<not> multiboot_ok (la_magic args) mbt then Inl Panicked
       else bind_res (run_entries enough_step mbt ((), m)) (\<lambda>(u, m).
         if \<not> readable m (y_isr_stub_table y) 1024 then Inl Page_fault
         else case gdt_init (y_gdt y) (view m, ks_regs s) of (d, r) \<Rightarrow>
         case idt_init (y_idt y) (d, r) of (d, r) \<Rightarrow>
         bind_res (write_back (static_tables y) (set_stubs (idt_entries (y_idt y)) (y_isr_stub_table y) 256 d) m) (\<lambda>m.
           Inr (s\<lparr>ks_machine := m, ks_mbt := mbt, ks_ctx := la_ctx args, ks_regs := r\<rparr>))))"

text \<open>\<open>init_mmu\<close> only prints.\<close>

definition x86_init :: "kernel_symbols \<Rightarrow> 'd kernel_state \<Rightarrow> kerror + 'd kernel_state" where
  "x86_init y s =
     bind_res (write_back (handler_table y)
         (install_exceptions (y_handlers y) (y_exception_handler y) 32 (view (ks_machine s))) (ks_machine s)) (\<lambda>m.
       Inr (s\<lparr>ks_machine := m\<rparr>))"

text \<open>The interface of \<open>arch\<close> (\<open>arch/x86/init.cc\<close>) for the 32-bit build.\<close>

definition arch_early_init :: "kernel_symbols \<Rightarrow> loader_args \<Rightarrow> 'd kernel_state \<Rightarrow> kerror + 'd kernel_state" where
  "arch_early_init = x86_early_init"

definition arch_init :: "kernel_symbols \<Rightarrow> 'd kernel_state \<Rightarrow> kerror + 'd kernel_state" where
  "arch_init = x86_init"

section \<open>Memory\<close>

definition set_frames :: "'f \<Rightarrow> 'f machine \<Rightarrow> 'f machine" where
  "set_frames f m = m\<lparr>frames := f\<rparr>"

text \<open>
  The boot allocator keeps the pointer to the loader's bitmap, so \<open>meminit\<close> passes on the bitmap with the pages
  the boot allocator gave away.
\<close>

definition add_kmap :: "addr \<Rightarrow> addr \<Rightarrow> phys_t \<Rightarrow> pmm \<Rightarrow> kerror + pmm" where
  "add_kmap kmap pps max_pa f =
     (let n = pm_node f;
          n = upd_arena kmap (\<lambda>ar. ar\<lparr>ar_base := 0, ar_size := ucast (max_pa div ARCH_PAGE_SIZE), ar_pages := pps\<rparr>) n
      in pmm_add_arena kmap (Some (alloc_map (pm_boot f))) (f\<lparr>pm_node := n\<rparr>))"

text \<open>The page descriptors are cleared where the loader mapped them.\<close>

definition descriptor_bytes :: "phys_t \<Rightarrow> nat" where
  "descriptor_bytes max_pa = unat (ucast (max_pa div ARCH_PAGE_SIZE) * sizeof_page)"

definition meminit :: "addr \<Rightarrow> addr \<Rightarrow> phys_t \<Rightarrow> pmm machine \<Rightarrow> kerror + pmm machine" where
  "meminit kmap pps max_pa m =
     bind_res (vmemset pps 0 (descriptor_bytes max_pa) m) (\<lambda>m.
     bind_res (add_kmap kmap pps max_pa (frames m)) (\<lambda>f. Inr (set_frames f m)))"

section \<open>kernel_main\<close>

text \<open>\<open>w k\<close> are the other writes of stage \<open>k\<close>, made at its end: no stage reads what they write.\<close>

definition kernel_main :: "'d bus \<Rightarrow> bool \<Rightarrow> kernel_symbols \<Rightarrow> loader_args \<Rightarrow> (nat \<Rightarrow> (addr \<times> u8) list)
    \<Rightarrow> 'd kernel_state \<Rightarrow> kerror + 'd kernel_state" where
  "kernel_main bus pae y args w s =
     (case ConsoleImpl_clear bus (ks_screen s, ks_devices s) of (screen, d) \<Rightarrow>
      let s = s\<lparr>ks_screen := screen, ks_devices := d\<rparr> in
      bind_res (pmm_add_arena NULL (Some (la_bitmap args)) (set_allocator (Some BootAllocator) (frames (ks_machine s)))) (\<lambda>f.
      bind_res (own_writes (w 0) (set_frames f (ks_machine s))) (\<lambda>m.
      bind_res (arch_early_init y args (s\<lparr>ks_machine := m\<rparr>)) (\<lambda>s.
      case platform_early_init bus (y_handlers y) (view (ks_machine s), ks_devices s) of (data, d) \<Rightarrow>
      bind_res (write_back (handler_table y) data (ks_machine s)) (\<lambda>m.
      bind_res (own_writes (w 1) m) (\<lambda>m.
      bind_res (arch_init y (s\<lparr>ks_machine := m, ks_devices := d\<rparr>)) (\<lambda>s.
      bind_res (platform_init (y_page y) pae (ks_mbt s) (ks_max_mem s, ks_machine s)) (\<lambda>(max_mem, max_pa, m).
      bind_res (own_writes (w 2) (set_frames (set_allocator (Some PmmNode) (frames m)) m)) (\<lambda>m.
      bind_res (meminit (y_kmap y) (la_pps_start args) max_pa m) (\<lambda>m.
      bind_res (kmem_init ((ks_kmem s)\<lparr>km_pmm := frames m\<rparr>)) (\<lambda>k.
      bind_res (own_writes (w 3) m) (\<lambda>m.
        Inr (s\<lparr>ks_machine := m, ks_max_mem := max_mem, ks_kmem := k\<rparr>)))))))))))))"

section \<open>Taking over from the loader\<close>

text \<open>The pages of a bitmap in use, and a bitmap the boot allocator can work with, with \<open>n\<close> free pages.\<close>

definition bitmap_page :: "bitmap \<Rightarrow> u32 \<Rightarrow> bool" where
  "bitmap_page b e \<longleftrightarrow> bm_bit (bm_words b) (page_no e)"

definition bitmap_ok :: "nat \<Rightarrow> bitmap \<Rightarrow> bool" where
  "bitmap_ok n b \<longleftrightarrow> boot_inv \<lparr>alloc_map = b, ba_ptr = 0\<rparr> \<and> unat (bm_bit_count b) \<le> 2 ^ 20
     \<and> n \<le> card {k. k < unat (bm_bit_count b) \<and> \<not> bm_bit (bm_words b) k}"

lemma boot_in_use_bitmap: "boot_in_use f = bitmap_page (alloc_map (pm_boot f))"
  by (simp add: fun_eq_iff boot_in_use_def bitmap_page_def boot_used_def)

lemma boot_takes_over:
  assumes ok: "bitmap_ok (Suc n) b"
  shows "\<exists>f'. pmm_add_arena NULL (Some b) (set_allocator (Some BootAllocator) f) = Inr f'
    \<and> boot_ready (Suc n) f' \<and> pm_node f' = pm_node f \<and> alloc_map (pm_boot f') = b"
proof -
  let ?a = "(pm_boot f)\<lparr>alloc_map := b\<rparr>"
  have inv: "boot_inv ?a" using ok by (simp add: bitmap_ok_def boot_inv_def)
  have c: "Suc n \<le> card {k. k < unat (bm_bit_count b) \<and> \<not> bm_bit (bm_words b) k}" using ok by (simp add: bitmap_ok_def)
  from inv obtain k where k: "BootAllocator_update_all ?a = Inr (?a\<lparr>ba_ptr := of_nat k\<rparr>)"
  proof (cases rule: BootAllocator_update_all_cases)
    case full
    have "bm_bit (bm_words b) k" if "k < unat (bm_bit_count b)" for k
      using full(1) that inv by (auto simp: boot_inv_def boot_used_def)
    then have "{k. k < unat (bm_bit_count b) \<and> \<not> bm_bit (bm_words b) k} = {}" by auto
    with c show thesis by simp
  qed (use that in blast)
  let ?f = "f\<lparr>pm_allocator := Some BootAllocator, pm_boot := ?a\<lparr>ba_ptr := of_nat k\<rparr>\<rparr>"
  have "pmm_add_arena NULL (Some b) (set_allocator (Some BootAllocator) f) = Inr ?f"
    using k by (simp add: pmm_add_arena_def set_allocator_def get_allocator_def BootAllocator_add_arena_def)
  moreover have "boot_managed (pm_boot ?f) - boot_used (pm_boot ?f) = {k. k < unat (bm_bit_count b) \<and> \<not> bm_bit (bm_words b) k}"
    by (auto simp: boot_managed_def boot_used_def)
  moreover have "boot_inv (pm_boot ?f)" "unat (bm_bit_count b) \<le> 2 ^ 20"
    using ok by (simp_all add: bitmap_ok_def boot_inv_def)
  ultimately show ?thesis using c by (intro exI [of _ ?f]) (simp add: boot_ready_def)
qed

text \<open>Other frames, the same machine.\<close>

lemma set_frames_simps [simp]:
  "frames (set_frames f m) = f" "memory (set_frames f m) = memory m" "cr0 (set_frames f m) = cr0 m"
  "translate (set_frames f m) = translate m" "view (set_frames f m) = view m" "readable (set_frames f m) = readable m"
  "table_frame (set_frames f m) = table_frame m"
  by (simp_all add: set_frames_def fun_eq_iff translate_def view_def readable_def table_frame_def split: option.split)

lemma set_frames_inv:
  assumes "used f = used' (frames m)"
  shows "paging_inv used (set_frames f m) = paging_inv used' m"
    "data_page used (set_frames f m) = data_page used' m"
    "kept used (set_frames f m) = kept used' m"
proof -
  show "paging_inv used (set_frames f m) = paging_inv used' m"
    using assms by (simp add: paging_inv_def machine_ok_def set_frames_def)
  show d: "data_page used (set_frames f m) = data_page used' m"
    using assms by (simp add: fun_eq_iff data_page_def)
  show "kept used (set_frames f m) = kept used' m"
    by (simp add: fun_eq_iff kept_def d)
qed

lemma set_frames_own:
  assumes "used f = used' (frames m)"
  shows "own_ok used (set_frames f m) = own_ok used' m" "own_bytes (set_frames f m) = own_bytes m"
  by (simp_all add: fun_eq_iff own_ok_def own_bytes_def set_frames_inv [where used = used and used' = used', OF assms])

lemma set_frames_entries:
  assumes "used f = used' (frames m)"
  shows "entries_at used (set_frames f m) a es e = entries_at used' m a es e"
  by (induction es arbitrary: a) (simp_all add: set_frames_inv [where used = used and used' = used', OF assms])

section \<open>The stages\<close>

lemma run_enough:
  assumes at: "entries_at boot_in_use s a es e" and inv: "paging_inv boot_in_use s" and ok: "list_all enough_memory es"
  shows "foreach_entry enough_step a e ((), s) = Some (Inr ((), s))"
  using at ok
proof (induction es arbitrary: a)
  case Nil
  then show ?case by (subst foreach_entry.simps) simp
next
  case (Cons x xs)
  then have k: "\<forall>k < 24. kept boot_in_use s (a + of_nat k)" and x: "x = ld_mmap (view s) a" and lt: "a < e"
    and at: "entries_at boot_in_use s (a + mm_size x + 4) xs e" and ok: "list_all enough_memory xs" "enough_memory x"
    unfolding entries_at.simps list.pred_inject by blast+
  note v = entry_kept [OF maps_none [OF inv] le0 k]
  have "enough_step a ((), s) = Inr (False, (), s)" using ok(2) by (simp add: enough_step_def v(1) x [symmetric])
  with lt Cons.IH [OF at ok(1)] show ?case by (subst foreach_entry.simps) (simp add: v(2,4) x [symmetric])
qed

lemma add_kmap_result:
  assumes c: "pm_allocator f = Some PmmNode" and p: "pool (pm_node f) [] F"
    and t: "t = upd_arena kmap (\<lambda>ar. ar\<lparr>ar_base := 0, ar_size := ucast (mx div ARCH_PAGE_SIZE), ar_pages := pps\<rparr>) (pm_node f)"
    and l: "layout t [kmap]"
  shows "\<exists>f'. add_kmap kmap pps mx f = Inr f' \<and> pm_allocator f' = Some PmmNode \<and> pm_boot f' = pm_boot f
    \<and> pool (pm_node f') [kmap] (F(kmap := map (\<lambda>i. pps + of_nat i * sizeof_page)
        (filter (\<lambda>i. i \<notin> boot_used (pm_boot f)) [0 ..< unat (ucast (mx div ARCH_PAGE_SIZE) :: u32)])))"
proof -
  have "layout t []"
    using l by (auto simp: layout_def footprint_def)
  then have "pool t [] F" using p by (simp add: pool_def t upd_arena_def)
  moreover have ix: "page_ix (narenas t kmap) = (\<lambda>i. page_at (narenas t kmap) (of_nat i))"
    by (simp add: fun_eq_iff page_ix_def)
  ultimately obtain s' where s': "PmmNode_add_arena kmap (Some (alloc_map (pm_boot f))) t = Inr s'"
      "pool s' (arena_order t kmap []) (F(kmap := map (\<lambda>i. page_at (narenas t kmap) (of_nat i))
         (free_indices (narenas t kmap) (Some (alloc_map (pm_boot f))))))"
    using add_arena_result [of t "[]" F kmap "Some (alloc_map (pm_boot f))", unfolded ix] l by blast
  have ar: "narenas t kmap = (narenas (pm_node f) kmap)\<lparr>ar_base := 0, ar_size := ucast (mx div ARCH_PAGE_SIZE), ar_pages := pps\<rparr>"
    by (simp add: t upd_arena_def)
  have "free_indices (narenas t kmap) (Some (alloc_map (pm_boot f))) =
      filter (\<lambda>i. i \<notin> boot_used (pm_boot f)) [0 ..< unat (ucast (mx div ARCH_PAGE_SIZE) :: u32)]"
    by (simp add: free_indices_def ar boot_used_def)
  moreover have "(\<lambda>i. page_at (narenas t kmap) (of_nat i)) = (\<lambda>i. pps + of_nat i * sizeof_page)"
    by (simp add: fun_eq_iff page_at_def ar)
  moreover have "arena_order t kmap [] = [kmap]" by (simp add: arena_order_def)
  ultimately show ?thesis
    using s' c by (intro exI [of _ "f\<lparr>pm_node := s'\<rparr>"])
      (simp add: add_kmap_def Let_def t [symmetric] pmm_add_arena_def get_allocator_def)
qed

lemma kmem_init_result:
  assumes "root_cache k \<noteq> NULL" "unat (root_cache k) + 72 < 2 ^ 32"
  shows "\<exists>k'. kmem_init k = Inr k' \<and> km_pmm k' = km_pmm k"
proof -
  let ?c = "root_cache k"
  have "?c + of_nat j \<noteq> NULL" if "j < 72" for j
  proof -
    have "unat (?c + of_nat j) = unat ?c + j" using assms(2) that by (intro unat_add_of_nat) simp
    moreover have "unat ?c \<noteq> 0" using assms(1) by (simp add: unat_eq_0)
    ultimately show ?thesis by (metis add_is_0 unat_0)
  qed
  from this [of 0] this [of 8] this [of 16] this [of 64]
  have nz: "list_free ?c \<noteq> NULL" "list_partial ?c \<noteq> NULL" "list_full ?c \<noteq> NULL" "cache_node ?c \<noteq> NULL"
    by (simp_all add: list_free_def list_partial_def list_full_def cache_node_def)
  have up: "\<exists>h. upd_heap (INIT_LLIST p) s = Inr (s\<lparr>km_heap := h\<rparr>)" if "p \<noteq> NULL" for p s
    using init_dlist [OF that, of "km_heap s"] by (auto simp: upd_heap_def)
  obtain sh where "cache_shape sizeof_slabcache = Some sh"
    using cache_shape_result [of sizeof_slabcache] by (auto simp: sizeof_slabcache_def)
  with up [OF nz(1), of k] obtain h1 where h1: "upd_heap (INIT_LLIST (list_free ?c)) k = Inr (k\<lparr>km_heap := h1\<rparr>)" by blast
  obtain h2 where h2: "upd_heap (INIT_LLIST (list_full ?c)) (k\<lparr>km_heap := h1\<rparr>) = Inr (k\<lparr>km_heap := h2\<rparr>)"
    using up [OF nz(3), of "k\<lparr>km_heap := h1\<rparr>"] by auto
  obtain h3 where h3: "upd_heap (INIT_LLIST (list_partial ?c)) (k\<lparr>km_heap := h2\<rparr>) = Inr (k\<lparr>km_heap := h3\<rparr>)"
    using up [OF nz(2), of "k\<lparr>km_heap := h2\<rparr>"] by auto
  obtain h4 where h4: "upd_heap (INIT_LLIST (cache_node ?c)) (k\<lparr>km_heap := h3\<rparr>) = Inr (k\<lparr>km_heap := h4\<rparr>)"
    using up [OF nz(4), of "k\<lparr>km_heap := h3\<rparr>"] by auto
  show ?thesis
    using h1 h2 h3 h4 \<open>cache_shape sizeof_slabcache = Some sh\<close>
    by (simp add: kmem_init_def init_cache_def upd_cache_def)
qed

section \<open>The whole start\<close>

text \<open>
  The addresses \<open>kernel_main\<close> writes besides the page tables: the static objects of the model, the page descriptors
  below the physical address \<open>mx\<close>, and what the other writes reach.
\<close>

definition static_data :: "kernel_symbols \<Rightarrow> addr set" where
  "static_data y = set (static_tables y) \<union> set (handler_table y) \<union> set (region (y_mbt y) 120)"

definition other_data :: "loader_args \<Rightarrow> (nat \<Rightarrow> (addr \<times> u8) list) \<Rightarrow> phys_t \<Rightarrow> addr set" where
  "other_data args w mx = set (region (la_pps_start args) (descriptor_bytes mx)) \<union> (\<Union>k. fst ` set (w k))"

definition own_data :: "bool \<Rightarrow> kernel_symbols \<Rightarrow> loader_args \<Rightarrow> (nat \<Rightarrow> (addr \<times> u8) list) \<Rightarrow> mmap_entry list \<Rightarrow> addr set" where
  "own_data pae y args w es = static_data y \<union> other_data args w (top_of (strip_frames pae es))"

text \<open>
  What \<open>kernel_main\<close> needs of the loader and of the boot loader. The own data are mapped apart from each other and
  from the structures of the boot loader.
\<close>

definition boot_info :: "loader_args \<Rightarrow> 'd kernel_state \<Rightarrow> multiboot_info" where
  "boot_info args s = ld_multiboot_info (view (ks_machine s)) (la_obj args)"

definition start_ok :: "bool \<Rightarrow> kernel_symbols \<Rightarrow> loader_args \<Rightarrow> (nat \<Rightarrow> (addr \<times> u8) list) \<Rightarrow> mmap_entry list
    \<Rightarrow> 'd kernel_state \<Rightarrow> bool" where
  "start_ok pae y args w es s \<longleftrightarrow>
     paging_inv (\<lambda>_. bitmap_page (la_bitmap args)) (ks_machine s)
     \<and> bitmap_ok (Suc (tables_for (length (strip_frames pae es)))) (la_bitmap args)
     \<and> own_ok (\<lambda>_. bitmap_page (la_bitmap args)) (ks_machine s) (own_data pae y args w es)
     \<and> static_data y \<inter> other_data args w (top_of (strip_frames pae es)) = {}
     \<and> (\<forall>k < 120. \<exists>p. translate (ks_machine s) False (la_obj args + of_nat k) = Some p
          \<and> p \<notin> own_bytes (ks_machine s) (own_data pae y args w es))
     \<and> multiboot_ok (la_magic args) (boot_info args s)
     \<and> entries_at (foreign (\<lambda>_. bitmap_page (la_bitmap args)) (frame_of ` own_bytes (ks_machine s) (own_data pae y args w es)))
          (ks_machine s) (mb_mmap_addr (boot_info args s)) es
          (mb_mmap_addr (boot_info args s) + mb_mmap_length (boot_info args s))
     \<and> list_all enough_memory es
     \<and> readable (ks_machine s) (y_isr_stub_table y) 1024
     \<and> pool (pm_node (frames (ks_machine s))) [] (\<lambda>_. [])
     \<and> layout (upd_arena (y_kmap y) (\<lambda>ar. ar\<lparr>ar_base := 0, ar_size := ucast (top_of (strip_frames pae es) div ARCH_PAGE_SIZE),
            ar_pages := la_pps_start args\<rparr>) (pm_node (frames (ks_machine s)))) [y_kmap y]
     \<and> root_cache (ks_kmem s) \<noteq> NULL \<and> unat (root_cache (ks_kmem s)) + 72 < 2 ^ 32"

text \<open>What is left when it is done: \<open>b\<close> is the bitmap with the page tables of the strip.\<close>

definition free_pages :: "bitmap \<Rightarrow> u64 \<Rightarrow> nat list" where
  "free_pages b mx = filter (\<lambda>i. \<not> bm_bit (bm_words b) i) [0 ..< unat (ucast (mx div ARCH_PAGE_SIZE) :: u32)]"

lemma ld_multiboot_info_cong:
  assumes "\<And>k. k < 120 \<Longrightarrow> m' (b + of_nat k) = m (a + of_nat k)"
  shows "ld_multiboot_info m' b = ld_multiboot_info m a"
proof -
  have l: "ld32 m' (b + of_nat j) = ld32 m (a + of_nat j)" if "j + 4 \<le> 120" for j
  proof -
    have "m' (b + of_nat j + of_nat k) = m (a + of_nat j + of_nat k)" if "k < 4" for k
      using assms [of "j + k"] that \<open>j + 4 \<le> 120\<close> by (simp add: add.assoc)
    from this [of 0] this [of 1] this [of 2] this [of 3] show ?thesis by (simp add: ld32_def)
  qed
  have h: "ld16 m' (b + of_nat j) = ld16 m (a + of_nat j)" if "j + 2 \<le> 120" for j
    using assms [of j] assms [of "Suc j"] that by (simp add: ld16_def ac_simps)
  have d: "ld64 m' (b + 88) = ld64 m (a + 88)" using l [of 88] l [of 92] by (simp add: ld64_def ac_simps)
  have c: "map (\<lambda>i. m' (b + 112 + of_nat i)) [0 ..< 6] = map (\<lambda>i. m (a + 112 + of_nat i)) [0 ..< 6]"
  proof (rule map_cong [OF refl])
    fix i assume "i \<in> set [0 ..< 6]"
    then show "m' (b + 112 + of_nat i) = m (a + 112 + of_nat i)" using assms [of "112 + i"] by (simp add: add.assoc)
  qed
  show ?thesis
    unfolding ld_multiboot_info_def c
    using l [of 0] l [of 4] l [of 8] l [of 12] l [of 16] l [of 20] l [of 24] l [of 28] l [of 32] l [of 36] l [of 40]
      l [of 44] l [of 48] l [of 52] l [of 56] l [of 60] l [of 64] l [of 68] l [of 72] l [of 76] l [of 96] l [of 100]
      l [of 104] h [of 80] h [of 82] h [of 84] h [of 86] d assms [of 108] assms [of 109]
    by simp
qed

lemma x86_early_init_result:
  assumes inv: "paging_inv boot_in_use (ks_machine s)" and own: "own_ok boot_in_use (ks_machine s) V"
    and V: "static_data y \<subseteq> V"
    and obj: "\<And>k. k < 120 \<Longrightarrow> \<exists>p. translate (ks_machine s) False (la_obj args + of_nat k) = Some p \<and> p \<notin> own_bytes (ks_machine s) V"
    and mb: "multiboot_ok (la_magic args) (boot_info args s)"
    and at: "entries_at (foreign boot_in_use (frame_of ` own_bytes (ks_machine s) V)) (ks_machine s)
      (mb_mmap_addr (boot_info args s)) es (mb_mmap_addr (boot_info args s) + mb_mmap_length (boot_info args s))"
    and ok: "list_all enough_memory es" and rd: "readable (ks_machine s) (y_isr_stub_table y) 1024"
  shows "\<exists>k r. x86_early_init y args s =
      Inr (s\<lparr>ks_machine := k, ks_mbt := boot_info args s, ks_ctx := la_ctx args, ks_regs := r\<rparr>) \<and> follows V (ks_machine s) k"
proof -
  have sub: "set (region (y_mbt y) 120) \<subseteq> V" "set (static_tables y) \<subseteq> V" using V by (auto simp: static_data_def)
  have "(120 :: nat) < 2 ^ 32" by simp
  from vmemcpy_own [OF inv own sub(1) this obj] obtain k where k: "vmemcpy (y_mbt y) (la_obj args) 120 (ks_machine s) = Inr k"
      "follows (set (region (y_mbt y) 120)) (ks_machine s) k"
      "\<forall>j < 120. view k (y_mbt y + of_nat j) = view (ks_machine s) (la_obj args + of_nat j)" by blast
  have f: "follows V (ks_machine s) k" by (rule follows_mono [OF k(2) sub(1)])
  note sk = follows_same [OF inv own f order.refl]
  have mbt: "ld_multiboot_info (view k) (y_mbt y) = boot_info args s"
    unfolding boot_info_def by (rule ld_multiboot_info_cong) (use k(3) in simp)
  have "run_entries enough_step (boot_info args s) ((), k) = Inr ((), k)"
    using run_enough [OF entries_foreign [OF entries_follow [OF inv own f refl at]] sk(2) ok] by (simp add: run_entries_def)
  moreover have "readable k (y_isr_stub_table y) 1024" using rd by (simp add: readable_def sk(1))
  moreover obtain d1 r1 where 1: "gdt_init (y_gdt y) (view k, ks_regs s) = (d1, r1)" by fastforce
  moreover obtain d2 r2 where 2: "idt_init (y_idt y) (d1, r1) = (d2, r2)" by fastforce
  moreover obtain l where l: "write_back (static_tables y) (set_stubs (idt_entries (y_idt y)) (y_isr_stub_table y) 256 d2) k = Inr l"
      "follows (set (static_tables y)) k l"
    using write_back_ok [OF sk(2,4) sub(2)] by blast
  moreover have "follows V (ks_machine s) l"
    by (rule follows_trans [OF inv own f order.refl follows_mono [OF l(2) sub(2)]])
  ultimately show ?thesis
    using k(1) mb by (auto simp: x86_early_init_def mbt Let_def)
qed

text \<open>The stages write the bytes that are written back, and no others, when the linker lays the objects out apart.\<close>

lemma tables_only:
  assumes "gdt_layout (y_gdt y)" "v \<notin> set (static_tables y)"
    and "gdt_init (y_gdt y) (m, r) = (m1, r1)" "idt_init (y_idt y) (m1, r1) = (m2, r2)"
  shows "set_stubs (idt_entries (y_idt y)) (y_isr_stub_table y) 256 m2 v = m v"
proof -
  have g: "i < 48 \<Longrightarrow> v \<noteq> gdt_entries (y_gdt y) + of_nat i" "i < 6 \<Longrightarrow> v \<noteq> gdt_ptr (y_gdt y) + of_nat i"
    "i < 104 \<Longrightarrow> v \<noteq> tss_entry (y_gdt y) + of_nat i" "i < 2048 \<Longrightarrow> v \<noteq> idt_entries (y_idt y) + of_nat i"
    "i < 6 \<Longrightarrow> v \<noteq> idt_ptr (y_idt y) + of_nat i" for i
    using assms(2) by (auto simp: static_tables_def in_region)
  have "m1 v = m v" by (rule gdt_init_outside [OF assms(1,3) g(1-3)])
  moreover have "m2 v = m1 v" by (rule idt_init_outside(1) [OF assms(4) g(4,5)])
  moreover have "set_stubs (idt_entries (y_idt y)) (y_isr_stub_table y) 256 m2 v = m2 v"
    by (rule idt_init_outside(2) [OF assms(4) g(4,5) order.refl])
  ultimately show ?thesis by simp
qed

lemma handlers_only:
  assumes "v \<notin> set (handler_table y)"
  shows "platform_early_init bus (y_handlers y) (m, d) = (m', d') \<Longrightarrow> m' v = m v"
    "install_exceptions (y_handlers y) eh 32 m v = m v"
proof -
  have h: "v \<noteq> y_handlers y + of_nat i" if "i < 1020" for i using assms that by (auto simp: handler_table_def in_region)
  have "fill_up (y_handlers y) 0 1020 m v = m v"
    using write_part_outside [OF h, of 1020 0 "replicate 1020 0" m] by (simp add: fill_up_write_list)
  then show "platform_early_init bus (y_handlers y) (m, d) = (m', d') \<Longrightarrow> m' v = m v"
    by (auto simp: platform_early_init_def Let_def)
  have "n \<le> 255 \<Longrightarrow> install_exceptions (y_handlers y) eh n m v = m v" for n
  proof (induction n)
    case (Suc n)
    have "install_handler (y_handlers y) (of_nat n) eh x v = x v" for x
      using write_part_outside [OF h, where j = "4 * n" and m = x] Suc.prems
      by (simp add: install_handler_def st32_list del: write_list.simps)
    then show ?case using Suc by (simp add: install_exceptions_def irq_install_handler_def)
  qed (simp add: install_exceptions_def)
  then show "install_exceptions (y_handlers y) eh 32 m v = m v" by simp
qed

text \<open>The table of handlers.\<close>

lemma get_handler_cong:
  assumes "\<And>v. v \<in> set (region h 1020) \<Longrightarrow> m' v = m v" "n < 255"
  shows "get_handler h (of_nat n) m' = get_handler h (of_nat n) m"
  unfolding get_handler_def
proof (rule ld32_cong)
  fix k :: nat assume "k < 4"
  then have "h + 4 * of_nat n + of_nat k = h + of_nat (4 * n + k)" "4 * n + k < 1020" using assms(2) by (simp_all add: add.assoc)
  then show "m' (h + 4 * of_nat n + of_nat k) = m (h + 4 * of_nat n + of_nat k)"
    using assms(1) unfolding in_region by metis
qed

lemma install_exceptions_get:
  "n < 255 \<Longrightarrow> get_handler h (of_nat n) (install_exceptions h eh 32 m) = (if n < 32 then eh else get_handler h (of_nat n) m)"
  using handlers.rd_fold [of 32 n h "\<lambda>_. eh" m] by (simp add: install_exceptions_def irq_install_handler_def)

lemma kernel_main_result:
  assumes ok: "start_ok pae y args w es s"
  defines "m \<equiv> ks_machine s" and "b \<equiv> la_bitmap args" and "fs \<equiv> strip_frames pae es" and "V \<equiv> own_data pae y args w es"
  shows "\<exists>s'. kernel_main bus pae y args w s = Inr s'
    \<and> (\<forall>wr u. ARCH_GET_PD_IDX u \<noteq> 1023 \<longrightarrow> translate (ks_machine s') wr u =
        (if page_in ARCH_KMALLOC_BASE u < length fs then Some (ucast (fs ! page_in ARCH_KMALLOC_BASE u) + (u AND 0xFFF))
         else translate m wr u))
    \<and> (\<forall>a. data_page (\<lambda>_. bitmap_page b) m (frame_of a) \<and> a \<notin> own_bytes m V \<longrightarrow> memory (ks_machine s') a = memory m a)
    \<and> pm_allocator (frames (ks_machine s')) = Some PmmNode \<and> km_pmm (ks_kmem s') = frames (ks_machine s')
    \<and> (\<exists>b' F. pool (pm_node (frames (ks_machine s'))) [y_kmap y] F
         \<and> F (y_kmap y) = map (\<lambda>i. la_pps_start args + of_nat i * sizeof_page) (free_pages b' (top_of fs))
         \<and> (\<forall>e. bitmap_page b e \<or> table_frame (ks_machine s') e \<longrightarrow> bitmap_page b' e))
    \<and> (\<forall>n < 255. get_handler (y_handlers y) (of_nat n) (view (ks_machine s')) = (if n < 32 then y_exception_handler y else NULL))"
proof -
  let ?fs = "strip_frames pae es" and ?mbt = "boot_info args s" and ?n = "pm_node (frames m)" and ?B = "frame_of ` own_bytes m V"
  let ?R = "other_data args w (top_of ?fs)" and ?H = "set (handler_table y)"
  have R: "?R \<subseteq> V" and S: "static_data y \<subseteq> V" and H: "?H \<subseteq> V" and HR: "\<And>v. v \<in> ?H \<Longrightarrow> v \<notin> ?R"
    using ok by (auto simp: V_def own_data_def static_data_def start_ok_def)
  have W: "fst ` set (w k) \<subseteq> ?R" and P: "set (region (la_pps_start args) (descriptor_bytes (top_of ?fs))) \<subseteq> ?R" for k
    by (auto simp: other_data_def)
  obtain screen d where cl: "ConsoleImpl_clear bus (ks_screen s, ks_devices s) = (screen, d)" by fastforce
  obtain f1 where f1: "pmm_add_arena NULL (Some b) (set_allocator (Some BootAllocator) (frames m)) = Inr f1"
      "boot_ready (Suc (tables_for (length ?fs))) f1" "pm_node f1 = ?n" "alloc_map (pm_boot f1) = b"
    using boot_takes_over [of "tables_for (length ?fs)" b "frames m"] ok by (auto simp: start_ok_def b_def)
  have use: "boot_in_use f1 = (\<lambda>_. bitmap_page b) (frames m)" by (simp add: boot_in_use_bitmap f1(4))
  note tr = set_frames_inv [where used = boot_in_use and used' = "\<lambda>_. bitmap_page b", OF use]
  note ow = set_frames_own [where used = boot_in_use and used' = "\<lambda>_. bitmap_page b", OF use]
  \<comment> \<open>up to \<open>platform::init\<close>\<close>
  define m0 where "m0 = set_frames f1 m"
  have inv: "paging_inv boot_in_use m0" and own: "own_ok boot_in_use m0 V"
    using ok tr(1) ow(1) by (simp_all add: start_ok_def m_def b_def m0_def V_def)
  have at: "entries_at (foreign boot_in_use ?B) m0 (mb_mmap_addr ?mbt) es (mb_mmap_addr ?mbt + mb_mmap_length ?mbt)"
  proof -
    have "foreign boot_in_use ?B f1 = foreign (\<lambda>_. bitmap_page b) ?B (frames m)" by (simp add: fun_eq_iff foreign_def use)
    from set_frames_entries [where used = "foreign boot_in_use ?B" and used' = "foreign (\<lambda>_. bitmap_page b) ?B", OF this]
    show ?thesis using ok by (simp add: start_ok_def m0_def m_def b_def V_def)
  qed
  have b0: "own_bytes m0 = own_bytes m" "translate m0 = translate m" by (simp_all add: m0_def ow(2))
  obtain m1 where m1: "own_writes (w 0) m0 = Inr m1" "follows V m0 m1"
    using own_writes_ok [OF inv own W R] follows_mono [OF _ R] by blast
  note s1 = follows_same [OF inv own m1(2) order.refl]
  let ?s1 = "s\<lparr>ks_screen := screen, ks_devices := d, ks_machine := m1\<rparr>"
  have obj: "\<exists>p. translate m0 False (la_obj args + of_nat k) = Some p \<and> p \<notin> own_bytes m0 V" if "k < 120" for k
    using ok that unfolding start_ok_def b0 m_def V_def by blast
  have bi: "boot_info args ?s1 = ?mbt"
  proof -
    have "view m1 (la_obj args + of_nat k) = view m (la_obj args + of_nat k)" if "k < 120" for k
      using obj [OF that] follows_view [OF inv own m1(2) order.refl] by (auto simp: m0_def)
    then show ?thesis unfolding boot_info_def m_def by (intro ld_multiboot_info_cong) simp
  qed
  obtain m2 r where m2: "x86_early_init y args ?s1 = Inr (?s1\<lparr>ks_machine := m2, ks_mbt := ?mbt, ks_ctx := la_ctx args, ks_regs := r\<rparr>)"
      "follows V m1 m2"
  proof -
    have "paging_inv boot_in_use (ks_machine ?s1)" "own_ok boot_in_use (ks_machine ?s1) V"
        "multiboot_ok (la_magic args) (boot_info args ?s1)" "list_all enough_memory es"
        "readable (ks_machine ?s1) (y_isr_stub_table y) 1024"
      using s1 ok unfolding bi by (simp_all add: start_ok_def readable_def b0 m_def)
    moreover have "\<exists>p. translate (ks_machine ?s1) False (la_obj args + of_nat k) = Some p \<and> p \<notin> own_bytes (ks_machine ?s1) V" if "k < 120" for k
      using obj [OF that] s1 by simp
    moreover have "entries_at (foreign boot_in_use (frame_of ` own_bytes (ks_machine ?s1) V)) (ks_machine ?s1)
        (mb_mmap_addr (boot_info args ?s1)) es (mb_mmap_addr (boot_info args ?s1) + mb_mmap_length (boot_info args ?s1))"
      using entries_follow [OF inv own m1(2) refl] at s1(5) unfolding bi by (simp add: b0)
    ultimately have "\<exists>k r. x86_early_init y args ?s1 = Inr (?s1\<lparr>ks_machine := k, ks_mbt := boot_info args ?s1,
        ks_ctx := la_ctx args, ks_regs := r\<rparr>) \<and> follows V (ks_machine ?s1) k"
      by (intro x86_early_init_result [OF _ _ S])
    then show thesis using that unfolding bi by auto
  qed
  have F2: "follows V m0 m2" by (rule follows_trans [OF inv own m1(2) order.refl m2(2)])
  note s2 = follows_same [OF inv own F2 order.refl]
  obtain data d3 where pe: "platform_early_init bus (y_handlers y) (view m2, d) = (data, d3)" by fastforce
  obtain m3 where m3: "write_back (handler_table y) data m2 = Inr m3" "follows ?H m2 m3" "\<forall>v \<in> ?H. view m3 v = data v"
    using write_back_ok [OF s2(2,4) H] by blast
  have F3: "follows V m0 m3" by (rule follows_trans [OF inv own F2 order.refl follows_mono [OF m3(2) H]])
  note s3 = follows_same [OF inv own F3 order.refl]
  obtain m4 where m4: "own_writes (w 1) m3 = Inr m4" "follows ?R m3 m4" using own_writes_ok [OF s3(2,4) W R] by blast
  have F4: "follows V m0 m4" by (rule follows_trans [OF inv own F3 order.refl follows_mono [OF m4(2) R]])
  note s4 = follows_same [OF inv own F4 order.refl]
  have apart: "\<exists>p. translate m0 False v = Some p \<and> data_page boot_in_use m0 (frame_of p) \<and> p \<in> own_bytes m0 V \<and> p \<notin> own_bytes m0 ?R"
    if "v \<in> ?H" for v
  proof -
    have vV: "v \<in> V" using H that by blast
    obtain p where p: "translate m0 True v = Some p" "data_page boot_in_use m0 (frame_of p)" using own_okD [OF own vV] by blast
    moreover have "p \<notin> own_bytes m0 ?R" by (rule own_apart [OF own vV R HR [OF that] p(1)])
    ultimately show ?thesis using translate_read [OF p(1)] vV by (auto simp: own_bytes_def)
  qed
  let ?inst = "install_exceptions (y_handlers y) (y_exception_handler y) 32"
  obtain m5 where m5: "write_back (handler_table y) (?inst (view m4)) m4 = Inr m5" "follows ?H m4 m5" "\<forall>v \<in> ?H. view m5 v = ?inst (view m4) v"
    using write_back_ok [OF s4(2,4) H] by blast
  have F5: "follows V m0 m5" by (rule follows_trans [OF inv own F4 order.refl follows_mono [OF m5(2) H]])
  note s5 = follows_same [OF inv own F5 order.refl]
  have h5: "get_handler (y_handlers y) (of_nat n) (view m5) = (if n < 32 then y_exception_handler y else NULL)" if n: "n < 255" for n
  proof -
    have "view m4 v = data v" if "v \<in> ?H" for v
      using apart [OF that] m3(3) that follows_view [OF s3(2,4) m4(2) R] s3(1,5) by auto
    then have "get_handler (y_handlers y) (of_nat n) (view m4) = NULL"
      using get_handler_cong [of "y_handlers y" "view m4" data n] early_init_handlers [OF pe n] n by (simp add: handler_table_def)
    moreover have "get_handler (y_handlers y) (of_nat n) (view m5) = get_handler (y_handlers y) (of_nat n) (?inst (view m4))"
      by (rule get_handler_cong [OF _ n]) (use m5(3) in \<open>simp add: handler_table_def\<close>)
    ultimately show ?thesis using install_exceptions_get [OF n] by simp
  qed
  \<comment> \<open>the strip\<close>
  have r5: "boot_ready (tables_for (length ?fs) + 1) (frames m5)" using f1(2) s5(6) by (simp add: m0_def)
  have at5: "entries_at boot_in_use m5 (mb_mmap_addr ?mbt) es (mb_mmap_addr ?mbt + mb_mmap_length ?mbt)"
    using entries_foreign [OF entries_follow [OF inv own F5 refl]] at by (simp add: b0)
  obtain mm where p: "platform_init (y_page y) pae ?mbt (ks_max_mem s, m5) =
        Inr (fold (\<lambda>x mx. MAX_of mx (mm_addr x + mm_len x)) es (ks_max_mem s), top_of ?fs, mm)"
      "maps_pages boot_in_use m5 mm ARCH_KMALLOC_BASE (length ?fs) (\<lambda>i. ucast (?fs ! i)) (\<lambda>w. True)"
      "boot_stock ?n 1 (frames mm)"
    using platform_init_result [OF s5(2) r5 at5, of "y_page y" "ks_max_mem s"] f1(3) s5(6) by (auto simp: ARCH_KMALLOC_BASE_def m0_def)
  have len: "length ?fs \<le> 0x20000" by (simp add: strip_frames_def)
  note om = own_ok_maps [OF p(2) len s5(4)]
  let ?f2 = "set_allocator (Some PmmNode) (frames mm)" and ?b' = "alloc_map (pm_boot (frames mm))"
  have use2: "boot_in_use ?f2 = boot_in_use (frames mm)" by (simp add: boot_in_use_bitmap set_allocator_def)
  define m6 where "m6 = set_frames ?f2 mm"
  note tr6 = set_frames_inv [where used = boot_in_use and used' = boot_in_use, OF use2]
    and ow6 = set_frames_own [where used = boot_in_use and used' = boot_in_use, OF use2]
  have inv6: "paging_inv boot_in_use m6" and own6: "own_ok boot_in_use m6 V"
    using p(2) om(1) by (simp_all add: m6_def tr6 ow6 maps_pages_def)
  have b6: "own_bytes m6 U = own_bytes m0 U" if "U \<subseteq> V" for U using om(2) [OF that] s5(5) by (simp add: m6_def ow6)
  \<comment> \<open>the list allocator\<close>
  obtain m7 where m7: "own_writes (w 2) m6 = Inr m7" "follows ?R m6 m7" using own_writes_ok [OF inv6 own6 W R] by blast
  note s7 = follows_same [OF inv6 own6 m7(2) R]
  obtain m8 where m8: "vmemset (la_pps_start args) 0 (descriptor_bytes (top_of ?fs)) m7 = Inr m8" "follows ?R m7 m8"
    using vmemset_own [OF s7(2,4) subset_trans [OF P R]] follows_mono [OF _ P] by blast
  have F8: "follows ?R m6 m8" by (rule follows_trans [OF inv6 own6 m7(2) R m8(2)])
  note s8 = follows_same [OF inv6 own6 F8 R]
  have fr8: "frames m8 = ?f2" by (simp add: s8(6) m6_def)
  obtain f3 where f3: "add_kmap (y_kmap y) (la_pps_start args) (top_of ?fs) ?f2 = Inr f3" "pm_allocator f3 = Some PmmNode"
      "pm_boot f3 = pm_boot ?f2"
      "pool (pm_node f3) [y_kmap y] ((\<lambda>_. [])(y_kmap y := map (\<lambda>i. la_pps_start args + of_nat i * sizeof_page)
         (free_pages ?b' (top_of ?fs))))"
    using add_kmap_result [where f = ?f2 and F = "\<lambda>_. []" and kmap = "y_kmap y" and mx = "top_of ?fs" and pps = "la_pps_start args", OF _ _ refl] p(3) ok
    by (auto simp: start_ok_def m_def boot_stock_def set_allocator_def free_pages_def boot_used_def)
  have mi: "meminit (y_kmap y) (la_pps_start args) (top_of ?fs) m7 = Inr (set_frames f3 m8)"
    using m8(1) f3(1) by (simp add: meminit_def fr8)
  obtain k where k: "kmem_init ((ks_kmem s)\<lparr>km_pmm := f3\<rparr>) = Inr k" "km_pmm k = f3"
    using kmem_init_result [of "(ks_kmem s)\<lparr>km_pmm := f3\<rparr>"] ok by (auto simp: start_ok_def)
  have use9: "boot_in_use f3 = boot_in_use (frames m8)" by (simp add: boot_in_use_bitmap f3(3) fr8)
  define m9 where "m9 = set_frames f3 m8"
  note tr9 = set_frames_inv [where used = boot_in_use and used' = boot_in_use, OF use9]
    and ow9 = set_frames_own [where used = boot_in_use and used' = boot_in_use, OF use9]
  have inv9: "paging_inv boot_in_use m9" and own9: "own_ok boot_in_use m9 V" using s8(2,4) by (simp_all add: m9_def tr9 ow9)
  obtain m10 where m10: "own_writes (w 3) m9 = Inr m10" "follows ?R m9 m10" using own_writes_ok [OF inv9 own9 W R] by blast
  note s10 = follows_same [OF inv9 own9 m10(2) R]
  let ?s' = "s\<lparr>ks_screen := screen, ks_devices := d3, ks_machine := m10, ks_mbt := ?mbt, ks_ctx := la_ctx args,
    ks_regs := r, ks_max_mem := fold (\<lambda>x mx. MAX_of mx (mm_addr x + mm_len x)) es (ks_max_mem s), ks_kmem := k\<rparr>"
  have run: "kernel_main bus pae y args w s = Inr ?s'"
    using cl f1(1) m1(1) m2(1) pe m3(1) m4(1) m5(1) p(1) m7(1) mi k(1) m10(1)
    by (simp add: kernel_main_def arch_early_init_def arch_init_def Let_def x86_init_def m_def [symmetric] b_def [symmetric]
        m0_def [symmetric] m6_def [symmetric] m9_def [symmetric]) (simp add: m9_def)
  \<comment> \<open>what is left\<close>
  have T: "translate m10 = translate mm" "table_frame m10 = table_frame mm"
    using s10(1,7) s8(1,7) by (simp_all add: m9_def m6_def)
  have far: "memory m10 a = memory m5 a" if "data_page boot_in_use m5 (frame_of a)" "a \<notin> own_bytes m0 ?R" for a
  proof -
    have "own_bytes m9 ?R = own_bytes m6 ?R" using s8(5) by (simp add: m9_def ow9)
    then have "memory m10 a = memory m9 a" "memory m8 a = memory m6 a" using s10(8) s8(8) that(2) b6 [OF R] by auto
    moreover have "memory mm a = memory m5 a" using p(2) that(1) by (simp add: maps_pages_def)
    ultimately show ?thesis by (simp add: m9_def m6_def)
  qed
  have "bitmap_page ?b' e" if "bitmap_page b e \<or> table_frame m10 e" for e
  proof -
    have "frames m5 = f1" using s5(6) by (simp add: m0_def)
    then have "boot_in_use (frames mm) e"
      using that p(2) use unfolding T by (auto simp: maps_pages_def paging_inv_def table_frame_def)
    then show ?thesis by (simp add: boot_in_use_bitmap)
  qed
  moreover have "memory m10 a = memory m a" if "data_page (\<lambda>_. bitmap_page b) m (frame_of a) \<and> a \<notin> own_bytes m V" for a
  proof -
    have "data_page boot_in_use m5 (frame_of a)" using that by (simp add: s5(3) m0_def tr(2))
    moreover have "a \<notin> own_bytes m0 V" "a \<notin> own_bytes m0 ?R" using that own_bytes_mono [OF R, of m0] by (auto simp: b0)
    ultimately show ?thesis using far s5(8) by (simp add: m0_def)
  qed
  moreover have "translate m10 wr u = (if page_in ARCH_KMALLOC_BASE u < length ?fs
      then Some (ucast (?fs ! page_in ARCH_KMALLOC_BASE u) + (u AND 0xFFF)) else translate m wr u)"
    if "ARCH_GET_PD_IDX u \<noteq> 1023" for wr u
    using p(2) that s5(1) b0(2) unfolding T by (simp add: maps_pages_def)
  moreover have "get_handler (y_handlers y) (of_nat n) (view m10) = (if n < 32 then y_exception_handler y else NULL)"
    if n: "n < 255" for n
  proof -
    have "view m10 v = view m5 v" if v: "v \<in> ?H" for v
    proof -
      obtain q where q: "translate m0 False v = Some q" "data_page boot_in_use m0 (frame_of q)" "q \<notin> own_bytes m0 ?R"
        using apart [OF v] by blast
      have "v \<in> V" using H v by blast
      then have "ARCH_GET_PD_IDX v \<noteq> 1023" "\<not> page_in ARCH_KMALLOC_BASE v < length ?fs"
        using own len by (auto simp: own_ok_def)
      then have "translate m10 False v = translate m5 False v" using p(2) unfolding T maps_pages_def by simp
      moreover have "memory m10 q = memory m5 q" by (rule far) (use q s5(3) in simp_all)
      ultimately show ?thesis using q(1) by (simp add: view_def s5(1))
    qed
    then have "get_handler (y_handlers y) (of_nat n) (view m10) = get_handler (y_handlers y) (of_nat n) (view m5)"
      by (intro get_handler_cong [OF _ n]) (simp add: handler_table_def)
    then show ?thesis using h5 [OF n] by simp
  qed
  moreover have "frames m10 = f3" by (simp add: s10(6) m9_def)
  ultimately show ?thesis
    using run f3(2,4) k(2) unfolding fs_def by (intro exI [of _ ?s']) (auto intro!: exI [of _ ?b'])
qed

section \<open>From the loader's machine\<close>

text \<open>The kernel runs on the loader's machine, with allocators of its own.\<close>

definition with_pmm :: "pmm \<Rightarrow> 'f machine \<Rightarrow> pmm machine" where
  "with_pmm f s = \<lparr>memory = memory s, cr0 = cr0 s, cr3 = cr3 s, cr4 = cr4 s, page_dir_addr = page_dir_addr s, frames = f\<rparr>"

lemma with_pmm_simps [simp]:
  "memory (with_pmm f s) = memory s" "frames (with_pmm f s) = f" "translate (with_pmm f s) = translate s"
  "table_frame (with_pmm f s) = table_frame s"
  by (simp_all add: with_pmm_def fun_eq_iff translate_def table_frame_def)

lemma loader_hands_over:
  assumes "loader_inv s" shows "paging_inv (\<lambda>_. bitmap_page (lm_alloc (frames s))) (with_pmm f s)"
  using assms by (simp add: paging_inv_def machine_ok_def in_use_def bitmap_page_def) (simp add: with_pmm_def)

lemma page_index_inj:
  assumes "i < 2 ^ 28" "j < 2 ^ 28" "(p :: u32) + of_nat i * sizeof_page = p + of_nat j * sizeof_page" shows "i = j"
proof -
  have u: "unat (of_nat (16 * k) :: u32) = 16 * k" if "k < 2 ^ 28" for k
    using that by (intro unat_of_nat_small) simp
  have s: "of_nat k * sizeof_page = of_nat (16 * k)" for k by (simp add: sizeof_page_def mult.commute)
  have "(of_nat (16 * i) :: u32) = of_nat (16 * j)" using assms(3) unfolding s add_left_cancel .
  then have "unat (of_nat (16 * i) :: u32) = unat (of_nat (16 * j) :: u32)" by (rule arg_cong)
  then show ?thesis unfolding u [OF assms(1)] u [OF assms(2)] by simp
qed

section \<open>Properties\<close>

text \<open>C8. \<open>kernel_main\<close>, started by a loader whose tables lie in pages its bitmap has in use, with an intact
  multiboot structure, enough free pages and its own data mapped apart from each other, gets to the end of the
  set-up, whatever it writes to them: the strip of available pages lies at \<open>ARCH_KMALLOC_BASE\<close>, every other
  translation is as the loader left it, and so is every byte of a page in use that is no table, unless it is one of
  the kernel's own data; the list allocator is in charge, also of the object caches, and the table of handlers in
  memory sends the first 32 vectors to the exception handler and has nothing for the others.\<close>

theorem kernel_main_memory:
  assumes ok: "start_ok pae y args w es s"
  defines "fs \<equiv> strip_frames pae es"
  shows "\<exists>s'. kernel_main bus pae y args w s = Inr s'
    \<and> (\<forall>wr u. ARCH_GET_PD_IDX u \<noteq> 1023 \<longrightarrow> translate (ks_machine s') wr u =
        (if page_in ARCH_KMALLOC_BASE u < length fs then Some (ucast (fs ! page_in ARCH_KMALLOC_BASE u) + (u AND 0xFFF))
         else translate (ks_machine s) wr u))
    \<and> (\<forall>a. data_page (\<lambda>_. bitmap_page (la_bitmap args)) (ks_machine s) (frame_of a)
         \<and> a \<notin> own_bytes (ks_machine s) (own_data pae y args w es) \<longrightarrow>
         memory (ks_machine s') a = memory (ks_machine s) a)
    \<and> pm_allocator (frames (ks_machine s')) = Some PmmNode \<and> km_pmm (ks_kmem s') = frames (ks_machine s')
    \<and> (\<forall>n < 255. get_handler (y_handlers y) (of_nat n) (view (ks_machine s')) =
         (if n < 32 then y_exception_handler y else NULL))"
  using kernel_main_result [OF ok, of bus] unfolding fs_def by blast

text \<open>C9. The change of allocators is safe: when the list allocator takes over, its free list has no page that holds the
  page directory, a page table or anything the loader or the boot allocator gave away.\<close>

theorem tables_not_handed_out:
  assumes ok: "start_ok pae y args w es s"
  shows "\<exists>s' F. kernel_main bus pae y args w s = Inr s' \<and> pool (pm_node (frames (ks_machine s'))) [y_kmap y] F
    \<and> (\<forall>e. table_frame (ks_machine s') e \<or> bitmap_page (la_bitmap args) e \<longrightarrow>
         la_pps_start args + of_nat (page_no e) * sizeof_page \<notin> set (F (y_kmap y)))"
proof -
  let ?mx = "top_of (strip_frames pae es)" and ?pps = "la_pps_start args"
  obtain s' b' F where s': "kernel_main bus pae y args w s = Inr s'"
      "pool (pm_node (frames (ks_machine s'))) [y_kmap y] F"
      "F (y_kmap y) = map (\<lambda>i. ?pps + of_nat i * sizeof_page) (free_pages b' ?mx)"
      "\<forall>e. bitmap_page (la_bitmap args) e \<or> table_frame (ks_machine s') e \<longrightarrow> bitmap_page b' e"
    using kernel_main_result [OF ok, of bus] by blast
  have size: "unat (ucast (?mx div ARCH_PAGE_SIZE) :: u32) < 2 ^ 28"
    using ok by (simp add: start_ok_def layout_def array_end_def upd_arena_def)
  have "?pps + of_nat (page_no e) * sizeof_page \<notin> set (F (y_kmap y))"
    if "table_frame (ks_machine s') e \<or> bitmap_page (la_bitmap args) e" for e
  proof
    assume "?pps + of_nat (page_no e) * sizeof_page \<in> set (F (y_kmap y))"
    then obtain i where i: "i \<in> set (free_pages b' ?mx)" "?pps + of_nat (page_no e) * sizeof_page = ?pps + of_nat i * sizeof_page"
      using s'(3) by auto
    have "page_no e < 2 ^ 28" using unat_u32 [of e] by (simp add: page_no_def less_mult_imp_div_less)
    moreover have "i < 2 ^ 28" using i(1) size by (simp add: free_pages_def)
    ultimately have "page_no e = i" using i(2) by (rule page_index_inj)
    moreover have "bitmap_page b' e" using s'(4) that by blast
    ultimately show False using i(1) by (simp add: free_pages_def bitmap_page_def)
  qed
  then show ?thesis using s'(1,2) by blast
qed

text \<open>C10. What the loader put in place for the kernel is in place when \<open>kernel_main\<close> has set up memory: at every address
  of a segment above \<open>0xE0000000\<close> that shares its byte with none of the data the kernel writes, it still finds the
  byte of its file, or zero behind the bytes of the file, in the machine that \<open>run_program32\<close> left.\<close>

theorem kernel_image_intact:
  assumes l: "loader_inv sl" and k: "kernel_ready file ctx phs N sl"
    and m: "ks_machine s = with_pmm f sl" "la_bitmap args = lm_alloc (frames sl)"
    and ok: "start_ok pae y args w es s"
    and ph: "ph \<in> set phs" "header_ok ph (img32 ctx)" "0xE0000000 \<le> p_vaddr ph" and i: "i < unat (p_memsz ph)"
    and own: "translate sl False (p_vaddr ph + of_nat i) \<notin> translate sl True ` own_data pae y args w es"
  shows "\<exists>s' a. kernel_main bus pae y args w s = Inr s' \<and> translate (ks_machine s') False (p_vaddr ph + of_nat i) = Some a
    \<and> (i < unat (p_filesz ph) \<longrightarrow> memory (ks_machine s') a = file (file_at (img32 ctx) ph i))
    \<and> (unat (p_filesz ph) \<le> i \<longrightarrow> memory (ks_machine s') a = 0)"
proof -
  let ?v = "p_vaddr ph + of_nat i"
  have v: "unat (p_vaddr ph) + unat (p_memsz ph) \<le> 0xFFC00000" "aligned (p_vaddr ph)" using ph(2) by (simp_all add: header_ok_def)
  have u: "unat ?v = unat (p_vaddr ph) + i" using v i by (intro unat_add_of_nat) simp
  have pd: "ARCH_GET_PD_IDX ?v \<noteq> 1023" by (rule pd_index_below) (use u v i in simp)
  have "page_in 0xC0000000 ?v \<ge> 0x20000"
  proof -
    have lo: "0xE0000000 \<le> unat ?v" using ph(3) u by (simp add: word_le_nat_alt)
    then have "unat (?v - 0xC0000000) = unat ?v - 0xC0000000" by (subst unat_sub) (simp_all add: word_le_nat_alt)
    then have "0x20000000 \<le> unat (?v - 0xC0000000)" using lo by simp
    then have "0x20000000 div 4096 \<le> page_in 0xC0000000 ?v" unfolding page_in_def by (rule div_le_mono)
    then show ?thesis by simp
  qed
  moreover have "length (strip_frames pae es) \<le> 0x20000" by (simp add: strip_frames_def)
  ultimately have out: "\<not> page_in ARCH_KMALLOC_BASE ?v < length (strip_frames pae es)" by (simp add: ARCH_KMALLOC_BASE_def)
  have "i < 4096 * seg_pages ph"
    using seg_pages_bounds(2) [of ph] v i by (simp add: word_le_nat_alt)
  then obtain a where a: "translate sl False ?v = Some a" "data_page in_use sl (frame_of a)"
      "i < unat (p_filesz ph) \<longrightarrow> memory sl a = file (file_at (img32 ctx) ph i)"
      "unat (p_filesz ph) \<le> i \<and> p_filesz ph \<noteq> p_memsz ph \<longrightarrow> memory sl a = 0"
    using k ph(1) unfolding kernel_ready_def segment_loaded_def by blast
  have d: "data_page (\<lambda>_. bitmap_page (la_bitmap args)) (ks_machine s) (frame_of a)"
    using a(2) by (simp add: data_page_def m in_use_def bitmap_page_def)
  obtain s' where run: "kernel_main bus pae y args w s = Inr s'"
      and tr: "\<forall>wr u. ARCH_GET_PD_IDX u \<noteq> 1023 \<longrightarrow> translate (ks_machine s') wr u =
        (if page_in ARCH_KMALLOC_BASE u < length (strip_frames pae es)
         then Some (ucast (strip_frames pae es ! page_in ARCH_KMALLOC_BASE u) + (u AND 0xFFF)) else translate (ks_machine s) wr u)"
      and mem: "\<forall>a. data_page (\<lambda>_. bitmap_page (la_bitmap args)) (ks_machine s) (frame_of a)
         \<and> a \<notin> own_bytes (ks_machine s) (own_data pae y args w es) \<longrightarrow> memory (ks_machine s') a = memory (ks_machine s) a"
    using kernel_main_result [OF ok, of bus] by blast
  have "a \<notin> own_bytes (ks_machine s) (own_data pae y args w es)"
    using own unfolding a(1) by (auto simp: own_bytes_def m image_iff)
  then have s': "translate (ks_machine s') False ?v = translate sl False ?v" "memory (ks_machine s') a = memory sl a"
    using tr [rule_format, OF pd] mem [rule_format, OF conjI [OF d]] out by (simp_all add: m)
  have "p_filesz ph \<noteq> p_memsz ph" if "unat (p_filesz ph) \<le> i" using that i by auto
  then show ?thesis using run s' a by (intro exI [of _ s'] exI [of _ a]) simp
qed

section \<open>Witnesses\<close>

definition demo_args :: loader_args where
  "demo_args = \<lparr>la_magic = 0x2BADB002, la_bitmap = strip_bitmap, la_ctx = tiny_context, la_pps_start = 0xE0101000, la_obj = 0x5100\<rparr>"

definition demo_symbols :: kernel_symbols where
  "demo_symbols = \<lparr>y_gdt = \<lparr>gdt_entries = 0xE0100100, gdt_ptr = 0xE0100140, tss_entry = 0xE0100150\<rparr>,
     y_idt = \<lparr>idt_entries = 0xE0100300, idt_ptr = 0xE01001C0\<rparr>, y_isr_stub_table = 0xE0101300, y_handlers = 0xE0100B00,
     y_exception_handler = 0xE0100040, y_mbt = 0xE01001D0, y_kmap = 0x1000, y_page = 0x9000\<rparr>"

text \<open>In every stage the kernel writes its number to a variable of its own.\<close>

definition demo_writes :: "nat \<Rightarrow> (addr \<times> u8) list" where
  "demo_writes k = [(0xE0101800, of_nat k)]"

definition demo_start :: "(u16 \<times> u8) list kernel_state" where
  "demo_start = \<lparr>ks_machine = start_machine strip_pmm,
     ks_regs = \<lparr>gdtr = \<lparr>dp_limit = 0, dp_base = 0\<rparr>, idtr = \<lparr>dp_limit = 0, dp_base = 0\<rparr>, code_sel = 0, data_sel = 0, task_sel = 0\<rparr>,
     ks_devices = [], ks_screen = vga_start, ks_mbt = strip_info, ks_ctx = tiny_context, ks_max_mem = 0, ks_kmem = empty_demo\<rparr>"

lemma demo_args_simps [simp]:
  "la_magic demo_args = 0x2BADB002" "la_bitmap demo_args = strip_bitmap" "la_pps_start demo_args = 0xE0101000" "la_obj demo_args = 0x5100"
  "ks_machine demo_start = start_machine strip_pmm" "ks_kmem demo_start = empty_demo" "y_kmap demo_symbols = 0x1000"
  "y_isr_stub_table demo_symbols = 0xE0101300"
  by (simp_all add: demo_args_def demo_start_def demo_symbols_def)

lemma demo_info:
  "mb_flags (boot_info demo_args demo_start) = 0x49" "mb_mods_count (boot_info demo_args demo_start) = 1"
  "mb_mods_addr (boot_info demo_args demo_start) = 0x9000" "mb_mmap_length (boot_info demo_args demo_start) = 72"
  "mb_mmap_addr (boot_info demo_args demo_start) = 0x5000"
proof -
  have v: "view (start_machine f) (0x5000 + of_nat k) = page_words map_words (0x5000 + of_nat k)" if "k < 4096" for k and f :: 'a
    using start_pages(1) [OF that, of f False] by (simp add: view_def)
  have w: "ld32 (view (start_machine f)) (0x5000 + of_nat (4 * j)) =
      (case map_of (map (\<lambda>(b, j, x). ((b, j), x)) map_words) (0x5000, of_nat j) of None \<Rightarrow> 0 | Some x \<Rightarrow> x)" if "j < 1024" for j and f :: 'a
  proof -
    have "ld32 (view (start_machine f)) (0x5000 + of_nat (4 * j)) = ld32 (page_words map_words) (0x5000 + of_nat (4 * j))"
    proof (rule ld32_cong)
      fix i :: nat assume i: "i < 4"
      have eq: "0x5000 + of_nat (4 * j) + of_nat i = (0x5000 + of_nat (4 * j + i) :: u32)" by simp
      show "view (start_machine f) (0x5000 + of_nat (4 * j) + of_nat i) = page_words map_words (0x5000 + of_nat (4 * j) + of_nat i)"
        unfolding eq by (rule v) (use i that in simp)
    qed
    moreover have "unat (of_nat j :: u32) = j" using that by (intro unat_of_nat_small) simp
    ultimately show ?thesis using map_words_ld [of "0x5000" "of_nat j"] that by (simp add: entry_at_offset aligned_def)
  qed
  show "mb_flags (boot_info demo_args demo_start) = 0x49" "mb_mods_count (boot_info demo_args demo_start) = 1"
    "mb_mods_addr (boot_info demo_args demo_start) = 0x9000" "mb_mmap_length (boot_info demo_args demo_start) = 72"
    "mb_mmap_addr (boot_info demo_args demo_start) = 0x5000"
    using w [of 64] w [of 69] w [of 70] w [of 75] w [of 76]
    by (simp_all add: boot_info_def ld_multiboot_info_def map_words_def)
qed

lemma demo_bitmap: "bitmap_ok 24 strip_bitmap"
proof -
  have "unat (bm_bit_count strip_bitmap) = 32" "unat (bm_length strip_bitmap) = 1" by (simp_all add: strip_bitmap_def)
  then show ?thesis by (auto simp: bitmap_ok_def boot_inv_def strip_bitmap_free)
qed

lemma bitmap_ok_less: "bitmap_ok n b \<Longrightarrow> k \<le> n \<Longrightarrow> bitmap_ok k b"
  by (simp add: bitmap_ok_def)

lemma demo_used: "boot_in_use strip_pmm = bitmap_page strip_bitmap"
  by (simp add: boot_in_use_bitmap strip_pmm_def)

lemma demo_pages:
  assumes "k < 8192" shows "translate (start_machine f) wr (0xE0100000 + of_nat k) = Some (0x6000 + of_nat k)"
proof (cases "k < 4096")
  case True
  then show ?thesis by (rule start_pages(2))
next
  case False
  then have e: "(of_nat k :: u32) = 0x1000 + of_nat (k - 4096)" by (simp add: of_nat_diff)
  have "k - 4096 < 4096" using assms by simp
  from start_pages(3) [OF this, of f wr] show ?thesis unfolding e by (simp add: add.assoc [symmetric])
qed

lemma demo_frames_own:
  assumes "k < 8192" shows "frame_of (0x6000 + of_nat k) \<in> {0x6000, 0x7000}"
proof (cases "k < 4096")
  case True
  then show ?thesis using frame_of_offset [of "0x6000" k] by (simp add: aligned_def)
next
  case False
  then have e: "(0x6000 :: u32) + of_nat k = 0x7000 + of_nat (k - 4096)" by (simp add: of_nat_diff)
  have "k - 4096 < 4096" using assms by simp
  then show ?thesis unfolding e using frame_of_offset [of "0x7000" "k - 4096"] by (simp add: aligned_def)
qed

text \<open>Everything lies in the two pages behind \<open>0xE0100000\<close>; \<open>demo_at i j\<close> are the addresses from offset \<open>i\<close> to \<open>j\<close>.\<close>

definition demo_at :: "nat \<Rightarrow> nat \<Rightarrow> addr set" where
  "demo_at i j = (\<lambda>k. 0xE0100000 + of_nat k) ` {i ..< j}"

lemma demo_region: "set (region (0xE0100000 + of_nat i) n) = demo_at i (i + n)"
proof -
  have "{i ..< i + n} = (+) i ` {0 ..< n}" by (simp add: add.commute)
  then show ?thesis by (simp only: region_def demo_at_def set_map set_upt image_image) (simp add: add.assoc)
qed

lemma demo_at_mono: "i' \<le> i \<Longrightarrow> j \<le> j' \<Longrightarrow> demo_at i j \<subseteq> demo_at i' j'"
  unfolding demo_at_def by (rule image_mono) auto

lemma demo_at_apart:
  assumes "j \<le> i'" "j' \<le> 8192" shows "demo_at i j \<inter> demo_at i' j' = {}"
proof (rule equals0I)
  fix x assume "x \<in> demo_at i j \<inter> demo_at i' j'"
  then obtain k l where kl: "x = 0xE0100000 + of_nat k" "k < j" "x = 0xE0100000 + of_nat l" "i' \<le> l" "l < j'"
    unfolding demo_at_def by fastforce
  then have "(of_nat k :: u32) = of_nat l" by simp
  moreover have "k < 2 ^ LENGTH(32)" "l < 2 ^ LENGTH(32)" using kl assms by simp_all
  ultimately have "k = l" using of_nat_inj_small by metis
  then show False using kl assms by simp
qed

lemma demo_own:
  "static_data demo_symbols \<subseteq> demo_at 0x100 0x1000" "other_data demo_args demo_writes 0x22000 \<subseteq> demo_at 0x1000 8192"
proof -
  have n: "descriptor_bytes 0x22000 = 544" by (simp add: descriptor_bytes_def page_size_val sizeof_page_def)
  have "set (region 0xE0100100 48) \<subseteq> demo_at 0x100 0x1000" "set (region 0xE0100140 6) \<subseteq> demo_at 0x100 0x1000"
    "set (region 0xE0100150 104) \<subseteq> demo_at 0x100 0x1000" "set (region 0xE0100300 2048) \<subseteq> demo_at 0x100 0x1000"
    "set (region 0xE01001C0 6) \<subseteq> demo_at 0x100 0x1000" "set (region 0xE0100B00 1020) \<subseteq> demo_at 0x100 0x1000"
    "set (region 0xE01001D0 120) \<subseteq> demo_at 0x100 0x1000"
    using demo_region [of "0x100" 48] demo_region [of "0x140" 6] demo_region [of "0x150" 104] demo_region [of "0x300" 2048]
      demo_region [of "0x1C0" 6] demo_region [of "0xB00" 1020] demo_region [of "0x1D0" 120]
    by (simp_all add: demo_at_mono)
  then show "static_data demo_symbols \<subseteq> demo_at 0x100 0x1000"
    by (simp add: static_data_def static_tables_def handler_table_def demo_symbols_def)
  have "set (region 0xE0101000 544) \<subseteq> demo_at 0x1000 8192" "0xE0101800 \<in> demo_at 0x1000 8192"
    using demo_region [of "0x1000" 544] by (simp_all add: demo_at_mono) (simp add: demo_at_def image_iff, rule bexI [of _ "0x1800"], simp_all)
  then show "other_data demo_args demo_writes 0x22000 \<subseteq> demo_at 0x1000 8192"
    by (auto simp: other_data_def demo_args_def demo_writes_def n)
qed

lemma demo_own_ok: "own_ok (\<lambda>_. bitmap_page strip_bitmap) strip_machine (demo_at 0x100 8192)"
proof -
  have t: "translate strip_machine True (0xE0100000 + of_nat k) = Some (0x6000 + of_nat k)" if "k < 8192" for k
    by (rule demo_pages [OF that])
  have "inj_on (translate strip_machine True) (demo_at 0x100 8192)"
    by (rule inj_onI) (auto simp: demo_at_def t of_nat_inj_small)
  moreover have "ARCH_GET_PD_IDX v \<noteq> 1023 \<and> 0x20000 \<le> page_in ARCH_KMALLOC_BASE v
      \<and> (\<exists>p. translate strip_machine True v = Some p \<and> data_page (\<lambda>_. bitmap_page strip_bitmap) strip_machine (frame_of p))"
    if v: "v \<in> demo_at 0x100 8192" for v
  proof -
    obtain k where k: "v = 0xE0100000 + of_nat k" "k < 8192" using v by (auto simp: demo_at_def)
    have u: "unat v = 0xE0100000 + k" unfolding k(1) using k(2) by (subst unat_add_of_nat) simp_all
    have "ARCH_GET_PD_IDX v \<noteq> 1023" by (rule pd_index_below) (use u k(2) in simp)
    moreover have "0x20000 \<le> page_in ARCH_KMALLOC_BASE v"
    proof -
      have "unat (v - 0xC0000000) = unat v - 0xC0000000" by (subst unat_sub) (simp_all add: word_le_nat_alt u)
      then have "0x20000000 \<le> unat (v - 0xC0000000)" using u by simp
      then have "0x20000000 div 4096 \<le> unat (v - 0xC0000000) div 4096" by (rule div_le_mono)
      then show ?thesis by (simp add: page_in_def ARCH_KMALLOC_BASE_def)
    qed
    moreover have "data_page (\<lambda>_. bitmap_page strip_bitmap) strip_machine (frame_of (0x6000 + of_nat k))"
      using demo_frames_own [OF k(2)]
      by (auto simp: data_page_def start_table_frame bitmap_page_def strip_bitmap_bit page_no_def)
    ultimately show ?thesis using t [OF k(2)] k(1) by blast
  qed
  ultimately show ?thesis unfolding own_ok_def by blast
qed

lemma demo_own_bytes:
  assumes "x \<in> own_bytes (start_machine f) (demo_at 0x100 8192)"
  shows "\<exists>k. 0x100 \<le> k \<and> k < 8192 \<and> x = 0x6000 + of_nat k"
proof -
  obtain k where k: "0x100 \<le> k" "k < 8192" "translate (start_machine f) True (0xE0100000 + of_nat k) = Some x"
    using assms by (auto simp: own_bytes_def demo_at_def)
  with demo_pages [OF k(2), of f True] show ?thesis by auto
qed

lemma own_ok_less: "own_ok used s V \<Longrightarrow> U \<subseteq> V \<Longrightarrow> own_ok used s U"
  unfolding own_ok_def by (meson inj_on_subset subset_iff)

lemma start_entries_at:
  assumes "used strip_pmm 0x5000" shows "entries_at used strip_machine 0x5000 strip_areas 0x5048"
proof -
  have "\<forall>k < 24. kept used strip_machine (0x5000 + of_nat (24 * i) + of_nat k)" if "i < 3" for i
    unfolding map_offset by (intro allI impI start_map_kept) (use that assms in simp_all)
  from this [of 0] this [of 1] this [of 2] strip_machine_entry [of 0] strip_machine_entry [of 1] strip_machine_entry [of 2]
  show ?thesis by (simp add: strip_areas_def)
qed

lemma demo_own_data:
  "top_of (strip_frames False strip_areas) = 0x22000"
  "own_data False demo_symbols demo_args demo_writes strip_areas \<subseteq> demo_at 0x100 8192"
proof -
  show t: "top_of (strip_frames False strip_areas) = 0x22000" by (simp add: strip_machine_frames top_of_def MAX_of_def)
  have "demo_at 0x100 0x1000 \<subseteq> demo_at 0x100 8192" "demo_at 0x1000 8192 \<subseteq> demo_at 0x100 8192"
    by (rule demo_at_mono; simp)+
  then show "own_data False demo_symbols demo_args demo_writes strip_areas \<subseteq> demo_at 0x100 8192"
    unfolding own_data_def t by (intro Un_least subset_trans [OF demo_own(1)] subset_trans [OF demo_own(2)])
qed

lemma demo_start_ok: "start_ok False demo_symbols demo_args demo_writes strip_areas demo_start"
proof -
  have inv: "paging_inv (\<lambda>_. bitmap_page strip_bitmap) strip_machine"
    using strip_machine_inv by (simp add: paging_inv_def demo_used)
  have t: "top_of (strip_frames False strip_areas) = 0x22000" "length (strip_frames False strip_areas) = 5"
    by (simp_all add: strip_machine_frames top_of_def MAX_of_def)
  let ?V = "own_data False demo_symbols demo_args demo_writes strip_areas"
  note V = demo_own_data(2)
  have own: "own_ok (\<lambda>_. bitmap_page strip_bitmap) strip_machine ?V" by (rule own_ok_less [OF demo_own_ok V])
  have dis: "static_data demo_symbols \<inter> other_data demo_args demo_writes 0x22000 = {}"
  proof -
    have "demo_at 0x100 0x1000 \<inter> demo_at 0x1000 8192 = {}" by (rule demo_at_apart) simp_all
    then show ?thesis using demo_own by (metis Int_mono subset_empty)
  qed
  have off: "frame_of x \<in> {0x6000, 0x7000}" if "x \<in> own_bytes strip_machine ?V" for x
  proof -
    have "own_bytes strip_machine ?V \<subseteq> own_bytes strip_machine (demo_at 0x100 8192)" by (rule own_bytes_mono [OF V])
    from demo_own_bytes [OF subsetD [OF this that]] obtain k where k: "k < 8192" "x = 0x6000 + of_nat k" by blast
    show ?thesis unfolding k(2) by (rule demo_frames_own [OF k(1)])
  qed
  have rd: "\<exists>p. translate strip_machine False (0x5100 + of_nat k) = Some p \<and> p \<notin> own_bytes strip_machine ?V" if k: "k < 120" for k
  proof -
    have e: "(0x5000 :: u32) + of_nat (0x100 + k) = 0x5100 + of_nat k" by simp
    have "frame_of (0x5000 + of_nat (0x100 + k)) = 0x5000" by (rule frame_of_offset) (use k in \<open>simp_all add: aligned_def\<close>)
    then have "0x5100 + of_nat k \<notin> own_bytes strip_machine ?V" unfolding e using off [of "0x5100 + of_nat k"] by auto
    then show ?thesis using start_pages(1) [of "0x100 + k" strip_pmm False] k unfolding e by auto
  qed
  have stub: "readable strip_machine 0xE0101300 1024"
    unfolding readable_def
  proof (intro allI impI)
    fix k :: nat assume "k < 1024"
    then show "translate strip_machine False (0xE0101300 + of_nat k) \<noteq> None"
      using demo_pages [of "0x1300 + k" strip_pmm False] by simp
  qed
  have mb: "multiboot_ok 0x2BADB002 (boot_info demo_args demo_start)"
    by (simp add: multiboot_ok_def demo_info CHECK_FLAG_def MULTIBOOT_BOOTLOADER_MAGIC_def)
  have at: "entries_at (foreign (\<lambda>_. bitmap_page strip_bitmap) (frame_of ` own_bytes strip_machine ?V)) strip_machine
      0x5000 strip_areas 0x5048"
  proof (rule start_entries_at)
    have "0x5000 \<notin> frame_of ` own_bytes strip_machine ?V" using off by fastforce
    then show "foreign (\<lambda>_. bitmap_page strip_bitmap) (frame_of ` own_bytes strip_machine ?V) strip_pmm 0x5000"
      by (simp add: foreign_def bitmap_page_def strip_bitmap_bit page_no_def)
  qed
  have b: "bitmap_ok (Suc (tables_for 5)) strip_bitmap"
    by (rule bitmap_ok_less [OF demo_bitmap]) (simp add: tables_for_def)
  let ?t = "upd_arena 0x1000 (\<lambda>ar. ar\<lparr>ar_base := 0, ar_size := ucast ((0x22000 :: u64) div ARCH_PAGE_SIZE), ar_pages := 0xE0101000\<rparr>) pmm_empty_example"
  have sz: "ucast ((0x22000 :: u64) div ARCH_PAGE_SIZE) = (34 :: u32)" by (simp add: page_size_val)
  have "arena_pages ?t 0x1000 = map (\<lambda>i. 0xE0101000 + of_nat i * 16) [0 ..< 34]"
    by (simp add: arena_pages_def upd_arena_def sz page_at_def sizeof_page_def)
  then have "layout ?t [0x1000]"
    by (simp add: layout_def footprint_def array_end_def upt_conv_Cons free_list_def)
      (simp add: upd_arena_def sz pmm_empty_example_def)
  moreover have "list_all enough_memory strip_areas" by (simp add: strip_areas_def enough_memory_def)
  moreover have "root_cache empty_demo = 0x500" by (simp add: empty_demo_def slab_demo_def)
  moreover have "pm_node strip_pmm = pmm_empty_example" by (simp add: strip_pmm_def)
  ultimately show ?thesis
    using inv own dis rd stub mb at b empty_example_pool by (simp add: start_ok_def demo_info t)
qed

theorem kernel_main_memory_witness:
  "\<exists>s'. kernel_main log_bus False demo_symbols demo_args demo_writes demo_start = Inr s'
    \<and> translate (ks_machine s') True 0xC0003010 = Some 0x20010 \<and> pm_allocator (frames (ks_machine s')) = Some PmmNode"
proof -
  have p: "page_in ARCH_KMALLOC_BASE 0xC0003010 = 3" "ARCH_GET_PD_IDX 0xC0003010 \<noteq> 1023"
    by (simp_all add: page_in_def ARCH_KMALLOC_BASE_def ARCH_GET_PD_IDX_def)
  from kernel_main_memory [OF demo_start_ok, of log_bus] obtain s' where
    s': "kernel_main log_bus False demo_symbols demo_args demo_writes demo_start = Inr s'" "pm_allocator (frames (ks_machine s')) = Some PmmNode"
      "\<forall>wr u. ARCH_GET_PD_IDX u \<noteq> 1023 \<longrightarrow> translate (ks_machine s') wr u =
        (if page_in ARCH_KMALLOC_BASE u < length (strip_frames False strip_areas)
         then Some (ucast (strip_frames False strip_areas ! page_in ARCH_KMALLOC_BASE u) + (u AND 0xFFF))
         else translate (ks_machine demo_start) wr u)"
    by blast
  then show ?thesis using p by (auto simp: strip_machine_frames)
qed

theorem tables_not_handed_out_witness:
  "\<exists>s' F. kernel_main log_bus False demo_symbols demo_args demo_writes demo_start = Inr s'
    \<and> pool (pm_node (frames (ks_machine s'))) [0x1000] F \<and> 0xE0101020 \<notin> set (F 0x1000)"
proof -
  obtain s' F where s': "kernel_main log_bus False demo_symbols demo_args demo_writes demo_start = Inr s'"
      "pool (pm_node (frames (ks_machine s'))) [0x1000] F"
      "\<forall>e. table_frame (ks_machine s') e \<or> bitmap_page strip_bitmap e \<longrightarrow> 0xE0101000 + of_nat (page_no e) * sizeof_page \<notin> set (F 0x1000)"
    using tables_not_handed_out [OF demo_start_ok, of log_bus] by auto
  moreover have "bitmap_page strip_bitmap 0x2000" by (simp add: bitmap_page_def strip_bitmap_bit page_no_def)
  ultimately have "0xE0101000 + of_nat (page_no 0x2000) * sizeof_page \<notin> set (F 0x1000)" by blast
  then have "0xE0101020 \<notin> set (F 0x1000)" by (simp add: page_no_def sizeof_page_def)
  then show ?thesis using s' by blast
qed

text \<open>The loader's end state: the same machine with the loader's allocator, the image of \<open>tiny_image\<close> in place.\<close>

definition demo_loader :: "loader_mm machine" where
  "demo_loader = start_machine (demo_frames\<lparr>lm_alloc := strip_bitmap, lm_num_pages := 0\<rparr>)"

lemma demo_loader_inv: "loader_inv demo_loader"
  unfolding demo_loader_def
proof (rule start_machine_inv)
  fix k :: nat assume k: "k < 9" "0 < k"
  then have "unat (of_nat (4096 * k) :: u32) = 4096 * k" by (intro unat_of_nat_small) simp
  then show "in_use (demo_frames\<lparr>lm_alloc := strip_bitmap, lm_num_pages := 0\<rparr>) (of_nat (4096 * k))"
    using k by (simp add: in_use_def strip_bitmap_bit page_no_def del: of_nat_mult)
qed

lemma page_words_skip:
  assumes "\<forall>(b, j, x) \<in> set ws. aligned b \<and> unat j < 1024 \<and> frame_of a \<noteq> b"
  shows "page_words (ws @ vs) a = page_words vs a"
  using assms by (induction ws) (auto simp: page_words_def st32_entry_frame)

lemma demo_bytes:
  assumes "k < 4096"
  shows "page_words map_words (0x6000 + of_nat k) = (if k = 0 then 0xAA else if k = 1 then 0xBB else 0)"
    "page_words map_words (0x8000 + of_nat k) = 0"
proof -
  have al: "aligned 0x6000" "aligned 0x8000" by (simp_all add: aligned_def)
  note fr = frame_of_offset [OF al(1) assms] frame_of_offset [OF al(2) assms]
  have last: "map_words = butlast map_words @ [(0x6000, 0, 0xBBAA)]" by (simp add: map_words_def)
  have "page_words map_words (0x6000 + of_nat k) = page_words [(0x6000, 0, 0xBBAA)] (0x6000 + of_nat k)"
    by (subst last, rule page_words_skip) (simp add: map_words_def aligned_def fr)
  also have "\<dots> = (if k = 0 then 0xAA else if k = 1 then 0xBB else 0)"
  proof (cases "k < 4")
    case True
    then consider "k = 0" | "k = 1" | "k = 2" | "k = 3" by linarith
    then show ?thesis by cases (simp_all add: page_words_def st32_def entry_at_def)
  next
    case False
    have "(0x6000 :: u32) + of_nat k \<noteq> 0x6000 + of_nat j" if "j < 4" for j
      using offset_inj [OF al(1) al(1) assms, of j] that False by auto
    from this [of 0] this [of 1] this [of 2] this [of 3] False show ?thesis
      by (simp add: page_words_def st32_def entry_at_def)
  qed
  finally show "page_words map_words (0x6000 + of_nat k) = (if k = 0 then 0xAA else if k = 1 then 0xBB else 0)" .
  have "page_words (map_words @ []) (0x8000 + of_nat k) = page_words [] (0x8000 + of_nat k)"
    by (rule page_words_skip) (simp add: map_words_def aligned_def fr)
  then show "page_words map_words (0x8000 + of_nat k) = 0" by (simp add: page_words_def)
qed

lemma demo_loader_ready: "kernel_ready tiny_image tiny_context [tiny_header] 0 demo_loader"
proof -
  have N: "pps_pages 0 = 1" by (simp add: pps_pages_def page_size_val)
  have st: "ARCH_STACK_BOTTOM - ARCH_PAGE_SIZE = 0xFF7FF000" by (simp add: ARCH_STACK_BOTTOM_def page_size_val)
  have al: "aligned 0x6000" by (simp add: aligned_def)
  have "segment_loaded tiny_image 0x100000 tiny_header demo_loader"
    unfolding segment_loaded_def tiny_pages(1)
  proof (intro allI impI exI conjI)
    fix i :: nat assume "i < 4096 * 1"
    then have i: "i < 4096" by simp
    have h: "p_vaddr tiny_header = 0xE0100000" "p_filesz tiny_header = 2" "p_memsz tiny_header = 4"
        "CHECK_MFLG (p_flags tiny_header) PF_W \<noteq> 0" "file_at 0x100000 tiny_header i = 0x101000 + of_nat i"
      by (simp_all add: tiny_header_def CHECK_MFLG_def PF_W_def file_at_def)
    show "translate demo_loader False (p_vaddr tiny_header + of_nat i) = Some (0x6000 + of_nat i)"
      "translate demo_loader True (p_vaddr tiny_header + of_nat i) =
        (if CHECK_MFLG (p_flags tiny_header) PF_W \<noteq> 0 then Some (0x6000 + of_nat i) else None)"
      using start_pages(2) [OF i] by (simp_all add: demo_loader_def h)
    show "data_page in_use demo_loader (frame_of (0x6000 + of_nat i))"
      unfolding frame_of_offset [OF al i]
      by (simp add: data_page_def demo_loader_def start_table_frame in_use_def strip_bitmap_bit page_no_def)
    show "memory demo_loader (0x6000 + of_nat i) = tiny_image (file_at 0x100000 tiny_header i)" if "i < unat (p_filesz tiny_header)"
    proof -
      have "i = 0 \<or> i = 1" using that by (auto simp: h)
      then show ?thesis using demo_bytes(1) [OF i] by (auto simp: demo_loader_def h tiny_image_def)
    qed
    show "memory demo_loader (0x6000 + of_nat i) = 0" if "unat (p_filesz tiny_header) \<le> i \<and> p_filesz tiny_header \<noteq> p_memsz tiny_header"
      using demo_bytes(1) [OF i] that by (simp add: demo_loader_def h)
  qed
  moreover have "\<exists>a. \<forall>w. translate demo_loader w (0xE0101000 + of_nat k) = Some a" if "k < 4096" for k
    unfolding demo_loader_def by (intro exI [of _ "0x7000 + of_nat k"] allI start_pages(3) [OF that])
  moreover have "\<exists>a. (\<forall>w. translate demo_loader w (0xFF7FF000 + of_nat k) = Some a) \<and> memory demo_loader a = 0" if "k < 4096" for k
    unfolding demo_loader_def
    by (intro exI [of _ "0x8000 + of_nat k"]) (simp add: demo_bytes(2) [OF that] start_pages(4) [OF that])
  ultimately show ?thesis unfolding kernel_ready_def N st tiny_pages by (simp add: tiny_context_def)
qed

theorem kernel_image_intact_witness:
  "\<exists>s' a. kernel_main log_bus False demo_symbols demo_args demo_writes demo_start = Inr s'
    \<and> translate (ks_machine s') False 0xE0100001 = Some a \<and> memory (ks_machine s') a = 0xBB"
proof -
  have m: "ks_machine demo_start = with_pmm strip_pmm demo_loader" "la_bitmap demo_args = lm_alloc (frames demo_loader)"
    by (simp_all add: with_pmm_def demo_loader_def) (simp_all add: start_machine_def)
  have h: "header_ok tiny_header (img32 tiny_context)" "0xE0000000 \<le> p_vaddr tiny_header"
    by (simp_all add: header_ok_def tiny_header_def tiny_context_def aligned_def above_def CHECK_MFLG_def PF_W_def)
  have "translate demo_loader False (p_vaddr tiny_header + of_nat 1) \<notin>
      translate demo_loader True ` own_data False demo_symbols demo_args demo_writes strip_areas"
  proof
    assume "translate demo_loader False (p_vaddr tiny_header + of_nat 1) \<in>
      translate demo_loader True ` own_data False demo_symbols demo_args demo_writes strip_areas"
    then obtain v where v: "translate demo_loader False (0xE0100000 + of_nat 1) = translate demo_loader True v"
        "v \<in> demo_at 0x100 8192"
      using demo_own_data(2) by (auto simp: tiny_header_def)
    then obtain k where k: "0x100 \<le> k" "k < 8192"
        "translate demo_loader False (0xE0100000 + of_nat 1) = translate demo_loader True (0xE0100000 + of_nat k)"
      by (auto simp: demo_at_def)
    have "translate demo_loader False (0xE0100000 + of_nat 1) = Some (0x6000 + of_nat 1)"
        "translate demo_loader True (0xE0100000 + of_nat k) = Some (0x6000 + of_nat k)"
      unfolding demo_loader_def by (rule demo_pages, use k(2) in simp)+
    with k(3) have "Some (0x6000 + of_nat 1 :: u32) = Some (0x6000 + of_nat k)" by (simp only:)
    then have "(of_nat 1 :: u32) = of_nat k" by (simp del: of_nat_1)
    moreover have "(1 :: nat) < 2 ^ LENGTH(32)" "k < 2 ^ LENGTH(32)" using k by simp_all
    ultimately have "1 = k" using of_nat_inj_small by blast
    then show False using k(1) by simp
  qed
  then show ?thesis
    using kernel_image_intact [OF demo_loader_inv demo_loader_ready m demo_start_ok _ h, of 1 log_bus]
    by (auto simp: tiny_header_def file_at_def tiny_context_def tiny_image_def)
qed

end
