(* ===== verification/StackTrace.thy ===== *)
theory StackTrace
  imports Elf Arch
begin

text \<open>
  The stack trace of \<open>arch/x86/strace.cc\<close>: it follows the saved frame pointers through the page below
  \<open>ARCH_STACK_BOTTOM\<close> and prints a line for each return address, with the symbol the kernel's ELF
  context gives. The memory is the one \<open>printf\<close> leaves unchanged: the frames of the callers. What is
  printed is the list of the \<open>printf\<close> calls. The loop ends only when a saved frame pointer leaves the
  page, so it is a \<open>partial_function\<close>; the lemmas say exactly when it returns.
\<close>

section \<open>Definitions\<close>

datatype trace_call = Printf string "log_arg list"

definition in_stack :: "addr \<Rightarrow> bool" where
  "in_stack ebp \<longleftrightarrow> ebp < ARCH_STACK_BOTTOM \<and> ebp > ARCH_STACK_BOTTOM - ARCH_PAGE_SIZE"

definition trace_line :: "mem \<Rightarrow> elf_context \<Rightarrow> int \<Rightarrow> addr \<Rightarrow> trace_call" where
  "trace_line m ctx i ebp =
     (let eip = ld32 m (ebp + 4);
          sym_addr = get_symbol_addr32 m eip ctx;
          sym_name = (if sym_addr < ARCH_VIRT_BASE then Chars ''???''
                      else Str (get_symbol_name32 m eip ctx))
      in if i = 0
         then Printf (''Call generated from 0x%08X - %s() + %d'' @ NL) [Num sym_addr, sym_name, Num (eip - sym_addr)]
         else Printf (''  (stacktrace) from 0x%08X - %s() + %d'' @ NL) [Num sym_addr, sym_name, Num (eip - sym_addr)])"

partial_function (option) trace_loop ::
    "mem \<Rightarrow> elf_context \<Rightarrow> addr \<Rightarrow> int \<Rightarrow> trace_call list option" where
  [code]: "trace_loop m ctx ebp i =
     (if in_stack ebp
      then Option.bind (trace_loop m ctx (ld32 m ebp) (i + 1))
             (\<lambda>out. Some (trace_line m ctx i ebp # out))
      else Some [])"

text \<open>\<open>aEBP_at\<close> is the address of the parameter \<open>aEBP\<close> itself, two words above the frame of
  \<open>CallStackTrace\<close>.\<close>

definition CallStackTrace :: "mem \<Rightarrow> elf_context \<Rightarrow> addr \<Rightarrow> addr \<Rightarrow> bool \<Rightarrow> trace_call list option" where
  "CallStackTrace m ctx aEBP_at aEBP aBOOL =
     (let ebp = (if aBOOL then aEBP_at - 2 * 4 else aEBP)
      in Option.bind (trace_loop m ctx ebp 0)
           (\<lambda>out. Some (Printf (''StackTrace (ebp): 0x%X'' @ NL) [Num ebp] # out)))"

section \<open>The frames visited\<close>

definition caller :: "mem \<Rightarrow> addr \<Rightarrow> nat \<Rightarrow> addr" where
  "caller m ebp k = (ld32 m ^^ k) ebp"

lemma caller_0 [simp]: "caller m ebp 0 = ebp"
  by (simp add: caller_def)

lemma caller_Suc: "caller m ebp (Suc k) = caller m (ld32 m ebp) k"
  by (simp add: caller_def funpow_swap1)

lemma trace_loop_returns:
  assumes "\<not> in_stack (caller m ebp n)" and "\<And>k. k < n \<Longrightarrow> in_stack (caller m ebp k)"
  shows "trace_loop m ctx ebp i = Some (map (\<lambda>k. trace_line m ctx (i + int k) (caller m ebp k)) [0 ..< n])"
  using assms
proof (induction n arbitrary: ebp i)
  case 0
  then show ?case by (subst trace_loop.simps) simp
next
  case (Suc n)
  have "trace_loop m ctx (ld32 m ebp) (i + 1) =
      Some (map (\<lambda>k. trace_line m ctx (i + 1 + int k) (caller m (ld32 m ebp) k)) [0 ..< n])"
    using Suc.prems(1) Suc.prems(2) [of "Suc _"] by (intro Suc.IH) (simp_all add: caller_Suc)
  moreover have "in_stack ebp" using Suc.prems(2) [of 0] by simp
  ultimately show ?case
    by (subst trace_loop.simps)
      (simp del: upt_Suc add: upt_conv_Cons caller_Suc add.assoc flip: map_Suc_upt)
qed

text \<open>What the loop has returned is one line per frame, and the frame after the last is outside.\<close>

lemma trace_loop_left:
  "trace_loop m ctx ebp i = Some out \<Longrightarrow> \<not> in_stack (caller m ebp (length out))"
proof (induction out arbitrary: ebp i)
  case Nil
  then show ?case by (subst (asm) trace_loop.simps) (auto split: if_splits Option.bind_splits)
next
  case (Cons l out)
  then have "trace_loop m ctx (ld32 m ebp) (i + 1) = Some out"
    by (subst (asm) trace_loop.simps) (auto split: if_splits Option.bind_splits)
  then show ?case using Cons.IH by (simp add: caller_Suc)
qed

lemma trace_loop_None:
  "trace_loop m ctx ebp i = None \<longleftrightarrow> (\<forall>k. in_stack (caller m ebp k))"
proof
  show "\<forall>k. in_stack (caller m ebp k) \<Longrightarrow> trace_loop m ctx ebp i = None"
    by (cases "trace_loop m ctx ebp i") (auto dest: trace_loop_left)
next
  assume none: "trace_loop m ctx ebp i = None"
  show "\<forall>k. in_stack (caller m ebp k)"
  proof (rule ccontr)
    assume "\<not> (\<forall>k. in_stack (caller m ebp k))"
    then obtain n where "\<not> in_stack (caller m ebp n)" "\<forall>k < n. in_stack (caller m ebp k)"
      using exists_least_iff [of "\<lambda>n. \<not> in_stack (caller m ebp n)"] by auto
    then show False using trace_loop_returns [of m ebp n ctx i] none by auto
  qed
qed

section \<open>How many frames\<close>

text \<open>The memory does not change, so a frame seen twice comes back for ever.\<close>

lemma caller_repeats:
  assumes "caller m ebp j = caller m ebp k"
  shows "caller m ebp (j + n) = caller m ebp (k + n)"
  using assms by (simp add: caller_def add.commute [of _ n] funpow_add)

lemma caller_distinct:
  assumes "\<not> in_stack (caller m ebp n)" and "\<And>k. k < n \<Longrightarrow> in_stack (caller m ebp k)"
  shows "inj_on (caller m ebp) {..< n}"
proof (rule linorder_inj_onI')
  fix j k assume jk: "j \<in> {..< n}" "k \<in> {..< n}" "j < k"
  show "caller m ebp j \<noteq> caller m ebp k"
  proof
    assume "caller m ebp j = caller m ebp k"
    then have "caller m ebp (j + (n - k)) = caller m ebp (k + (n - k))" by (rule caller_repeats)
    moreover have "in_stack (caller m ebp (j + (n - k)))" using jk by (intro assms(2)) auto
    ultimately show False using assms(1) jk by simp
  qed
qed

lemma in_stack_iff: "in_stack a \<longleftrightarrow> a \<in> {0xFF7FF001 .. 0xFF7FFFFF}"
proof -
  have "a < (0xFF800000 :: u32) \<longleftrightarrow> a \<le> 0xFF7FFFFF" by (simp add: word_less_nat_alt word_le_nat_alt; arith)
  moreover have "a > (0xFF7FF000 :: u32) \<longleftrightarrow> 0xFF7FF001 \<le> a" by (simp add: word_less_nat_alt word_le_nat_alt; arith)
  ultimately show ?thesis by (simp add: in_stack_def ARCH_STACK_BOTTOM_def page_size_val conj_commute)
qed

lemma frames_bound:
  assumes "\<not> in_stack (caller m ebp n)" and "\<And>k. k < n \<Longrightarrow> in_stack (caller m ebp k)"
  shows "n \<le> 4095"
proof -
  have "unat ` caller m ebp ` {..< n} \<subseteq> {0xFF7FF001 .. 0xFF7FFFFF}"
    using assms(2) by (force simp: in_stack_iff word_le_nat_alt)
  then have "card (unat ` caller m ebp ` {..< n}) \<le> card {0xFF7FF001 .. 0xFF7FFFFF :: nat}"
    by (rule card_mono [rotated]) simp
  moreover have "card (unat ` caller m ebp ` {..< n}) = n"
    using card_image [OF caller_distinct [OF assms]] by (subst card_image) (simp_all add: inj_on_def unsigned_word_eqI)
  ultimately show ?thesis by simp
qed

lemma frames_end:
  assumes "\<not> in_stack (caller m ebp k)"
  obtains n where "n \<le> k" and "\<not> in_stack (caller m ebp n)" and "\<And>j. j < n \<Longrightarrow> in_stack (caller m ebp j)"
    and "n \<le> 4095"
proof -
  let ?n = "LEAST n. \<not> in_stack (caller m ebp n)"
  have "?n \<le> k" "\<not> in_stack (caller m ebp ?n)" "j < ?n \<Longrightarrow> in_stack (caller m ebp j)" for j
    using LeastI [of "\<lambda>n. \<not> in_stack (caller m ebp n)", OF assms] assms
    by (auto intro: Least_le dest: not_less_Least)
  then show thesis using that frames_bound by blast
qed

section \<open>Properties\<close>

text \<open>C35. The trace lists the frames \<open>ebp\<close>, \<open>ebp[0]\<close>, \<open>ebp[0][0]\<close>, ... in order up to the first outside
  the stack page, each with the return address above it, and it lists at most 4095 of them.\<close>

theorem CallStackTrace_lists:
  assumes "ebp = (if aBOOL then aEBP_at - 8 else aEBP)"
    and "\<not> in_stack (caller m ebp n)" and "\<And>k. k < n \<Longrightarrow> in_stack (caller m ebp k)"
  shows "CallStackTrace m ctx aEBP_at aEBP aBOOL =
      Some (Printf (''StackTrace (ebp): 0x%X'' @ NL) [Num ebp]
        # map (\<lambda>k. trace_line m ctx (int k) (caller m ebp k)) [0 ..< n]) \<and> n \<le> 4095"
proof -
  have "trace_loop m ctx ebp 0 = Some (map (\<lambda>k. trace_line m ctx (int k) (caller m ebp k)) [0 ..< n])"
    using trace_loop_returns [OF assms(2,3), of ctx 0] by simp
  then show ?thesis using frames_bound [OF assms(2,3)]
    by (auto simp: CallStackTrace_def Let_def assms(1))
qed

definition trace_demo_memory :: mem where
  "trace_demo_memory = bytes_at
     [(0xFF7FFF00, [0x80, 0xFF, 0x7F, 0xFF, 0x34, 0x12, 0x00, 0xE0]), (0xFF7FFF80, [0, 0, 0, 0, 0x78, 0x56, 0, 0xE0])]"

definition trace_demo_context :: elf_context where
  "trace_demo_context =
     \<lparr>img32 = 0x1000, shdr32 = 0x1000, phdr32 = 0x1000, symtab32 = 0x1000, strtab32 = 0x1000\<rparr>"

lemma trace_demo:
  "ld32 trace_demo_memory 0xFF7FFF00 = 0xFF7FFF80" "ld32 trace_demo_memory 0xFF7FFF80 = 0"
  "ld32 trace_demo_memory 0xFF7FFF04 = 0xE0001234" "ld32 trace_demo_memory 0xFF7FFF84 = 0xE0005678"
  "get_symbol_addr32 trace_demo_memory a trace_demo_context = 0"
  by (simp_all add: trace_demo_memory_def trace_demo_context_def bytes_at_def ld32_def Let_def
      get_symbol_addr32_def ld_shdr_def)

theorem CallStackTrace_lists_witness:
  "CallStackTrace trace_demo_memory trace_demo_context 0xFF7FFF08 0 True =
     Some [Printf (''StackTrace (ebp): 0x%X'' @ NL) [Num 0xFF7FFF00],
       Printf (''Call generated from 0x%08X - %s() + %d'' @ NL) [Num 0, Chars ''???'', Num 0xE0001234],
       Printf (''  (stacktrace) from 0x%08X - %s() + %d'' @ NL) [Num 0, Chars ''???'', Num 0xE0005678]]"
proof -
  have up: "caller trace_demo_memory 0xFF7FFF00 1 = 0xFF7FFF80" "caller trace_demo_memory 0xFF7FFF00 2 = 0"
    by (simp_all add: caller_def trace_demo numeral_2_eq_2)
  have "\<not> in_stack (caller trace_demo_memory 0xFF7FFF00 2)" by (simp add: up in_stack_iff)
  moreover have "k < 2 \<Longrightarrow> in_stack (caller trace_demo_memory 0xFF7FFF00 k)" for k
    using up by (auto simp: less_2_cases_iff in_stack_iff)
  ultimately have "CallStackTrace trace_demo_memory trace_demo_context 0xFF7FFF08 0 True =
      Some (Printf (''StackTrace (ebp): 0x%X'' @ NL) [Num 0xFF7FFF00]
        # map (\<lambda>k. trace_line trace_demo_memory trace_demo_context (int k)
            (caller trace_demo_memory 0xFF7FFF00 k)) [0 ..< 2])"
    by (rule CallStackTrace_lists [THEN conjunct1, rotated 1]) simp_all
  moreover have "[0 ..< 2] = [0, 1 :: nat]" by (simp add: upt_conv_Cons)
  moreover have "(0 :: u32) < ARCH_VIRT_BASE" by (simp add: ARCH_VIRT_BASE_def)
  ultimately show ?thesis by (simp add: up [simplified] trace_line_def trace_demo Let_def)
qed

text \<open>The trace returns if and only if one of the first 4095 callers of its frame is outside the stack
  page; otherwise some frame is its own caller at some distance and the trace prints for ever.\<close>

theorem CallStackTrace_returns:
  "(\<exists>out. CallStackTrace m ctx aEBP_at aEBP aBOOL = Some out) =
     (\<exists>n \<le> 4095. \<not> in_stack (caller m (if aBOOL then aEBP_at - 8 else aEBP) n))" (is "?l = ?r")
proof -
  let ?ebp = "if aBOOL then aEBP_at - 8 else aEBP"
  have "?l \<longleftrightarrow> trace_loop m ctx ?ebp 0 \<noteq> None"
    by (cases "trace_loop m ctx ?ebp 0") (simp_all add: CallStackTrace_def Let_def split: if_splits)
  also have "\<dots> \<longleftrightarrow> ?r" unfolding trace_loop_None by (meson frames_end)
  finally show ?thesis .
qed

text \<open>When every frame of the stack page was saved by a caller above it, as calls leave them, the trace
  returns.\<close>

theorem CallStackTrace_upward:
  assumes "\<And>a. in_stack a \<Longrightarrow> a < ld32 m a"
  shows "\<exists>out. CallStackTrace m ctx aEBP_at aEBP aBOOL = Some out"
proof -
  have "trace_loop m ctx ebp 0 \<noteq> None" for ebp
  proof
    assume "trace_loop m ctx ebp 0 = None"
    then have "caller m ebp k < caller m ebp (Suc k)" for k
      using assms by (simp add: trace_loop_None) (simp add: caller_def)
    then have "unat ebp + k \<le> unat (caller m ebp k)" for k
      by (induction k) (simp_all add: word_less_nat_alt Suc_le_eq less_le_trans le_less_trans)
    from this [of "2 ^ 32"] show False using unsigned_less [of "caller m ebp (2 ^ 32)", where ?'a = nat] by simp
  qed
  then show ?thesis by (simp add: CallStackTrace_def Let_def bind_eq_Some_conv not_None_eq)
qed

theorem CallStackTrace_upward_witness:
  "\<exists>out. CallStackTrace (\<lambda>_. 0xFF) trace_demo_context 0xFF7FFF08 0 True = Some out"
proof (rule CallStackTrace_upward)
  fix a assume "in_stack a"
  then have "a \<le> 0xFF7FFFFF" by (simp add: in_stack_iff)
  then have "a < 0xFFFFFFFF" by (rule order.strict_trans1) simp
  also have "0xFFFFFFFF = ld32 (\<lambda>_. 0xFF) a" by (simp add: ld32_def)
  finally show "a < ld32 (\<lambda>_. 0xFF) a" .
qed

end
