(* ===== verification/Runtime.thy ===== *)
theory Runtime
  imports Slab
begin

text \<open>
  What the compiler's code calls: \<open>lib/ebl/alloc.cc\<close>, where every form of \<open>operator new\<close> and
  \<open>operator delete\<close> is \<open>kmalloc\<close> and \<open>kfree\<close>, and \<open>lib/ebl/icxxabi.cc\<close>, with the guards of
  function-local statics. A guard is a 64-bit word of which only the first byte is used.
  \<open>guarded\<close> is the sequence the compiler emits around such a static's initialiser.
\<close>

definition operator_new :: "addr \<Rightarrow> addr \<Rightarrow> u32 \<Rightarrow> kmem \<Rightarrow> kerror + (addr \<times> kmem)" where
  "operator_new ubxela stk sz s = kmalloc ubxela stk sz s"

definition operator_new_array :: "addr \<Rightarrow> addr \<Rightarrow> u32 \<Rightarrow> kmem \<Rightarrow> kerror + (addr \<times> kmem)" where
  "operator_new_array ubxela stk sz s = kmalloc ubxela stk sz s"

definition operator_delete :: "addr \<Rightarrow> addr \<Rightarrow> kmem \<Rightarrow> kerror + kmem" where
  "operator_delete ubxela p s = kfree ubxela p s"

definition operator_delete_array :: "addr \<Rightarrow> addr \<Rightarrow> kmem \<Rightarrow> kerror + kmem" where
  "operator_delete_array ubxela p s = kfree ubxela p s"

definition operator_delete_sized :: "addr \<Rightarrow> addr \<Rightarrow> u32 \<Rightarrow> kmem \<Rightarrow> kerror + kmem" where
  "operator_delete_sized ubxela p sz s = kfree ubxela p s"

definition operator_delete_array_sized :: "addr \<Rightarrow> addr \<Rightarrow> u32 \<Rightarrow> kmem \<Rightarrow> kerror + kmem" where
  "operator_delete_array_sized ubxela p sz s = kfree ubxela p s"

definition cxa_guard_acquire :: "addr \<Rightarrow> mem \<Rightarrow> u32" where
  "cxa_guard_acquire g m = (if m g = 0 then 1 else 0)"

definition cxa_guard_release :: "addr \<Rightarrow> mem \<Rightarrow> mem" where
  "cxa_guard_release g m = st8 g 1 m"

definition cxa_guard_abort :: "addr \<Rightarrow> mem \<Rightarrow> mem" where
  "cxa_guard_abort g m = m"

definition cxa_atexit :: "addr \<Rightarrow> addr \<Rightarrow> addr \<Rightarrow> mem \<Rightarrow> u32 \<times> mem" where
  "cxa_atexit f objptr dso m = (0, m)"

definition cxa_finalize :: "addr \<Rightarrow> mem \<Rightarrow> mem" where
  "cxa_finalize f m = m"

definition cxa_pure_virtual :: "mem \<Rightarrow> kerror + mem" where
  "cxa_pure_virtual m = Inl Panicked"

definition guarded :: "addr \<Rightarrow> (mem \<Rightarrow> kerror + mem) \<Rightarrow> mem \<Rightarrow> kerror + mem" where
  "guarded g init m =
     (if cxa_guard_acquire g m = 0 then Inr m
      else bind_res (init m) (\<lambda>m. Inr (cxa_guard_release g m)))"

text \<open>A guarded initialiser runs the first time and never again, as long as nothing writes the first byte
  of its guard.\<close>

lemma guarded_first:
  "m g = 0 \<Longrightarrow> init m = Inr m' \<Longrightarrow> guarded g init m = Inr (m'(g := 1))"
  by (simp add: guarded_def cxa_guard_acquire_def cxa_guard_release_def st8_def)

lemma guarded_again:
  assumes "guarded g init m = Inr m'" and "m'' g = m' g"
  shows "guarded g init' m'' = Inr m''"
proof -
  have "m' g \<noteq> 0"
    using assms(1)
    by (auto simp: guarded_def cxa_guard_acquire_def cxa_guard_release_def st8_def bind_res_Inr_conv split: if_splits)
  with assms(2) show ?thesis by (simp add: guarded_def cxa_guard_acquire_def)
qed

end
