(* ===== verification/PaeArith.thy ===== *)
theory PaeArith
  imports PageArith
begin

text \<open>
  The 64-bit entries of PAE tables, as pairs of the words of \<open>PageArith\<close>, and the arithmetic of
  virtual addresses under the three-level scheme. A page table is named by its slot: the number of
  its directory entry among the 2048 of the four directories.
\<close>

section \<open>Entries\<close>

definition entry64_at :: "u32 \<Rightarrow> u32 \<Rightarrow> addr" where
  "entry64_at table i = table + 8 * i"

definition st64 :: "addr \<Rightarrow> u64 \<Rightarrow> mem \<Rightarrow> mem" where
  "st64 a v m = st32 (a + 4) (ucast (drop_bit 32 v)) (st32 a (ucast v) m)"

text \<open>The frame an entry points to: bits 12 to 51.\<close>

definition frame64 :: "u64 \<Rightarrow> u64" where
  "frame64 e = e AND push_bit 12 (mask 40)"

lemma entry64_words: "entry64_at b i = entry_at b (2 * i)" "entry64_at b i + 4 = entry_at b (2 * i + 1)"
  by (simp_all add: entry64_at_def entry_at_def algebra_simps)

lemma entry64_offset: "entry64_at b i = b + of_nat (8 * unat i)"
  by (simp add: entry64_at_def)

lemma unat_double:
  assumes "unat (i :: u32) < 512"
  shows "unat (2 * i) = 2 * unat i" "unat (2 * i + 1) = 2 * unat i + 1"
proof -
  have "2 * i = of_nat (2 * unat i)" "2 * i + 1 = of_nat (2 * unat i + 1)" by simp_all
  moreover have "unat (of_nat (2 * unat i) :: u32) = 2 * unat i"
    using assms by (intro unat_of_nat_small) simp
  moreover have "unat (of_nat (2 * unat i + 1) :: u32) = 2 * unat i + 1"
    using assms by (intro unat_of_nat_small) simp
  ultimately show "unat (2 * i) = 2 * unat i" "unat (2 * i + 1) = 2 * unat i + 1" by (simp_all only:)
qed

lemma double_cases:
  assumes "unat (i :: u32) < 512" "unat (j :: u32) < 512"
  shows "2 * i = 2 * j \<longleftrightarrow> i = j" "2 * i \<noteq> 2 * j + 1" "2 * i + 1 \<noteq> 2 * j"
    "unat (2 * i) < 1024" "unat (2 * i + 1) < 1024"
  using assms by (simp_all only: word_unat_eq_iff unat_double) presburger+

lemma ld64_entry:
  "ld64 m (entry64_at b i) =
     ucast (ld32 m (entry_at b (2 * i))) OR push_bit 32 (ucast (ld32 m (entry_at b (2 * i + 1))))"
  unfolding ld64_def entry64_words(2) unfolding entry64_words(1) ..

lemma st64_entry:
  "st64 (entry64_at b i) x m =
     st32 (entry_at b (2 * i + 1)) (ucast (drop_bit 32 x)) (st32 (entry_at b (2 * i)) (ucast x) m)"
  unfolding st64_def entry64_words(2) unfolding entry64_words(1) ..

lemma join_words64: "(ucast (ucast x :: u32) :: u64) OR push_bit 32 (ucast (ucast (drop_bit 32 x) :: u32)) = x"
  by (rule bit_word_eqI) (auto simp: bit_simps)

lemma ld64_st64:
  assumes "aligned b" "unat i < 512"
  shows "ld64 (st64 (entry64_at b i) x m) (entry64_at b i) = x"
proof -
  note d = double_cases [OF assms(2) assms(2)]
  show ?thesis
    unfolding ld64_entry st64_entry
    by (simp add: ld32_entry_other assms d join_words64 del: mult_cancel_left)
qed

lemma ld64_other:
  assumes "aligned b" "aligned b'" "unat i < 512" "unat i' < 512" "b \<noteq> b' \<or> i \<noteq> i'"
  shows "ld64 (st64 (entry64_at b' i') x m) (entry64_at b i) = ld64 m (entry64_at b i)"
proof -
  have "ld32 (st32 (entry_at b' j) y m) (entry_at b k) = ld32 m (entry_at b k)"
    if "j \<in> {2 * i', 2 * i' + 1}" "k \<in> {2 * i, 2 * i + 1}" for j k y m
    using assms that double_cases [OF assms(3,4)] double_cases [OF assms(4,3)]
    by (intro ld32_entry_other) auto
  then show ?thesis unfolding ld64_entry st64_entry by simp
qed

lemma ld64_fill_other:
  assumes "aligned b" "aligned b'" "b \<noteq> b'" "unat i < 512" "n \<le> 4096"
  shows "ld64 (fill_up b' c n m) (entry64_at b i) = ld64 m (entry64_at b i)"
  unfolding ld64_entry using assms double_cases [OF assms(4,4)] by (simp add: ld32_entry_fill_other)

lemma ld64_zeroed:
  assumes "unat i < 512"
  shows "ld64 (fill_up b 0 4096 m) (entry64_at b i) = 0"
  unfolding ld64_entry using double_cases [OF assms assms] by (simp add: ld32_entry_zeroed)

section \<open>Virtual addresses\<close>

text \<open>The slot of a virtual address and its index in the page table.\<close>

definition slot :: "addr \<Rightarrow> nat" where
  "slot v = unat v div 2097152"

definition tindex :: "addr \<Rightarrow> nat" where
  "tindex v = unat v div 4096 mod 512"

lemma slot_bounds: "slot v < 2048" "slot v div 512 < 4" "slot v mod 512 < 512" "tindex v < 512"
  unfolding slot_def tindex_def using unat_u32 [of v] by simp_all

lemma small_masks: "(0x3 :: u32) = mask 2" "(0x1FF :: u32) = mask 9"
  by (simp_all add: mask_eq_exp_minus_1)

lemma unat_pae_indices:
  "unat (ARCH_PAE_GET_PDPT_IDX v) = slot v div 512"
  "unat (ARCH_PAE_GET_PD_IDX v) = slot v mod 512"
  "unat (ARCH_PAE_GET_PT_IDX v) = tindex v"
proof -
  have "unat v div 2 ^ 30 < 4" using unat_u32 [of v] by simp
  moreover have "unat v div 2097152 div 512 = unat v div 2 ^ 30" by (simp add: div_mult2_eq [symmetric])
  ultimately show "unat (ARCH_PAE_GET_PDPT_IDX v) = slot v div 512"
    unfolding ARCH_PAE_GET_PDPT_IDX_def small_masks unat_and_mask slot_def
    by (simp add: unat_drop_bit_eq drop_bit_eq_div unat_div_distrib)
  show "unat (ARCH_PAE_GET_PD_IDX v) = slot v mod 512" "unat (ARCH_PAE_GET_PT_IDX v) = tindex v"
    unfolding ARCH_PAE_GET_PD_IDX_def ARCH_PAE_GET_PT_IDX_def small_masks unat_and_mask slot_def tindex_def
    by (simp_all add: unat_drop_bit_eq drop_bit_eq_div unat_div_distrib)
qed

lemma low_bits:
  assumes "unat (x :: u32) < 2 ^ n" "bit x j" shows "j < n"
proof (rule ccontr)
  assume "\<not> j < n"
  have "x = take_bit n x" using assms(1)
    by (simp only: word_unat_eq_iff unsigned_take_bit_eq) (simp add: take_bit_nat_eq_self)
  then have "bit (take_bit n x) j" using assms(2) by simp
  with \<open>\<not> j < n\<close> show False by (simp add: bit_take_bit_iff)
qed

lemma unat_push:
  assumes "unat (x :: u32) < 2 ^ n" "n + k \<le> 32"
  shows "unat (push_bit k x) = unat x * 2 ^ k"
proof -
  have "unat x * 2 ^ k < 2 ^ n * 2 ^ k" using assms(1) by simp
  also have "(2 :: nat) ^ n * 2 ^ k \<le> 2 ^ 32" unfolding power_add [symmetric] using assms(2) by (intro power_increasing) auto
  finally have lt: "unat x * 2 ^ k < 2 ^ 32" .
  have "push_bit k x = of_nat (unat x * 2 ^ k)" by (simp add: push_bit_eq_mult)
  moreover have "unat (of_nat (unat x * 2 ^ k) :: u32) = unat x * 2 ^ k"
    using lt by (intro unat_of_nat_small) simp
  ultimately show ?thesis by (simp only:)
qed

lemma pae_virt_unat:
  assumes "unat pp < 4" "unat pd < 512" "unat pt < 512" "k < 4096"
  shows "unat (ARCH_PAE_GET_VIRT pp pd pt + of_nat k) = 1073741824 * unat pp + 2097152 * unat pd + 4096 * unat pt + k"
proof -
  have b: "bit pp j \<Longrightarrow> j < 2" "bit pd j \<Longrightarrow> j < 9" "bit pt j \<Longrightarrow> j < 9" for j
    using low_bits [of pp 2 j] low_bits [of pd 9 j] low_bits [of pt 9 j] assms by simp_all
  have d1: "push_bit 30 pp AND push_bit 21 pd = 0" "(push_bit 30 pp OR push_bit 21 pd) AND push_bit 12 pt = 0"
    by (rule bit_word_eqI; use b in \<open>force simp: bit_simps\<close>)+
  have v: "ARCH_PAE_GET_VIRT pp pd pt = push_bit 30 pp + push_bit 21 pd + push_bit 12 pt"
    unfolding ARCH_PAE_GET_VIRT_def by (simp only: disjunctive_add_eq_or d1 or.assoc)
  have p: "unat (push_bit 30 pp) = unat pp * 1073741824" "unat (push_bit 21 pd) = unat pd * 2097152"
      "unat (push_bit 12 pt) = unat pt * 4096"
    using unat_push [of pp 2 30] unat_push [of pd 9 21] unat_push [of pt 9 12] assms by simp_all
  have "ARCH_PAE_GET_VIRT pp pd pt + of_nat k =
      of_nat (1073741824 * unat pp + 2097152 * unat pd + 4096 * unat pt + k)"
    unfolding v by (simp add: push_bit_eq_mult)
  moreover have "1073741824 * unat pp + 2097152 * unat pd + 4096 * unat pt + k < 2 ^ LENGTH(32)"
    using assms by simp
  ultimately show ?thesis by (simp only: unat_of_nat_small)
qed

lemma pae_virt_parts:
  assumes "unat pp < 4" "unat pd < 512" "unat pt < 512" "k < 4096"
  shows "slot (ARCH_PAE_GET_VIRT pp pd pt + of_nat k) = 512 * unat pp + unat pd"
    "tindex (ARCH_PAE_GET_VIRT pp pd pt + of_nat k) = unat pt"
    "ARCH_PAE_GET_VIRT pp pd pt + of_nat k AND 0xFFF = of_nat k"
proof -
  let ?n = "512 * unat pp + unat pd"
  have e: "unat (ARCH_PAE_GET_VIRT pp pd pt + of_nat k) = (512 * ?n + unat pt) * 4096 + k"
    unfolding pae_virt_unat [OF assms] by simp
  have d: "(x * 4096 + k) div 4096 = x" "(x * 4096 + k) mod 4096 = k" for x
    using assms(4) by simp_all
  have "slot (ARCH_PAE_GET_VIRT pp pd pt + of_nat k) = (512 * ?n + unat pt) div 512"
    unfolding slot_def e by (subst (2) d(1) [symmetric]) (simp only: div_mult2_eq [symmetric], simp)
  then show "slot (ARCH_PAE_GET_VIRT pp pd pt + of_nat k) = ?n" using assms(3) by simp
  show "tindex (ARCH_PAE_GET_VIRT pp pd pt + of_nat k) = unat pt"
    unfolding tindex_def e d mod_mult_self3 mod_mult_self4 using assms(3) by (simp only: mod_mult_self4 mod_less)
  show "ARCH_PAE_GET_VIRT pp pd pt + of_nat k AND 0xFFF = of_nat k"
    unfolding word_unat_eq_iff unat_indices(3) e d(2) using assms(4) by (simp add: unat_of_nat)
qed

lemma pae_same_page:
  "frame_of v = frame_of u \<longleftrightarrow> slot v = slot u \<and> tindex v = tindex u"
proof -
  have "x - x mod 4096 = 4096 * (x div 4096)" for x :: nat by (simp add: minus_mod_eq_mult_div)
  then have "frame_of v = frame_of u \<longleftrightarrow> unat v div 4096 = unat u div 4096"
    by (simp add: word_unat_eq_iff frame_of_unat)
  also have "\<dots> \<longleftrightarrow> unat v div 4096 div 512 = unat u div 4096 div 512 \<and>
      unat v div 4096 mod 512 = unat u div 4096 mod 512"
    by (metis div_mult_mod_eq)
  finally show ?thesis by (simp add: slot_def tindex_def div_mult2_eq [symmetric])
qed

section \<open>Frames below 4 GiB\<close>

text \<open>An entry made of an aligned 32-bit frame and flags of the low twelve bits or the execute-disable bit.\<close>

lemma frame64_bit: "bit (frame64 e) j \<longleftrightarrow> bit e j \<and> 12 \<le> j \<and> j < 52"
  by (auto simp: frame64_def bit_simps)

lemma aligned_bits: "aligned b \<Longrightarrow> bit b j \<Longrightarrow> 12 \<le> j"
proof (rule ccontr)
  assume b: "aligned b" "bit b j" "\<not> 12 \<le> j"
  have "b AND mask 12 = 0" using b(1) by (simp add: aligned_def masks)
  then have "bit (b AND mask 12) j = bit (0 :: u32) j" by (rule arg_cong)
  with b show False by (simp only: bit_and_iff bit_mask_iff bit_0_eq bot_apply) simp
qed

lemma frame64_or:
  assumes "aligned b" "\<And>j. bit fl j \<Longrightarrow> j < 12 \<or> j = 63"
  shows "frame64 (ucast b OR fl) = ucast b"
proof (rule bit_word_eqI)
  fix j assume "j < LENGTH(64)"
  show "bit (frame64 (ucast b OR fl)) j = bit (ucast b :: u64) j"
    using assms(2) [of j] aligned_bits [OF assms(1), of j] bit_imp_le_length [of b j]
    by (auto simp: frame64_bit bit_simps)
qed

lemma three_bits: "bit (3 :: u64) j \<Longrightarrow> j < 12 \<or> j = 63"
proof -
  have eq: "(3 :: u64) = mask 2" by (simp add: mask_eq_exp_minus_1)
  show "bit (3 :: u64) j \<Longrightarrow> j < 12 \<or> j = 63" unfolding eq by (simp add: bit_mask_iff)
qed

lemma frame64_or_3: "aligned b \<Longrightarrow> frame64 (ucast b OR 3) = ucast b"
  using frame64_or three_bits by blast

end
