(* ===== verification/PagingPae.thy ===== *)
theory PagingPae
  imports KernelPaging PaeArith
begin

text \<open>
  Paging with PAE, the \<open>WITH_PAE\<close> build: the classes \<open>Mmu32PaeImpl\<close> of \<open>loader/x86/mmu.cc\<close> and
  \<open>arch/x86/32/mmu.cc\<close>. The processor walks three levels of 64-bit entries from the four entries of
  \<open>pdpt\<close>, which it has loaded when paging was turned on; entries with a reserved bit (52 to 62) set
  fault. The physical memory of the model ends at 4 GiB: an access above it is \<open>Out_of_bounds\<close>.
\<close>

section \<open>The processor\<close>

definition CR4_PAE :: u32 where "CR4_PAE = push_bit 5 1"
definition PDP_PR :: u64 where "PDP_PR = push_bit 0 1"
definition PDE64 :: u64 where "PDE64 = push_bit 0 1 OR push_bit 1 1"
definition PG_PAE_FLAG_MASK :: u64 where "PG_PAE_FLAG_MASK = 0x11F"

record 'f pae_machine =
  pmemory :: mem
  pcr0 :: u32
  pcr3 :: u32
  pcr4 :: u32
  nxe :: bool
  pdpt :: "u64 list"
  pframes :: 'f

definition usable64 :: "bool \<Rightarrow> u64 \<Rightarrow> bool" where
  "usable64 write e \<longleftrightarrow> bit e 0 \<and> (write \<longrightarrow> bit e 1) \<and> e AND push_bit 52 (mask 11) = 0"

definition phys :: "u64 \<Rightarrow> kerror + addr" where
  "phys p = (if p < 0x100000000 then Inr (ucast p) else Inl Out_of_bounds)"

definition table_entry :: "mem \<Rightarrow> u64 \<Rightarrow> u32 \<Rightarrow> kerror + u64" where
  "table_entry m e i = bind_res (phys (frame64 e)) (\<lambda>t. Inr (ld64 m (entry64_at t i)))"

definition walk64 :: "mem \<Rightarrow> u64 list \<Rightarrow> bool \<Rightarrow> addr \<Rightarrow> kerror + u64" where
  "walk64 m D write v =
     (let pdpte = D ! unat (ARCH_PAE_GET_PDPT_IDX v) in
      if \<not> bit pdpte 0 then Inl Page_fault
      else bind_res (table_entry m pdpte (ARCH_PAE_GET_PD_IDX v)) (\<lambda>pde.
        if \<not> usable64 write pde then Inl Page_fault
        else bind_res (table_entry m pde (ARCH_PAE_GET_PT_IDX v)) (\<lambda>pte.
          if \<not> usable64 write pte then Inl Page_fault
          else Inr (frame64 pte + ucast (v AND 0xFFF)))))"

definition translate64 :: "'f pae_machine \<Rightarrow> bool \<Rightarrow> addr \<Rightarrow> kerror + u64" where
  "translate64 s write v = (if pcr0 s AND CR0_PG = 0 then Inr (ucast v) else walk64 (pmemory s) (pdpt s) write v)"

definition vld64 :: "addr \<Rightarrow> 'f pae_machine \<Rightarrow> kerror + u64" where
  "vld64 v s = bind_res (bind_res (translate64 s False v) phys) (\<lambda>p. Inr (ld64 (pmemory s) p))"

definition vst64 :: "addr \<Rightarrow> u64 \<Rightarrow> 'f pae_machine \<Rightarrow> kerror + 'f pae_machine" where
  "vst64 v x s = bind_res (bind_res (translate64 s True v) phys) (\<lambda>p. Inr (s\<lparr>pmemory := st64 p x (pmemory s)\<rparr>))"

definition vst_byte :: "addr \<Rightarrow> u8 \<Rightarrow> 'f pae_machine \<Rightarrow> kerror + 'f pae_machine" where
  "vst_byte v x s = bind_res (bind_res (translate64 s True v) phys) (\<lambda>p. Inr (s\<lparr>pmemory := st8 p x (pmemory s)\<rparr>))"

primrec vmemset64 :: "addr \<Rightarrow> u8 \<Rightarrow> nat \<Rightarrow> 'f pae_machine \<Rightarrow> kerror + 'f pae_machine" where
  "vmemset64 v c 0 s = Inr s"
| "vmemset64 v c (Suc n) s = bind_res (vst_byte v c s) (vmemset64 (v + 1) c n)"

section \<open>Mapping a page\<close>

definition new_table64 ::
    "(mem \<times> 'f \<Rightarrow> kerror + (phys_t \<times> mem \<times> 'f)) \<Rightarrow> addr \<Rightarrow> addr \<Rightarrow> 'f pae_machine \<Rightarrow> kerror + 'f pae_machine" where
  "new_table64 new_frame pde_at ptvd s =
     bind_res (new_frame (pmemory s, pframes s)) (\<lambda>(addr, m, f).
       let s = s\<lparr>pmemory := m, pframes := f\<rparr> in
       bind_res (vst64 pde_at (addr OR PDE64) s) (vmemset64 ptvd 0 4096))"

text \<open>\<open>nx\<close> is the result of \<open>x86_feature_test(x86_FEATURE_NX)\<close>.\<close>

definition Mmu32Pae_map ::
    "(mem \<times> 'f \<Rightarrow> kerror + (phys_t \<times> mem \<times> 'f)) \<Rightarrow> bool \<Rightarrow> u64 \<Rightarrow> u64 \<Rightarrow> u64 \<Rightarrow> 'f pae_machine
      \<Rightarrow> kerror + 'f pae_machine" where
  "Mmu32Pae_map new_frame nx a b c s =
     (let virt = (ucast a :: u32);
          flags = c AND (if nx then PTE_NX OR PG_PAE_FLAG_MASK else PG_PAE_FLAG_MASK);
          ppid = ARCH_PAE_GET_PDPT_IDX virt; pdid = ARCH_PAE_GET_PD_IDX virt; ptid = ARCH_PAE_GET_PT_IDX virt;
          rpage_dir = ARCH_PAE_GET_VIRT 3 511 (508 + ppid); ptvd = ARCH_PAE_GET_VIRT 3 (508 + ppid) pdid
      in bind_res (vld64 (entry64_at rpage_dir pdid) s) (\<lambda>e.
         bind_res (if e = 0 then new_table64 new_frame (entry64_at rpage_dir pdid) ptvd s else Inr s) (\<lambda>s.
         vst64 (entry64_at ptvd ptid) (ucast (ucast b :: u32) OR flags) s)))"

definition loader_pae_map :: "bool \<Rightarrow> u64 \<Rightarrow> u64 \<Rightarrow> u64 \<Rightarrow> loader_mm pae_machine \<Rightarrow> kerror + loader_mm pae_machine" where
  "loader_pae_map = Mmu32Pae_map (loader_frame False)"

definition kernel_pae_map :: "addr \<Rightarrow> bool \<Rightarrow> u64 \<Rightarrow> u64 \<Rightarrow> u64 \<Rightarrow> pmm pae_machine \<Rightarrow> kerror + pmm pae_machine" where
  "kernel_pae_map buf = Mmu32Pae_map (kernel_frame buf)"

section \<open>Enabling paging\<close>

text \<open>
  \<open>pdpt_at\<close> is the address of the array \<open>pdpt\<close>. A pointer cast to \<open>uint64_t\<close> is extended with its
  sign by the compiler, an integer of type \<open>phys_t\<close> is not: hence the \<open>scast\<close> of the two page tables.
\<close>

definition ident_entries64 :: "u32 \<Rightarrow> nat \<Rightarrow> nat \<Rightarrow> mem \<Rightarrow> mem" where
  "ident_entries64 pt lo n m = fold (\<lambda>i. st64 (entry64_at pt (of_nat i))
     (push_bit ARCH_PAGE_SHIFT (of_nat (lo + i)) OR PDE64)) [0 ..< n] m"

definition Mmu32Pae_enable :: "addr \<Rightarrow> loader_mm pae_machine \<Rightarrow> kerror + loader_mm pae_machine" where
  "Mmu32Pae_enable pdpt_at s =
     bind_res (loader_frame True (pmemory s, pframes s)) (\<lambda>(p0, m, f).
     bind_res (loader_frame True (m, f)) (\<lambda>(p1, m, f).
     bind_res (loader_frame True (m, f)) (\<lambda>(p2, m, f).
     bind_res (loader_frame True (m, f)) (\<lambda>(p3, m, f).
       let m = st64 (entry64_at (ucast p3) 508) (p0 OR PDE64) m;
           m = st64 (entry64_at (ucast p3) 509) (p1 OR PDE64) m;
           m = st64 (entry64_at (ucast p3) 510) (p2 OR PDE64) m;
           m = st64 (entry64_at (ucast p3) 511) (p3 OR PDE64) m in
     bind_res (loader_frame True (m, f)) (\<lambda>(a, m, f).
     bind_res (loader_frame True (m, f)) (\<lambda>(b, m, f).
       let pt0 = (ucast a :: u32); pt1 = (ucast b :: u32); pd0 = (ucast p0 :: u32);
           m = ident_entries64 pt0 0 512 m;
           m = ident_entries64 pt1 512 512 m;
           m = st64 (entry64_at pd0 0) (scast pt0 OR PDE64) m;
           m = st64 (entry64_at pd0 1) (scast pt1 OR PDE64) m
       in Inr (s\<lparr>pmemory := m, pframes := f, pdpt := [p0 OR PDP_PR, p1 OR PDP_PR, p2 OR PDP_PR, p3 OR PDP_PR],
                 pcr3 := pdpt_at, pcr4 := pcr4 s OR (CR4_PAE OR CR4_PGE), pcr0 := pcr0 s OR (CR0_PG OR CR0_WP)\<rparr>)))))))"

text \<open>
  \<open>enable_xd\<close> (\<open>loader/x86/start.asm\<close>) sets the bit and has no \<open>ret\<close>: control runs past the end of the file
  into the code the linker has put there, whose effect is the parameter \<open>follow\<close>.
\<close>

definition enable_xd ::
    "('f pae_machine \<Rightarrow> kerror + 'f pae_machine) \<Rightarrow> 'f pae_machine \<Rightarrow> kerror + 'f pae_machine" where
  "enable_xd follow s = follow (s\<lparr>nxe := True\<rparr>)"

definition Mmu32Pae_init ::
    "(loader_mm pae_machine \<Rightarrow> kerror + loader_mm pae_machine) \<Rightarrow> addr \<Rightarrow> bool \<Rightarrow> loader_mm pae_machine
      \<Rightarrow> kerror + loader_mm pae_machine" where
  "Mmu32Pae_init follow pdpt_at nx s =
     bind_res (Mmu32Pae_enable pdpt_at s) (\<lambda>s. if nx then enable_xd follow s else Inr s)"

section \<open>The choice of the implementation\<close>

text \<open>\<open>with_pae\<close> tells whether the build has \<open>WITH_PAE\<close>, \<open>pae\<close> is the feature test.\<close>

datatype mmu_class = Mmu_base | Mmu32NopaeImpl | Mmu32PaeImpl

definition loader_get_mmu :: "bool \<Rightarrow> bool \<Rightarrow> bool \<Rightarrow> mmu_class" where
  "loader_get_mmu with_pae pae g_load64 =
     (if \<not> g_load64 then if with_pae \<and> pae then Mmu32PaeImpl else Mmu32NopaeImpl else Mmu_base)"

definition kernel_get_mmu :: "bool \<Rightarrow> bool \<Rightarrow> mmu_class" where
  "kernel_get_mmu with_pae pae = (if with_pae \<and> pae then Mmu32PaeImpl else Mmu32NopaeImpl)"

section \<open>The recursive directories\<close>

text \<open>
  \<open>D\<close> holds the four directories; the last four entries of the last one point to the four
  directories, and every other entry is zero or points to a table of its own.
\<close>

definition dir :: "u64 list \<Rightarrow> nat \<Rightarrow> u32" where
  "dir D j = ucast (frame64 (D ! j))"

definition dent_at :: "u64 list \<Rightarrow> nat \<Rightarrow> addr" where
  "dent_at D n = entry64_at (dir D (n div 512)) (of_nat (n mod 512))"

definition dent :: "mem \<Rightarrow> u64 list \<Rightarrow> nat \<Rightarrow> u64" where
  "dent m D n = ld64 m (dent_at D n)"

definition ptab :: "u64 \<Rightarrow> u32" where
  "ptab e = ucast (frame64 e)"

definition low :: "u64 \<Rightarrow> bool" where
  "low e \<longleftrightarrow> frame64 e < 0x100000000"

definition dirs_ok :: "u64 list \<Rightarrow> bool" where
  "dirs_ok D \<longleftrightarrow> (\<forall>j < 4. bit (D ! j) 0 \<and> low (D ! j)) \<and> inj_on (dir D) {..< 4}"

definition pae_ok :: "mem \<Rightarrow> u64 list \<Rightarrow> bool" where
  "pae_ok m D \<longleftrightarrow> dirs_ok D \<and> (\<forall>j < 4. dent m D (2044 + j) = ucast (dir D j) OR 3)
    \<and> (\<forall>n < 2044. dent m D n \<noteq> 0 \<longrightarrow> usable64 True (dent m D n) \<and> low (dent m D n)
         \<and> (\<forall>j < 4. ptab (dent m D n) \<noteq> dir D j))
    \<and> (\<forall>n < 2044. \<forall>k < 2044. n \<noteq> k \<and> dent m D n \<noteq> 0 \<and> dent m D k \<noteq> 0 \<longrightarrow>
         ptab (dent m D n) \<noteq> ptab (dent m D k))"

definition pae_machine_ok :: "'f pae_machine \<Rightarrow> bool" where
  "pae_machine_ok s \<longleftrightarrow> pcr0 s AND CR0_PG \<noteq> 0 \<and> pae_ok (pmemory s) (pdpt s)"

lemma aligned_frame64: "aligned (ucast (frame64 e))"
proof -
  have "ucast (frame64 e) AND mask 12 = (0 :: u32)"
    by (rule bit_word_eqI) (auto simp: frame64_bit bit_simps)
  then show ?thesis by (simp add: aligned_def masks)
qed

lemma aligned_dirs [simp]: "aligned (dir D j)" "aligned (ptab e)"
  by (simp_all add: dir_def ptab_def aligned_frame64)

lemma low_ucast: "low e \<Longrightarrow> ucast (ptab e) = frame64 e"
proof -
  assume "low e"
  then have "unat (frame64 e) < 2 ^ 32" by (simp add: low_def word_less_nat_alt)
  then show ?thesis
    by (simp only: ptab_def word_unat_eq_iff unsigned_ucast_eq) (simp add: unsigned_take_bit_eq take_bit_nat_eq_self)
qed

lemma low_phys: "low e \<Longrightarrow> phys (frame64 e) = Inr (ptab e)"
  by (simp add: low_def phys_def ptab_def)

lemma up_down: "ucast (ucast (b :: u32) :: u64) = b"
  by (rule bit_word_eqI) (simp add: bit_simps)

lemma low_0 [simp]: "low 0" "\<not> usable64 w 0"
  by (simp_all add: low_def frame64_def usable64_def)

lemma ucast_low: "(ucast (b :: u32) :: u64) < 0x100000000"
  unfolding word_less_nat_alt unsigned_ucast_eq using unat_u32 [of b] by (simp add: take_bit_nat_eq_self)

lemma or_3_entry:
  assumes "aligned b"
  shows "low (ucast b OR 3)" "ptab (ucast b OR 3) = b" "usable64 w (ucast b OR 3)" "ucast b OR 3 \<noteq> (0 :: u64)"
proof -
  have eq: "(3 :: u64) = mask 2" by (simp add: mask_eq_exp_minus_1)
  show "low (ucast b OR 3)" using ucast_low [of b] by (simp add: low_def frame64_or_3 [OF assms])
  show "ptab (ucast b OR 3) = b" by (simp add: ptab_def frame64_or_3 [OF assms] up_down)
  have "(ucast b OR 3) AND push_bit 52 (mask 11) = (0 :: u64)"
    unfolding eq by (rule bit_word_eqI) (auto simp: bit_simps dest: bit_imp_le_length)
  moreover have "bit (ucast b OR 3 :: u64) 0" "bit (ucast b OR 3 :: u64) 1"
    unfolding eq by (simp_all add: bit_or_iff bit_mask_iff)
  ultimately show "usable64 w (ucast b OR 3)" by (simp add: usable64_def)
  then show "ucast b OR 3 \<noteq> (0 :: u64)" by auto
qed

text \<open>A frame below 4 GiB and an offset, as an address.\<close>

lemma ucast_frame:
  assumes "aligned b" "k < 4096"
  shows "(ucast b + ucast (of_nat k :: u32) :: u64) = ucast (b + of_nat k)"
proof -
  have k: "unat (of_nat k :: u32) = k" using assms(2) by (intro unat_of_nat_small) simp
  have "(ucast b + ucast (of_nat k :: u32) :: u64) = of_nat (unat b) + of_nat (unat (of_nat k :: u32))" by simp
  also have "\<dots> = of_nat (unat (b + of_nat k))" unfolding k offset_unat [OF assms] by (rule of_nat_add [symmetric])
  also have "\<dots> = ucast (b + of_nat k)" by simp
  finally show ?thesis .
qed

lemma phys_frame:
  assumes "aligned b" "k < 4096"
  shows "phys (ucast b + ucast (of_nat k :: u32)) = Inr (b + of_nat k)"
  using ucast_low [of "b + of_nat k"] unfolding ucast_frame [OF assms] by (simp add: phys_def up_down)

lemma index_nat:
  "ARCH_PAE_GET_PD_IDX v = of_nat (slot v mod 512)" "ARCH_PAE_GET_PT_IDX v = of_nat (tindex v)"
  unfolding unat_pae_indices [symmetric] by simp_all

lemma walk64_slot:
  assumes "dirs_ok D" and "dent m D (slot v) = e" and "usable64 w e \<Longrightarrow> low e"
  shows "walk64 m D w v =
    (let x = ld64 m (entry64_at (ptab e) (of_nat (tindex v))) in
     if usable64 w e \<and> usable64 w x then Inr (frame64 x + ucast (v AND 0xFFF)) else Inl Page_fault)"
proof -
  have d: "bit (D ! (slot v div 512)) 0" "phys (frame64 (D ! (slot v div 512))) = Inr (dir D (slot v div 512))"
    using assms(1) slot_bounds(2) [of v] low_phys by (auto simp: dirs_ok_def dir_def ptab_def)
  have "table_entry m (D ! (slot v div 512)) (of_nat (slot v mod 512)) = Inr e"
    by (simp add: table_entry_def d assms(2) [symmetric] dent_def dent_at_def)
  with d low_phys [OF assms(3)] show ?thesis
    by (auto simp: walk64_def unat_pae_indices index_nat Let_def table_entry_def)
qed

lemma walk64_page:
  assumes "dirs_ok D" and "dent m D (slot v) = e" and "usable64 w e" "low e"
    and "ld64 m (entry64_at (ptab e) (of_nat (tindex v))) = x" "usable64 w x" "low x"
    and "v AND 0xFFF = of_nat k" "k < 4096"
  shows "bind_res (walk64 m D w v) phys = Inr (ptab x + of_nat k)"
proof -
  have "walk64 m D w v = Inr (frame64 x + ucast (of_nat k :: u32))"
    using walk64_slot [OF assms(1,2), of w] assms(3-) by (simp add: Let_def)
  then show ?thesis
    using phys_frame [OF aligned_dirs(2) assms(9), of x] low_ucast [OF assms(7)] by simp
qed

section \<open>Writing entries\<close>

lemma small_of_nat: "k < 512 \<Longrightarrow> unat (of_nat k :: u32) = k"
  by (rule unat_of_nat_small) simp

lemma dent_index: "unat (of_nat (n mod 512) :: u32) = n mod 512"
  by (rule small_of_nat) simp

lemma dent_st:
  assumes "dirs_ok D" "n < 2048" "k < 2048"
  shows "dent (st64 (dent_at D n) x m) D k = (if k = n then x else dent m D k)"
proof (cases "k = n")
  case True
  then show ?thesis by (simp add: dent_def dent_at_def ld64_st64 dent_index)
next
  case False
  have "dir D (k div 512) \<noteq> dir D (n div 512) \<or> of_nat (k mod 512) \<noteq> (of_nat (n mod 512) :: u32)"
  proof (rule ccontr)
    assume eq: "\<not> ?thesis"
    then have "k div 512 = n div 512" using assms by (auto simp: dirs_ok_def dest!: inj_onD)
    moreover have "k mod 512 = n mod 512" using eq dent_index [of k] dent_index [of n] by metis
    ultimately show False using False by (metis div_mult_mod_eq)
  qed
  then show ?thesis using False
    unfolding dent_def dent_at_def by (subst ld64_other) (simp_all add: dent_index)
qed

lemma dent_fill:
  assumes "aligned b" "\<And>j. j < 4 \<Longrightarrow> dir D j \<noteq> b" "l \<le> 4096" "n < 2048"
  shows "dent (fill_up b c l m) D n = dent m D n"
  unfolding dent_def dent_at_def using assms by (intro ld64_fill_other) (auto simp: dent_index)

lemma dent_table_st:
  assumes "aligned b" "\<And>j. j < 4 \<Longrightarrow> dir D j \<noteq> b" "unat i < 512" "n < 2048"
  shows "dent (st64 (entry64_at b i) x m) D n = dent m D n"
  unfolding dent_def dent_at_def using assms by (intro ld64_other) (auto simp: dent_index)

section \<open>The recursive mapping\<close>

lemma translate64_ok: "pae_machine_ok s \<Longrightarrow> translate64 s w v = walk64 (pmemory s) (pdpt s) w v"
  by (simp add: translate64_def pae_machine_ok_def)

lemma window_slots:
  assumes "pae_ok m D" "j < 4"
  shows "dent m D (2044 + j) = ucast (dir D j) OR 3"
    "ld64 m (entry64_at (dir D 3) (of_nat (508 + j))) = ucast (dir D j) OR 3"
proof -
  show d: "dent m D (2044 + j) = ucast (dir D j) OR 3" using assms by (simp add: pae_ok_def)
  have "j = 0 \<or> j = 1 \<or> j = 2 \<or> j = 3" using assms(2) by linarith
  then have "(2044 + j) div 512 = 3" "(2044 + j) mod 512 = 508 + j" by auto
  with d show "ld64 m (entry64_at (dir D 3) (of_nat (508 + j))) = ucast (dir D j) OR 3"
    by (simp only: dent_def dent_at_def)
qed

lemma window_index:
  assumes "j < 4" shows "(508 + of_nat j :: u32) = of_nat (508 + j)" "unat (508 + of_nat j :: u32) = 508 + j"
  using small_of_nat [of "508 + j"] assms by simp_all

lemma pdpt_idx: "ARCH_PAE_GET_PDPT_IDX v = of_nat (slot v div 512)"
  unfolding unat_pae_indices [symmetric] by simp

text \<open>The directory entry of a slot, and the page table behind it, at their virtual addresses.\<close>

lemma walk64_dir:
  assumes ok: "pae_ok m D" and j: "j < 4" and i: "unat i < 512"
  shows "bind_res (walk64 m D w (entry64_at (ARCH_PAE_GET_VIRT 3 511 (508 + of_nat j)) i)) phys =
    Inr (entry64_at (dir D j) i)"
proof -
  let ?v = "ARCH_PAE_GET_VIRT 3 511 (508 + of_nat j) + of_nat (8 * unat i)"
  have k: "unat (508 + of_nat j :: u32) < 512" "8 * unat i < 4096" "3 < (4 :: nat)"
    using i j unfolding window_index(2) [OF j] by simp_all
  have n: "unat (3 :: u32) = 3" "unat (511 :: u32) = 511" "(512 * 3 + 511 :: nat) = 2044 + 3" by simp_all
  have p: "unat (3 :: u32) < 4" "unat (511 :: u32) < 512" by simp_all
  have v: "slot ?v = 2044 + 3" "tindex ?v = 508 + j" "?v AND 0xFFF = of_nat (8 * unat i)"
    unfolding pae_virt_parts [OF p k(1,2)] n window_index(2) [OF j] by (rule refl)+
  have d: "dirs_ok D" using ok by (simp add: pae_ok_def)
  let ?e = "ucast (dir D 3) OR 3 :: u64" and ?x = "ucast (dir D j) OR 3 :: u64"
  note e = or_3_entry [OF aligned_dirs(1) [of D]]
  have "dent m D (slot ?v) = ?e" unfolding v by (rule window_slots(1) [OF ok k(3)])
  moreover have "ld64 m (entry64_at (ptab ?e) (of_nat (tindex ?v))) = ?x"
    unfolding v e by (rule window_slots(2) [OF ok j])
  ultimately have "bind_res (walk64 m D w ?v) phys = Inr (ptab ?x + of_nat (8 * unat i))"
    by (intro walk64_page [OF d _ e(3,1) _ e(3,1) v(3) k(2)])
  then show ?thesis unfolding entry64_offset e .
qed

lemma walk64_table:
  assumes ok: "pae_ok m D" and n: "n < 2044" and e: "dent m D n \<noteq> 0" and k: "k < 4096"
  shows "bind_res (walk64 m D w (ARCH_PAE_GET_VIRT 3 (508 + of_nat (n div 512)) (of_nat (n mod 512)) + of_nat k)) phys =
    Inr (ptab (dent m D n) + of_nat k)"
proof -
  let ?j = "n div 512" and ?i = "of_nat (n mod 512) :: u32"
  let ?v = "ARCH_PAE_GET_VIRT 3 (508 + of_nat ?j) ?i + of_nat k"
  have j: "?j < 4" using n by simp
  have w: "unat (508 + of_nat ?j :: u32) < 512" "unat ?i < 512"
    using j unfolding window_index(2) [OF j] dent_index by simp_all
  have c: "unat (3 :: u32) = 3" "512 * 3 + (508 + ?j) = 2044 + ?j" by simp_all
  have p: "unat (3 :: u32) < 4" by simp
  have v: "slot ?v = 2044 + ?j" "tindex ?v = n mod 512" "?v AND 0xFFF = of_nat k"
    unfolding pae_virt_parts [OF p w k] c window_index(2) [OF j] dent_index by (rule refl)+
  have d: "dirs_ok D" "usable64 True (dent m D n)" "low (dent m D n)" using ok n e by (auto simp: pae_ok_def)
  then have u: "usable64 w (dent m D n)" by (auto simp: usable64_def)
  let ?e = "ucast (dir D ?j) OR 3 :: u64"
  note x = or_3_entry [OF aligned_dirs(1) [of D ?j]]
  have "dent m D (slot ?v) = ?e" unfolding v by (rule window_slots(1) [OF ok j])
  moreover have "ld64 m (entry64_at (ptab ?e) (of_nat (tindex ?v))) = dent m D n"
    unfolding v x dent_def dent_at_def ..
  ultimately show ?thesis by (intro walk64_page [OF d(1) _ x(3,1) _ u d(3) v(3) k])
qed

section \<open>A new page table\<close>

abbreviation pde_virt :: "addr \<Rightarrow> addr" where
  "pde_virt v \<equiv> entry64_at (ARCH_PAE_GET_VIRT 3 511 (508 + ARCH_PAE_GET_PDPT_IDX v)) (ARCH_PAE_GET_PD_IDX v)"

abbreviation table_virt :: "addr \<Rightarrow> addr" where
  "table_virt v \<equiv> ARCH_PAE_GET_VIRT 3 (508 + ARCH_PAE_GET_PDPT_IDX v) (ARCH_PAE_GET_PD_IDX v)"

lemma pde_virtual:
  assumes "pae_machine_ok s"
  shows "vld64 (pde_virt v) s = Inr (dent (pmemory s) (pdpt s) (slot v))"
    "vst64 (pde_virt v) x s = Inr (s\<lparr>pmemory := st64 (dent_at (pdpt s) (slot v)) x (pmemory s)\<rparr>)"
proof -
  have ok: "pae_ok (pmemory s) (pdpt s)" using assms by (simp add: pae_machine_ok_def)
  have "bind_res (translate64 s w (pde_virt v)) phys = Inr (dent_at (pdpt s) (slot v))" for w
    unfolding translate64_ok [OF assms] pdpt_idx index_nat dent_at_def
    by (rule walk64_dir [OF ok slot_bounds(2)]) (simp add: dent_index)
  then show "vld64 (pde_virt v) s = Inr (dent (pmemory s) (pdpt s) (slot v))"
    "vst64 (pde_virt v) x s = Inr (s\<lparr>pmemory := st64 (dent_at (pdpt s) (slot v)) x (pmemory s)\<rparr>)"
    by (simp_all only: vld64_def vst64_def dent_def bind_res.simps)
qed

lemma table_virtual64:
  assumes "pae_machine_ok s" "slot v < 2044" "dent (pmemory s) (pdpt s) (slot v) \<noteq> 0"
  shows "vst64 (entry64_at (table_virt v) (ARCH_PAE_GET_PT_IDX v)) x s =
    Inr (s\<lparr>pmemory := st64 (entry64_at (ptab (dent (pmemory s) (pdpt s) (slot v))) (of_nat (tindex v))) x (pmemory s)\<rparr>)"
proof -
  have ok: "pae_ok (pmemory s) (pdpt s)" using assms(1) by (simp add: pae_machine_ok_def)
  have i: "unat (of_nat (tindex v) :: u32) = tindex v" by (rule small_of_nat [OF slot_bounds(4)])
  then have k: "8 * unat (of_nat (tindex v) :: u32) < 4096" using slot_bounds(4) [of v] by linarith
  have "bind_res (translate64 s True (entry64_at (table_virt v) (ARCH_PAE_GET_PT_IDX v))) phys =
      Inr (entry64_at (ptab (dent (pmemory s) (pdpt s) (slot v))) (of_nat (tindex v)))"
    unfolding translate64_ok [OF assms(1)] pdpt_idx index_nat entry64_offset
    by (rule walk64_table [OF ok assms(2,3) k])
  then show ?thesis by (simp only: vst64_def bind_res.simps)
qed

lemma vmemset64_page:
  assumes "pcr0 s AND CR0_PG \<noteq> 0" "k + n \<le> 4096"
    and "\<And>l j. l \<le> 4096 \<Longrightarrow> j < 4096 \<Longrightarrow>
      bind_res (walk64 (fill_up b c l m0) (pdpt s) True (v + of_nat j)) phys = Inr (b + of_nat j)"
    and "pmemory s = fill_up b c k m0"
  shows "vmemset64 (v + of_nat k) c n s = Inr (s\<lparr>pmemory := fill_up b c (k + n) m0\<rparr>)"
  using assms
proof (induction n arbitrary: k s)
  case (Suc n)
  let ?s = "s\<lparr>pmemory := fill_up b c (Suc k) m0\<rparr>"
  have "bind_res (translate64 s True (v + of_nat k)) phys = Inr (b + of_nat k)"
    using Suc.prems(1,2) Suc.prems(3) [of k k] by (simp add: translate64_def Suc.prems(4))
  then have "vst_byte (v + of_nat k) c s = Inr ?s"
    unfolding vst_byte_def Suc.prems(4) st8_def fill_up_snoc by simp
  moreover have "vmemset64 (v + of_nat (Suc k)) c n ?s = Inr (?s\<lparr>pmemory := fill_up b c (Suc k + n) m0\<rparr>)"
    using Suc.prems by (intro Suc.IH) simp_all
  ultimately show ?case by (simp add: add.assoc add.commute [of 1])
qed simp

definition fresh64 :: "mem \<Rightarrow> u64 list \<Rightarrow> u32 \<Rightarrow> bool" where
  "fresh64 m D b \<longleftrightarrow> aligned b \<and> (\<forall>j < 4. dir D j \<noteq> b)
    \<and> (\<forall>n < 2044. dent m D n \<noteq> 0 \<longrightarrow> ptab (dent m D n) \<noteq> b)"

definition with_table64 :: "u64 list \<Rightarrow> nat \<Rightarrow> u32 \<Rightarrow> mem \<Rightarrow> mem" where
  "with_table64 D n b m = fill_up b 0 4096 (st64 (dent_at D n) (ucast b OR 3) m)"

lemma dent_with:
  assumes "dirs_ok D" "fresh64 m D b" "n < 2048" "k < 2048" "l \<le> 4096"
  shows "dent (fill_up b c l (st64 (dent_at D n) x m)) D k = (if k = n then x else dent m D k)"
  using assms dent_st [OF assms(1,3,4), of x m] by (simp add: dent_fill fresh64_def)

lemma pae_ok_new:
  assumes ok: "pae_ok m D" and n: "n < 2044" and b: "fresh64 m D b" and l: "l \<le> 4096"
    and z: "dent m D n = 0"
  shows "pae_ok (fill_up b c l (st64 (dent_at D n) (ucast b OR 3) m)) D"
proof -
  have d: "dirs_ok D" using ok by (simp add: pae_ok_def)
  have D: "k < 2044 \<Longrightarrow> dent (fill_up b c l (st64 (dent_at D n) (ucast b OR 3) m)) D k =
      (if k = n then ucast b OR 3 else dent m D k)"
    "j < 4 \<Longrightarrow> dent (fill_up b c l (st64 (dent_at D n) (ucast b OR 3) m)) D (2044 + j) = dent m D (2044 + j)" for k j
    using dent_with [OF d b _ _ l, of n] n by simp_all
  note x = or_3_entry [of b]
  show ?thesis
    using ok b unfolding pae_ok_def fresh64_def by (simp add: D x) metis
qed

lemma new_table64_ok:
  assumes ok: "pae_machine_ok s" and v: "slot v < 2044" and z: "dent (pmemory s) (pdpt s) (slot v) = 0"
    and fr: "new_frame (pmemory s, pframes s) = Inr (ucast b, pmemory s, f)"
    and b: "fresh64 (pmemory s) (pdpt s) b"
  shows "new_table64 new_frame (pde_virt v) (table_virt v) s =
    Inr (s\<lparr>pmemory := with_table64 (pdpt s) (slot v) b (pmemory s), pframes := f\<rparr>)"
proof -
  let ?m = "pmemory s" and ?D = "pdpt s" and ?n = "slot v"
  let ?m1 = "st64 (dent_at ?D ?n) (ucast b OR 3) ?m" and ?s0 = "s\<lparr>pmemory := ?m, pframes := f\<rparr>"
  let ?s1 = "?s0\<lparr>pmemory := ?m1\<rparr>"
  have fl: "PDE64 = 3" by (simp add: PDE64_def)
  have p: "pae_ok ?m ?D" "dirs_ok ?D" using ok by (simp_all add: pae_machine_ok_def pae_ok_def)
  have ok0: "pae_machine_ok ?s0" using ok by (simp add: pae_machine_ok_def)
  have st: "vst64 (pde_virt v) (ucast b OR 3) ?s0 = Inr ?s1"
    using pde_virtual(2) [OF ok0, of v] by simp
  have al: "aligned b" using b by (simp add: fresh64_def)
  have w: "bind_res (walk64 (fill_up b 0 l ?m1) ?D True (table_virt v + of_nat j)) phys = Inr (b + of_nat j)"
    if "l \<le> 4096" "j < 4096" for l j
  proof -
    have e: "dent (fill_up b 0 l ?m1) ?D ?n = ucast b OR 3"
      using dent_with [OF p(2) b _ _ that(1), of ?n ?n] slot_bounds(1) [of v] by simp
    have ne: "dent (fill_up b 0 l ?m1) ?D ?n \<noteq> 0" unfolding e by (rule or_3_entry [OF al])
    show ?thesis
      using walk64_table [OF pae_ok_new [OF p(1) v b that(1) z] v ne that(2)]
      unfolding pdpt_idx index_nat e or_3_entry [OF al] .
  qed
  have "vmemset64 (table_virt v + of_nat 0) 0 4096 ?s1 = Inr (?s1\<lparr>pmemory := fill_up b 0 (0 + 4096) ?m1\<rparr>)"
    using ok w by (intro vmemset64_page) (auto simp: pae_machine_ok_def)
  then show ?thesis
    by (simp add: new_table64_def fr fl st [simplified] Let_def with_table64_def)
qed

section \<open>Translation after a change of the tables\<close>

lemma walk64_cong:
  assumes "dirs_ok D" "dent m D (slot v) = e" "dent m' D (slot v) = e" "low e"
    and "e \<noteq> 0 \<Longrightarrow> ld64 m (entry64_at (ptab e) (of_nat (tindex v))) = ld64 m' (entry64_at (ptab e) (of_nat (tindex v)))"
  shows "walk64 m D w v = walk64 m' D w v"
  using walk64_slot [OF assms(1,2,4), of w] walk64_slot [OF assms(1,3,4), of w] assms(5)
  by (cases "e = 0") (simp_all add: Let_def)

lemma pae_low: "pae_ok m D \<Longrightarrow> n < 2044 \<Longrightarrow> low (dent m D n)"
  by (cases "dent m D n = 0") (auto simp: pae_ok_def)

lemma walk64_with_table:
  assumes ok: "pae_ok m D" and n: "n < 2044" and b: "fresh64 m D b"
    and z: "dent m D n = 0" and v: "slot v < 2044"
  shows "walk64 (with_table64 D n b m) D w v = walk64 m D w v"
proof -
  have d: "dirs_ok D" using ok by (simp add: pae_ok_def)
  have al: "aligned b" using b by (simp add: fresh64_def)
  have i: "unat (of_nat (tindex v) :: u32) < 512" using small_of_nat [OF slot_bounds(4)] slot_bounds(4) by simp
  have D: "dent (with_table64 D n b m) D (slot v) = (if slot v = n then ucast b OR 3 else dent m D (slot v))"
    unfolding with_table64_def using dent_with [OF d b _ _ order_refl, of n "slot v"] n v by simp
  show ?thesis
  proof (cases "slot v = n")
    case True
    have "ld64 (with_table64 D n b m) (entry64_at b (of_nat (tindex v))) = 0"
      by (simp add: with_table64_def ld64_zeroed i)
    moreover have "dent (with_table64 D n b m) D (slot v) = ucast b OR 3" using D True by simp
    moreover have "dent m D (slot v) = 0" using True z by simp
    ultimately show ?thesis
      using walk64_slot [OF d, of "with_table64 D n b m" v _ w] walk64_slot [OF d, of m v _ w]
      by (simp add: or_3_entry [OF al] Let_def)
  next
    case False
    show ?thesis
    proof (rule walk64_cong [OF d _ refl])
      show "dent (with_table64 D n b m) D (slot v) = dent m D (slot v)" using False D by simp
      show "low (dent m D (slot v))" by (rule pae_low [OF ok v])
      assume "dent m D (slot v) \<noteq> 0"
      then have "ptab (dent m D (slot v)) \<noteq> b" "\<forall>j < 4. ptab (dent m D (slot v)) \<noteq> dir D j"
        using ok b v by (auto simp: pae_ok_def fresh64_def)
      moreover have "n div 512 < 4" using n by simp
      ultimately show "ld64 (with_table64 D n b m) (entry64_at (ptab (dent m D (slot v))) (of_nat (tindex v)))
          = ld64 m (entry64_at (ptab (dent m D (slot v))) (of_nat (tindex v)))"
        unfolding with_table64_def dent_at_def by (simp add: al ld64_fill_other ld64_other i dent_index)
    qed
  qed
qed

lemma set_entry64:
  fixes x :: u64
  assumes ok: "pae_ok m D" and n: "n < 2044" and e: "dent m D n \<noteq> 0" and j: "j < 512"
  defines "m' \<equiv> st64 (entry64_at (ptab (dent m D n)) (of_nat j)) x m"
  shows "k < 2048 \<Longrightarrow> dent m' D k = dent m D k"
    and "pae_ok m' D"
    and "slot v < 2044 \<Longrightarrow> walk64 m' D w v =
      (if slot v = n \<and> tindex v = j
       then if usable64 w x then Inr (frame64 x + ucast (v AND 0xFFF)) else Inl Page_fault
       else walk64 m D w v)"
proof -
  let ?t = "ptab (dent m D n)"
  have d: "dirs_ok D" using ok by (simp add: pae_ok_def)
  have "?t \<noteq> dir D i" if "i < 4" for i using ok n e that by (simp add: pae_ok_def)
  then have t: "dir D i \<noteq> ?t" if "i < 4" for i using that by metis
  have jj: "unat (of_nat j :: u32) < 512" using small_of_nat [OF j] j by simp
  have D: "dent m' D k = dent m D k" if "k < 2048" for k
    unfolding m'_def using t jj that by (intro dent_table_st) auto
  then show "k < 2048 \<Longrightarrow> dent m' D k = dent m D k" .
  show "pae_ok m' D" using ok by (simp add: pae_ok_def D)
  assume v: "slot v < 2044"
  let ?e = "dent m D (slot v)"
  have i: "unat (of_nat (tindex v) :: u32) < 512" using small_of_nat [OF slot_bounds(4)] slot_bounds(4) by simp
  show "walk64 m' D w v =
      (if slot v = n \<and> tindex v = j
       then if usable64 w x then Inr (frame64 x + ucast (v AND 0xFFF)) else Inl Page_fault
       else walk64 m D w v)"
  proof (cases "slot v = n \<and> tindex v = j")
    case True
    then have "usable64 w ?e" "low ?e" using ok n e by (auto simp: pae_ok_def usable64_def)
    moreover have "dent m' D (slot v) = ?e" using v by (simp add: D)
    moreover have "ld64 m' (entry64_at ?t (of_nat j)) = x" unfolding m'_def using jj by (simp add: ld64_st64)
    ultimately show ?thesis
      using True walk64_slot [OF d, of m' v ?e w] by (simp add: Let_def)
  next
    case False
    have "ld64 m' (entry64_at (ptab ?e) (of_nat (tindex v))) = ld64 m (entry64_at (ptab ?e) (of_nat (tindex v)))"
      if "?e \<noteq> 0"
    proof -
      have "ptab ?e \<noteq> ?t" if "slot v \<noteq> n" using ok n v e that \<open>?e \<noteq> 0\<close> by (auto simp: pae_ok_def)
      moreover have "of_nat (tindex v) \<noteq> (of_nat j :: u32)" if "tindex v \<noteq> j"
        using that small_of_nat [OF j] small_of_nat [OF slot_bounds(4), of v] by metis
      ultimately show ?thesis using False unfolding m'_def by (intro ld64_other) (auto simp: i jj)
    qed
    then have "walk64 m' D w v = walk64 m D w v"
      using v by (intro walk64_cong [OF d _ refl pae_low [OF ok v]]) (simp_all add: D)
    with False show ?thesis by auto
  qed
qed

section \<open>Mapping a page\<close>

text \<open>The entry \<open>map\<close> writes.\<close>

definition pae_entry :: "bool \<Rightarrow> u64 \<Rightarrow> u64 \<Rightarrow> u64" where
  "pae_entry nx b c = ucast (ucast b :: u32) OR (c AND (if nx then PTE_NX OR PG_PAE_FLAG_MASK else PG_PAE_FLAG_MASK))"

lemma pae_map_step:
  assumes ok: "pae_machine_ok s" and v: "slot (ucast a) < 2044"
    and fr: "dent (pmemory s) (pdpt s) (slot (ucast a)) = 0 \<Longrightarrow>
      new_frame (pmemory s, pframes s) = Inr (ucast p, pmemory s, f) \<and> fresh64 (pmemory s) (pdpt s) p"
  shows "\<exists>m1 f1. Mmu32Pae_map new_frame nx a b c s = Inr (s\<lparr>pmemory := m1, pframes := f1\<rparr>)
    \<and> pae_ok m1 (pdpt s)
    \<and> f1 = (if dent (pmemory s) (pdpt s) (slot (ucast a)) = 0 then f else pframes s)
    \<and> (\<forall>n < 2044. dent m1 (pdpt s) n =
        (if n = slot (ucast a) \<and> dent (pmemory s) (pdpt s) n = 0 then ucast p OR 3 else dent (pmemory s) (pdpt s) n))
    \<and> (\<forall>w u. slot u < 2044 \<longrightarrow> walk64 m1 (pdpt s) w u =
        (if frame_of u = frame_of (ucast a)
         then if usable64 w (pae_entry nx b c) then Inr (frame64 (pae_entry nx b c) + ucast (u AND 0xFFF))
              else Inl Page_fault
         else walk64 (pmemory s) (pdpt s) w u))"
proof -
  let ?v = "ucast a :: u32" and ?m = "pmemory s" and ?D = "pdpt s"
  have t: "pae_ok ?m ?D" "dirs_ok ?D" using ok by (simp_all add: pae_machine_ok_def pae_ok_def)
  obtain m1 f1 where s1: "(if dent ?m ?D (slot ?v) = 0 then new_table64 new_frame (pde_virt ?v) (table_virt ?v) s
        else Inr s) = Inr (s\<lparr>pmemory := m1, pframes := f1\<rparr>)"
      and t1: "pae_ok m1 ?D" "dent m1 ?D (slot ?v) \<noteq> 0"
      and f1: "f1 = (if dent ?m ?D (slot ?v) = 0 then f else pframes s)"
      and d1: "\<And>n. n < 2044 \<Longrightarrow> dent m1 ?D n =
        (if n = slot ?v \<and> dent ?m ?D n = 0 then ucast p OR 3 else dent ?m ?D n)"
      and w1: "\<And>w u. slot u < 2044 \<Longrightarrow> walk64 m1 ?D w u = walk64 ?m ?D w u"
  proof (cases "dent ?m ?D (slot ?v) = 0")
    case z: True
    note F = fr [OF z]
    then have al: "aligned p" by (simp add: fresh64_def)
    let ?m1 = "with_table64 ?D (slot ?v) p ?m"
    have "dent ?m1 ?D n = (if n = slot ?v then ucast p OR 3 else dent ?m ?D n)" if "n < 2044" for n
      unfolding with_table64_def using dent_with [OF t(2) _ _ _ order_refl, of ?m p "slot ?v" n] F v that by simp
    moreover have "new_table64 new_frame (pde_virt ?v) (table_virt ?v) s = Inr (s\<lparr>pmemory := ?m1, pframes := f\<rparr>)"
      using new_table64_ok [OF ok v z] F by blast
    moreover have "pae_ok ?m1 ?D" unfolding with_table64_def using pae_ok_new [OF t(1) v _ order_refl z] F by blast
    moreover have "slot u < 2044 \<Longrightarrow> walk64 ?m1 ?D w u = walk64 ?m ?D w u" for w u
      using walk64_with_table [OF t(1) v _ z] F by blast
    ultimately show thesis
      using z v by (intro that [where ?m1.0 = ?m1 and ?f1.0 = f]) (simp_all add: or_3_entry [OF al])
  next
    case False
    then show thesis using t by (intro that [where ?m1.0 = ?m and ?f1.0 = "pframes s"]) auto
  qed
  let ?s1 = "s\<lparr>pmemory := m1, pframes := f1\<rparr>"
  let ?m2 = "st64 (entry64_at (ptab (dent m1 ?D (slot ?v))) (of_nat (tindex ?v))) (pae_entry nx b c) m1"
  have ok1: "pae_machine_ok ?s1" using ok t1 by (simp add: pae_machine_ok_def)
  have "vst64 (entry64_at (table_virt ?v) (ARCH_PAE_GET_PT_IDX ?v)) (pae_entry nx b c) ?s1 =
      Inr (s\<lparr>pmemory := ?m2, pframes := f1\<rparr>)"
    using table_virtual64 [OF ok1 v] t1(2) by simp
  then have "Mmu32Pae_map new_frame nx a b c s = Inr (s\<lparr>pmemory := ?m2, pframes := f1\<rparr>)"
    using s1 pde_virtual(1) [OF ok, of ?v] by (simp add: Mmu32Pae_map_def Let_def pae_entry_def)
  then show ?thesis
    using f1 d1 set_entry64 [OF t1(1) v t1(2) slot_bounds(4)] w1
    by (intro exI [of _ ?m2] exI [of _ f1]) (auto simp: pae_same_page)
qed

section \<open>Sources of frames below 4 GiB\<close>

definition pae_inv :: "('f \<Rightarrow> u32 \<Rightarrow> bool) \<Rightarrow> 'f pae_machine \<Rightarrow> bool" where
  "pae_inv used s \<longleftrightarrow> pae_machine_ok s \<and> (\<forall>j < 4. used (pframes s) (dir (pdpt s) j))
    \<and> (\<forall>n < 2044. dent (pmemory s) (pdpt s) n \<noteq> 0 \<longrightarrow> used (pframes s) (ptab (dent (pmemory s) (pdpt s) n)))"

locale low_frame_source = frame_source +
  assumes below: "ready (Suc n) f \<Longrightarrow> new_frame (m, f) = Inr (p, m', f') \<Longrightarrow> ucast (ucast p :: u32) = p"
begin

lemma pae_map_correct:
  assumes inv: "pae_inv used s" and r: "ready (Suc n) (pframes s)" and v: "slot (ucast a) < 2044"
  shows "\<exists>s'. Mmu32Pae_map new_frame nx a b c s = Inr s' \<and> pae_inv used s' \<and> ready n (pframes s')
    \<and> (\<forall>w u. slot u < 2044 \<longrightarrow> translate64 s' w u =
        (if frame_of u = frame_of (ucast a)
         then if usable64 w (pae_entry nx b c) then Inr (frame64 (pae_entry nx b c) + ucast (u AND 0xFFF))
              else Inl Page_fault
         else translate64 s w u))"
proof -
  have ok: "pae_machine_ok s" using inv by (simp add: pae_inv_def)
  obtain q f where q: "new_frame (pmemory s, pframes s) = Inr (q, pmemory s, f)" "ready n f" "aligned (ucast q)"
      "\<not> used (pframes s) (ucast q)" "used f (ucast q)" "\<forall>b. used (pframes s) b \<longrightarrow> used f b"
    using take [OF r] by blast
  define p where "p = (ucast q :: u32)"
  have qp: "q = ucast p" using below [OF r q(1)] by (simp add: p_def)
  have f: "new_frame (pmemory s, pframes s) = Inr (ucast p, pmemory s, f)" "aligned p"
      "\<not> used (pframes s) p" "used f p"
    using q(1,3-5) unfolding p_def [symmetric] unfolding qp by simp_all
  have fr: "new_frame (pmemory s, pframes s) = Inr (ucast p, pmemory s, f) \<and> fresh64 (pmemory s) (pdpt s) p"
    using f inv unfolding pae_inv_def fresh64_def by metis
  obtain m1 f1 where s1: "Mmu32Pae_map new_frame nx a b c s = Inr (s\<lparr>pmemory := m1, pframes := f1\<rparr>)" (is "_ = Inr ?s")
    and t1: "pae_ok m1 (pdpt s)"
    and f1: "f1 = (if dent (pmemory s) (pdpt s) (slot (ucast a)) = 0 then f else pframes s)"
    and d1: "\<forall>n < 2044. dent m1 (pdpt s) n =
        (if n = slot (ucast a) \<and> dent (pmemory s) (pdpt s) n = 0 then ucast p OR 3 else dent (pmemory s) (pdpt s) n)"
    and w1: "\<forall>w u. slot u < 2044 \<longrightarrow> walk64 m1 (pdpt s) w u =
        (if frame_of u = frame_of (ucast a)
         then if usable64 w (pae_entry nx b c) then Inr (frame64 (pae_entry nx b c) + ucast (u AND 0xFFF))
              else Inl Page_fault
         else walk64 (pmemory s) (pdpt s) w u)"
    using pae_map_step [OF ok v, of new_frame p f nx b c, OF fr] by (elim exE conjE) (rule that)
  have ok1: "pae_machine_ok ?s" using ok t1 by (simp add: pae_machine_ok_def)
  have use: "used (pframes s) e \<Longrightarrow> used f1 e" for e using f1 q(6) by auto
  have "pae_inv used ?s"
    using inv ok1 d1 use f1 f(4) or_3_entry(2) [OF f(2)] unfolding pae_inv_def by auto
  moreover have "ready n f1" using f1 q(2) ready_Suc [OF r] by auto
  moreover have "translate64 ?s w u = walk64 m1 (pdpt s) w u"
      "translate64 s w u = walk64 (pmemory s) (pdpt s) w u" for w u
    using translate64_ok [OF ok1] translate64_ok [OF ok] by simp_all
  ultimately show ?thesis using s1 w1 by auto
qed

end

interpretation loader_low: low_frame_source "loader_frame False" in_use ready
proof
  fix n f m p m' f'
  assume r: "ready (Suc n) f" and p: "loader_frame False (m, f) = Inr (p, m', f')"
  have lim: "unat (lm_ptr f) < 2 ^ 20" using r by (simp add: ready_def)
  have "p = lm_ptr f * ARCH_PAGE_SIZE" using loader_frame_ready [OF r, of False m] p by auto
  also have "\<dots> = of_nat (4096 * unat (lm_ptr f))" by (simp add: page_size_val)
  finally have "unat p = 4096 * unat (lm_ptr f)"
    by (rule ssubst) (rule unat_of_nat_small, use lim in simp)
  then show "ucast (ucast p :: u32) = p" using lim by (intro low_word) simp
qed

interpretation kernel_low: low_frame_source "kernel_frame buf" boot_in_use boot_ready for buf
proof
  fix n f m p m' f'
  assume "boot_ready (Suc n) f" and "kernel_frame buf (m, f) = Inr (p, m', f')"
  then show "ucast (ucast p :: u32) = p" using boot_frame_low [of n f buf m] by auto
qed

section \<open>The first tables\<close>

text \<open>The frame with a page number.\<close>

definition frame_no :: "nat \<Rightarrow> u32" where
  "frame_no k = of_nat (4096 * k)"

lemma frame_no:
  assumes "k < 2 ^ 20"
  shows "unat (frame_no k) = 4096 * k" "aligned (frame_no k)" "page_no (frame_no k) = k"
proof -
  show u: "unat (frame_no k) = 4096 * k" unfolding frame_no_def using assms by (intro unat_of_nat_small) simp
  show "aligned (frame_no k)" "page_no (frame_no k) = k" by (simp_all only: aligned_iff page_no_def u) simp_all
qed

lemma frame_no_inj: "k < 2 ^ 20 \<Longrightarrow> l < 2 ^ 20 \<Longrightarrow> frame_no k = frame_no l \<longleftrightarrow> k = l"
  using frame_no(3) by metis

lemma loader_frame_no:
  assumes r: "ready (Suc n) f" and P: "unat (lm_ptr f) = P"
  shows "\<exists>f'. loader_frame True (m, f) = Inr (ucast (frame_no P), fill_up (frame_no P) 0 4096 m, f')
    \<and> ready n f' \<and> unat (lm_ptr f') = P - 1 \<and> (\<forall>b. in_use f' b \<longleftrightarrow> in_use f b \<or> page_no b = P)"
proof -
  have lim: "Suc n < P" "P < 2 ^ 20" using r P by (simp_all add: ready_def)
  have a: "lm_ptr f * ARCH_PAGE_SIZE = of_nat (4096 * P)" by (simp add: page_size_val flip: P)
  have "unat (of_nat (4096 * P) :: u64) = 4096 * P" using lim by (intro unat_of_nat_small) simp
  then have u: "(of_nat (4096 * P) :: u64) = ucast (frame_no P)"
    by (simp only: word_unat_eq_iff unsigned_ucast_eq frame_no(1) [OF lim(2)])
      (use lim in \<open>simp add: take_bit_nat_eq_self\<close>)
  have c: "cursor_page f = frame_no P" unfolding cursor_page_def a u by (rule up_down)
  have "unat (lm_ptr f - 1) = P - 1" using lim P by (simp add: unat_minus_one unat_gt_0 flip: unat_eq_0)
  then show ?thesis using loader_frame_ready [OF r, of True m] unfolding c a u P by auto
qed

definition pae_first :: "(nat \<Rightarrow> u32) \<Rightarrow> mem \<Rightarrow> mem" where
  "pae_first q m =
     (let m = fold (\<lambda>i. fill_up (q i) 0 4096) [0 ..< 4] m;
          m = fold (\<lambda>j. st64 (entry64_at (q 3) (of_nat (508 + j))) (ucast (q j) OR 3)) [0 ..< 4] m;
          m = fill_up (q 5) 0 4096 (fill_up (q 4) 0 4096 m);
          m = ident_entries64 (q 5) 512 512 (ident_entries64 (q 4) 0 512 m)
      in st64 (entry64_at (q 0) 1) (scast (q 5) OR 3) (st64 (entry64_at (q 0) 0) (scast (q 4) OR 3) m))"

lemma ident_entries64_Suc:
  "ident_entries64 pt lo (Suc n) m =
     st64 (entry64_at pt (of_nat n)) (push_bit 12 (of_nat (lo + n)) OR 3) (ident_entries64 pt lo n m)"
  by (simp add: ident_entries64_def ARCH_PAGE_SHIFT_def PDE64_def)

lemma ld64_ident:
  assumes "aligned pt" "aligned b" "n \<le> 512" "unat i < 512"
  shows "ld64 (ident_entries64 pt lo n m) (entry64_at b i) =
    (if b = pt \<and> unat i < n then push_bit 12 (of_nat (lo + unat i)) OR 3 else ld64 m (entry64_at b i))"
  using assms(3)
proof (induction n)
  case (Suc n)
  have n: "unat (of_nat n :: u32) = n" using Suc.prems by (intro unat_of_nat_small) simp
  show ?case
  proof (cases "b = pt \<and> i = of_nat n")
    case True
    then show ?thesis using n assms(1) Suc.prems unfolding ident_entries64_Suc by (simp add: ld64_st64)
  next
    case False
    moreover have "b = pt \<and> unat i < Suc n \<longleftrightarrow> b = pt \<and> unat i < n"
      using False n by (auto simp: less_Suc_eq word_unat_eq_iff)
    moreover have "ld64 (ident_entries64 pt lo (Suc n) m) (entry64_at b i) = ld64 (ident_entries64 pt lo n m) (entry64_at b i)"
      unfolding ident_entries64_Suc using assms False n Suc.prems by (intro ld64_other) auto
    ultimately show ?thesis using Suc by auto
  qed
qed (simp add: ident_entries64_def)

definition frames6 :: "(nat \<Rightarrow> u32) \<Rightarrow> bool" where
  "frames6 q \<longleftrightarrow> (\<forall>i < 6. aligned (q i)) \<and> inj_on q {..< 6}"

lemma frames6D:
  assumes "frames6 q"
  shows "aligned (q 0)" "aligned (q (Suc 0))" "aligned (q 2)" "aligned (q 3)" "aligned (q 4)" "aligned (q 5)"
    "i < 6 \<Longrightarrow> j < 6 \<Longrightarrow> q i = q j \<longleftrightarrow> i = j"
  using assms by (auto simp: frames6_def inj_on_def)

lemma four: "[0 ..< 4] = [0, Suc 0, 2, 3 :: nat]"
  by (simp add: upt_rec)

lemma window_other: "unat (i :: u32) < 508 \<Longrightarrow> i \<noteq> 508 \<and> i \<noteq> 509 \<and> i \<noteq> 510 \<and> i \<noteq> 511"
  by auto

lemma pae_first_entries:
  assumes q: "frames6 q" and i: "unat i < 512"
  shows "ld64 (pae_first q m) (entry64_at (q 0) i) =
      (if i = 0 then scast (q 4) OR 3 else if i = 1 then scast (q 5) OR 3 else 0)"
    and "k \<in> {1, 2} \<Longrightarrow> ld64 (pae_first q m) (entry64_at (q k) i) = 0"
    and "unat i < 508 \<Longrightarrow> ld64 (pae_first q m) (entry64_at (q 3) i) = 0"
    and "ld64 (pae_first q m) (entry64_at (q 4) i) = push_bit 12 (of_nat (unat i)) OR 3"
    and "ld64 (pae_first q m) (entry64_at (q 5) i) = push_bit 12 (of_nat (512 + unat i)) OR 3"
  using i window_other [of i]
  by (auto simp: pae_first_def four Let_def ld64_st64 ld64_other ld64_ident ld64_fill_other ld64_zeroed frames6D [OF q])

lemma pae_first_window:
  assumes q: "frames6 q" and j: "j < 4"
  shows "ld64 (pae_first q m) (entry64_at (q 3) (of_nat (508 + j))) = ucast (q j) OR 3"
proof -
  have "j = 0 \<or> j = 1 \<or> j = 2 \<or> j = 3" using j by linarith
  then show ?thesis
    by (auto simp: pae_first_def four Let_def ld64_st64 ld64_other ld64_ident ld64_fill_other frames6D [OF q])
qed

definition pae_dirs :: "(nat \<Rightarrow> u32) \<Rightarrow> u64 list" where
  "pae_dirs q = map (\<lambda>j. ucast (q j) OR PDP_PR) [0 ..< 4]"

lemma pae_dirs:
  assumes q: "frames6 q" and j: "j < 4"
  shows "dir (pae_dirs q) j = q j" "bit (pae_dirs q ! j) 0" "low (pae_dirs q ! j)"
proof -
  have e: "pae_dirs q ! j = ucast (q j) OR 1" using j by (simp add: pae_dirs_def PDP_PR_def)
  have al: "aligned (q j)" using q j by (simp add: frames6_def)
  have "bit (1 :: u64) i \<Longrightarrow> i < 12 \<or> i = 63" for i by (simp add: bit_1_iff)
  then have f: "frame64 (ucast (q j) OR 1) = ucast (q j)" using frame64_or [OF al, of 1] by blast
  show "dir (pae_dirs q) j = q j" by (simp add: dir_def e f up_down)
  show "bit (pae_dirs q ! j) 0" by (simp add: e bit_or_iff)
  show "low (pae_dirs q ! j)" using ucast_low [of "q j"] by (simp add: low_def e f)
qed

lemma pae_dirs_ok: "frames6 q \<Longrightarrow> dirs_ok (pae_dirs q)"
  unfolding dirs_ok_def inj_on_def by (simp add: pae_dirs frames6D(7))

lemma pae_first_dent:
  assumes q: "frames6 q"
  shows "n < 2044 \<Longrightarrow> dent (pae_first q m) (pae_dirs q) n =
      (if n = 0 then scast (q 4) OR 3 else if n = 1 then scast (q 5) OR 3 else 0)"
    and "j < 4 \<Longrightarrow> dent (pae_first q m) (pae_dirs q) (2044 + j) = ucast (q j) OR 3"
proof -
  assume n: "n < 2044"
  let ?i = "of_nat (n mod 512) :: u32"
  have lt: "unat ?i < 512" by (simp add: dent_index)
  note E = pae_first_entries [OF q lt, where m = m]
  have dv: "n div 512 < 4" using n by simp
  have at: "dent (pae_first q m) (pae_dirs q) n = ld64 (pae_first q m) (entry64_at (q (n div 512)) ?i)"
    unfolding dent_def dent_at_def pae_dirs(1) [OF q dv] ..
  consider "n div 512 = 0" | "n div 512 = 1 \<or> n div 512 = 2" | "n div 512 = 3" using dv by linarith
  then show "dent (pae_first q m) (pae_dirs q) n =
      (if n = 0 then scast (q 4) OR 3 else if n = 1 then scast (q 5) OR 3 else 0)"
  proof cases
    case 1
    then have "n mod 512 = n" "n < 512" by (simp_all add: div_eq_0_iff)
    then have "?i = 0 \<longleftrightarrow> n = 0" "?i = 1 \<longleftrightarrow> n = 1"
      using small_of_nat [of n] by (auto simp: word_unat_eq_iff)
    then show ?thesis unfolding at 1 E(1) by simp
  next
    case 2
    then have "n \<noteq> 0" "n \<noteq> 1" by auto
    with E(2) [of "n div 512"] 2 show ?thesis unfolding at by auto
  next
    case 3
    then have "n mod 512 < 508" using n div_mult_mod_eq [of n 512] by linarith
    then have "unat ?i < 508" by (simp add: dent_index)
    moreover have "n \<noteq> 0" "n \<noteq> 1" using 3 by auto
    ultimately show ?thesis unfolding at 3 using E(3) by simp
  qed
next
  assume j: "j < 4"
  have "j = 0 \<or> j = 1 \<or> j = 2 \<or> j = 3" using j by linarith
  then have e: "(2044 + j) div 512 = 3" "(2044 + j) mod 512 = 508 + j" by auto
  show "dent (pae_first q m) (pae_dirs q) (2044 + j) = ucast (q j) OR 3"
    unfolding dent_def dent_at_def e using pae_dirs(1) [OF q, of 3] pae_first_window [OF q j] by simp
qed

lemma scast_low: "unat (b :: u32) < 2 ^ 31 \<Longrightarrow> (scast b :: u64) = ucast b"
proof -
  assume "unat b < 2 ^ 31"
  then have "\<not> bit b 31" using low_bits [of b 31 31] by auto
  then show ?thesis
    by (intro bit_word_eqI) (auto simp: bit_simps min_def not_less dest: bit_imp_le_length low_bits [OF \<open>unat b < 2 ^ 31\<close>])
qed

lemma pae_first_ok:
  assumes q: "frames6 q" and lim: "unat (q 4) < 2 ^ 31" "unat (q 5) < 2 ^ 31"
  shows "pae_ok (pae_first q m) (pae_dirs q)"
proof -
  note s = scast_low [OF lim(1)] scast_low [OF lim(2)]
  note x = or_3_entry [OF frames6D(5) [OF q]] or_3_entry [OF frames6D(6) [OF q]]
  show ?thesis
    unfolding pae_ok_def
    by (auto simp: pae_dirs_ok [OF q] pae_first_dent [OF q] pae_dirs [OF q] s x frames6D [OF q])
qed

lemma page_and_offset:
  fixes v :: u32
  shows "(ucast (frame_no (unat v div 4096)) + ucast (v AND 0xFFF) :: u64) = ucast v"
proof -
  have k: "unat v div 4096 < 2 ^ 20" using unat_u32 [of v] by simp
  have o: "v AND 0xFFF = of_nat (unat v mod 4096)" by (simp flip: unat_indices(3))
  have "frame_no (unat v div 4096) + of_nat (unat v mod 4096) = v"
    using offset_unat [OF frame_no(2) [OF k], of "unat v mod 4096"]
    by (simp only: word_unat_eq_iff frame_no(1) [OF k]) simp
  then show ?thesis unfolding o by (simp only: ucast_frame [OF frame_no(2) [OF k]] mod_less_divisor zero_less_numeral)
qed

lemma push_frame:
  assumes "k < 2 ^ 20" shows "push_bit 12 (of_nat k) = (ucast (frame_no k) :: u64)"
proof -
  have "push_bit 12 (of_nat k) = (of_nat (4096 * k) :: u64)" by (simp add: push_bit_eq_mult)
  moreover have "unat (of_nat (4096 * k) :: u64) = 4096 * k" using assms by (intro unat_of_nat_small) simp
  ultimately have "unat (push_bit 12 (of_nat k) :: u64) = unat (frame_no k)" by (simp only: frame_no(1) [OF assms])
  then show ?thesis
    by (simp only: word_unat_eq_iff unsigned_ucast_eq)
      (simp add: take_bit_nat_eq_self less_trans [OF unat_u32])
qed

lemma low_slots: "v < 0x400000 \<longleftrightarrow> slot v = 0 \<or> slot v = 1"
  by (auto simp: slot_def word_less_nat_alt div_eq_0_iff)

lemma pae_first_walk:
  assumes q: "frames6 q" and lim: "unat (q 4) < 2 ^ 31" "unat (q 5) < 2 ^ 31" and v: "slot v < 2044"
  shows "walk64 (pae_first q m) (pae_dirs q) w v = (if v < 0x400000 then Inr (ucast v) else Inl Page_fault)"
proof -
  let ?i = "of_nat (tindex v) :: u32" and ?k = "unat v div 4096"
  note d = pae_dirs_ok [OF q]
  have i: "unat ?i < 512" "unat ?i = tindex v" using small_of_nat [OF slot_bounds(4)] slot_bounds(4) by simp_all
  have "?k = 512 * (?k div 512) + ?k mod 512" by (rule mult_div_mod_eq [symmetric])
  moreover have "?k div 512 = slot v" by (simp add: slot_def div_mult2_eq [symmetric])
  ultimately have k: "?k = 512 * slot v + tindex v" unfolding tindex_def by (simp only:)
  have k20: "?k < 2 ^ 20" using unat_u32 [of v] by simp
  show ?thesis
  proof (cases "slot v = 0 \<or> slot v = 1")
    case True
    let ?p = "q (4 + slot v)"
    have p: "aligned ?p" "unat ?p < 2 ^ 31"
    proof -
      have n: "4 + 0 = (4 :: nat)" "4 + 1 = (5 :: nat)" by simp_all
      show "aligned ?p" using True by (elim disjE) (simp_all only: n frames6D(5,6) [OF q])
      show "unat ?p < 2 ^ 31" using True by (elim disjE) (simp_all only: n lim)
    qed
    have "dent (pae_first q m) (pae_dirs q) (slot v) = scast ?p OR 3"
    proof -
      have n: "4 + 0 = (4 :: nat)" "4 + 1 = (5 :: nat)" "(1 :: nat) \<noteq> 0" by simp_all
      show ?thesis
        using True unfolding pae_first_dent(1) [OF q v]
        by (elim disjE) (simp_all only: n if_True if_False simp_thms)
    qed
    then have e: "dent (pae_first q m) (pae_dirs q) (slot v) = ucast ?p OR 3" unfolding scast_low [OF p(2)] .
    have "ld64 (pae_first q m) (entry64_at ?p ?i) = push_bit 12 (of_nat ?k) OR 3"
    proof -
      have n: "4 + 0 = (4 :: nat)" "4 + 1 = (5 :: nat)" "512 * 0 + tindex v = tindex v" "512 * 1 + tindex v = 512 + tindex v"
        by simp_all
      note E = pae_first_entries(4,5) [OF q i(1), where m = m, unfolded i(2)]
      show ?thesis unfolding k using True by (elim disjE) (simp_all only: n E)
    qed
    then have "ld64 (pae_first q m) (entry64_at ?p ?i) = ucast (frame_no ?k) OR 3" unfolding push_frame [OF k20] .
    then have x: "ld64 (pae_first q m) (entry64_at (ptab (ucast ?p OR 3)) ?i) = ucast (frame_no ?k) OR 3"
      unfolding or_3_entry(2) [OF p(1)] .
    have "walk64 (pae_first q m) (pae_dirs q) w v = Inr (ucast (frame_no ?k) + ucast (v AND 0xFFF))"
      unfolding walk64_slot [OF d e or_3_entry(1) [OF p(1)]] Let_def x
      by (simp only: or_3_entry(3) [OF p(1)] or_3_entry(3) [OF frame_no(2) [OF k20]]
          frame64_or_3 [OF frame_no(2) [OF k20]] simp_thms if_True)
    then show ?thesis using True unfolding page_and_offset low_slots by simp
  next
    case False
    then have "dent (pae_first q m) (pae_dirs q) (slot v) = 0" using pae_first_dent(1) [OF q v] by simp
    then show ?thesis using walk64_slot [OF d, of _ v 0 w] False by (simp add: low_slots)
  qed
qed

text \<open>\<open>init\<close> takes six free pages: the four directories and the two page tables.\<close>

lemma frames6_no: "5 < P \<Longrightarrow> P < 2 ^ 20 \<Longrightarrow> frames6 (\<lambda>i. frame_no (P - i))"
  unfolding frames6_def inj_on_def by (auto simp: frame_no frame_no_inj)

lemma pae_init_result:
  assumes r: "ready (n + 6) (pframes s)" and P: "unat (lm_ptr (pframes s)) = P"
  shows "\<exists>f. Mmu32Pae_enable pdpt_at s = Inr (s\<lparr>pmemory := pae_first (\<lambda>i. frame_no (P - i)) (pmemory s), pframes := f,
        pdpt := pae_dirs (\<lambda>i. frame_no (P - i)), pcr3 := pdpt_at, pcr4 := pcr4 s OR (CR4_PAE OR CR4_PGE),
        pcr0 := pcr0 s OR (CR0_PG OR CR0_WP)\<rparr>)
    \<and> ready n f \<and> (\<forall>i < 6. in_use f (frame_no (P - i)))"
proof -
  let ?q = "\<lambda>i. frame_no (P - i)"
  have lim: "n + 6 < P" "P < 2 ^ 20" using r P by (simp_all add: ready_def)
  have r0: "ready (Suc (Suc (Suc (Suc (Suc (Suc n)))))) (pframes s)" using r by (simp add: numeral_eq_Suc)
  obtain f1 where f1: "loader_frame True (pmemory s, pframes s) = Inr (ucast (?q 0), fill_up (?q 0) 0 4096 (pmemory s), f1)"
      "ready (Suc (Suc (Suc (Suc (Suc n))))) f1" "unat (lm_ptr f1) = P - 1"
      "\<forall>b. in_use f1 b \<longleftrightarrow> in_use (pframes s) b \<or> page_no b = P"
    using loader_frame_no [OF r0 P, of "pmemory s"] by auto
  let ?m1 = "fill_up (?q 0) 0 4096 (pmemory s)"
  obtain f2 where f2: "loader_frame True (?m1, f1) = Inr (ucast (?q 1), fill_up (?q 1) 0 4096 ?m1, f2)"
      "ready (Suc (Suc (Suc (Suc n)))) f2" "unat (lm_ptr f2) = P - 2" "\<forall>b. in_use f2 b \<longleftrightarrow> in_use f1 b \<or> page_no b = P - 1"
    using loader_frame_no [OF f1(2,3), of ?m1] by auto
  let ?m2 = "fill_up (?q 1) 0 4096 ?m1"
  obtain f3 where f3: "loader_frame True (?m2, f2) = Inr (ucast (?q 2), fill_up (?q 2) 0 4096 ?m2, f3)"
      "ready (Suc (Suc (Suc n))) f3" "unat (lm_ptr f3) = P - 3" "\<forall>b. in_use f3 b \<longleftrightarrow> in_use f2 b \<or> page_no b = P - 2"
    using loader_frame_no [OF f2(2,3), of ?m2] by auto
  let ?m3 = "fill_up (?q 2) 0 4096 ?m2"
  obtain f4 where f4: "loader_frame True (?m3, f3) = Inr (ucast (?q 3), fill_up (?q 3) 0 4096 ?m3, f4)"
      "ready (Suc (Suc n)) f4" "unat (lm_ptr f4) = P - 4" "\<forall>b. in_use f4 b \<longleftrightarrow> in_use f3 b \<or> page_no b = P - 3"
    using loader_frame_no [OF f3(2,3), of ?m3] by auto
  let ?m4 = "fold (\<lambda>j. st64 (entry64_at (?q 3) (of_nat (508 + j))) (ucast (?q j) OR 3)) [0 ..< 4] (fill_up (?q 3) 0 4096 ?m3)"
  obtain f5 where f5: "loader_frame True (?m4, f4) = Inr (ucast (?q 4), fill_up (?q 4) 0 4096 ?m4, f5)"
      "ready (Suc n) f5" "unat (lm_ptr f5) = P - 5" "\<forall>b. in_use f5 b \<longleftrightarrow> in_use f4 b \<or> page_no b = P - 4"
    using loader_frame_no [OF f4(2,3), of ?m4] by auto
  let ?m5 = "fill_up (?q 4) 0 4096 ?m4"
  obtain f6 where f6: "loader_frame True (?m5, f5) = Inr (ucast (?q 5), fill_up (?q 5) 0 4096 ?m5, f6)"
      "ready n f6" "\<forall>b. in_use f6 b \<longleftrightarrow> in_use f5 b \<or> page_no b = P - 5"
    using loader_frame_no [OF f5(2,3), of ?m5] by auto
  have fl: "PDE64 = 3" by (simp add: PDE64_def)
  have D: "pae_dirs ?q = [ucast (?q 0) OR PDP_PR, ucast (?q 1) OR PDP_PR, ucast (?q 2) OR PDP_PR, ucast (?q 3) OR PDP_PR]"
    by (simp add: pae_dirs_def four)
  have F: "fold g [0 ..< 4] m = g 3 (g 2 (g 1 (g 0 m)))" for g :: "nat \<Rightarrow> mem \<Rightarrow> mem" and m by (simp add: four)
  have N: "(of_nat (508 + 0) :: u32) = 508" "(of_nat (508 + 1) :: u32) = 509" "(of_nat (508 + 2) :: u32) = 510"
    "(of_nat (508 + 3) :: u32) = 511" by simp_all
  note G5 = f5(1) [unfolded F N] and G6 = f6(1) [unfolded F N]
  have M: "pae_first ?q (pmemory s) = st64 (entry64_at (?q 0) 1) (scast (?q 5) OR 3)
      (st64 (entry64_at (?q 0) 0) (scast (?q 4) OR 3) (ident_entries64 (?q 5) 512 512 (ident_entries64 (?q 4) 0 512
        (fill_up (?q 5) 0 4096 (fill_up (?q 4) 0 4096
          (st64 (entry64_at (?q 3) 511) (ucast (?q 3) OR 3) (st64 (entry64_at (?q 3) 510) (ucast (?q 2) OR 3)
          (st64 (entry64_at (?q 3) 509) (ucast (?q 1) OR 3) (st64 (entry64_at (?q 3) 508) (ucast (?q 0) OR 3)
            (fill_up (?q 3) 0 4096 ?m3))))))))))"
    unfolding pae_first_def Let_def F N ..
  have "Mmu32Pae_enable pdpt_at s = Inr (s\<lparr>pmemory := pae_first ?q (pmemory s), pframes := f6,
        pdpt := pae_dirs ?q, pcr3 := pdpt_at, pcr4 := pcr4 s OR (CR4_PAE OR CR4_PGE),
        pcr0 := pcr0 s OR (CR0_PG OR CR0_WP)\<rparr>)"
    unfolding Mmu32Pae_enable_def f1(1) f2(1) f3(1) f4(1) bind_res.simps prod.case fl up_down Let_def
    unfolding G5 bind_res.simps prod.case
    unfolding G6 bind_res.simps prod.case up_down
    unfolding M D by (rule refl)
  moreover have "in_use f6 (?q i)" if "i < 6" for i
  proof -
    have p: "page_no (?q i) = P - i" by (rule frame_no(3)) (use lim in simp)
    have u: "in_use f6 (?q i) \<longleftrightarrow> ((((((in_use (pframes s) (?q i) \<or> P - i = P) \<or> P - i = P - 1) \<or> P - i = P - 2)
        \<or> P - i = P - 3) \<or> P - i = P - 4) \<or> P - i = P - 5)"
      by (simp only: f1(4) f2(4) f3(4) f4(4) f5(4) f6(3) p)
    have "i = 0 \<or> i = 1 \<or> i = 2 \<or> i = 3 \<or> i = 4 \<or> i = 5" using that by linarith
    then show ?thesis unfolding u by (elim disjE) simp_all
  qed
  ultimately show ?thesis using f6(2) by blast
qed

lemma pae_init_machine:
  assumes r: "ready (n + 6) (pframes s)" and P: "unat (lm_ptr (pframes s)) < 2 ^ 19"
  shows "\<exists>s'. Mmu32Pae_enable pdpt_at s = Inr s' \<and> pae_inv in_use s' \<and> ready n (pframes s') \<and> bit (pcr0 s') 16
    \<and> (\<forall>w v. slot v < 2044 \<longrightarrow> translate64 s' w v = (if v < 0x400000 then Inr (ucast v) else Inl Page_fault))"
proof -
  define p where "p = unat (lm_ptr (pframes s))"
  define q where "q = (\<lambda>i. frame_no (p - i))"
  have lim: "5 < p" "p < 2 ^ 19" using r P by (simp_all add: ready_def p_def)
  have q: "frames6 q" unfolding q_def using lim by (intro frames6_no) simp_all
  have q4: "unat (q 4) < 2 ^ 31" "unat (q 5) < 2 ^ 31" using lim by (simp_all add: q_def frame_no(1))
  obtain f where s': "Mmu32Pae_enable pdpt_at s = Inr (s\<lparr>pmemory := pae_first q (pmemory s), pframes := f,
        pdpt := pae_dirs q, pcr3 := pdpt_at, pcr4 := pcr4 s OR (CR4_PAE OR CR4_PGE),
        pcr0 := pcr0 s OR (CR0_PG OR CR0_WP)\<rparr>)" (is "_ = Inr ?s")
      and f: "ready n f" "\<forall>i < 6. in_use f (q i)"
    using pae_init_result [OF r p_def [symmetric], of pdpt_at] unfolding q_def by auto
  have pg: "(pcr0 s OR (CR0_PG OR CR0_WP)) AND CR0_PG \<noteq> 0" "bit (pcr0 s OR (CR0_PG OR CR0_WP)) 16"
    unfolding CR0_PG_def and_push_bit_1_eq_0_iff not_not by (simp_all add: CR0_WP_def bit_or_iff bit_push_bit_iff)
  then have ok: "pae_machine_ok ?s" using pae_first_ok [OF q q4] by (simp add: pae_machine_ok_def)
  moreover have "dent (pae_first q (pmemory s)) (pae_dirs q) n \<noteq> 0 \<longrightarrow> in_use f (ptab (dent (pae_first q (pmemory s)) (pae_dirs q) n))"
    if "n < 2044" for n
    using f(2) or_3_entry(2) [OF frames6D(5) [OF q]] or_3_entry(2) [OF frames6D(6) [OF q]]
    unfolding pae_first_dent(1) [OF q that] scast_low [OF q4(1)] scast_low [OF q4(2)] by auto
  ultimately have "pae_inv in_use ?s" using f(2) by (simp add: pae_inv_def pae_dirs(1) [OF q])
  moreover have "translate64 ?s w v = (if v < 0x400000 then Inr (ucast v) else Inl Page_fault)" if "slot v < 2044" for w v
    using translate64_ok [OF ok] pae_first_walk [OF q q4 that] by simp
  ultimately show ?thesis using s' f(1) pg(2) by auto
qed

section \<open>Properties\<close>

lemma pae_flag_bits:
  "bit (if nx then PTE_NX OR PG_PAE_FLAG_MASK else PG_PAE_FLAG_MASK) j \<Longrightarrow> j < 12 \<or> j = 63"
  "bit (if nx then PTE_NX OR PG_PAE_FLAG_MASK else PG_PAE_FLAG_MASK) 0"
  "bit (if nx then PTE_NX OR PG_PAE_FLAG_MASK else PG_PAE_FLAG_MASK) 1"
proof -
  have m: "PG_PAE_FLAG_MASK = push_bit 8 1 OR mask 5" by (simp add: PG_PAE_FLAG_MASK_def mask_eq_exp_minus_1)
  show "bit (if nx then PTE_NX OR PG_PAE_FLAG_MASK else PG_PAE_FLAG_MASK) j \<Longrightarrow> j < 12 \<or> j = 63"
    unfolding m PTE_NX_def
    by (simp only: bit_or_iff bit_push_bit_iff bit_mask_iff bit_1_iff split: if_splits) linarith+
  show "bit (if nx then PTE_NX OR PG_PAE_FLAG_MASK else PG_PAE_FLAG_MASK) 0"
    "bit (if nx then PTE_NX OR PG_PAE_FLAG_MASK else PG_PAE_FLAG_MASK) 1"
    unfolding m by (simp_all add: bit_or_iff bit_mask_iff)
qed

text \<open>The entry for an aligned frame: the frame is the low word of the address.\<close>

lemma pae_entry_parts:
  assumes "b AND 0xFFF = 0"
  shows "frame64 (pae_entry nx b c) = ucast (ucast b :: u32)"
    and "usable64 w (pae_entry nx b c) \<longleftrightarrow> bit c 0 \<and> (w \<longrightarrow> bit c 1)"
proof -
  let ?fl = "c AND (if nx then PTE_NX OR PG_PAE_FLAG_MASK else PG_PAE_FLAG_MASK)"
  have m: "(0xFFF :: u64) = mask 12" by (simp add: mask_eq_exp_minus_1)
  have lo: "\<not> bit b j" if "j < 12" for j
  proof -
    have "bit (b AND mask 12) j = bit (0 :: u64) j" using assms unfolding m by (rule arg_cong)
    with that show ?thesis by (simp only: bit_and_iff bit_mask_iff bit_0_eq bot_apply) auto
  qed
  have "(ucast b :: u32) AND mask 12 = 0"
    by (rule bit_word_eqI) (auto simp: bit_simps lo)
  then have al: "aligned (ucast b)" by (simp add: aligned_def masks)
  have fl: "bit ?fl j \<Longrightarrow> j < 12 \<or> j = 63" for j
    using pae_flag_bits(1) [of nx j] by (simp only: bit_and_iff)
  then show "frame64 (pae_entry nx b c) = ucast (ucast b :: u32)"
    unfolding pae_entry_def by (rule frame64_or [OF al])
  have hi: "\<not> bit (pae_entry nx b c) j" if "52 \<le> j" "j < 63" for j
  proof
    assume "bit (pae_entry nx b c) j"
    then consider "bit (ucast (ucast b :: u32) :: u64) j" | "bit ?fl j" unfolding pae_entry_def bit_or_iff by blast
    then show False
    proof cases
      case 1
      then have "j < 32" by (simp add: bit_ucast_iff)
      with that show False by simp
    next
      case 2
      with fl [of j] that show False by linarith
    qed
  qed
  have "pae_entry nx b c AND push_bit 52 (mask 11) = 0"
    by (rule bit_word_eqI) (use hi in \<open>auto simp: bit_and_iff bit_push_bit_iff bit_mask_iff\<close>)
  moreover have "bit (pae_entry nx b c) 0 = bit c 0" "bit (pae_entry nx b c) 1 = bit c 1"
    using lo [of 0] lo [of 1] pae_flag_bits(2,3) [of nx]
    unfolding pae_entry_def bit_or_iff bit_and_iff by (simp_all add: bit_ucast_iff)
  ultimately show "usable64 w (pae_entry nx b c) \<longleftrightarrow> bit c 0 \<and> (w \<longrightarrow> bit c 1)"
    by (simp add: usable64_def)
qed

text \<open>C20. The kernel's \<open>map\<close> with PAE, given a frame by the boot allocator when a table is missing, keeps the
  paging invariant and every other translation; the page itself goes to the frame given by the low 32 bits of
  the physical address, so a frame above 4 GiB is mapped to another one below.\<close>

theorem kernel_pae_map_low:
  assumes inv: "pae_inv boot_in_use s" and r: "boot_ready (Suc n) (pframes s)"
    and v: "ARCH_PAE_GET_PDPT_IDX (ucast a) \<noteq> 3 \<or> ARCH_PAE_GET_PD_IDX (ucast a) < 508"
    and b: "b AND 0xFFF = 0" and c: "bit c 0" "bit c 1"
  shows "\<exists>s'. kernel_pae_map buf nx a b c s = Inr s' \<and> pae_inv boot_in_use s' \<and> boot_ready n (pframes s')
    \<and> (\<forall>w u. slot u < 2044 \<longrightarrow> translate64 s' w u =
        (if frame_of u = frame_of (ucast a) then Inr (ucast (ucast b :: u32) + ucast (u AND 0xFFF))
         else translate64 s w u))"
proof -
  let ?n = "slot (ucast a)"
  have "?n div 512 \<noteq> 3 \<or> ?n mod 512 < 508"
    using v by (simp add: word_unat_eq_iff word_less_nat_alt unat_pae_indices)
  then have "?n < 2044" using slot_bounds(2) [of "ucast a"] div_mult_mod_eq [of ?n 512] by linarith
  from kernel_low.pae_map_correct [OF inv r this, of buf nx b c] show ?thesis
    unfolding kernel_pae_map_def pae_entry_parts [OF b] by (simp only: c simp_thms if_True)
qed

text \<open>C19. With page tables below 2 GiB, \<open>init\<close> turns paging and write protection on with the invariant of the
  loader, the first 4 MiB mapped to themselves and nothing else outside the recursive window. It returns when the
  processor has no execute-disable bit; when it has one, control falls into the code behind \<open>enable_xd\<close>.\<close>

theorem pae_init_correct:
  assumes "ready (n + 6) (pframes s)" and "unat (lm_ptr (pframes s)) < 2 ^ 19"
  shows "\<exists>s'. Mmu32Pae_init follow pdpt_at nx s = (if nx then follow (s'\<lparr>nxe := True\<rparr>) else Inr s')
    \<and> pae_inv in_use s' \<and> ready n (pframes s') \<and> bit (pcr0 s') 16
    \<and> (\<forall>w v. slot v < 2044 \<longrightarrow> translate64 s' w v = (if v < 0x400000 then Inr (ucast v) else Inl Page_fault))"
proof -
  obtain s' where s': "Mmu32Pae_enable pdpt_at s = Inr s'" "pae_inv in_use s'" "ready n (pframes s')" "bit (pcr0 s') 16"
      "\<forall>w v. slot v < 2044 \<longrightarrow> translate64 s' w v = (if v < 0x400000 then Inr (ucast v) else Inl Page_fault)"
    using pae_init_machine [OF assms, of pdpt_at] by blast
  moreover have "Mmu32Pae_init follow pdpt_at nx s = (if nx then follow (s'\<lparr>nxe := True\<rparr>) else Inr s')"
    by (simp add: Mmu32Pae_init_def s'(1) enable_xd_def)
  ultimately show ?thesis by blast
qed

lemma scast_high: "2 ^ 31 \<le> unat (b :: u32) \<Longrightarrow> \<not> usable64 w (scast b OR x)"
proof -
  assume b: "2 ^ 31 \<le> unat b"
  have "unat b div 2 ^ 31 = 1" using b unat_u32 [of b] by (intro div_nat_eqI) simp_all
  then have "bit (unat b) 31" by (simp add: bit_iff_odd)
  then have "bit b 31" by (simp add: bit_unsigned_iff)
  then have "bit (scast b :: u64) 52" by (simp add: bit_simps)
  then have "bit ((scast b OR x) AND push_bit 52 (mask 11) :: u64) 52" by (simp add: bit_simps)
  then have "(scast b OR x) AND push_bit 52 (mask 11) \<noteq> (0 :: u64)" by auto
  then show ?thesis by (simp add: usable64_def)
qed

text \<open>C21. With free pages above 2 GiB only, \<open>init\<close> leaves no translation at all: the compiler extends the
  pointers to the two page tables with their sign, the reserved bits of both directory entries are set, and the
  first access after paging is on faults.\<close>

theorem pae_init_high:
  assumes r: "ready (n + 6) (pframes s)" and P: "2 ^ 19 + 5 \<le> unat (lm_ptr (pframes s))"
  shows "\<exists>s'. Mmu32Pae_enable pdpt_at s = Inr s' \<and> pcr0 s' AND CR0_PG \<noteq> 0
    \<and> (\<forall>w v. slot v < 2044 \<longrightarrow> translate64 s' w v = Inl Page_fault)"
proof -
  define p where "p = unat (lm_ptr (pframes s))"
  define q where "q = (\<lambda>i. frame_no (p - i))"
  have lim: "5 < p" "p < 2 ^ 20" "2 ^ 19 + 5 \<le> p" using r P by (simp_all add: ready_def p_def)
  have q: "frames6 q" unfolding q_def using lim by (intro frames6_no) simp_all
  have q4: "2 ^ 31 \<le> unat (q 4)" "2 ^ 31 \<le> unat (q 5)" using lim by (simp_all add: q_def frame_no(1))
  obtain f where s': "Mmu32Pae_enable pdpt_at s = Inr (s\<lparr>pmemory := pae_first q (pmemory s), pframes := f,
        pdpt := pae_dirs q, pcr3 := pdpt_at, pcr4 := pcr4 s OR (CR4_PAE OR CR4_PGE),
        pcr0 := pcr0 s OR (CR0_PG OR CR0_WP)\<rparr>)" (is "_ = Inr ?s")
    using pae_init_result [OF r p_def [symmetric], of pdpt_at] unfolding q_def by auto
  have pg: "(pcr0 s OR (CR0_PG OR CR0_WP)) AND CR0_PG \<noteq> 0"
    unfolding CR0_PG_def and_push_bit_1_eq_0_iff not_not by (simp add: bit_or_iff bit_push_bit_iff)
  have "walk64 (pae_first q (pmemory s)) (pae_dirs q) w v = Inl Page_fault" if v: "slot v < 2044" for w v
  proof -
    let ?e = "dent (pae_first q (pmemory s)) (pae_dirs q) (slot v)"
    have u: "\<not> usable64 w ?e"
      unfolding pae_first_dent(1) [OF q v] using scast_high [OF q4(1)] scast_high [OF q4(2)] by simp
    then show ?thesis using walk64_slot [OF pae_dirs_ok [OF q] refl, of w "pae_first q (pmemory s)" v] by (simp add: Let_def)
  qed
  then show ?thesis using s' pg by (auto simp: translate64_def)
qed

section \<open>Witnesses\<close>

definition pae_demo :: "u64 \<Rightarrow> loader_mm pae_machine" where
  "pae_demo ptr = \<lparr>pmemory = (\<lambda>_. 0), pcr0 = 1, pcr3 = 0, pcr4 = 0, nxe = False, pdpt = [0, 0, 0, 0],
     pframes = \<lparr>lm_alloc = \<lparr>bm_length = 32768, bm_bit_count = 1048576, bm_words = (\<lambda>_. 0)\<rparr>, lm_resrv = (\<lambda>_. 0),
       lm_avail_mem = 0, lm_num_pages = 1048576, lm_ptr = ptr, lm_MODS_END = 0, lm_MAX_MEM = 0, lm_memory = (\<lambda>_. 0)\<rparr>\<rparr>"

lemma pae_demo_ready: "6 < unat ptr \<Longrightarrow> unat ptr < 2 ^ 20 \<Longrightarrow> ready (0 + 6) (pframes (pae_demo ptr))"
  by (simp add: ready_def pae_demo_def bm_bit_def)

theorem pae_init_correct_witness:
  "\<exists>s'. Mmu32Pae_init Inr 0x3000 False (pae_demo 0x100) = Inr s' \<and> translate64 s' True 0xB8000 = Inr 0xB8000
    \<and> translate64 s' False 0xE0000000 = Inl Page_fault"
proof -
  have p: "unat (lm_ptr (pframes (pae_demo 0x100))) < 2 ^ 19" by (simp add: pae_demo_def)
  have r: "ready (0 + 6) (pframes (pae_demo 0x100))" by (rule pae_demo_ready) simp_all
  have "slot 0xB8000 < 2044" "slot 0xE0000000 < 2044" by (simp_all add: slot_def)
  with pae_init_correct [OF r p, of Inr "0x3000" False] show ?thesis by fastforce
qed

theorem pae_init_high_witness:
  "\<exists>s'. Mmu32Pae_enable 0x3000 (pae_demo 0x90000) = Inr s' \<and> translate64 s' False 0x1000 = Inl Page_fault"
proof -
  have p: "2 ^ 19 + 5 \<le> unat (lm_ptr (pframes (pae_demo 0x90000)))" by (simp add: pae_demo_def)
  have r: "ready (0 + 6) (pframes (pae_demo 0x90000))" by (rule pae_demo_ready) simp_all
  have "slot 0x1000 < 2044" by (simp add: slot_def)
  with pae_init_high [OF r p, of "0x3000"] show ?thesis by blast
qed

text \<open>A kernel with its directories and tables in pages 5 to 10, and the boot allocator in charge.\<close>

definition kernel_pae_demo :: "pmm pae_machine" where
  "kernel_pae_demo = \<lparr>pmemory = pae_first (\<lambda>i. frame_no (10 - i)) (\<lambda>_. 0), pcr0 = CR0_PG, pcr3 = 0, pcr4 = CR4_PAE,
     nxe = True, pdpt = pae_dirs (\<lambda>i. frame_no (10 - i)),
     pframes = \<lparr>pm_allocator = Some BootAllocator,
       pm_boot = \<lparr>alloc_map = \<lparr>bm_length = 1, bm_bit_count = 32, bm_words = (\<lambda>_. 0x7E0)\<rparr>, ba_ptr = 0\<rparr>,
       pm_node = pmm_example\<rparr>\<rparr>"

lemma kernel_pae_demo_inv: "pae_inv boot_in_use kernel_pae_demo"
proof -
  let ?q = "\<lambda>i. frame_no (10 - i)"
  have q: "frames6 ?q" by (rule frames6_no) simp_all
  have p4: "unat (?q 4) < 2 ^ 31" "unat (?q 5) < 2 ^ 31" by (simp_all add: frame_no(1))
  have "CR0_PG AND CR0_PG \<noteq> 0" by (simp add: CR0_PG_def)
  then have ok: "pae_machine_ok kernel_pae_demo"
    using pae_first_ok [OF q p4] by (simp add: pae_machine_ok_def kernel_pae_demo_def)
  have use: "boot_in_use (pframes kernel_pae_demo) (?q i)" if "i < 6" for i
  proof -
    have "page_no (?q i) = 10 - i" by (rule frame_no(3)) simp
    moreover have "i = 0 \<or> i = 1 \<or> i = 2 \<or> i = 3 \<or> i = 4 \<or> i = 5" using that by linarith
    ultimately show ?thesis
      unfolding boot_in_use_def by (elim disjE) (simp_all add: boot_used_def bm_bit_def kernel_pae_demo_def)
  qed
  have "boot_in_use (pframes kernel_pae_demo) (ptab (dent (pmemory kernel_pae_demo) (pdpt kernel_pae_demo) n))"
    if n: "n < 2044" "dent (pmemory kernel_pae_demo) (pdpt kernel_pae_demo) n \<noteq> 0" for n
  proof -
    have "dent (pmemory kernel_pae_demo) (pdpt kernel_pae_demo) n =
        (if n = 0 then ucast (?q 4) OR 3 else if n = 1 then ucast (?q 5) OR 3 else 0)"
      using pae_first_dent(1) [OF q n(1), where m = "\<lambda>_. 0", unfolded scast_low [OF p4(1)] scast_low [OF p4(2)]]
      by (simp add: kernel_pae_demo_def)
    then show ?thesis
      using n(2) use [of 4] use [of 5] or_3_entry(2) [OF frames6D(5) [OF q]] or_3_entry(2) [OF frames6D(6) [OF q]]
      by (auto split: if_splits)
  qed
  moreover have "boot_in_use (pframes kernel_pae_demo) (dir (pdpt kernel_pae_demo) j)" if "j < 4" for j
    using use [of j] that pae_dirs(1) [OF q that] by (simp add: kernel_pae_demo_def)
  ultimately show ?thesis using ok by (simp add: pae_inv_def)
qed

lemma kernel_pae_demo_ready: "boot_ready (Suc 0) (pframes kernel_pae_demo)"
proof -
  have "0 \<in> boot_managed (pm_boot (pframes kernel_pae_demo)) - boot_used (pm_boot (pframes kernel_pae_demo))"
    by (simp add: boot_managed_def boot_used_def bm_bit_def kernel_pae_demo_def)
  moreover have "finite (boot_managed (pm_boot (pframes kernel_pae_demo)))" by (simp add: boot_managed_def)
  ultimately have "Suc 0 \<le> card (boot_managed (pm_boot (pframes kernel_pae_demo)) - boot_used (pm_boot (pframes kernel_pae_demo)))"
    by (metis Suc_leI card_gt_0_iff empty_iff finite_Diff)
  then show ?thesis by (auto simp: boot_ready_def boot_inv_def kernel_pae_demo_def)
qed

theorem kernel_pae_map_low_witness:
  "\<exists>s'. kernel_pae_map 0x9000 True 0xE0000000 0x100005000 3 kernel_pae_demo = Inr s'
    \<and> translate64 s' True 0xE0000123 = Inr 0x5123"
proof -
  have i: "ARCH_PAE_GET_PDPT_IDX (ucast (0xE0000000 :: u64)) \<noteq> 3 \<or> ARCH_PAE_GET_PD_IDX (ucast (0xE0000000 :: u64)) < 508"
    by (simp add: ARCH_PAE_GET_PDPT_IDX_def ARCH_PAE_GET_PD_IDX_def)
  have b: "(0x100005000 :: u64) AND 0xFFF = 0" "bit (3 :: u64) 0" "bit (3 :: u64) 1" by simp_all
  have s: "slot 0xE0000123 < 2044" by (simp add: slot_def)
  have f: "frame_of 0xE0000123 = frame_of (ucast (0xE0000000 :: u64))"
    by (simp add: frame_of_def ARCH_PAGE_MASK_def ARCH_PAGE_SIZE_def ARCH_PAGE_SHIFT_def)
  obtain s' where "kernel_pae_map 0x9000 True 0xE0000000 0x100005000 3 kernel_pae_demo = Inr s'"
      "\<forall>w u. slot u < 2044 \<longrightarrow> translate64 s' w u =
        (if frame_of u = frame_of (ucast (0xE0000000 :: u64)) then Inr (ucast (ucast (0x100005000 :: u64) :: u32) + ucast (u AND 0xFFF))
         else translate64 kernel_pae_demo w u)"
    using kernel_pae_map_low [OF kernel_pae_demo_inv kernel_pae_demo_ready i b] by blast
  then show ?thesis using s f by simp
qed

end
