(* ===== verification/Spec2Isabelle.thy ===== *)
theory Spec2Isabelle
  imports Pmm Libc Printk Elf GdbTraps KernelStart StackTrace Runtime PagingPae
begin

text \<open>
  A model of cxkernel (LiquiDOS), a kernel for the i386: its loader, its memory management, its interrupt handling,
  its C library and its debugger stub. File names are relative to \<open>src/\<close>; the target is the default build of the
  32-bit kernel.

  \<^bold>\<open>The program.\<close> A multiboot boot loader starts the cxkernel loader (\<open>loader/x86\<close>) with a memory map and a list
  of modules. The loader sets up a bitmap of page frames, chooses a kernel among the modules, turns paging on, maps the
  segments of the kernel and jumps to it with a structure that carries the bitmap and the ELF context. The kernel
  (\<open>core/kernel.cc\<close>) takes the bitmap over into its boot allocator, fills the descriptor tables, identifies the
  processor, installs handlers, maps a strip of all available memory for its allocator, switches to the list allocator
  of pages, and starts the slab allocator. The console, the serial line, the formatted output and the debugger stub
  serve it from there on.

  \<^bold>\<open>The theories\<close>, from the bottom up:

  \<^item> \<open>Prelude\<close>, \<open>Memory\<close>, \<open>Blocks\<close>: the C types as words, the results of operations that may fail, the byte memory with
    its little-endian accesses, and structures as blocks of bytes. \<open>Blocks\<close> has the locale \<open>table\<close>: an array in
    memory whose entries are read back as they were written.
  \<^item> \<open>Arch\<close>, \<open>PageArith\<close>: the address macros of \<open>include/arch/x86/32\<close>, and the arithmetic of page table entries.
  \<^item> \<open>Bitmap\<close> (\<open>lib/ebl/include/bitmap.h\<close>): the macros and both searches; the locale \<open>bit_array\<close> is what the allocators
    need of them.
  \<^item> \<open>LinkedList\<close> (\<open>lib/ebl/include/linked_list.h\<close>): the operations on a heap of nodes; the locale \<open>node_lists\<close> is the
    contract of insertion and removal, interpreted for lists with a null end (\<open>dl\<close>) and for rooted ones (\<open>rl\<close>, in
    \<open>Slab\<close>).
  \<^item> \<open>BootAlloc\<close> (\<open>core/mm/bootalloc.cc\<close>), \<open>PmmNode\<close> and \<open>PmmInit\<close> (\<open>core/mm/pmm_node.cc\<close>), \<open>Pmm\<close>
    (\<open>core/mm/pmm.cc\<close>), \<open>Slab\<close> (\<open>core/mm/slab.cc\<close>), \<open>Runtime\<close> (\<open>lib/ebl/alloc.cc\<close>, \<open>lib/ebl/icxxabi.cc\<close>): the
    allocators of the kernel. The locales \<open>page_allocator\<close> and \<open>total_page_allocator\<close> hold what any sequence of
    allocations keeps; \<open>boot\<close> is the kernel's boot allocator.
  \<^item> \<open>CString\<close>, \<open>Libc\<close>, \<open>Printf\<close>, \<open>Printk\<close> (\<open>lib/libc\<close>): strings, numbers, \<open>ssprintf\<close> and the streams.
  \<^item> \<open>Elf\<close> (\<open>lib/elf\<close>): the parser of 32-bit images; \<open>StackTrace\<close> (\<open>arch/x86/strace.cc\<close>) asks it for symbols.
  \<^item> \<open>Multiboot\<close>, \<open>BootMem\<close> (\<open>loader/x86/bootmem.cc\<close>), \<open>Paging\<close> (\<open>loader/x86/mmu.cc\<close>), \<open>VirtMem\<close>, \<open>Regions\<close>,
    \<open>Loader\<close> (\<open>loader/x86/main.cc\<close>, \<open>loader.cc\<close>): the loader. The machine of \<open>Paging\<close> is physical memory and control
    registers; each virtual access walks the tables. The locale \<open>frame_source\<close> is the allocator that \<open>map\<close> takes its
    frames from, interpreted for the loader (\<open>loader\<close>, and \<open>counted\<close> with the number of frames used) and for the kernel
    (\<open>kernel_boot\<close> in \<open>KernelPaging\<close>, \<open>node_kept\<close> in \<open>Kmalloc\<close>).
  \<^item> \<open>PaeArith\<close>, \<open>PagingPae\<close>: the PAE classes of both \<open>mmu.cc\<close> with the three-level walk; \<open>low_frame_source\<close> extends
    \<open>frame_source\<close> by frames below 4 GiB and is interpreted for both allocators (\<open>loader_low\<close>, \<open>kernel_low\<close>).
  \<^item> \<open>KernelPaging\<close> (\<open>arch/x86/32/mmu.cc\<close>), \<open>Kmalloc\<close> (\<open>platform::init\<close>), \<open>OwnData\<close> (what the kernel writes to its own
    data, through the page tables), \<open>KernelStart\<close> (\<open>core/kernel.cc\<close> and the initialisation of architecture and
    platform): the start of the kernel, composed of the operations of the theories above.
  \<^item> \<open>Ports\<close>, \<open>Pic\<close>, \<open>Vga\<close> (\<open>platform/pc\<close>), \<open>DescTables\<close> (\<open>gdt.cc\<close>, \<open>idt.cc\<close>), \<open>Interrupts\<close> (\<open>exceptions.cc\<close>,
    \<open>core/interrupts.cc\<close>), \<open>Cpuid\<close> (\<open>arch/x86/cpu.cc\<close>): devices and the processor. The locale \<open>table\<close> is interpreted
    for both descriptor tables (\<open>gdt\<close>, \<open>idt\<close>) and the table of handlers (\<open>handlers\<close>).
  \<^item> \<open>GdbStub\<close>, \<open>GdbTraps\<close> (\<open>arch/x86/32/i386-stub.c\<close>): the packets and commands of the debugger stub, and its assembly
    code as instruction lists.

  \<^bold>\<open>What is shown.\<close> The boot allocator gives out each managed page once and gives out all of them; the list allocator
  keeps its heap of arenas, page arrays and free lists in order, and free undoes allocate; \<open>add_arena\<close> builds that
  heap from the bitmap; the slab allocator keeps the caches and never gives out an object in use. The loader maps every
  segment of the kernel, with its bytes and its zeroes, and chooses the kernel the command line asks for; paging is
  turned on with the first 4 MiB mapped to themselves; \<open>map\<close> changes one page and keeps the tables a tree. \<open>kernel_main\<close>
  maps the strip of available pages, keeps the image of the kernel but for the data it writes itself, and ends with no
  page in use on the free list of the list allocator. The descriptors are read by the processor as they were asked for; an interrupt reaches its handler
  and is acknowledged; the trap entries of the stub save all registers and the return restores them; packets survive the
  line. The string functions, \<open>printf\<close> of a decimal within a text, the tests of processor features, the ELF lookups, \<open>next_pow2\<close> and the text console agree with
  their specifications. Where the code does not do what it means to, the theorems say what it does: the kernel's \<open>map\<close>
  with the list allocator in charge makes its tables in frame 0, \<open>kfree\<close> of a live object frees nothing, the loader's
  page allocator gives the same used page again and again when the last word with a free page begins with a used one, a machine with 4 GiB of memory is refused as having too little,
  \<open>cpuid_init\<close> writes behind its array on a processor without extended leaves, the second interrupt controller is
  acknowledged for every interrupt, and the PAE classes, off in the default build, map frames above 4 GiB to others below,
  fail with page tables above 2 GiB, and fall off the end of \<open>enable_xd\<close>.

  \<^bold>\<open>Loops.\<close> A loop that need not end is a \<open>partial_function\<close> with None for not returning (the scans of strings and
  lists, the walks over the memory map, the modules and the stack frames, the polling of the serial line), and the
  properties state that it returns. Other loops are recursive functions with a measure: the program headers of
  the kernel (their number is 16 bits wide), the strip of memory (the rest of its 512 MiB), the leaves of cpuid (the rest
  of the array), the words of a bitmap. No operation of the code has fuel.

  \<^bold>\<open>Decisions.\<close> Words wrap as in C on the i386; pointers have 32 bits and \<open>phys_t\<close> has 64. There is no TLB: the code
  invalidates each entry it changes. \<open>kernel_main\<close> writes the multiboot copy, the descriptor tables, the table of handlers
  and the cleared page descriptors through the page tables. The bitmap, the links of the list nodes and the slabs are
  records and heaps of their own; in \<open>kernel_main\<close> the bytes they have in memory, the other static objects and the stack
  are the addresses of the arbitrary writes \<open>w\<close> it makes at each stage, which have to be mapped to pages of data, apart
  from the tables above and from what is read. Devices, the cpuid instruction and the addresses the linker gives are
  parameters. A \<open>PANIC\<close>, a page fault, a null pointer and an index beyond an array that the model keeps as a list are
  error values. The texts of log lines are left out but where they are the purpose of the function.

  \<^bold>\<open>Not modelled.\<close> The 64-bit kernel (\<open>load_img64\<close> and the
  other 64-bit functions are stubs in the source); the calls of static constructors and the greeting of \<open>kernel_main\<close>;
  \<open>core/mm/vmm.cc\<close> (both bodies are empty); the base classes \<open>Irq\<close>, \<open>Console\<close> and \<open>Mmu\<close> whose methods only return;
  the word-wide port instructions, which no modelled code uses; the header the boot loader reads; the assembly of the
  loader's entry (but for \<open>enable_xd\<close>) and of the interrupt entry stubs; the tests and the build files.
\<close>

end
